(* ===== verification/Prelude.thy ===== *)
theory Prelude
  imports "HOL-Library.Word"
begin

text \<open>
  What every other theory of the development builds on: names for the C integer
  types, the result type of code that can halt the kernel, the sequencing of such
  code, and the lemmas on machine words, lists and results that the component
  proofs share.

  A C function that may call \<^verbatim>\<open>panic()\<close> or \<^verbatim>\<open>early_panic()\<close>
  (neither returns), spin for ever on a lock its own core holds, or run past the
  end of an object, is a function into \<open>'a result\<close>: \<open>Inl\<close> carries the reason the
  code never gets past that point, \<open>Inr\<close> the value it returns.
\<close>

unbundle bit_operations_syntax

section \<open>Types\<close>

type_synonym u8 = "8 word"
type_synonym u16 = "16 word"
type_synonym u32 = "32 word"
type_synonym u64 = "64 word"

text \<open>
  \<open>Panic m\<close>: the code called \<^verbatim>\<open>panic()\<close> or \<^verbatim>\<open>early_panic()\<close>, neither of which returns, with the
  format string \<open>m\<close>. What a call of \<^verbatim>\<open>panic()\<close> does on the way to halting depends on the stage of
  the kernel and the lock of its global state: it is \<open>panic m\<close> of theory \<open>Global\<close>, which the
  components that hold the global state use;
  \<open>Deadlock\<close>: a spinlock was acquired by the one running core while that core
  already held it; \<open>Out_of_bounds\<close>: an array was accessed past its end;
  \<open>Missing_argument\<close>: a variadic function asked for an argument of a kind the caller
  did not pass.
\<close>

datatype fault =
    Panic string
  | Deadlock
  | Out_of_bounds
  | Missing_argument

type_synonym 'a result = "fault + 'a"

section \<open>Collections of facts\<close>

named_theorems macro_simps \<open>what the macros of include/macros.h compute\<close>
named_theorems unat_simps \<open>reading word operations as natural numbers\<close>

section \<open>Sequencing code that may not return\<close>

definition rbind :: "'a result \<Rightarrow> ('a \<Rightarrow> 'b result) \<Rightarrow> 'b result" where
  "rbind m f = (case m of Inl e \<Rightarrow> Inl e | Inr x \<Rightarrow> f x)"

lemma rbind_simps [simp]:
  "rbind (Inl e) f = Inl e"
  "rbind (Inr x) f = f x"
  by (simp_all add: rbind_def)

lemma rbind_Inr_iff: "rbind m f = Inr y \<longleftrightarrow> (\<exists>x. m = Inr x \<and> f x = Inr y)"
  by (cases m) simp_all

lemma rbind_Inl_iff: "rbind m f = Inl e \<longleftrightarrow> m = Inl e \<or> (\<exists>x. m = Inr x \<and> f x = Inl e)"
  by (cases m) simp_all

lemma rbind_assoc: "rbind (rbind m f) g = rbind m (\<lambda>x. rbind (f x) g)"
  by (cases m) simp_all

lemma rbind_cong [fundef_cong]:
  "m = m' \<Longrightarrow> (\<And>x. m' = Inr x \<Longrightarrow> f x = f' x) \<Longrightarrow> rbind m f = rbind m' f'"
  by (cases m') simp_all

text \<open>A C loop that runs a fallible body over a list of indices, threading a state.\<close>

fun rfold :: "('a \<Rightarrow> 's \<Rightarrow> 's result) \<Rightarrow> 'a list \<Rightarrow> 's \<Rightarrow> 's result" where
  "rfold f [] s = Inr s"
| "rfold f (x # xs) s = rbind (f x s) (rfold f xs)"

lemma rfold_append: "rfold f (xs @ ys) s = rbind (rfold f xs s) (rfold f ys)"
  by (induction xs arbitrary: s) (simp_all add: rbind_assoc cong: rbind_cong)

lemma rbind_Inr_right [simp]: "rbind m Inr = m"
  by (cases m) simp_all

lemma rfold_fun: "rfold f [] = Inr" "rfold f (x # xs) = (\<lambda>s. rbind (f x s) (rfold f xs))"
  by (simp_all add: fun_eq_iff)

lemma rfold_snoc: "rfold f (xs @ [x]) s = rbind (rfold f xs s) (f x)"
  by (cases "rfold f xs s") (simp_all add: rfold_append rbind_def split: sum.split)

text \<open>An invariant of the body, indexed by what has been processed, is one of the loop.\<close>

lemma rfold_map: "rfold f (map g xs) = rfold (\<lambda>x. f (g x)) xs"
proof (induction xs)
  case (Cons x xs)
  show ?case by (rule ext) (simp add: Cons.IH)
qed (simp add: fun_eq_iff)

lemma rfold_collect:
  assumes "\<And>x s D. x \<in> set xs \<Longrightarrow> P D s \<Longrightarrow> \<exists>s'. f x s = Inr s' \<and> P (D \<union> g x) s'"
    and "P D s"
  shows "\<exists>s'. rfold f xs s = Inr s' \<and> P (D \<union> (\<Union>x\<in>set xs. g x)) s'"
  using assms
proof (induction xs arbitrary: s D)
  case (Cons x xs)
  obtain s1 where s1: "f x s = Inr s1" "P (D \<union> g x) s1" using Cons.prems by force
  obtain s2 where "rfold f xs s1 = Inr s2" "P (D \<union> g x \<union> (\<Union>x\<in>set xs. g x)) s2"
    using Cons.IH [OF _ s1(2)] Cons.prems(1) by force
  with s1(1) show ?case by (simp add: Un_assoc)
qed simp

lemma rfold_invariant:
  assumes "\<And>x s. x \<in> set xs \<Longrightarrow> P s \<Longrightarrow> \<exists>s'. f x s = Inr s' \<and> P s'"
    and "P s"
  shows "\<exists>s'. rfold f xs s = Inr s' \<and> P s'"
  using assms
proof (induction xs arbitrary: s)
  case Nil
  then show ?case by simp
next
  case (Cons x xs)
  from Cons.prems obtain s1 where s1: "f x s = Inr s1" "P s1" by fastforce
  have "\<exists>s'. rfold f xs s1 = Inr s' \<and> P s'"
    by (rule Cons.IH) (use Cons.prems(1) s1(2) in auto)
  with s1 show ?case by simp
qed

section \<open>Words\<close>

lemma unat_lt_u64: "unat (x :: u64) < 18446744073709551616"
  using unsigned_less [of x, where 'a = nat] by simp

lemma unat_lt_u32: "unat (x :: u32) < 4294967296"
  using unsigned_less [of x, where 'a = nat] by simp

lemma unat_plus_no_wrap [unat_simps]:
  "unat x + unat y < 2 ^ LENGTH('a) \<Longrightarrow> unat (x + y :: 'a::len word) = unat x + unat y"
  by (simp add: unat_add_lem)

lemma unat_minus_le [unat_simps]:
  "y \<le> x \<Longrightarrow> unat (x - y :: 'a::len word) = unat x - unat y"
  by (simp add: unat_sub)

lemma unat_minus_one_le: "0 < unat x \<Longrightarrow> unat (x - 1 :: 'a::len word) = unat x - 1"
  by (simp add: unat_minus_one unat_gt_0)

lemma unat_of_nat_lt [unat_simps]:
  "n < 2 ^ LENGTH('a) \<Longrightarrow> unat (of_nat n :: 'a::len word) = n"
  by (simp add: unat_of_nat)

lemma unat_and_mask [unat_simps]:
  "unat (x AND mask k :: 'a::len word) = unat x mod 2 ^ k"
  by (metis take_bit_eq_mask take_bit_eq_mod unsigned_take_bit_eq)

lemma unat_push_bit_1:
  assumes "k < LENGTH('a)"
  shows "unat (push_bit k 1 :: 'a::len word) = 2 ^ k"
proof -
  have "unat (of_nat (2 ^ k) :: 'a word) = 2 ^ k"
    using assms by (simp add: unat_of_nat del: of_nat_power)
  then show ?thesis by (simp add: push_bit_eq_mult)
qed

lemma unat_drop_bit [unat_simps]: "unat (drop_bit k a) = unat a div 2 ^ k" for a :: "'a::len word"
  by (subst unat_drop_bit_eq) (rule drop_bit_eq_div)

lemma word_and_not_mask:
  "x AND NOT (mask k) = x - (x AND mask k)" for x :: "'a::len word"
proof -
  have "(x AND NOT (mask k)) + (x AND mask k) = (x AND NOT (mask k)) OR (x AND mask k)"
    by (rule disjunctive_add) (simp add: bit_simps)
  also have "\<dots> = x"
    by (rule bit_word_eqI) (auto simp: bit_simps)
  finally show ?thesis by (simp add: eq_diff_eq)
qed

lemma unat_and_not_mask [unat_simps]:
  "unat (x AND NOT (mask k) :: 'a::len word) = unat x - unat x mod 2 ^ k"
proof -
  have le: "x AND mask k \<le> x" by (simp add: word_and_le2)
  show ?thesis
    by (simp add: word_and_not_mask unat_sub [OF le] unat_and_mask)
qed

lemma unat_of_int_small: "0 \<le> i \<Longrightarrow> i < 2 ^ 64 \<Longrightarrow> unat (of_int i :: u64) = nat i"
proof -
  assume i: "0 \<le> i" "i < 2 ^ 64"
  then obtain n where n: "i = int n" using nonneg_int_cases by blast
  then have "n < 2 ^ 64" using i(2) by simp
  then show ?thesis unfolding n by (simp add: unat_of_nat_lt)
qed

lemma sint_u32_eq_unat: "unat (x :: u32) < 2 ^ 31 \<Longrightarrow> sint x = int (unat x)"
proof -
  assume "unat x < 2 ^ 31"
  then have "uint x < 2 ^ 31" by (metis of_nat_less_iff of_nat_numeral of_nat_power uint_nat)
  moreover have "- (2 ^ 31) \<le> uint x" by (rule order_trans [OF _ uint_ge_0]) simp
  ultimately have "sint x = uint x" unfolding sint_uint by (simp add: signed_take_bit_int_eq_self)
  then show ?thesis by simp
qed

text \<open>The conversion of a \<^verbatim>\<open>uint64_t\<close> to an \<^verbatim>\<open>int\<close>, which keeps the low 32 bits.\<close>

definition c_int :: "u64 \<Rightarrow> int" where
  "c_int x = sint (ucast x :: u32)"

lemma c_int_small: "unat x < 2 ^ 31 \<Longrightarrow> c_int x = int (unat x)"
proof -
  assume lt: "unat x < 2 ^ 31"
  then have "unat (ucast x :: u32) = unat x" by (simp add: unsigned_ucast_eq take_bit_nat_eq_self)
  with lt show ?thesis unfolding c_int_def by (simp add: sint_u32_eq_unat)
qed

section \<open>Division by the size of a group\<close>

lemma div_mod_cases:
  fixes i n :: nat
  assumes "0 < n"
  obtains a b where "i = n * a + b" "b < n" "i div n = a" "i mod n = b"
  using assms by (metis div_mult_mod_eq mod_less_divisor mult.commute)

lemma less_group_iff:
  fixes i q r :: nat
  assumes "0 < n" and "r \<le> n"
  shows "i < n * q + r \<longleftrightarrow> i div n < q \<or> i div n = q \<and> i mod n < r"
proof -
  obtain a b where i: "i = n * a + b" "b < n" "i div n = a" "i mod n = b"
    using div_mod_cases [OF assms(1)] by blast
  consider "a < q" | "a = q" | "q < a" by linarith
  then show ?thesis
  proof cases
    case 1
    then have "n * Suc a \<le> n * q" by (intro mult_le_mono2) simp
    with 1 i show ?thesis by simp
  next
    case 3
    then have "n * Suc q \<le> n * a" by (intro mult_le_mono2) simp
    with 3 i assms show ?thesis by simp
  qed (use i in simp)
qed

section \<open>Lists\<close>

lemma find_upt_None_iff: "find P [0..<n] = None \<longleftrightarrow> (\<forall>i<n. \<not> P i)"
  by (auto simp: find_None_iff)

lemma find_upt_Some_iff:
  "find P [0..<n] = Some i \<longleftrightarrow> i < n \<and> P i \<and> (\<forall>j<i. \<not> P j)"
  by (auto simp: find_Some_iff)

lemma fold_upd_upt:
  "fold (\<lambda>i d. d(i := f i)) [0..<n] d = (\<lambda>i. if i < n then f i else d i)"
  by (induction n) (auto simp: fun_eq_iff less_Suc_eq)

end
