(* ===== verification/Macros.thy ===== *)
theory Macros
  imports Prelude
begin

text \<open>
  The macros of \<^verbatim>\<open>include/macros.h\<close>, the bit-search built-ins of
  \<^verbatim>\<open>include/compiler.h\<close> and the bit-string search of
  \<^verbatim>\<open>include/bitwise.h\<close>, all on 64-bit words. A shift count of 64 or more is
  undefined in C, where \<^const>\<open>push_bit\<close> gives 0. \<^verbatim>\<open>BIT_MASK\<close> is read for bits
  below 64 only, and the search below shifts by at most half of \<open>n\<close>, so its property is
  for \<open>n\<close> below 128; its caller passes at most 64.

  The lemmas read the macros as arithmetic: alignment is rounding to a multiple of
  a power of two, a mask test is a bit test, and the Hacker's Delight search of
  \<^verbatim>\<open>find_bitstring_longer_than\<close> returns the start of the first run of set bits.
\<close>

section \<open>include/macros.h\<close>

definition ALIGN :: "u64 \<Rightarrow> u64 \<Rightarrow> u64" where
  "ALIGN n to = n AND NOT (to - 1)"

definition ALIGN_UP :: "u64 \<Rightarrow> u64 \<Rightarrow> u64" where
  "ALIGN_UP n to = ALIGN (n + to - 1) to"

definition IS_ALIGNED :: "u64 \<Rightarrow> u64 \<Rightarrow> bool" where
  "IS_ALIGNED n to \<longleftrightarrow> n AND (to - 1) = 0"

definition ALIGN_OFFSET :: "u64 \<Rightarrow> u64 \<Rightarrow> u64" where
  "ALIGN_OFFSET n to = n - ALIGN n to"

definition BIT_MASK :: "nat \<Rightarrow> u64" where
  "BIT_MASK b = push_bit b 1"

definition BIT_MASK_EXCLUDING :: "nat \<Rightarrow> u64" where
  "BIT_MASK_EXCLUDING b = NOT (BIT_MASK b)"

definition IS_MASK_SET :: "u64 \<Rightarrow> u64 \<Rightarrow> bool" where
  "IS_MASK_SET val msk \<longleftrightarrow> val AND msk = msk"

definition IS_BIT_SET :: "u64 \<Rightarrow> nat \<Rightarrow> bool" where
  "IS_BIT_SET val b \<longleftrightarrow> IS_MASK_SET val (BIT_MASK b)"

definition BIT_MASK_BELOW :: "nat \<Rightarrow> u64" where
  "BIT_MASK_BELOW b = BIT_MASK b - 1"

definition BIT_MASK_ABOVE :: "nat \<Rightarrow> u64" where
  "BIT_MASK_ABOVE b = NOT (BIT_MASK_BELOW b)"

section \<open>include/compiler.h\<close>

text \<open>
  \<^verbatim>\<open>__builtin_ffsl\<close> returns one plus the index of the least significant set bit,
  or zero for a zero argument.
\<close>

definition builtin_ffsl :: "u64 \<Rightarrow> int" where
  "builtin_ffsl x = (case find (bit x) [0..<64] of None \<Rightarrow> 0 | Some i \<Rightarrow> int i + 1)"

definition find_first_set_bit :: "u64 \<Rightarrow> int" where
  "find_first_set_bit x = builtin_ffsl x - 1"

definition find_first_clear_bit :: "u64 \<Rightarrow> int" where
  "find_first_clear_bit x = find_first_set_bit (NOT x)"

section \<open>include/bitwise.h\<close>

text \<open>The loop that keeps bit \<open>k\<close> of \<open>x\<close> only while enough bits below it are set.\<close>

function smear_down :: "u64 \<Rightarrow> int \<Rightarrow> u64" where
  "smear_down x cur =
     (if cur > 1
      then let s = cur div 2 in smear_down (x AND push_bit (nat s) x) (cur - s)
      else x)"
  by pat_completeness auto
termination
  by (relation "measure (\<lambda>(x, cur). nat cur)") auto

declare smear_down.simps [simp del]

definition find_bitstring_longer_than :: "u64 \<Rightarrow> int \<Rightarrow> int" where
  "find_bitstring_longer_than x n =
     (let ret = find_first_set_bit (smear_down x n)
      in if ret < 0 then - 1 else ret - n + 1)"

section \<open>Masks are bits\<close>

lemma bit_BIT_MASK [macro_simps]: "b < 64 \<Longrightarrow> bit (BIT_MASK b) i \<longleftrightarrow> i = b"
  by (auto simp: BIT_MASK_def bit_simps)

lemma IS_MASK_SET_iff: "IS_MASK_SET v m \<longleftrightarrow> (\<forall>i. bit m i \<longrightarrow> bit v i)"
  unfolding IS_MASK_SET_def bit_eq_iff bit_and_iff by (metis bit_imp_le_length possible_bit_word)

lemma IS_BIT_SET_iff [macro_simps]: "b < 64 \<Longrightarrow> IS_BIT_SET v b \<longleftrightarrow> bit v b"
  by (simp add: IS_BIT_SET_def IS_MASK_SET_iff bit_BIT_MASK)

lemma BIT_MASK_BELOW_mask [macro_simps]: "BIT_MASK_BELOW b = mask b"
  by (simp add: BIT_MASK_BELOW_def BIT_MASK_def mask_eq_exp_minus_1 push_bit_eq_mult)

lemma BIT_MASK_ABOVE_mask [macro_simps]: "BIT_MASK_ABOVE b = NOT (mask b)"
  by (simp add: BIT_MASK_ABOVE_def BIT_MASK_BELOW_mask)

lemma BIT_MASK_minus_1: "BIT_MASK k - 1 = mask k"
  by (simp add: BIT_MASK_BELOW_mask flip: BIT_MASK_BELOW_def)

lemma unat_BIT_MASK [macro_simps]: "b < 64 \<Longrightarrow> unat (BIT_MASK b) = 2 ^ b"
  unfolding BIT_MASK_def by (rule unat_push_bit_1) simp

section \<open>Alignment is rounding\<close>

lemma unat_ALIGN [macro_simps]: "unat (ALIGN n (BIT_MASK k)) = unat n - unat n mod 2 ^ k"
  by (simp add: ALIGN_def BIT_MASK_minus_1 unat_and_not_mask)

lemma IS_ALIGNED_iff [macro_simps]: "IS_ALIGNED n (BIT_MASK k) \<longleftrightarrow> 2 ^ k dvd unat n"
  by (simp add: IS_ALIGNED_def BIT_MASK_minus_1 and_mask_dvd_nat)

lemma unat_ALIGN_OFFSET [macro_simps]: "unat (ALIGN_OFFSET n (BIT_MASK k)) = unat n mod 2 ^ k"
proof -
  have "ALIGN_OFFSET n (BIT_MASK k) = n AND mask k"
    by (simp add: ALIGN_OFFSET_def ALIGN_def BIT_MASK_minus_1 word_and_not_mask)
  then show ?thesis by (simp add: unat_and_mask)
qed

lemma round_up_nat: "n + 2 ^ k - 1 - (n + 2 ^ k - 1) mod 2 ^ k = (n + 2 ^ k - 1) div 2 ^ k * 2 ^ k"
  for n k :: nat
  by (simp add: minus_mod_eq_div_mult)

lemma unat_ALIGN_UP [macro_simps]:
  assumes "k < 64" and "unat n + 2 ^ k \<le> 2 ^ 64"
  shows "unat (ALIGN_UP n (BIT_MASK k)) = (unat n + 2 ^ k - 1) div 2 ^ k * 2 ^ k"
proof -
  have "n + BIT_MASK k - 1 = n + mask k"
    by (simp add: BIT_MASK_minus_1 add_diff_eq [symmetric])
  moreover have "unat (mask k :: u64) = 2 ^ k - 1"
    using assms(1) unat_BIT_MASK [OF assms(1)] by (simp add: unat_minus_one_le flip: BIT_MASK_minus_1)
  moreover have "unat (n + mask k) = unat n + 2 ^ k - 1"
    using assms calculation(2) by (subst unat_plus_no_wrap) auto
  ultimately show ?thesis
    unfolding ALIGN_UP_def unat_ALIGN by (simp only: round_up_nat)
qed

section \<open>Searching for bits\<close>

lemma find_first_set_bit_range: "-1 \<le> find_first_set_bit x \<and> find_first_set_bit x < 64"
  by (auto simp: find_first_set_bit_def builtin_ffsl_def find_upt_Some_iff split: option.split)

lemma find_first_set_bit_eq_minus1: "find_first_set_bit x = -1 \<longleftrightarrow> x = 0"
proof -
  have "x = 0 \<longleftrightarrow> (\<forall>i<64. \<not> bit x i)"
    by (auto simp: bit_eq_iff dest: bit_imp_le_length)
  then show ?thesis
    by (auto simp: find_first_set_bit_def builtin_ffsl_def find_upt_None_iff find_upt_Some_iff
        split: option.split)
qed

lemma find_first_set_bit_eq_nat:
  "find_first_set_bit x = int i \<longleftrightarrow> i < 64 \<and> bit x i \<and> (\<forall>j<i. \<not> bit x j)"
proof (cases "find (bit x) [0..<64]")
  case None
  then have "find_first_set_bit x = -1" "\<forall>i<64. \<not> bit x i"
    by (simp_all add: find_first_set_bit_def builtin_ffsl_def flip: find_upt_None_iff)
  then show ?thesis by auto
next
  case (Some k)
  then have "find_first_set_bit x = int i \<longleftrightarrow> find (bit x) [0..<64] = Some i"
    by (simp add: find_first_set_bit_def builtin_ffsl_def)
  then show ?thesis by (simp add: find_upt_Some_iff)
qed

lemma find_first_clear_bit_eq_nat:
  "find_first_clear_bit x = int i \<longleftrightarrow> i < 64 \<and> \<not> bit x i \<and> (\<forall>j<i. bit x j)"
  by (auto simp: find_first_clear_bit_def find_first_set_bit_eq_nat bit_simps)

lemma find_first_clear_bit_eq_minus1: "find_first_clear_bit x = -1 \<longleftrightarrow> (\<forall>i<64. bit x i)"
proof -
  have "NOT x = 0 \<longleftrightarrow> (\<forall>i<64. bit x i)"
    by (auto simp: bit_eq_iff [where 'a = "64 word"] bit_simps)
  then show ?thesis by (simp only: find_first_clear_bit_def find_first_set_bit_eq_minus1)
qed

lemma find_first_clear_bit_range: "-1 \<le> find_first_clear_bit x \<and> find_first_clear_bit x < 64"
  by (simp add: find_first_clear_bit_def find_first_set_bit_range)

section \<open>Runs of set bits\<close>

text \<open>\<open>run x k n\<close>: the \<open>n\<close> bits of \<open>x\<close> from bit \<open>k\<close> upwards are set.\<close>

definition run :: "u64 \<Rightarrow> nat \<Rightarrow> nat \<Rightarrow> bool" where
  "run x k n \<longleftrightarrow> k + n \<le> 64 \<and> (\<forall>j<n. bit x (k + j))"

lemma smear_down_bit:
  assumes "1 \<le> cur"
  shows "bit (smear_down x cur) k \<longleftrightarrow>
    k < 64 \<and> nat cur \<le> k + 1 \<and> (\<forall>j<nat cur. bit x (k - j))"
  using assms
proof (induction x cur arbitrary: k rule: smear_down.induct)
  case (1 x cur)
  show ?case
  proof (cases "cur > 1")
    case False
    with "1.prems" have "cur = 1" by simp
    then have "smear_down x cur = x" by (subst smear_down.simps) simp
    with \<open>cur = 1\<close> show ?thesis by (auto dest: bit_imp_le_length)
  next
    case True
    define s where "s = cur div 2"
    define t where "t = cur - s"
    let ?x = "x AND push_bit (nat s) x"
    have st: "1 \<le> s" "s \<le> t" "1 \<le> t" "cur = t + s" using True by (auto simp: s_def t_def)
    have IH: "bit (smear_down ?x t) k \<longleftrightarrow>
        k < 64 \<and> nat t \<le> k + 1 \<and> (\<forall>j<nat t. bit ?x (k - j))"
      using "1.IH" [OF True s_def] st(3) by (simp add: t_def)
    have bx: "bit ?x i \<longleftrightarrow> bit x i \<and> nat s \<le> i \<and> bit x (i - nat s)" if "i < 64" for i
      using that by (auto simp: bit_simps)
    have "bit (smear_down ?x t) k \<longleftrightarrow>
        k < 64 \<and> nat t \<le> k + 1 \<and>
        (\<forall>j<nat t. bit x (k - j) \<and> nat s \<le> k - j \<and> bit x (k - j - nat s))"
      using IH bx by auto
    also have "\<dots> \<longleftrightarrow> k < 64 \<and> nat cur \<le> k + 1 \<and> (\<forall>j<nat cur. bit x (k - j))"
      (is "?L \<longleftrightarrow> ?R")
    proof
      assume L: ?L
      have "nat t - 1 < nat t" using st by auto
      with L have "nat s \<le> k - (nat t - 1)" by blast
      then have le: "nat cur \<le> k + 1" using L st by auto
      have "bit x (k - j)" if "j < nat cur" for j
      proof (cases "j < nat t")
        case True
        with L show ?thesis by blast
      next
        case False
        then have "j - nat s < nat t" "nat s \<le> j" using that st by auto
        with L have "bit x (k - (j - nat s) - nat s)" by blast
        with \<open>nat s \<le> j\<close> le that show ?thesis by (simp add: diff_diff_add)
      qed
      with L le show ?R by blast
    next
      assume R: ?R
      have "nat s \<le> k - j \<and> bit x (k - j - nat s)" if "j < nat t" for j
      proof -
        have "j + nat s < nat cur" using that st by auto
        with R have "bit x (k - (j + nat s))" "j + nat s \<le> k" by auto
        then show ?thesis by (simp add: diff_diff_add)
      qed
      with R st show ?L by auto
    qed
    finally show ?thesis
      using True by (simp add: smear_down.simps [of x cur] s_def t_def Let_def)
  qed
qed

lemma smear_down_bit_run:
  assumes "1 \<le> n"
  shows "bit (smear_down x n) k \<longleftrightarrow> (\<exists>i. k = i + nat n - 1 \<and> run x i (nat n))"
    (is "?L \<longleftrightarrow> ?R")
proof
  assume ?L
  then have *: "k < 64" "nat n \<le> k + 1" "\<forall>j<nat n. bit x (k - j)"
    using smear_down_bit [OF assms] by auto
  have "bit x (k + 1 - nat n + j)" if "j < nat n" for j
  proof -
    have "nat n - 1 - j < nat n" using that by auto
    then have "bit x (k - (nat n - 1 - j))" using *(3) by blast
    moreover have "k - (nat n - 1 - j) = k + 1 - nat n + j" using that *(2) by auto
    ultimately show ?thesis by (simp only:)
  qed
  then have "run x (k + 1 - nat n) (nat n)" using * by (auto simp: run_def)
  then show ?R using *(2) assms by (intro exI [of _ "k + 1 - nat n"]) auto
next
  assume ?R
  then obtain i where i: "k = i + nat n - 1" "run x i (nat n)" by blast
  have "bit x (k - j)" if "j < nat n" for j
  proof -
    have "nat n - 1 - j < nat n" using that by auto
    then have "bit x (i + (nat n - 1 - j))" using i(2) unfolding run_def by blast
    moreover have "k - j = i + (nat n - 1 - j)" using i(1) that by auto
    ultimately show ?thesis by (simp only:)
  qed
  then show ?L using i assms by (auto simp: smear_down_bit run_def)
qed

text \<open>
  What \<^verbatim>\<open>find_bitstring_longer_than\<close> promises: the least start of a run of \<open>n\<close> set
  bits, or -1 when there is none.
\<close>

lemma find_bitstring_Some:
  assumes "1 \<le> n" and "find_bitstring_longer_than x n = int i"
  shows "run x i (nat n) \<and> (\<forall>j<i. \<not> run x j (nat n))"
proof -
  let ?y = "smear_down x n"
  have nn: "find_first_set_bit ?y \<noteq> -1" "find_first_set_bit ?y = int i + n - 1"
    using assms find_first_set_bit_range [of ?y]
    by (auto simp: find_bitstring_longer_than_def Let_def split: if_splits)
  then have k: "find_first_set_bit ?y = int (i + nat n - 1)" using assms(1) by auto
  then have "bit ?y (i + nat n - 1)" "\<forall>j < i + nat n - 1. \<not> bit ?y j"
    by (simp_all add: find_first_set_bit_eq_nat)
  then obtain i' where i': "i + nat n - 1 = i' + nat n - 1" "run x i' (nat n)"
    and *: "\<And>j. run x j (nat n) \<Longrightarrow> \<not> j + nat n - 1 < i + nat n - 1"
    using smear_down_bit_run [OF assms(1)] by blast
  have "i' = i" using i'(1) assms(1) by auto
  then have "run x i (nat n)" using i'(2) by simp
  moreover have "\<not> run x j (nat n)" if "j < i" for j
    using * [of j] that assms(1) by auto
  ultimately show ?thesis by blast
qed

lemma find_bitstring_None:
  assumes "1 \<le> n" and "find_bitstring_longer_than x n = -1"
  shows "\<not> run x i (nat n)"
proof
  assume r: "run x i (nat n)"
  let ?y = "smear_down x n"
  have "bit ?y (i + nat n - 1)" using r smear_down_bit_run [OF assms(1)] by blast
  then have "?y \<noteq> 0" by auto
  then have ge: "0 \<le> find_first_set_bit ?y"
    using find_first_set_bit_eq_minus1 [of ?y] find_first_set_bit_range [of ?y] by auto
  then obtain k where k: "find_first_set_bit ?y = int k" using nonneg_int_cases by blast
  then have "bit ?y k" by (simp add: find_first_set_bit_eq_nat)
  then obtain i' where "k = i' + nat n - 1" using smear_down_bit_run [OF assms(1)] by blast
  with k ge assms show False by (simp add: find_bitstring_longer_than_def Let_def)
qed

lemma find_bitstring_cases:
  assumes "1 \<le> n"
  obtains (none) "find_bitstring_longer_than x n = -1"
    | (found) i where "find_bitstring_longer_than x n = int i"
proof (cases "find_first_set_bit (smear_down x n) < 0")
  case True
  then show ?thesis using none by (simp add: find_bitstring_longer_than_def)
next
  case False
  then obtain k where k: "find_first_set_bit (smear_down x n) = int k"
    by (metis linorder_not_less nonneg_int_cases)
  then have "bit (smear_down x n) k" by (simp add: find_first_set_bit_eq_nat)
  then obtain i where "k = i + nat n - 1" using smear_down_bit_run [OF assms] by blast
  then have "find_bitstring_longer_than x n = int i"
    using k assms unfolding find_bitstring_longer_than_def Let_def k by simp
  then show ?thesis by (rule found)
qed


section \<open>Properties\<close>

text \<open>
  C21: \<^verbatim>\<open>find_bitstring_longer_than(x, n)\<close> is the index of the first run of \<open>n\<close> set
  bits of \<open>x\<close>, counting from the little end, and -1 when \<open>x\<close> has no such run. The
  halving loop of the source agrees with this specification for every word and every
  positive \<open>n\<close> below 128, for which no shift count of the loop reaches 64.
\<close>

theorem find_bitstring_first_run:
  assumes "1 \<le> n" and "n < 128"
  shows "find_bitstring_longer_than x n =
    (if \<exists>i. run x i (nat n) then int (LEAST i. run x i (nat n)) else - 1)"
proof (rule find_bitstring_cases [OF assms(1), of x])
  assume "find_bitstring_longer_than x n = - 1"
  then show ?thesis using find_bitstring_None [OF assms(1)] by simp
next
  fix i
  assume i: "find_bitstring_longer_than x n = int i"
  then have r: "run x i (nat n)" "\<forall>j<i. \<not> run x j (nat n)"
    using find_bitstring_Some [OF assms(1)] by blast+
  then have "(LEAST j. run x j (nat n)) = i"
    by (intro Least_equality) (auto simp: not_less [symmetric])
  with i r show ?thesis by auto
qed

theorem find_bitstring_first_run_witness:
  "find_bitstring_longer_than 0b11101100 3 =
    (if \<exists>i. run 0b11101100 i (nat 3) then int (LEAST i. run 0b11101100 i (nat 3)) else - 1)"
  by (rule find_bitstring_first_run) simp_all

end
