(* ===== verification/Bitmap.thy ===== *)
theory Bitmap
  imports Macros
begin

text \<open>
  The bitmaps of \<^verbatim>\<open>include/bitmap.h\<close>, which hold the early page allocator's
  state. The flexible array \<^verbatim>\<open>data[]\<close> is the memory that starts at the end of the
  header: a function from word indices, so that a write past the last word of the
  bitmap is visible as a write (\<open>bitmap_set\<close> and its kin do not check their
  argument).

  The well-formedness invariant is the one the comments of the source state: the
  number of words is what the number of bits needs, and the bits of the last word
  beyond the number of bits are kept clear. A bitmap then stands for the set
  \<open>bits_of\<close> of its set bits. The locale \<open>bit_allocator\<close> is the contract the early
  page allocator relies on; the bitmaps interpret it.
\<close>

record bitmap =
  num_bits :: u32
  num_words :: u32
  data :: "nat \<Rightarrow> u64"

section \<open>Operations\<close>

definition bitmap_calc_words :: "u64 \<Rightarrow> u64" where
  "bitmap_calc_words nbits = ALIGN_UP nbits 64 div 64"

text \<open>The header \<^verbatim>\<open>struct bitmap\<close> is two 32-bit fields: 8 bytes.\<close>

definition bitmap_calc_size :: "u64 \<Rightarrow> u64" where
  "bitmap_calc_size nbits = 8 + bitmap_calc_words nbits * 8"

definition bitmap_clear_all :: "bitmap \<Rightarrow> bitmap" where
  "bitmap_clear_all bm =
     bm\<lparr>data := fold (\<lambda>i d. d(i := 0)) [0..<unat (num_words bm)] (data bm)\<rparr>"

definition bitmap_set_all :: "bitmap \<Rightarrow> bitmap" where
  "bitmap_set_all bm =
     (let nw = num_words bm;
          d = fold (\<lambda>i d. d(i := NOT 0)) [0..<unat nw] (data bm);
          final_word_mask = BIT_MASK_BELOW (unat (num_bits bm mod 64));
          lst = unat (nw - 1)
      in if final_word_mask \<noteq> 0
         then bm\<lparr>data := d(lst := d lst AND final_word_mask)\<rparr>
         else bm\<lparr>data := d\<rparr>)"

definition bitmap_init :: "bitmap \<Rightarrow> u64 \<Rightarrow> bitmap" where
  "bitmap_init bm nbits =
     bitmap_clear_all
       (bm\<lparr>num_bits := ucast nbits, num_words := ucast (bitmap_calc_words nbits)\<rparr>)"

definition bitmap_set :: "bitmap \<Rightarrow> u64 \<Rightarrow> bitmap" where
  "bitmap_set bm b =
     (let word = unat (b div 64); msk = BIT_MASK (unat (b mod 64))
      in bm\<lparr>data := (data bm)(word := data bm word OR msk)\<rparr>)"

definition bitmap_clear :: "bitmap \<Rightarrow> u64 \<Rightarrow> bitmap" where
  "bitmap_clear bm b =
     (let word = unat (b div 64); msk = BIT_MASK (unat (b mod 64))
      in bm\<lparr>data := (data bm)(word := data bm word XOR msk)\<rparr>)"

definition bitmap_is_set :: "bitmap \<Rightarrow> u64 \<Rightarrow> bool" where
  "bitmap_is_set bm b = IS_BIT_SET (data bm (unat (b div 64))) (unat (b mod 64))"

text \<open>
  The search loops. The index expression \<^verbatim>\<open>i * 64 + index\<close> multiplies a
  \<^verbatim>\<open>uint32_t\<close>, so the product wraps at 32 bits before it is widened.
\<close>

function first_set_from :: "bitmap \<Rightarrow> nat \<Rightarrow> int" where
  "first_set_from bm i =
     (if i < unat (num_words bm)
      then let index = find_first_set_bit (data bm i)
           in if index \<noteq> - 1 then uint (of_nat i * 64 :: u32) + index
              else first_set_from bm (Suc i)
      else - 1)"
  by pat_completeness auto
termination
  by (relation "measure (\<lambda>(bm, i). unat (num_words bm) - i)") auto

definition bitmap_first_set :: "bitmap \<Rightarrow> int" where
  "bitmap_first_set bm = first_set_from bm 0"

function first_clear_from :: "bitmap \<Rightarrow> nat \<Rightarrow> int" where
  "first_clear_from bm i =
     (if i < unat (num_words bm)
      then let index = find_first_clear_bit (data bm i)
           in if index \<noteq> - 1 then uint (of_nat i * 64 :: u32) + index
              else first_clear_from bm (Suc i)
      else - 1)"
  by pat_completeness auto
termination
  by (relation "measure (\<lambda>(bm, i). unat (num_words bm) - i)") auto

definition bitmap_first_clear :: "bitmap \<Rightarrow> int" where
  "bitmap_first_clear bm =
     (let ret = first_clear_from bm 0
      in if ret \<ge> uint (num_bits bm) then - 1 else ret)"

text \<open>
  The loop of \<^verbatim>\<open>bitmap_zero_string_longer_than\<close>. Its test is \<^verbatim>\<open>index > 0\<close>, so a
  run that starts at bit 0 of a word is passed over; \<^verbatim>\<open>i * 64 + index\<close> is computed
  as a \<^verbatim>\<open>uint32_t\<close> and stored in an \<^verbatim>\<open>int\<close>.
\<close>

function zero_string_from :: "bitmap \<Rightarrow> int \<Rightarrow> nat \<Rightarrow> int" where
  "zero_string_from bm n i =
     (if i < unat (num_words bm)
      then let index = find_bitstring_longer_than (NOT (data bm i)) n
           in if index > 0 then sint (of_nat i * 64 + of_int index :: u32)
              else zero_string_from bm n (Suc i)
      else - 1)"
  by pat_completeness auto
termination
  by (relation "measure (\<lambda>(bm, n, i). unat (num_words bm) - i)") auto

declare first_set_from.simps [simp del] first_clear_from.simps [simp del]
  zero_string_from.simps [simp del]

definition bitmap_zero_string_longer_than :: "bitmap \<Rightarrow> int \<Rightarrow> int" where
  "bitmap_zero_string_longer_than bm n =
     (if n > 64 then - 1
      else let ret = zero_string_from bm n 0; nbits = sint (num_bits bm)
           in if ret \<ge> nbits \<or> ret + n > nbits then - 1 else ret)"

section \<open>Well-formed bitmaps and the set they stand for\<close>

definition bit_at :: "bitmap \<Rightarrow> nat \<Rightarrow> bool" where
  "bit_at bm i \<longleftrightarrow> bit (data bm (i div 64)) (i mod 64)"

definition nbits :: "bitmap \<Rightarrow> nat" where
  "nbits bm = unat (num_bits bm)"

definition wf_bitmap :: "bitmap \<Rightarrow> bool" where
  "wf_bitmap bm \<longleftrightarrow>
     unat (num_words bm) = (nbits bm + 63) div 64 \<and>
     (\<forall>i. nbits bm \<le> i \<and> i < 64 * unat (num_words bm) \<longrightarrow> \<not> bit_at bm i)"

definition bits_of :: "bitmap \<Rightarrow> nat set" where
  "bits_of bm = {i. i < nbits bm \<and> bit_at bm i}"

lemma nbits_less: "nbits bm < 2 ^ 32"
  using unat_lt_u32 by (simp add: nbits_def)

lemma num_words_bound: "wf_bitmap bm \<Longrightarrow> unat (num_words bm) \<le> 2 ^ 26"
  using nbits_less [of bm] by (auto simp: wf_bitmap_def)

lemma unat_div_64: "unat (b div 64 :: u64) = unat b div 64"
  by (simp add: unat_div)

lemma unat_mod_64: "unat (b mod 64 :: u64) = unat b mod 64"
  by (simp add: unat_mod)

lemmas word_index_simps = unat_div_64 unat_mod_64

lemma bitmap_is_set_iff: "bitmap_is_set bm b \<longleftrightarrow> bit_at bm (unat b)"
  by (simp add: bitmap_is_set_def bit_at_def word_index_simps IS_BIT_SET_iff)

lemma word_bit_index_eq: "i div 64 = j div 64 \<and> i mod 64 = j mod 64 \<longleftrightarrow> i = j" for i j :: nat
  by (metis div_mult_mod_eq)

lemma bit_at_bitmap_set: "bit_at (bitmap_set bm b) i \<longleftrightarrow> i = unat b \<or> bit_at bm i"
proof (cases "i div 64 = unat b div 64")
  case True
  then show ?thesis using word_bit_index_eq [of i "unat b"]
    by (auto simp: bit_at_def bitmap_set_def Let_def word_index_simps bit_or_iff bit_BIT_MASK)
next
  case False
  then show ?thesis by (auto simp: bit_at_def bitmap_set_def Let_def word_index_simps)
qed

lemma bit_at_bitmap_clear:
  "bit_at (bitmap_clear bm b) i \<longleftrightarrow> (if i = unat b then \<not> bit_at bm i else bit_at bm i)"
proof (cases "i div 64 = unat b div 64")
  case True
  then show ?thesis using word_bit_index_eq [of i "unat b"]
    by (auto simp: bit_at_def bitmap_clear_def Let_def word_index_simps bit_xor_iff bit_BIT_MASK)
next
  case False
  then show ?thesis by (auto simp: bit_at_def bitmap_clear_def Let_def word_index_simps)
qed

lemma bitmap_update_sizes [simp]:
  "num_bits (bitmap_set bm b) = num_bits bm" "num_words (bitmap_set bm b) = num_words bm"
  "num_bits (bitmap_clear bm b) = num_bits bm" "num_words (bitmap_clear bm b) = num_words bm"
  "nbits (bitmap_set bm b) = nbits bm" "nbits (bitmap_clear bm b) = nbits bm"
  by (simp_all add: bitmap_set_def bitmap_clear_def Let_def nbits_def)

lemma wf_bitmap_set: "wf_bitmap bm \<Longrightarrow> unat b < nbits bm \<Longrightarrow> wf_bitmap (bitmap_set bm b)"
  by (auto simp: wf_bitmap_def bit_at_bitmap_set)

lemma wf_bitmap_clear: "wf_bitmap bm \<Longrightarrow> unat b < nbits bm \<Longrightarrow> wf_bitmap (bitmap_clear bm b)"
  by (auto simp: wf_bitmap_def bit_at_bitmap_clear)

lemma bits_of_set: "unat b < nbits bm \<Longrightarrow> bits_of (bitmap_set bm b) = insert (unat b) (bits_of bm)"
  by (auto simp: bits_of_def bit_at_bitmap_set)

lemma bits_of_clear:
  "unat b < nbits bm \<Longrightarrow> unat b \<in> bits_of bm \<Longrightarrow> bits_of (bitmap_clear bm b) = bits_of bm - {unat b}"
  by (auto simp: bits_of_def bit_at_bitmap_clear)

lemma is_set_bits_of: "unat b < nbits bm \<Longrightarrow> bitmap_is_set bm b \<longleftrightarrow> unat b \<in> bits_of bm"
  by (simp add: bitmap_is_set_iff bits_of_def)

lemma bits_of_bounded: "bits_of bm \<subseteq> {..<nbits bm}"
  by (auto simp: bits_of_def)

lemma finite_bits_of [simp]: "finite (bits_of bm)"
  using bits_of_bounded by (rule finite_subset) simp

section \<open>Initialisation\<close>

lemma BIT_MASK_6: "(64 :: u64) = BIT_MASK 6"
  by (simp add: BIT_MASK_def)

lemma unat_bitmap_calc_words:
  assumes "unat n \<le> 2 ^ 64 - 64"
  shows "unat (bitmap_calc_words n) = (unat n + 63) div 64"
proof -
  have "unat (ALIGN_UP n 64) = (unat n + 63) div 64 * 64"
    unfolding BIT_MASK_6 using assms by (subst unat_ALIGN_UP) auto
  then show ?thesis by (simp add: bitmap_calc_words_def unat_div)
qed

lemma data_clear_all:
  "data (bitmap_clear_all bm) i = (if i < unat (num_words bm) then 0 else data bm i)"
  by (simp add: bitmap_clear_all_def fold_upd_upt)

lemma bitmap_clear_all_sizes [simp]:
  "num_bits (bitmap_clear_all bm) = num_bits bm" "num_words (bitmap_clear_all bm) = num_words bm"
  "nbits (bitmap_clear_all bm) = nbits bm"
  by (simp_all add: bitmap_clear_all_def nbits_def)

lemma bit_at_clear_all: "i < 64 * unat (num_words bm) \<Longrightarrow> \<not> bit_at (bitmap_clear_all bm) i"
  by (simp add: bit_at_def data_clear_all less_mult_imp_div_less mult.commute)

lemma wf_bitmap_clear_all:
  "unat (num_words bm) = (nbits bm + 63) div 64 \<Longrightarrow> wf_bitmap (bitmap_clear_all bm)"
  by (simp add: wf_bitmap_def bit_at_clear_all)

lemma bits_of_clear_all:
  assumes "unat (num_words bm) = (nbits bm + 63) div 64"
  shows "bits_of (bitmap_clear_all bm) = {}"
proof -
  have "\<not> bit_at (bitmap_clear_all bm) i" if "i < nbits bm" for i
    using that assms by (intro bit_at_clear_all) simp
  then show ?thesis by (auto simp: bits_of_def)
qed

lemma bitmap_init_facts:
  assumes "unat n < 2 ^ 32"
  shows "wf_bitmap (bitmap_init bm n)" "bits_of (bitmap_init bm n) = {}"
    and "nbits (bitmap_init bm n) = unat n"
proof -
  let ?bm = "bm\<lparr>num_bits := ucast n, num_words := ucast (bitmap_calc_words n)\<rparr>"
  have n: "nbits ?bm = unat n"
    using assms by (simp add: nbits_def unsigned_ucast_eq take_bit_nat_eq_self)
  have "unat (bitmap_calc_words n) = (unat n + 63) div 64"
    using assms by (intro unat_bitmap_calc_words) simp
  then have w: "unat (num_words ?bm) = (nbits ?bm + 63) div 64"
    unfolding n using assms by (simp add: unsigned_ucast_eq take_bit_nat_eq_self)
  show "wf_bitmap (bitmap_init bm n)" "bits_of (bitmap_init bm n) = {}"
    using wf_bitmap_clear_all [OF w] bits_of_clear_all [OF w] by (simp_all add: bitmap_init_def)
  show "nbits (bitmap_init bm n) = unat n"
    using n by (simp add: bitmap_init_def)
qed


lemma words_needed:
  fixes n :: nat
  shows "n mod 64 = 0 \<Longrightarrow> (n + 63) div 64 = n div 64"
    and "0 < n mod 64 \<Longrightarrow> (n + 63) div 64 = n div 64 + 1"
proof -
  obtain a b where "n = 64 * a + b" "b < 64" "n div 64 = a" "n mod 64 = b"
    using div_mod_cases [of 64 n] by auto
  then show "n mod 64 = 0 \<Longrightarrow> (n + 63) div 64 = n div 64"
    and "0 < n mod 64 \<Longrightarrow> (n + 63) div 64 = n div 64 + 1"
    by (auto intro!: div_nat_eqI)
qed

lemma bit_at_set_all:
  assumes "unat (num_words bm) = (nbits bm + 63) div 64"
    and "i < 64 * unat (num_words bm)"
  shows "bit_at (bitmap_set_all bm) i \<longleftrightarrow> i < nbits bm"
proof -
  let ?nw = "unat (num_words bm)" and ?r = "nbits bm mod 64"
  have iw: "i div 64 < ?nw" using assms(2) by (simp add: less_mult_imp_div_less mult.commute)
  have r: "unat (num_bits bm mod 64) = ?r" by (simp add: unat_mod nbits_def)
  have "0 < ?nw" using iw by auto
  then have lst: "unat (num_words bm - 1) = ?nw - 1" by (rule unat_minus_one_le)
  have m0: "BIT_MASK_BELOW ?r \<noteq> 0 \<longleftrightarrow> 0 < ?r"
    by (auto simp: BIT_MASK_BELOW_mask mask_eq_0_iff)
  show ?thesis
  proof (cases "0 < ?r")
    case True
    then have "?nw = nbits bm div 64 + 1" using assms(1) words_needed(2) by simp
    then have nw: "nbits bm = 64 * (?nw - 1) + ?r" by simp
    have "bit_at (bitmap_set_all bm) i \<longleftrightarrow> i div 64 \<noteq> ?nw - 1 \<or> i mod 64 < ?r"
      using True m0 iw
      by (auto simp: bit_at_def bitmap_set_all_def Let_def r lst fold_upd_upt bit_simps
          BIT_MASK_BELOW_mask)
    also have "\<dots> \<longleftrightarrow> i < nbits bm"
      using iw less_group_iff [of 64 ?r i "?nw - 1"] nw by auto
    finally show ?thesis .
  next
    case False
    then have "nbits bm = 64 * ?nw" using assms(1) words_needed(1) by auto
    then show ?thesis
      using False m0 iw assms(2)
      by (auto simp: bit_at_def bitmap_set_all_def Let_def r lst fold_upd_upt bit_simps)
  qed
qed

lemma bitmap_set_all_sizes [simp]:
  "num_bits (bitmap_set_all bm) = num_bits bm" "num_words (bitmap_set_all bm) = num_words bm"
  "nbits (bitmap_set_all bm) = nbits bm"
  by (simp_all add: bitmap_set_all_def Let_def nbits_def)

section \<open>The searches\<close>

definition complement :: "bitmap \<Rightarrow> bitmap" where
  "complement bm = bm\<lparr>data := \<lambda>i. NOT (data bm i)\<rparr>"

lemma bit_at_complement: "bit_at (complement bm) i \<longleftrightarrow> \<not> bit_at bm i"
  by (simp add: bit_at_def complement_def bit_not_iff)

lemma first_clear_from_complement: "first_clear_from bm i = first_set_from (complement bm) i"
proof (induction bm i rule: first_clear_from.induct)
  case (1 bm i)
  then show ?case
    by (subst first_clear_from.simps, subst first_set_from.simps)
      (auto simp: Let_def find_first_clear_bit_def complement_def)
qed

lemma uint_word_base: "i < 2 ^ 26 \<Longrightarrow> uint (of_nat i * 64 :: u32) = int (64 * i)"
proof -
  assume "i < 2 ^ 26"
  then have "unat (of_nat (i * 64) :: u32) = i * 64" by (intro unat_of_nat_lt) simp
  then have "int (unat (of_nat i * 64 :: u32)) = int (64 * i)" by simp
  then show ?thesis by (simp only: uint_nat)
qed

lemma bit_at_word: "j < 64 \<Longrightarrow> bit_at bm (64 * i + j) \<longleftrightarrow> bit (data bm i) j"
  by (simp add: bit_at_def)

lemma no_bits_in_word: "data bm i = 0 \<Longrightarrow> 64 * i \<le> k \<Longrightarrow> k < 64 * Suc i \<Longrightarrow> \<not> bit_at bm k"
proof -
  assume "data bm i = 0" "64 * i \<le> k" "k < 64 * Suc i"
  moreover from this have "k div 64 = i" by (intro div_nat_eqI) simp_all
  ultimately show ?thesis by (simp add: bit_at_def)
qed

text \<open>The loop returns the least set bit at or after word \<open>i\<close>.\<close>

definition least_bit_from :: "bitmap \<Rightarrow> nat \<Rightarrow> int \<Rightarrow> bool" where
  "least_bit_from bm i r \<longleftrightarrow>
     (let hi = 64 * unat (num_words bm)
      in r = - 1 \<and> (\<forall>k. 64 * i \<le> k \<and> k < hi \<longrightarrow> \<not> bit_at bm k) \<or>
         (\<exists>k. r = int k \<and> 64 * i \<le> k \<and> k < hi \<and> bit_at bm k \<and>
              (\<forall>j. 64 * i \<le> j \<and> j < k \<longrightarrow> \<not> bit_at bm j)))"

lemma first_set_from_least:
  assumes "unat (num_words bm) \<le> 2 ^ 26"
  shows "least_bit_from bm i (first_set_from bm i)"
  using assms
proof (induction bm i rule: first_set_from.induct)
  case (1 bm i)
  show ?case
  proof (cases "i < unat (num_words bm)")
    case False
    then show ?thesis by (subst first_set_from.simps) (auto simp: least_bit_from_def)
  next
    case True
    show ?thesis
    proof (cases "find_first_set_bit (data bm i) = -1")
      case zero: True
      then have "data bm i = 0" by (simp add: find_first_set_bit_eq_minus1)
      then have skip: "\<not> bit_at bm k" if "64 * i \<le> k" "k < 64 * Suc i" for k
        using no_bits_in_word that by blast
      have eq: "first_set_from bm i = first_set_from bm (Suc i)"
        using True zero by (subst first_set_from.simps) simp
      have "least_bit_from bm (Suc i) (first_set_from bm (Suc i))"
        using "1.IH" [OF True refl] zero "1.prems" by simp
      moreover have "64 * Suc i \<le> k" if "64 * i \<le> k" "bit_at bm k" for k
        using skip that linorder_not_less by blast
      moreover have "64 * i \<le> k" if "64 * Suc i \<le> k" for k using that by simp
      ultimately show ?thesis unfolding eq least_bit_from_def Let_def by blast
    next
      case False
      then obtain j where j: "find_first_set_bit (data bm i) = int j"
        using find_first_set_bit_range [of "data bm i"] by (intro that [of "nat _"]) auto
      then have b: "j < 64" "bit (data bm i) j" "\<forall>l<j. \<not> bit (data bm i) l"
        by (simp_all add: find_first_set_bit_eq_nat)
      have r: "first_set_from bm i = int (64 * i + j)"
        using True False "1.prems" uint_word_base [of i]
        by (subst first_set_from.simps) (simp add: j)
      have "\<not> bit_at bm l" if l: "64 * i \<le> l" "l < 64 * i + j" for l
        using b l bit_at_word [of "l - 64 * i" bm i] by auto
      then show ?thesis
        using b True bit_at_word [of j bm i] unfolding r least_bit_from_def Let_def
        by (intro disjI2 exI [of _ "64 * i + j"]) auto
    qed
  qed
qed

lemma bitmap_first_set_correct:
  assumes "wf_bitmap bm"
  shows "(bitmap_first_set bm = - 1 \<longleftrightarrow> bits_of bm = {}) \<and>
    (\<forall>k. bitmap_first_set bm = int k \<longleftrightarrow> k \<in> bits_of bm \<and> (\<forall>j<k. j \<notin> bits_of bm))"
proof -
  let ?nw = "unat (num_words bm)"
  have "least_bit_from bm 0 (bitmap_first_set bm)"
    unfolding bitmap_first_set_def by (rule first_set_from_least) (rule num_words_bound [OF assms])
  moreover have mem: "bit_at bm k \<and> k < 64 * ?nw \<longleftrightarrow> k \<in> bits_of bm" for k
  proof -
    have "nbits bm \<le> 64 * ?nw" using assms by (auto simp: wf_bitmap_def)
    then show ?thesis using assms by (auto simp: wf_bitmap_def bits_of_def not_less [symmetric])
  qed
  ultimately consider "bitmap_first_set bm = - 1" "\<forall>k. k \<notin> bits_of bm"
    | k where "bitmap_first_set bm = int k" "k \<in> bits_of bm" "\<forall>j<k. j \<notin> bits_of bm"
    by (auto simp: least_bit_from_def Let_def)
  then show ?thesis
    by cases (auto, metis linorder_less_linear)
qed

lemma bitmap_first_clear_cases:
  assumes "wf_bitmap bm"
  obtains (full) "bitmap_first_clear bm = - 1" "bits_of bm = {..<nbits bm}"
    | (free) k where "bitmap_first_clear bm = int k" "k < nbits bm" "k \<notin> bits_of bm"
        "\<forall>j<k. j \<in> bits_of bm"
proof -
  let ?nw = "unat (num_words bm)" and ?r = "first_clear_from bm 0"
  have le: "nbits bm \<le> 64 * ?nw" using assms by (auto simp: wf_bitmap_def)
  have nb: "uint (num_bits bm) = int (nbits bm)" by (simp add: nbits_def)
  have "least_bit_from (complement bm) 0 ?r"
    unfolding first_clear_from_complement
    by (rule first_set_from_least) (use num_words_bound [OF assms] in \<open>simp add: complement_def\<close>)
  then consider (a) "?r = - 1" "\<forall>k<64 * ?nw. bit_at bm k"
    | (b) k where "?r = int k" "k < 64 * ?nw" "\<not> bit_at bm k" "\<forall>j<k. bit_at bm j"
    by (auto simp: least_bit_from_def Let_def bit_at_complement) (simp add: complement_def)+
  then show ?thesis
  proof cases
    case a
    then have "bits_of bm = {..<nbits bm}" using le by (auto simp: bits_of_def)
    then show ?thesis using a full by (simp add: bitmap_first_clear_def nb)
  next
    case b
    show ?thesis
    proof (cases "k < nbits bm")
      case True
      with b show ?thesis
        by (intro free [of k]) (auto simp: bitmap_first_clear_def nb bits_of_def)
    next
      case False
      then have "bits_of bm = {..<nbits bm}" using b by (auto simp: bits_of_def)
      then show ?thesis using b False full by (simp add: bitmap_first_clear_def nb)
    qed
  qed
qed


section \<open>Runs of clear bits\<close>

text \<open>\<open>clear_run bm k n\<close>: the \<open>n\<close> bits from \<open>k\<close> on are in the bitmap and clear.\<close>

definition clear_run :: "bitmap \<Rightarrow> nat \<Rightarrow> nat \<Rightarrow> bool" where
  "clear_run bm k n \<longleftrightarrow> k + n \<le> nbits bm \<and> (\<forall>j<n. \<not> bit_at bm (k + j))"

lemma sint_word_index:
  assumes "64 * i + j < 2 ^ 31"
  shows "sint (of_nat i * 64 + of_int (int j) :: u32) = int (64 * i + j)"
proof -
  have "(of_nat i * 64 + of_int (int j) :: u32) = of_nat (64 * i + j)" by (simp add: mult.commute)
  moreover have "sint (of_nat (64 * i + j) :: u32) = int (64 * i + j)"
    using assms by (simp add: signed_of_nat signed_take_bit_int_eq_self del: of_nat_add of_nat_mult)
  ultimately show ?thesis by (simp only:)
qed

lemma zero_string_from_found:
  assumes "1 \<le> n" and "unat (num_words bm) \<le> 2 ^ 25" and "zero_string_from bm n i \<noteq> - 1"
  shows "\<exists>k. zero_string_from bm n i = int k \<and> k mod 64 \<noteq> 0 \<and> (\<forall>j<nat n. \<not> bit_at bm (k + j))"
  using assms
proof (induction bm n i rule: zero_string_from.induct)
  case (1 bm n i)
  let ?idx = "find_bitstring_longer_than (NOT (data bm i)) n"
  have lt: "i < unat (num_words bm)"
    using "1.prems"(3) by (rule contrapos_np) (subst zero_string_from.simps, simp)
  show ?case
  proof (cases "?idx > 0")
    case False
    then have eq: "zero_string_from bm n i = zero_string_from bm n (Suc i)"
      using lt by (subst zero_string_from.simps) simp
    show ?thesis unfolding eq
      by (rule "1.IH" [OF lt refl]) (use False "1.prems" eq in auto)
  next
    case True
    then obtain j where j: "?idx = int j" "0 < j" by (metis of_nat_0_less_iff zero_less_imp_eq_int)
    then have r: "run (NOT (data bm i)) j (nat n)"
      using find_bitstring_Some [OF "1.prems"(1) j(1)] by blast
    then have jn: "j + nat n \<le> 64" by (simp add: run_def)
    have "64 * i + j < 2 ^ 31" using lt jn "1.prems"(1,2) by auto
    then have eq: "zero_string_from bm n i = int (64 * i + j)"
      using lt True j(1) sint_word_index [of i j]
      by (subst zero_string_from.simps) (simp add: Let_def)
    have "\<not> bit_at bm (64 * i + j + l)" if "l < nat n" for l
    proof -
      have "bit (NOT (data bm i)) (j + l)" using r that by (simp add: run_def)
      then show ?thesis
        using bit_at_word [of "j + l" bm i] that jn by (simp add: bit_simps add.assoc)
    qed
    moreover have "(64 * i + j) mod 64 \<noteq> 0" using j jn "1.prems"(1) by auto
    ultimately show ?thesis using eq by blast
  qed
qed

lemma sint_num_bits: "nbits bm < 2 ^ 31 \<Longrightarrow> sint (num_bits bm) = int (nbits bm)"
  unfolding nbits_def by (rule sint_u32_eq_unat)

lemma zero_string_Some:
  assumes "wf_bitmap bm" and "nbits bm < 2 ^ 31" and "1 \<le> n"
    and "bitmap_zero_string_longer_than bm n \<noteq> - 1"
  shows "\<exists>k. bitmap_zero_string_longer_than bm n = int k \<and> clear_run bm k (nat n) \<and> n \<le> 64 \<and>
    k mod 64 \<noteq> 0"
proof -
  let ?r = "zero_string_from bm n 0"
  have ok: "n \<le> 64" "\<not> (?r \<ge> int (nbits bm) \<or> ?r + n > int (nbits bm))"
    and eq: "bitmap_zero_string_longer_than bm n = ?r"
    using assms(4) sint_num_bits [OF assms(2)]
    by (auto simp: bitmap_zero_string_longer_than_def Let_def split: if_splits)
  have "unat (num_words bm) \<le> 2 ^ 25" using assms(1,2) by (auto simp: wf_bitmap_def)
  then obtain k where "?r = int k" "k mod 64 \<noteq> 0" "\<forall>j<nat n. \<not> bit_at bm (k + j)"
    using zero_string_from_found assms(3,4) eq by metis
  with ok eq show ?thesis by (auto simp: clear_run_def)
qed

text \<open>Where every word starts with a long enough clear run, the search finds nothing.\<close>

lemma zero_string_from_all_zero:
  assumes "1 \<le> n" "n \<le> 64" and "\<And>i. i < unat (num_words bm) \<Longrightarrow> data bm i = 0"
  shows "zero_string_from bm n i = - 1"
  using assms
proof (induction bm n i rule: zero_string_from.induct)
  case (1 bm n i)
  have "find_bitstring_longer_than (NOT (0 :: u64)) n = 0"
  proof (rule find_bitstring_cases [OF "1.prems"(1), of "NOT 0"])
    assume "find_bitstring_longer_than (NOT (0 :: u64)) n = - 1"
    moreover have "run (NOT (0 :: u64)) 0 (nat n)" using "1.prems"(2) by (auto simp: run_def bit_simps)
    ultimately show ?thesis using find_bitstring_None [OF "1.prems"(1)] by blast
  next
    fix j
    assume found: "find_bitstring_longer_than (NOT (0 :: u64)) n = int j"
    have "run (NOT (0 :: u64)) 0 (nat n)" using "1.prems"(2) by (auto simp: run_def bit_simps)
    then have "j = 0" using find_bitstring_Some [OF "1.prems"(1) found] by (cases j) auto
    with found show ?thesis by simp
  qed
  with "1.IH" "1.prems" show ?case by (subst zero_string_from.simps) (simp add: Let_def)
qed

section \<open>The contract the early page allocator relies on\<close>

locale bit_allocator =
  fixes invar :: "'b \<Rightarrow> bool"
    and capacity :: "'b \<Rightarrow> nat"
    and members :: "'b \<Rightarrow> nat set"
    and is_set :: "'b \<Rightarrow> u64 \<Rightarrow> bool"
    and set_bit1 :: "'b \<Rightarrow> u64 \<Rightarrow> 'b"
    and clear_bit1 :: "'b \<Rightarrow> u64 \<Rightarrow> 'b"
    and first_clear :: "'b \<Rightarrow> int"
  assumes members_bounded: "members b \<subseteq> {..<capacity b}"
    and capacity_fits: "capacity b \<le> 2 ^ 32"
    and invar_set: "invar b \<Longrightarrow> unat i < capacity b \<Longrightarrow> invar (set_bit1 b i)"
    and invar_clear: "invar b \<Longrightarrow> unat i < capacity b \<Longrightarrow> invar (clear_bit1 b i)"
    and capacity_set: "capacity (set_bit1 b i) = capacity b"
    and capacity_clear: "capacity (clear_bit1 b i) = capacity b"
    and members_set: "unat i < capacity b \<Longrightarrow> members (set_bit1 b i) = insert (unat i) (members b)"
    and members_clear: "unat i \<in> members b \<Longrightarrow> members (clear_bit1 b i) = members b - {unat i}"
    and is_set_iff: "unat i < capacity b \<Longrightarrow> is_set b i \<longleftrightarrow> unat i \<in> members b"
    and first_clear_full: "invar b \<Longrightarrow> first_clear b = - 1 \<longleftrightarrow> members b = {..<capacity b}"
    and first_clear_free: "invar b \<Longrightarrow> first_clear b \<noteq> - 1 \<Longrightarrow>
      \<exists>k. first_clear b = int k \<and> k < capacity b \<and> k \<notin> members b \<and> (\<forall>j<k. j \<in> members b)"
begin

lemma finite_members: "finite (members b)"
  using members_bounded by (rule finite_subset) simp

lemma index_of_nat: "k < capacity b \<Longrightarrow> unat (of_nat k :: u64) = k"
  using capacity_fits [of b] by (intro unat_of_nat_lt) simp

text \<open>Taking the first clear bit: it was clear, it is set afterwards, nothing else changes.\<close>

lemma take_first_clear:
  assumes "invar b" and "first_clear b \<noteq> - 1"
  obtains k where "first_clear b = int k" "k < capacity b" "k \<notin> members b"
    and "invar (set_bit1 b (of_int (first_clear b)))"
    and "members (set_bit1 b (of_int (first_clear b))) = insert k (members b)"
    and "card (members (set_bit1 b (of_int (first_clear b)))) = card (members b) + 1"
proof -
  obtain k where k: "first_clear b = int k" "k < capacity b" "k \<notin> members b"
    using first_clear_free [OF assms] by blast
  have u: "unat (of_int (first_clear b) :: u64) = k" using k index_of_nat by simp
  show ?thesis
    by (rule that [OF k]) (use u k assms invar_set members_set finite_members in simp_all)
qed

lemma set_then_clear:
  assumes "unat i < capacity b" and "unat i \<notin> members b"
  shows "members (clear_bit1 (set_bit1 b i) i) = members b"
  using assms by (simp add: members_set members_clear)

lemma card_clear: "unat i \<in> members b \<Longrightarrow> card (members (clear_bit1 b i)) = card (members b) - 1"
  by (simp add: members_clear finite_members)

lemma card_set:
  "unat i < capacity b \<Longrightarrow> unat i \<notin> members b \<Longrightarrow>
     card (members (set_bit1 b i)) = card (members b) + 1"
  by (simp add: members_set finite_members)

lemma card_members_le: "card (members b) \<le> capacity b"
  using card_mono [OF _ members_bounded [of b]] by simp

end

interpretation bm: bit_allocator wf_bitmap nbits bits_of bitmap_is_set bitmap_set bitmap_clear
  bitmap_first_clear
proof unfold_locales
  fix b
  show "bits_of b \<subseteq> {..<nbits b}" by (rule bits_of_bounded)
  show "nbits b \<le> 2 ^ 32" using nbits_less [of b] by simp
  assume wf: "wf_bitmap b"
  show "bitmap_first_clear b = - 1 \<longleftrightarrow> bits_of b = {..<nbits b}"
    by (rule bitmap_first_clear_cases [OF wf]) auto
  show "bitmap_first_clear b \<noteq> - 1 \<Longrightarrow>
      \<exists>k. bitmap_first_clear b = int k \<and> k < nbits b \<and> k \<notin> bits_of b \<and> (\<forall>j<k. j \<in> bits_of b)"
    by (rule bitmap_first_clear_cases [OF wf]) auto
next
  fix b and i :: u64
  assume "unat i \<in> bits_of b"
  moreover from this have "unat i < nbits b" by (simp add: bits_of_def)
  ultimately show "bits_of (bitmap_clear b i) = bits_of b - {unat i}" by (rule bits_of_clear [rotated])
qed (simp_all add: wf_bitmap_set wf_bitmap_clear bits_of_set is_set_bits_of)


section \<open>Properties\<close>

text \<open>
  C20: on a well-formed bitmap \<^verbatim>\<open>bitmap_first_clear()\<close> returns the least index that
  is not set, and -1 exactly when every bit is set; it never returns an index beyond
  \<^verbatim>\<open>num_bits\<close>, although the last word may have clear bits there.
\<close>

theorem bitmap_first_clear_least:
  assumes "wf_bitmap bm"
  shows "bitmap_first_clear bm =
    (if bits_of bm = {..<nbits bm} then - 1
     else int (LEAST i. i < nbits bm \<and> \<not> bitmap_is_set bm (of_nat i)))"
proof (rule bitmap_first_clear_cases [OF assms])
  assume "bitmap_first_clear bm = - 1" "bits_of bm = {..<nbits bm}"
  then show ?thesis by simp
next
  fix k
  assume k: "bitmap_first_clear bm = int k" "k < nbits bm" "k \<notin> bits_of bm" "\<forall>j<k. j \<in> bits_of bm"
  have is_set: "bitmap_is_set bm (of_nat i) \<longleftrightarrow> i \<in> bits_of bm" if "i < nbits bm" for i
    using bm.is_set_iff [of "of_nat i" bm] bm.index_of_nat [OF that] that by simp
  have "(LEAST i. i < nbits bm \<and> \<not> bitmap_is_set bm (of_nat i)) = k"
    by (rule Least_equality) (use k is_set in \<open>auto simp: not_less [symmetric]\<close>)
  with k show ?thesis by auto
qed

theorem bitmap_first_clear_least_witness:
  "let bm = bitmap_init \<lparr>num_bits = 7, num_words = 9, data = (\<lambda>_. 12)\<rparr> 150
   in bitmap_first_clear bm =
    (if bits_of bm = {..<nbits bm} then - 1
     else int (LEAST i. i < nbits bm \<and> \<not> bitmap_is_set bm (of_nat i)))"
  unfolding Let_def by (rule bitmap_first_clear_least, rule bitmap_init_facts) simp

text \<open>
  C22: \<^verbatim>\<open>bitmap_set()\<close> and \<^verbatim>\<open>bitmap_clear()\<close> on an index inside the bitmap keep it
  well formed; afterwards \<^verbatim>\<open>bitmap_is_set()\<close> of any index is what it was, except that
  the index set is set and the index cleared is flipped: a bit that was set becomes
  clear, but a bit that was already clear becomes set, because the source uses
  exclusive or. Neither writes a word outside the bitmap.
\<close>

theorem bitmap_updates_pointwise:
  assumes "wf_bitmap bm" and "unat b < nbits bm"
  shows "wf_bitmap (bitmap_set bm b) \<and> wf_bitmap (bitmap_clear bm b) \<and>
    (\<forall>j. bitmap_is_set (bitmap_set bm b) j \<longleftrightarrow> j = b \<or> bitmap_is_set bm j) \<and>
    (\<forall>j. bitmap_is_set (bitmap_clear bm b) j \<longleftrightarrow>
      (if j = b then \<not> bitmap_is_set bm b else bitmap_is_set bm j)) \<and>
    (\<forall>w \<ge> unat (num_words bm). data (bitmap_set bm b) w = data bm w \<and>
      data (bitmap_clear bm b) w = data bm w)"
proof (intro conjI allI impI)
  show "wf_bitmap (bitmap_set bm b)" "wf_bitmap (bitmap_clear bm b)"
    using assms by (auto intro: wf_bitmap_set wf_bitmap_clear)
  show "bitmap_is_set (bitmap_set bm b) j \<longleftrightarrow> j = b \<or> bitmap_is_set bm j" for j
    by (auto simp: bitmap_is_set_iff bit_at_bitmap_set word_unat_eq_iff)
  show "bitmap_is_set (bitmap_clear bm b) j \<longleftrightarrow>
      (if j = b then \<not> bitmap_is_set bm b else bitmap_is_set bm j)" for j
    by (auto simp: bitmap_is_set_iff bit_at_bitmap_clear word_unat_eq_iff)
  have "unat b div 64 < unat (num_words bm)" using assms by (auto simp: wf_bitmap_def)
  then show "data (bitmap_set bm b) w = data bm w" "data (bitmap_clear bm b) w = data bm w"
    if "unat (num_words bm) \<le> w" for w
    using that by (auto simp: bitmap_set_def bitmap_clear_def Let_def word_index_simps)
qed

theorem bitmap_updates_pointwise_witness:
  "let bm = bitmap_init \<lparr>num_bits = 0, num_words = 0, data = (\<lambda>_. 0)\<rparr> 150
   in wf_bitmap (bitmap_set bm 137) \<and> wf_bitmap (bitmap_clear bm 137) \<and>
      (bitmap_is_set (bitmap_set bm 137) 12 \<longleftrightarrow> (12 :: u64) = 137 \<or> bitmap_is_set bm 12)"
proof -
  let ?bm = "bitmap_init \<lparr>num_bits = 0, num_words = 0, data = (\<lambda>_. 0)\<rparr> 150"
  have h: "wf_bitmap ?bm" "unat (137 :: u64) < nbits ?bm"
    using bitmap_init_facts [of 150] by simp_all
  show ?thesis unfolding Let_def using bitmap_updates_pointwise [OF h] by blast
qed

text \<open>
  whatever \<^verbatim>\<open>bitmap_zero_string_longer_than()\<close> returns other than -1 is the start of
  \<open>n\<close> clear bits that all lie inside the bitmap (for bitmaps of fewer than \<open>2^31\<close> bits,
  whose indices fit the \<^verbatim>\<open>int\<close> it returns).
\<close>

theorem zero_string_sound:
  assumes "wf_bitmap bm" and "nbits bm < 2 ^ 31" and "1 \<le> n"
    and "bitmap_zero_string_longer_than bm n = r" and "r \<noteq> - 1"
  shows "0 \<le> r \<and> r + n \<le> int (nbits bm) \<and>
    (\<forall>j<nat n. \<not> bitmap_is_set bm (of_nat (nat r + j)))"
proof -
  obtain k where k: "r = int k" "clear_run bm k (nat n)"
    using zero_string_Some [OF assms(1-3)] assms(4,5) by blast
  have "unat (of_nat (k + j) :: u64) = k + j" if "j < nat n" for j
    using k that nbits_less [of bm] by (intro unat_of_nat_lt) (auto simp: clear_run_def)
  with k assms(3) show ?thesis
    by (auto simp: clear_run_def bitmap_is_set_iff simp del: of_nat_add)
qed

theorem zero_string_sound_witness:
  "let bm = bitmap_set (bitmap_init \<lparr>num_bits = 0, num_words = 0, data = (\<lambda>_. 0)\<rparr> 64) 0
   in 0 \<le> (1 :: int) \<and> 1 + 4 \<le> int (nbits bm) \<and>
    (\<forall>j<nat 4. \<not> bitmap_is_set bm (of_nat (nat 1 + j)))"
proof -
  let ?i = "bitmap_init \<lparr>num_bits = 0, num_words = 0, data = (\<lambda>_. 0)\<rparr> 64"
  have i: "wf_bitmap ?i" "nbits ?i = 64"
    using bitmap_init_facts [of 64] by simp_all
  then have h: "wf_bitmap (bitmap_set ?i 0)" "nbits (bitmap_set ?i 0) < 2 ^ 31"
    by (simp_all add: wf_bitmap_set)
  have r: "bitmap_zero_string_longer_than (bitmap_set ?i 0) 4 = 1" by code_simp
  show ?thesis unfolding Let_def by (rule zero_string_sound [OF h _ r]) simp_all
qed

text \<open>
  C23: but the search is not complete. It tests \<^verbatim>\<open>index > 0\<close> where -1 is the only
  failure value, so a run of clear bits that starts at bit 0 of a word is not found: on
  a freshly initialised bitmap, in which every bit is clear, it reports that there is no
  run of any length from 1 to 64.
\<close>

theorem zero_string_misses_word_starts:
  assumes "unat nb < 2 ^ 32" and "1 \<le> n" and "n \<le> 64"
  shows "bits_of (bitmap_init bm nb) = {} \<and> bitmap_zero_string_longer_than (bitmap_init bm nb) n = - 1"
proof -
  have "zero_string_from (bitmap_init bm nb) n 0 = - 1"
    by (rule zero_string_from_all_zero) (use assms in \<open>simp_all add: bitmap_init_def data_clear_all\<close>)
  then show ?thesis
    using assms bitmap_init_facts(2) by (simp add: bitmap_zero_string_longer_than_def)
qed

theorem zero_string_misses_word_starts_witness:
  "bits_of (bitmap_init \<lparr>num_bits = 0, num_words = 0, data = (\<lambda>_. 5)\<rparr> 128) = {} \<and>
   bitmap_zero_string_longer_than (bitmap_init \<lparr>num_bits = 0, num_words = 0, data = (\<lambda>_. 5)\<rparr> 128) 2 = - 1"
  by (rule zero_string_misses_word_starts) simp_all

end
