(* ===== verification/Linked_List.thy ===== *)
theory Linked_List
  imports Prelude
begin

text \<open>
  The intrusive doubly linked lists of \<^verbatim>\<open>include/list.h\<close>. A list is a ring through
  its head: \<^verbatim>\<open>struct list\<close> and \<^verbatim>\<open>struct list_node\<close> have the same layout
  (\<^verbatim>\<open>last\<close>/\<^verbatim>\<open>prev\<close> first, then \<^verbatim>\<open>first\<close>/\<^verbatim>\<open>next\<close>; the source asserts
  it), and the code casts between them. So one store of nodes, a function from
  pointers to nodes, holds heads and elements alike; assignments through pointers
  are updates of that store, in the order of the source, so that aliasing (an empty
  list, where the neighbour of the head is the head) is what it is in C.

  The abstraction \<open>ring h l xs\<close> says that in store \<open>h\<close> the list at \<open>l\<close> holds the
  nodes \<open>xs\<close> in order, linked both ways. Every operation is shown to be the
  corresponding operation on \<open>xs\<close>, and to leave every ring it does not touch alone.
\<close>

record 'p list_node =
  prev_node :: 'p
  next_node :: 'p

type_synonym 'p store = "'p \<Rightarrow> 'p list_node"

section \<open>Operations\<close>

definition set_prev :: "'p store \<Rightarrow> 'p \<Rightarrow> 'p \<Rightarrow> 'p store" where
  "set_prev h p q = h(p := (h p)\<lparr>prev_node := q\<rparr>)"

definition set_next :: "'p store \<Rightarrow> 'p \<Rightarrow> 'p \<Rightarrow> 'p store" where
  "set_next h p q = h(p := (h p)\<lparr>next_node := q\<rparr>)"

definition list_node_init :: "'p store \<Rightarrow> 'p \<Rightarrow> 'p store" where
  "list_node_init h node = set_prev (set_next h node node) node node"

definition list_init :: "'p store \<Rightarrow> 'p \<Rightarrow> 'p store" where
  "list_init h l = list_node_init h l"

definition list_empty :: "'p store \<Rightarrow> 'p \<Rightarrow> bool" where
  "list_empty h l \<longleftrightarrow> next_node (h l) = l"

definition list_node_insert_before :: "'p store \<Rightarrow> 'p \<Rightarrow> 'p \<Rightarrow> 'p store" where
  "list_node_insert_before h node it =
     (let prev = prev_node (h node);
          h1 = set_prev h node it;
          h2 = set_next h1 prev it;
          h3 = set_prev h2 it prev
      in set_next h3 it node)"

definition list_node_insert_after :: "'p store \<Rightarrow> 'p \<Rightarrow> 'p \<Rightarrow> 'p store" where
  "list_node_insert_after h node it =
     (let nxt = next_node (h node);
          h1 = set_next h node it;
          h2 = set_prev h1 nxt it;
          h3 = set_prev h2 it node
      in set_next h3 it nxt)"

definition list_detach :: "'p store \<Rightarrow> 'p \<Rightarrow> 'p store" where
  "list_detach h node =
     (let h1 = set_next h (prev_node (h node)) (next_node (h node));
          h2 = set_prev h1 (next_node (h1 node)) (prev_node (h1 node));
          h3 = set_prev h2 node node
      in set_next h3 node node)"

definition list_push_back :: "'p store \<Rightarrow> 'p \<Rightarrow> 'p \<Rightarrow> 'p store" where
  "list_push_back h l it = list_node_insert_before h l it"

definition list_push_front :: "'p store \<Rightarrow> 'p \<Rightarrow> 'p \<Rightarrow> 'p store" where
  "list_push_front h l it = list_node_insert_after h l it"

text \<open>The node at the front of a list (\<^verbatim>\<open>list_first_element\<close>, \<^verbatim>\<open>list_last_element\<close>).\<close>

definition list_first :: "'p store \<Rightarrow> 'p \<Rightarrow> 'p" where
  "list_first h l = next_node (h l)"

definition list_last :: "'p store \<Rightarrow> 'p \<Rightarrow> 'p" where
  "list_last h l = prev_node (h l)"

text \<open>
  Counting follows \<^verbatim>\<open>next\<close> pointers until it is back at the head, which on a
  corrupted list may be never: \<open>None\<close> is the loop that does not end.
\<close>

partial_function (option) list_count_from :: "'p store \<Rightarrow> 'p \<Rightarrow> 'p \<Rightarrow> u64 \<Rightarrow> u64 option" where
  "list_count_from h l node ret =
     (if node = l then Some ret else list_count_from h l (next_node (h node)) (ret + 1))"

definition list_count :: "'p store \<Rightarrow> 'p \<Rightarrow> u64 option" where
  "list_count h l = list_count_from h l (next_node (h l)) 0"

text \<open>
  The visiting order of \<^verbatim>\<open>for_each_list_element\<close>, and of its safe variant, which reads
  the successor before the body runs and so lets the body (here \<open>f\<close>) detach the node.
\<close>

partial_function (option) for_each_from ::
    "('p \<Rightarrow> 'p store \<Rightarrow> 'p store) \<Rightarrow> 'p store \<Rightarrow> 'p \<Rightarrow> 'p \<Rightarrow> 'p list \<Rightarrow> ('p list \<times> 'p store) option" where
  "for_each_from f h l node seen =
     (if node = l then Some (seen, h)
      else let h' = f node h in for_each_from f h' l (next_node (h' node)) (seen @ [node]))"

partial_function (option) for_each_safe_from ::
    "('p \<Rightarrow> 'p store \<Rightarrow> 'p store) \<Rightarrow> 'p store \<Rightarrow> 'p \<Rightarrow> 'p \<Rightarrow> 'p \<Rightarrow> 'p list \<Rightarrow> ('p list \<times> 'p store) option" where
  "for_each_safe_from f h l node tmp seen =
     (if node = l then Some (seen, h)
      else let h' = f node h
           in for_each_safe_from f h' l tmp (next_node (h' tmp)) (seen @ [node]))"

definition for_each_list_element ::
    "('p \<Rightarrow> 'p store \<Rightarrow> 'p store) \<Rightarrow> 'p store \<Rightarrow> 'p \<Rightarrow> ('p list \<times> 'p store) option" where
  "for_each_list_element f h l = for_each_from f h l (list_first h l) []"

definition for_each_list_element_safe ::
    "('p \<Rightarrow> 'p store \<Rightarrow> 'p store) \<Rightarrow> 'p store \<Rightarrow> 'p \<Rightarrow> ('p list \<times> 'p store) option" where
  "for_each_list_element_safe f h l =
     for_each_safe_from f h l (list_first h l) (next_node (h (list_first h l))) []"

section \<open>Segments and rings\<close>

fun linked :: "'p store \<Rightarrow> 'p \<Rightarrow> 'p list \<Rightarrow> 'p \<Rightarrow> bool" where
  "linked h a [] b \<longleftrightarrow> next_node (h a) = b \<and> prev_node (h b) = a"
| "linked h a (x # xs) b \<longleftrightarrow> next_node (h a) = x \<and> prev_node (h x) = a \<and> linked h x xs b"

definition ring :: "'p store \<Rightarrow> 'p \<Rightarrow> 'p list \<Rightarrow> bool" where
  "ring h l xs \<longleftrightarrow> distinct (l # xs) \<and> linked h l xs l"

lemma linked_append: "linked h a (xs @ y # ys) b \<longleftrightarrow> linked h a xs y \<and> linked h y ys b"
  by (induction xs arbitrary: a) auto

lemma linked_next: "linked h a xs b \<Longrightarrow> next_node (h a) = hd (xs @ [b])"
  by (cases xs) auto

lemma linked_prev: "linked h a xs b \<Longrightarrow> prev_node (h b) = last (a # xs)"
  by (induction xs arbitrary: a) auto

text \<open>A segment depends on the next fields of all but its end, the prev fields of all but its start.\<close>

lemma linked_cong:
  assumes "\<And>p. p \<in> set (a # xs) \<Longrightarrow> next_node (h p) = next_node (h' p)"
    and "\<And>p. p \<in> set (xs @ [b]) \<Longrightarrow> prev_node (h p) = prev_node (h' p)"
  shows "linked h a xs b \<longleftrightarrow> linked h' a xs b"
  using assms by (induction xs arbitrary: a) auto

lemma ring_cong:
  assumes "\<And>p. p \<in> set (l # xs) \<Longrightarrow> h p = h' p"
  shows "ring h l xs \<longleftrightarrow> ring h' l xs"
  unfolding ring_def using assms by (intro conj_cong refl linked_cong) auto

lemma ring_unique:
  assumes "ring h l xs" and "ring h l ys"
  shows "xs = ys"
proof -
  have "linked h a xs l \<Longrightarrow> linked h a ys l \<Longrightarrow> l \<notin> set xs \<Longrightarrow> l \<notin> set ys \<Longrightarrow> xs = ys" for a
  proof (induction xs arbitrary: a ys)
    case Nil
    then show ?case by (cases ys) auto
  next
    case (Cons x xs)
    then show ?case by (cases ys) auto
  qed
  with assms show ?thesis by (auto simp: ring_def)
qed

lemma ring_empty_iff: "ring h l xs \<Longrightarrow> list_empty h l \<longleftrightarrow> xs = []"
  by (cases xs) (auto simp: ring_def list_empty_def)

lemma ring_first: "ring h l (x # xs) \<Longrightarrow> list_first h l = x"
  by (simp add: ring_def list_first_def)

lemma ring_last: "ring h l (xs @ [x]) \<Longrightarrow> list_last h l = x"
  by (auto simp: ring_def list_last_def dest: linked_prev)

section \<open>What the operations do to a ring\<close>

lemmas field_defs = set_prev_def set_next_def

lemma ring_init: "ring (list_init h l) l []"
  by (simp add: ring_def list_init_def list_node_init_def field_defs)

lemma list_node_init_other: "p \<noteq> node \<Longrightarrow> list_node_init h node p = h p"
  by (simp add: list_node_init_def field_defs)

lemma insert_before_frame:
  "p \<noteq> node \<Longrightarrow> p \<noteq> it \<Longrightarrow> p \<noteq> prev_node (h node) \<Longrightarrow> list_node_insert_before h node it p = h p"
  by (simp add: list_node_insert_before_def Let_def field_defs)

lemma insert_after_frame:
  "p \<noteq> node \<Longrightarrow> p \<noteq> it \<Longrightarrow> p \<noteq> next_node (h node) \<Longrightarrow> list_node_insert_after h node it p = h p"
  by (simp add: list_node_insert_after_def Let_def field_defs)

lemma detach_frame:
  "p \<noteq> node \<Longrightarrow> p \<noteq> prev_node (h node) \<Longrightarrow> p \<noteq> next_node (h node) \<Longrightarrow> list_detach h node p = h p"
  by (auto simp: list_detach_def Let_def field_defs)

text \<open>
  The fields after an insertion between two linked nodes \<open>a\<close> and \<open>b\<close> (which may be the
  same node): both insertions write the same four fields.
\<close>

lemma insert_before_fields:
  assumes "it \<noteq> b" "prev_node (h b) = a" "it \<noteq> a"
  shows "next_node (list_node_insert_before h b it p) =
      (if p = it then b else if p = a then it else next_node (h p))"
    and "prev_node (list_node_insert_before h b it p) =
      (if p = it then a else if p = b then it else prev_node (h p))"
  using assms by (auto simp: list_node_insert_before_def Let_def field_defs)

lemma insert_after_fields:
  assumes "it \<noteq> b" "next_node (h a) = b" "it \<noteq> a"
  shows "next_node (list_node_insert_after h a it p) =
      (if p = it then b else if p = a then it else next_node (h p))"
    and "prev_node (list_node_insert_after h a it p) =
      (if p = it then a else if p = b then it else prev_node (h p))"
  using assms by (auto simp: list_node_insert_after_def Let_def field_defs)

lemma detach_fields:
  assumes "prev_node (h x) = a" "next_node (h x) = b" "x \<noteq> a" "x \<noteq> b"
  shows "next_node (list_detach h x p) =
      (if p = x then x else if p = a then b else next_node (h p))"
    and "prev_node (list_detach h x p) =
      (if p = x then x else if p = b then a else prev_node (h p))"
  using assms by (auto simp: list_detach_def Let_def field_defs)

text \<open>Splicing a node between two neighbours of a ring, wherever they are.\<close>

lemma ring_splice:
  assumes r: "ring h l (xs @ ys)" and new: "it \<notin> set (l # xs @ ys)"
    and a: "a = last (l # xs)" and b: "b = hd (ys @ [l])"
    and nx: "\<And>p. next_node (h' p) = (if p = it then b else if p = a then it else next_node (h p))"
    and pv: "\<And>p. prev_node (h' p) = (if p = it then a else if p = b then it else prev_node (h p))"
  shows "ring h' l (xs @ it # ys)"
proof -
  have d: "distinct (l # xs @ it # ys)" using r new by (auto simp: ring_def)
  have seg1: "linked h' l xs it"
  proof (cases xs rule: rev_cases)
    case Nil
    then show ?thesis using a nx pv new by auto
  next
    case (snoc zs z)
    then have "z = a" using a by simp
    have "linked h l (zs @ z # ys) l" using r snoc by (simp add: ring_def)
    then have "linked h l zs z" by (simp add: linked_append)
    moreover have "linked h l zs z \<longleftrightarrow> linked h' l zs z"
    proof (rule linked_cong)
      show "next_node (h p) = next_node (h' p)" if "p \<in> set (l # zs)" for p
        using that d snoc \<open>z = a\<close> nx by auto
      show "prev_node (h p) = prev_node (h' p)" if "p \<in> set (zs @ [z])" for p
        using that d snoc b pv by (cases ys) auto
    qed
    moreover have "linked h' z [] it" using \<open>z = a\<close> nx pv new snoc by auto
    ultimately show ?thesis unfolding snoc by (simp add: linked_append)
  qed
  have seg2: "linked h' it ys l"
  proof (cases ys)
    case Nil
    then show ?thesis using b nx pv new by auto
  next
    case (Cons z zs)
    then have "z = b" using b by simp
    have "linked h l (xs @ z # zs) l" using r Cons by (simp add: ring_def)
    then have "linked h z zs l" by (simp add: linked_append)
    moreover have "linked h z zs l \<longleftrightarrow> linked h' z zs l"
    proof (rule linked_cong)
      show "next_node (h p) = next_node (h' p)" if "p \<in> set (z # zs)" for p
        using that d Cons a nx by (cases xs rule: rev_cases) auto
      show "prev_node (h p) = prev_node (h' p)" if "p \<in> set (zs @ [l])" for p
        using that d Cons \<open>z = b\<close> pv by auto
    qed
    moreover have "linked h' it [] z" using \<open>z = b\<close> nx pv new Cons by auto
    ultimately show ?thesis unfolding Cons by simp
  qed
  from d seg1 seg2 show ?thesis unfolding ring_def by (simp add: linked_append)
qed

lemma ring_neighbours:
  assumes "ring h l (xs @ ys)"
  shows "prev_node (h (hd (ys @ [l]))) = last (l # xs)"
    and "next_node (h (last (l # xs))) = hd (ys @ [l])"
proof -
  have "prev_node (h (hd (ys @ [l]))) = last (l # xs) \<and>
        next_node (h (last (l # xs))) = hd (ys @ [l])"
  proof (cases ys)
    case Nil
    then show ?thesis
      using assms linked_prev [of h l xs l] linked_next [of h "last (l # xs)" "[]" l]
      by (cases xs rule: rev_cases) (auto simp: ring_def linked_append)
  next
    case (Cons z zs)
    then have "linked h l xs z" using assms by (simp add: ring_def linked_append)
    then show ?thesis using Cons linked_prev [of h l xs z]
      by (cases xs rule: rev_cases) (auto simp: linked_append)
  qed
  then show "prev_node (h (hd (ys @ [l]))) = last (l # xs)"
    and "next_node (h (last (l # xs))) = hd (ys @ [l])" by blast+
qed

lemma ring_insert_before:
  assumes "ring h l (xs @ x # ys)" and "it \<notin> set (l # xs @ x # ys)"
  shows "ring (list_node_insert_before h x it) l (xs @ it # x # ys)"
proof (rule ring_splice [OF assms refl refl])
  have p: "prev_node (h x) = last (l # xs)" using ring_neighbours(1) [OF assms(1)] by simp
  have ne: "it \<noteq> x" "it \<noteq> last (l # xs)" using assms(2) by (auto split: if_splits)
  fix p
  show "next_node (list_node_insert_before h x it p) =
      (if p = it then hd ((x # ys) @ [l]) else if p = last (l # xs) then it else next_node (h p))"
    "prev_node (list_node_insert_before h x it p) =
      (if p = it then last (l # xs) else if p = hd ((x # ys) @ [l]) then it else prev_node (h p))"
    using insert_before_fields [where h = h, OF ne(1) p ne(2)] by simp_all
qed

lemma ring_push_back:
  assumes "ring h l xs" and "it \<notin> set (l # xs)"
  shows "ring (list_push_back h l it) l (xs @ [it])"
proof -
  have r: "ring h l (xs @ [])" and new: "it \<notin> set (l # xs @ [])" using assms by simp_all
  have p: "prev_node (h l) = last (l # xs)" using ring_neighbours(1) [OF r] by simp
  have ne: "it \<noteq> l" "it \<noteq> last (l # xs)" using assms(2) by (auto split: if_splits)
  show ?thesis
    by (rule ring_splice [OF r new refl refl])
      (use insert_before_fields [where h = h, OF ne(1) p ne(2)] in \<open>simp_all add: list_push_back_def\<close>)
qed

lemma ring_push_front:
  assumes "ring h l xs" and "it \<notin> set (l # xs)"
  shows "ring (list_push_front h l it) l (it # xs)"
proof -
  have r: "ring h l ([] @ xs)" and new: "it \<notin> set (l # [] @ xs)" using assms by simp_all
  have n: "next_node (h l) = hd (xs @ [l])" using ring_neighbours(2) [OF r] by simp
  have ne: "it \<noteq> l" "it \<noteq> hd (xs @ [l])" using assms(2) by (cases xs; auto)+
  have "ring (list_push_front h l it) l ([] @ it # xs)"
    by (rule ring_splice [OF r new refl refl])
      (use insert_after_fields [where h = h, OF ne(2) n ne(1)] in \<open>simp_all add: list_push_front_def\<close>)
  then show ?thesis by simp
qed

lemma ring_insert_after:
  assumes "ring h l (xs @ x # ys)" and "it \<notin> set (l # xs @ x # ys)"
  shows "ring (list_node_insert_after h x it) l (xs @ x # it # ys)"
proof -
  have r: "ring h l ((xs @ [x]) @ ys)" and new: "it \<notin> set (l # (xs @ [x]) @ ys)" using assms by simp_all
  have n: "next_node (h x) = hd (ys @ [l])" using ring_neighbours(2) [OF r] by simp
  have ne: "it \<noteq> x" "it \<noteq> hd (ys @ [l])" using assms(2) by (cases ys; auto)+
  have "ring (list_node_insert_after h x it) l ((xs @ [x]) @ it # ys)"
    by (rule ring_splice [OF r new refl refl])
      (use insert_after_fields [where h = h, OF ne(2) n ne(1)] in simp_all)
  then show ?thesis by simp
qed

lemma ring_detach:
  assumes "ring h l (xs @ x # ys)"
  shows "ring (list_detach h x) l (xs @ ys)" and "ring (list_detach h x) x []"
proof -
  let ?a = "last (l # xs)" and ?b = "hd (ys @ [l])"
  have d: "distinct (l # xs @ x # ys)" using assms by (simp add: ring_def)
  have p: "prev_node (h x) = ?a" using ring_neighbours(1) [OF assms] by simp
  have "ring h l ((xs @ [x]) @ ys)" using assms by simp
  from ring_neighbours(2) [OF this] have n: "next_node (h x) = ?b" by simp
  have ne: "x \<noteq> ?a" "x \<noteq> ?b" using d by (cases xs rule: rev_cases; cases ys; auto)+
  note f = detach_fields [where h = h, OF p n ne]
  show "ring (list_detach h x) x []" using f by (simp add: ring_def)
  have L: "linked h l xs x" "linked h x ys l" using assms by (simp_all add: ring_def linked_append)
  have "linked (list_detach h x) l (xs @ ys) l"
  proof (cases ys)
    case Nil
    show ?thesis
    proof (cases xs rule: rev_cases)
      case Nil
      with \<open>ys = []\<close> f show ?thesis using d by auto
    next
      case (snoc zs z)
      have "linked h l zs z" using L(1) snoc by (simp add: linked_append)
      moreover have "linked h l zs z \<longleftrightarrow> linked (list_detach h x) l zs z"
        by (rule linked_cong) (use d f snoc Nil in auto)
      moreover have "linked (list_detach h x) z [] l" using f d snoc Nil by auto
      ultimately show ?thesis using snoc Nil by (simp add: linked_append)
    qed
  next
    case (Cons w ws)
    have "linked (list_detach h x) l xs w"
    proof (cases xs rule: rev_cases)
      case Nil
      then show ?thesis using f d Cons by auto
    next
      case (snoc zs z)
      have "linked h l zs z" using L(1) snoc by (simp add: linked_append)
      moreover have "linked h l zs z \<longleftrightarrow> linked (list_detach h x) l zs z"
        by (rule linked_cong) (use d f snoc Cons in auto)
      moreover have "linked (list_detach h x) z [] w" using f d snoc Cons by auto
      ultimately show ?thesis using snoc by (simp add: linked_append)
    qed
    moreover have "linked h w ws l \<longleftrightarrow> linked (list_detach h x) w ws l"
      by (rule linked_cong) (use d f Cons in \<open>cases xs rule: rev_cases; auto\<close>)+
    ultimately show ?thesis using L(2) Cons by (simp add: linked_append)
  qed
  then show "ring (list_detach h x) l (xs @ ys)" using d by (simp add: ring_def)
qed


section \<open>Rings that share no node do not disturb each other\<close>

lemma ring_head_last: "ring h l xs \<Longrightarrow> prev_node (h l) \<in> set (l # xs)"
  using ring_neighbours(1) [of h l xs "[]"] by (cases xs rule: rev_cases) auto

lemma ring_push_back_other:
  assumes "ring h l xs" and "ring h m ys" and "it \<notin> set (m # ys)"
    and "set (l # xs) \<inter> set (m # ys) = {}"
  shows "ring (list_push_back h l it) m ys"
proof -
  have "list_push_back h l it p = h p" if "p \<in> set (m # ys)" for p
    unfolding list_push_back_def
    using that assms ring_head_last [OF assms(1)] by (intro insert_before_frame) auto
  then show ?thesis using assms(2) ring_cong [of m ys] by blast
qed

lemma ring_member_neighbours:
  assumes "ring h l xs" and "x \<in> set xs"
  shows "prev_node (h x) \<in> set (l # xs)" and "next_node (h x) \<in> set (l # xs)"
proof -
  obtain as bs where xs: "xs = as @ x # bs" using assms(2) by (meson split_list)
  then have r: "ring h l (as @ x # bs)" "ring h l ((as @ [x]) @ bs)" using assms(1) by simp_all
  show "prev_node (h x) \<in> set (l # xs)"
    using ring_neighbours(1) [OF r(1)] xs by (cases as rule: rev_cases) auto
  show "next_node (h x) \<in> set (l # xs)"
    using ring_neighbours(2) [OF r(2)] xs by (cases bs) auto
qed

lemma ring_detach_other:
  assumes "ring h l xs" and "x \<in> set xs" and "ring h m ys"
    and "set (l # xs) \<inter> set (m # ys) = {}"
  shows "ring (list_detach h x) m ys"
proof -
  have "list_detach h x p = h p" if "p \<in> set (m # ys)" for p
    using that assms(2,4) ring_member_neighbours [OF assms(1,2)] by (intro detach_frame) auto
  then show ?thesis using assms(3) ring_cong [of m ys] by blast
qed

lemma ring_remove1:
  assumes "ring h l xs" and "x \<in> set xs"
  shows "ring (list_detach h x) l (remove1 x xs)"
proof -
  obtain as bs where xs: "xs = as @ x # bs" "x \<notin> set as" using assms(2) by (meson split_list_first)
  then have "remove1 x xs = as @ bs" by (simp add: remove1_append)
  with xs assms(1) ring_detach(1) [of h l as x bs] show ?thesis by simp
qed

section \<open>Walking a ring\<close>

lemma list_count_from_linked:
  assumes "linked h a xs l" and "l \<notin> set xs"
  shows "list_count_from h l (next_node (h a)) n = Some (n + of_nat (length xs))"
  using assms
proof (induction xs arbitrary: a n)
  case Nil
  then show ?case by (subst list_count_from.simps) simp
next
  case (Cons x xs)
  then have "list_count_from h l (next_node (h x)) (n + 1) = Some (n + 1 + of_nat (length xs))"
    by simp
  with Cons.prems show ?case by (subst list_count_from.simps) (auto simp: add.assoc)
qed

lemma list_count_ring: "ring h l xs \<Longrightarrow> list_count h l = Some (of_nat (length xs))"
  using list_count_from_linked [of h l xs l 0] by (simp add: list_count_def ring_def)

lemma for_each_from_linked:
  assumes "linked h a xs l" and "l \<notin> set xs"
  shows "for_each_from (\<lambda>_ h. h) h l (next_node (h a)) seen = Some (seen @ xs, h)"
  using assms
proof (induction xs arbitrary: a seen)
  case Nil
  then show ?case by (subst for_each_from.simps) simp
next
  case (Cons x xs)
  then have "for_each_from (\<lambda>_ h. h) h l (next_node (h x)) (seen @ [x]) = Some (seen @ x # xs, h)"
    by simp
  with Cons.prems show ?case by (subst for_each_from.simps) auto
qed

lemma for_each_visits: "ring h l xs \<Longrightarrow> for_each_list_element (\<lambda>_ h. h) h l = Some (xs, h)"
  using for_each_from_linked [of h l xs l "[]"]
  by (simp add: for_each_list_element_def list_first_def ring_def)

text \<open>Detaching the visited node in the safe loop empties the list and visits every node once.\<close>

lemma for_each_safe_detach_from:
  assumes "ring h l xs"
  shows "\<exists>h'. for_each_safe_from (\<lambda>n h. list_detach h n) h l (hd (xs @ [l]))
      (next_node (h (hd (xs @ [l])))) seen = Some (seen @ xs, h') \<and> ring h' l []"
  using assms
proof (induction xs arbitrary: h seen)
  case Nil
  then show ?case by (subst for_each_safe_from.simps) simp
next
  case (Cons x xs)
  let ?h = "list_detach h x"
  have r: "ring ?h l xs" using ring_detach(1) [of h l "[]" x xs] Cons.prems by simp
  have tmp: "next_node (h x) = hd (xs @ [l])"
    using Cons.prems by (auto simp: ring_def dest: linked_next)
  have "x \<noteq> l" using Cons.prems by (auto simp: ring_def)
  from Cons.IH [OF r, of "seen @ [x]"] tmp \<open>x \<noteq> l\<close> show ?case
    by (subst for_each_safe_from.simps) (simp add: Let_def)
qed

lemma for_each_safe_detach_all:
  assumes "ring h l xs"
  shows "\<exists>h'. for_each_list_element_safe (\<lambda>n h. list_detach h n) h l = Some (xs, h') \<and> ring h' l []"
  using for_each_safe_detach_from [OF assms, of "[]"] assms
  by (auto simp: for_each_list_element_safe_def list_first_def ring_def dest: linked_next)

section \<open>The contract of an intrusive list\<close>

text \<open>
  What a client of the lists relies on, free of pointers: a representation predicate, the
  effect of each operation on the abstract list, and the frame. The buddy allocator keeps
  its free blocks in such lists.
\<close>

locale intrusive_list =
  fixes repr :: "'h \<Rightarrow> 'p \<Rightarrow> 'p list \<Rightarrow> bool"
    and empty1 :: "'h \<Rightarrow> 'p \<Rightarrow> bool"
    and first1 :: "'h \<Rightarrow> 'p \<Rightarrow> 'p"
    and push1 :: "'h \<Rightarrow> 'p \<Rightarrow> 'p \<Rightarrow> 'h"
    and detach1 :: "'h \<Rightarrow> 'p \<Rightarrow> 'h"
  assumes repr_distinct: "repr h l xs \<Longrightarrow> distinct (l # xs)"
    and repr_empty: "repr h l xs \<Longrightarrow> empty1 h l \<longleftrightarrow> xs = []"
    and repr_first: "repr h l (x # xs) \<Longrightarrow> first1 h l = x"
    and repr_push: "repr h l xs \<Longrightarrow> it \<notin> set (l # xs) \<Longrightarrow> repr (push1 h l it) l (xs @ [it])"
    and repr_detach: "repr h l xs \<Longrightarrow> x \<in> set xs \<Longrightarrow> repr (detach1 h x) l (remove1 x xs)"
    and repr_push_other: "repr h l xs \<Longrightarrow> repr h m ys \<Longrightarrow> it \<notin> set (m # ys) \<Longrightarrow>
      set (l # xs) \<inter> set (m # ys) = {} \<Longrightarrow> repr (push1 h l it) m ys"
    and repr_detach_other: "repr h l xs \<Longrightarrow> x \<in> set xs \<Longrightarrow> repr h m ys \<Longrightarrow>
      set (l # xs) \<inter> set (m # ys) = {} \<Longrightarrow> repr (detach1 h x) m ys"
begin

text \<open>A family of lists, one per index, that share no node: what a set of free lists is.\<close>

definition family :: "'h \<Rightarrow> 'i set \<Rightarrow> ('i \<Rightarrow> 'p) \<Rightarrow> ('i \<Rightarrow> 'p list) \<Rightarrow> bool" where
  "family h I hd1 xss \<longleftrightarrow>
     (\<forall>i\<in>I. repr h (hd1 i) (xss i)) \<and>
     (\<forall>i\<in>I. \<forall>j\<in>I. i \<noteq> j \<longrightarrow> set (hd1 i # xss i) \<inter> set (hd1 j # xss j) = {})"

lemma family_push:
  assumes "family h I hd1 xss" and "k \<in> I" and "\<And>i. i \<in> I \<Longrightarrow> it \<notin> set (hd1 i # xss i)"
  shows "family (push1 h (hd1 k) it) I hd1 (xss(k := xss k @ [it]))"
proof -
  have r: "repr h (hd1 i) (xss i)" if "i \<in> I" for i
    using assms(1) that by (simp add: family_def)
  have dis: "set (hd1 i # xss i) \<inter> set (hd1 j # xss j) = {}" if "i \<in> I" "j \<in> I" "i \<noteq> j" for i j
    using assms(1) that by (simp add: family_def)
  show ?thesis unfolding family_def
  proof (intro conjI ballI impI)
    show "repr (push1 h (hd1 k) it) (hd1 i) ((xss(k := xss k @ [it])) i)" if "i \<in> I" for i
      using that assms(2,3) r dis [of k i] repr_push [OF r [OF assms(2)]]
        repr_push_other [OF r [OF assms(2)] r [OF that]] by (cases "i = k") auto
    show "set (hd1 i # (xss(k := xss k @ [it])) i) \<inter> set (hd1 j # (xss(k := xss k @ [it])) j) = {}"
      if "i \<in> I" "j \<in> I" "i \<noteq> j" for i j
      using that dis [of i j] assms(3) [of i] assms(3) [of j] by auto
  qed
qed

lemma family_detach:
  assumes "family h I hd1 xss" and "k \<in> I" and "x \<in> set (xss k)"
  shows "family (detach1 h x) I hd1 (xss(k := remove1 x (xss k)))"
proof -
  have r: "repr h (hd1 i) (xss i)" if "i \<in> I" for i
    using assms(1) that by (simp add: family_def)
  have dis: "set (hd1 i # xss i) \<inter> set (hd1 j # xss j) = {}" if "i \<in> I" "j \<in> I" "i \<noteq> j" for i j
    using assms(1) that by (simp add: family_def)
  have sub: "set (remove1 x (xss k)) \<subseteq> set (xss k)" by (rule set_remove1_subset)
  show ?thesis unfolding family_def
  proof (intro conjI ballI impI)
    show "repr (detach1 h x) (hd1 i) ((xss(k := remove1 x (xss k))) i)" if "i \<in> I" for i
      using that assms r dis repr_detach repr_detach_other [of h "hd1 k" "xss k" x] by (cases "i = k") auto
    show "set (hd1 i # (xss(k := remove1 x (xss k))) i) \<inter>
        set (hd1 j # (xss(k := remove1 x (xss k))) j) = {}"
      if "i \<in> I" "j \<in> I" "i \<noteq> j" for i j
      using that dis [of i j] sub by auto
  qed
qed

end

interpretation dl: intrusive_list ring list_empty list_first list_push_back list_detach
proof unfold_locales
  show "ring h l xs \<Longrightarrow> distinct (l # xs)" for h :: "'a store" and l xs
    by (simp add: ring_def)
qed (fact ring_empty_iff ring_first ring_push_back ring_remove1 ring_push_back_other
    ring_detach_other)+


section \<open>Properties\<close>

text \<open>
  C19: the list operations, on every list, the empty one included. \<^verbatim>\<open>list_init()\<close> makes an
  empty list; \<^verbatim>\<open>list_empty()\<close> tells exactly whether the list is empty and
  \<^verbatim>\<open>list_count()\<close>, whose loop ends, returns the number of nodes; \<^verbatim>\<open>list_push_back()\<close> of a
  node that is not on the list appends it and \<^verbatim>\<open>list_push_front()\<close> prepends it, and then
  \<^verbatim>\<open>list_last()\<close> and \<^verbatim>\<open>list_first()\<close> return it. Wherever a node of the list stands,
  \<^verbatim>\<open>list_node_insert_before()\<close> and \<^verbatim>\<open>list_node_insert_after()\<close> put the new node at its
  place, and \<^verbatim>\<open>list_detach()\<close> removes exactly that node and leaves it a list of its own.
\<close>

theorem list_operations_refine:
  assumes r: "ring h l xs" and new: "it \<notin> set (l # xs)"
  shows "ring (list_init h m) m [] \<and>
    (list_empty h l \<longleftrightarrow> xs = []) \<and>
    list_count h l = Some (of_nat (length xs)) \<and>
    ring (list_push_back h l it) l (xs @ [it]) \<and> list_last (list_push_back h l it) l = it \<and>
    ring (list_push_front h l it) l (it # xs) \<and> list_first (list_push_front h l it) l = it \<and>
    (\<forall>ys x zs. xs = ys @ x # zs \<longrightarrow>
       ring (list_node_insert_before h x it) l (ys @ it # x # zs) \<and>
       ring (list_node_insert_after h x it) l (ys @ x # it # zs) \<and>
       ring (list_detach h x) l (ys @ zs) \<and> ring (list_detach h x) x [])"
  using r new ring_init ring_empty_iff [OF r] list_count_ring [OF r]
    ring_push_back [OF r new, THEN ring_last] ring_push_back [OF r new]
    ring_push_front [OF r new, THEN ring_first] ring_push_front [OF r new]
  by (intro conjI allI impI) (simp_all add: ring_insert_before ring_insert_after ring_detach)

theorem list_operations_refine_witness:
  "let h = list_push_back (list_init (\<lambda>_. \<lparr>prev_node = 9, next_node = 9\<rparr>) 0) 0 (1 :: nat)
   in ring (list_push_back h 0 2) 0 [1, 2] \<and> ring (list_node_insert_after h 1 2) 0 [1, 2] \<and>
      ring (list_detach h 1) 0 [] \<and> list_count h 0 = Some 1 \<and> \<not> list_empty h 0"
proof -
  let ?h = "list_push_back (list_init (\<lambda>_. \<lparr>prev_node = 9, next_node = 9\<rparr>) 0) 0 (1 :: nat)"
  have h: "ring ?h 0 [1]"
    using ring_push_back [OF ring_init [of _ 0], of "1 :: nat"] by simp
  show ?thesis unfolding Let_def
    using list_operations_refine [OF h, of 2] by (simp add: Cons_eq_append_conv)
qed

text \<open>
  C24: iterating with \<^verbatim>\<open>for_each_list_element_safe\<close> while the body detaches each visited
  node ends, visits every node of the list once and in order, and leaves the list empty.
\<close>

theorem safe_iteration_may_detach:
  assumes "ring h l xs"
  shows "\<exists>h'. for_each_list_element_safe (\<lambda>n h. list_detach h n) h l = Some (xs, h') \<and>
    list_empty h' l"
  using for_each_safe_detach_all [OF assms] ring_empty_iff by fastforce

theorem safe_iteration_may_detach_witness:
  "\<exists>h'. for_each_list_element_safe (\<lambda>n h. list_detach h n)
      (list_push_back (list_init (\<lambda>_. \<lparr>prev_node = 9, next_node = 9\<rparr>) 0) 0 (1 :: nat)) 0
    = Some ([1], h') \<and> list_empty h' 0"
proof -
  have "ring (list_push_back (list_init (\<lambda>_. \<lparr>prev_node = 9, next_node = 9\<rparr>) 0) 0 (1 :: nat)) 0 [1]"
    using ring_push_back [OF ring_init [of _ 0], of "1 :: nat"] by simp
  then show ?thesis by (rule safe_iteration_may_detach)
qed

end
