(* ===== verification/Range.thy ===== *)
theory Range
  imports Prelude
begin

text \<open>
  \<^verbatim>\<open>include/range.h\<close>: inclusive ranges of 64-bit values and how two of them lie to each
  other. The meaning of a range is the set \<open>range_set\<close> of numbers between its ends.
\<close>

record range_pair =
  range_from :: u64
  range_to :: u64

datatype range_interact =
    RANGE_SEPARATE
  | RANGE_ADJACENT
  | RANGE_OVERLAP
  | RANGE_COINCIDE

definition range_within :: "range_pair \<Rightarrow> u64 \<Rightarrow> bool" where
  "range_within r n \<longleftrightarrow> n \<ge> range_from r \<and> n \<le> range_to r"

definition range_compare :: "range_pair \<Rightarrow> range_pair \<Rightarrow> range_interact" where
  "range_compare a b =
     (let a_from = range_within b (range_from a);
          a_to = range_within b (range_to a);
          b_from = range_within a (range_from b);
          b_to = range_within a (range_to b)
      in if (a_from \<and> a_to) \<or> (b_from \<and> b_to) then RANGE_COINCIDE
         else if b_from \<or> b_to then RANGE_OVERLAP
         else if range_to a + 1 = range_from b \<or> range_to b + 1 = range_from a then RANGE_ADJACENT
         else RANGE_SEPARATE)"

section \<open>Ranges as sets\<close>

definition range_set :: "range_pair \<Rightarrow> nat set" where
  "range_set r = {unat (range_from r) .. unat (range_to r)}"

definition proper_range :: "range_pair \<Rightarrow> bool" where
  "proper_range r \<longleftrightarrow> range_from r \<le> range_to r"

lemma range_within_iff: "range_within r n \<longleftrightarrow> unat n \<in> range_set r"
  by (simp add: range_within_def range_set_def word_le_nat_alt)

lemma unat_succ_eq: "unat x + 1 < 2 ^ 64 \<Longrightarrow> unat (x + 1 :: u64) = unat x + 1"
  using unat_plus_no_wrap [of x 1] by simp

lemma range_compare_sets:
  assumes "proper_range a" "proper_range b"
    and a: "unat (range_to a) + 1 < 2 ^ 64" and b: "unat (range_to b) + 1 < 2 ^ 64"
  shows "range_compare a b =
    (if range_set a \<subseteq> range_set b \<or> range_set b \<subseteq> range_set a then RANGE_COINCIDE
     else if range_set a \<inter> range_set b \<noteq> {} then RANGE_OVERLAP
     else if unat (range_to a) + 1 = unat (range_from b) \<or> unat (range_to b) + 1 = unat (range_from a)
     then RANGE_ADJACENT else RANGE_SEPARATE)"
proof -
  have s: "range_to a + 1 = range_from b \<longleftrightarrow> unat (range_to a) + 1 = unat (range_from b)"
    "range_to b + 1 = range_from a \<longleftrightarrow> unat (range_to b) + 1 = unat (range_from a)"
    using unat_succ_eq [OF a] unat_succ_eq [OF b] by (auto simp: word_unat_eq_iff)
  have p: "unat (range_from a) \<le> unat (range_to a)" "unat (range_from b) \<le> unat (range_to b)"
    using assms(1,2) by (simp_all add: proper_range_def word_le_nat_alt)
  show ?thesis
    unfolding range_compare_def Let_def s
    using p by (auto simp: range_within_iff range_set_def)
qed

text \<open>
  Comparing two ranges, neither of which ends at the very last 64-bit value: the
  answer is \<^verbatim>\<open>RANGE_COINCIDE\<close> exactly when one contains the other, \<^verbatim>\<open>RANGE_OVERLAP\<close>
  when they share a value otherwise, \<^verbatim>\<open>RANGE_ADJACENT\<close> when they share none but
  together leave no gap, and \<^verbatim>\<open>RANGE_SEPARATE\<close> when there is a gap between them. The
  order of the arguments does not matter.
\<close>

theorem range_compare_correct:
  assumes "proper_range a" "proper_range b" "unat (range_to a) + 1 < 2 ^ 64" "unat (range_to b) + 1 < 2 ^ 64"
  shows "(range_compare a b = RANGE_COINCIDE \<longleftrightarrow>
      range_set a \<subseteq> range_set b \<or> range_set b \<subseteq> range_set a) \<and>
    (range_compare a b \<in> {RANGE_OVERLAP, RANGE_COINCIDE} \<longleftrightarrow> range_set a \<inter> range_set b \<noteq> {}) \<and>
    (range_compare a b = RANGE_SEPARATE \<longleftrightarrow>
      (\<exists>g. g \<notin> range_set a \<union> range_set b \<and> (\<exists>x \<in> range_set a \<union> range_set b. x < g) \<and>
        (\<exists>y \<in> range_set a \<union> range_set b. g < y))) \<and>
    range_compare a b = range_compare b a"
proof -
  let ?A = "range_set a" and ?B = "range_set b"
  have p: "unat (range_from a) \<le> unat (range_to a)" "unat (range_from b) \<le> unat (range_to b)"
    using assms(1,2) by (simp_all add: proper_range_def word_le_nat_alt)
  have ne: "?A \<noteq> {}" "?B \<noteq> {}" using p by (auto simp: range_set_def)
  have gap: "(\<exists>g. g \<notin> ?A \<union> ?B \<and> (\<exists>x \<in> ?A \<union> ?B. x < g) \<and> (\<exists>y \<in> ?A \<union> ?B. g < y)) \<longleftrightarrow>
      unat (range_to a) + 1 < unat (range_from b) \<or> unat (range_to b) + 1 < unat (range_from a)"
    (is "?l \<longleftrightarrow> ?r")
  proof
    show ?l if ?r
    proof (rule disjE [OF that])
      assume "unat (range_to a) + 1 < unat (range_from b)"
      with p show ?l by (intro exI [of _ "unat (range_to a) + 1"])
        (auto simp: range_set_def intro: bexI [of _ "unat (range_to a)"] bexI [of _ "unat (range_from b)"])
    next
      assume "unat (range_to b) + 1 < unat (range_from a)"
      with p show ?l by (intro exI [of _ "unat (range_to b) + 1"])
        (auto simp: range_set_def intro: bexI [of _ "unat (range_to b)"] bexI [of _ "unat (range_from a)"])
    qed
  qed (use p in \<open>auto simp: range_set_def\<close>)
  have "range_compare a b = RANGE_COINCIDE \<longleftrightarrow> ?A \<subseteq> ?B \<or> ?B \<subseteq> ?A"
    unfolding range_compare_sets [OF assms] by simp
  moreover have "range_compare a b \<in> {RANGE_OVERLAP, RANGE_COINCIDE} \<longleftrightarrow> ?A \<inter> ?B \<noteq> {}"
    unfolding range_compare_sets [OF assms] using ne by auto
  moreover have "range_compare a b = RANGE_SEPARATE \<longleftrightarrow>
      unat (range_to a) + 1 < unat (range_from b) \<or> unat (range_to b) + 1 < unat (range_from a)"
    unfolding range_compare_sets [OF assms] using p by (auto simp: range_set_def)
  moreover have "range_compare a b = range_compare b a"
    unfolding range_compare_sets [OF assms] range_compare_sets [OF assms(2,1,4,3)] by (auto simp: Int_commute)
  ultimately show ?thesis unfolding gap by blast
qed

theorem range_compare_correct_witness:
  "range_compare \<lparr>range_from = 0, range_to = 9\<rparr> \<lparr>range_from = 10, range_to = 12\<rparr> = RANGE_ADJACENT \<and>
   range_compare \<lparr>range_from = 10, range_to = 12\<rparr> \<lparr>range_from = 0, range_to = 9\<rparr> = RANGE_ADJACENT"
proof -
  have "range_compare \<lparr>range_from = 0, range_to = 9\<rparr> \<lparr>range_from = 10, range_to = 12\<rparr> = RANGE_ADJACENT"
    by code_simp
  with range_compare_correct [of "\<lparr>range_from = 0, range_to = 9\<rparr>" "\<lparr>range_from = 10, range_to = 12\<rparr>"]
  show ?thesis by (simp add: proper_range_def)
qed

end
