(* ===== verification/Memory.thy ===== *)
theory Memory
  imports Macros
begin

text \<open>
  Byte-addressed memory, the accesses the kernel makes to it, and the functions of
  \<^verbatim>\<open>include/string.h\<close>. Memory is a function from 64-bit virtual addresses to bytes;
  an aligned \<^verbatim>\<open>uint64_t\<close> access (a page table entry) reads or writes eight of them,
  little end first, as x86-64 does. \<^verbatim>\<open>memset\<close> and \<^verbatim>\<open>memcpy\<close> are the naive byte loops
  of the source, so copying between overlapping buffers is what those loops do.

  The locale \<open>cell_memory\<close> is what a client of 64-bit cells needs (a store is read back,
  and does not disturb other cells); byte memory with aligned accesses interprets it.
\<close>

type_synonym memory = "u64 \<Rightarrow> u8"

section \<open>64-bit accesses\<close>

definition load64 :: "memory \<Rightarrow> u64 \<Rightarrow> u64" where
  "load64 m a = fold (\<lambda>i w. w OR push_bit (8 * i) (ucast (m (a + of_nat i)))) [0..<8] 0"

definition load16 :: "memory \<Rightarrow> u64 \<Rightarrow> u16" where
  "load16 m a = fold (\<lambda>i w. w OR push_bit (8 * i) (ucast (m (a + of_nat i)))) [0..<2] 0"

definition load32 :: "memory \<Rightarrow> u64 \<Rightarrow> u32" where
  "load32 m a = fold (\<lambda>i w. w OR push_bit (8 * i) (ucast (m (a + of_nat i)))) [0..<4] 0"

definition store64 :: "memory \<Rightarrow> u64 \<Rightarrow> u64 \<Rightarrow> memory" where
  "store64 m a v = fold (\<lambda>i m. m(a + of_nat i := ucast (drop_bit (8 * i) v))) [0..<8] m"

definition store32 :: "memory \<Rightarrow> u64 \<Rightarrow> u32 \<Rightarrow> memory" where
  "store32 m a v = fold (\<lambda>i m. m(a + of_nat i := ucast (drop_bit (8 * i) v))) [0..<4] m"

section \<open>include/string.h\<close>

definition memset :: "memory \<Rightarrow> u64 \<Rightarrow> u32 \<Rightarrow> u64 \<Rightarrow> memory" where
  "memset m dest chr count = fold (\<lambda>i m. m(dest + of_nat i := ucast chr)) [0..<unat count] m"

definition memcpy :: "memory \<Rightarrow> u64 \<Rightarrow> u64 \<Rightarrow> u64 \<Rightarrow> memory" where
  "memcpy m dest src n =
     fold (\<lambda>i m. m(dest + of_nat i := m (src + of_nat i))) [0..<unat n] m"

text \<open>The scanning loops end at a null byte; without one in memory they need not end.\<close>

partial_function (option) strlen_from :: "memory \<Rightarrow> u64 \<Rightarrow> u64 \<Rightarrow> u64 option" where
  "strlen_from m str len =
     (if m str \<noteq> 0 then strlen_from m (str + 1) (len + 1) else Some len)"

definition strlen :: "memory \<Rightarrow> u64 \<Rightarrow> u64 option" where
  "strlen m str = strlen_from m str 0"

text \<open>\<^verbatim>\<open>char\<close> is signed on x86-64, so the difference is one of sign-extended bytes.\<close>

partial_function (option) strcmp :: "memory \<Rightarrow> u64 \<Rightarrow> u64 \<Rightarrow> int option" where
  "strcmp m a b =
     (if m a \<noteq> 0 \<and> m b \<noteq> 0 \<and> m a = m b then strcmp m (a + 1) (b + 1)
      else Some (sint (m a) - sint (m b)))"

section \<open>64-bit accesses, bit by bit\<close>

lemma bit_load64_upto:
  fixes m :: memory
  shows "k \<le> 8 \<Longrightarrow>
   bit (fold (\<lambda>i w. w OR push_bit (8 * i) (ucast (m (a + of_nat i)))) [0..<k] 0 :: u64) n \<longleftrightarrow>
   n < 8 * k \<and> bit (m (a + of_nat (n div 8))) (n mod 8)"
proof (induction k)
  case 0
  then show ?case by simp
next
  case (Suc k)
  let ?b = "m (a + of_nat k)"
  have "bit (push_bit (8 * k) (ucast ?b) :: u64) n \<longleftrightarrow>
      8 * k \<le> n \<and> n < 8 * Suc k \<and> bit ?b (n - 8 * k)"
    using Suc.prems bit_imp_le_length [of ?b "n - 8 * k"] by (auto simp: bit_simps)
  moreover have "n div 8 = k \<and> n mod 8 = n - 8 * k" if "8 * k \<le> n" "n < 8 * Suc k"
  proof -
    have "n div 8 = k" using that by (intro div_nat_eqI) simp_all
    then show ?thesis by (metis minus_mult_div_eq_mod)
  qed
  ultimately show ?case using Suc by (auto simp: bit_or_iff)
qed

lemma bit_load64: "bit (load64 m a) n \<longleftrightarrow> n < 64 \<and> bit (m (a + of_nat (n div 8))) (n mod 8)"
  unfolding load64_def using bit_load64_upto [of 8 m a n] by simp

lemma load64_zero_byte:
  assumes "load64 m a = 0" "i < 8"
  shows "m (a + of_nat i) = 0"
proof (rule bit_word_eqI)
  fix n assume "n < LENGTH(8)"
  then have n: "n < 8" by simp
  then have "(8 * i + n) div 8 = i" "(8 * i + n) mod 8 = n" by auto
  then show "bit (m (a + of_nat i)) n = bit 0 n" using bit_load64 [of m a "8 * i + n"] assms n by simp
qed

lemma offset_eq_iff:
  fixes x a :: u64
  assumes "k < 2 ^ 64"
  shows "x = a + of_nat k \<longleftrightarrow> unat (x - a) = k"
proof
  assume "x = a + of_nat k"
  then have "x - a = of_nat k" by simp
  then show "unat (x - a) = k" using assms by (simp add: unat_of_nat_lt)
next
  assume "unat (x - a) = k"
  then have "x - a = of_nat k" by auto
  then show "x = a + of_nat k" by (simp add: diff_eq_eq add.commute)
qed

text \<open>A loop of byte writes changes the bytes at distance less than its bound, and no other.\<close>

lemma fold_bytes:
  fixes x :: u64 and m :: memory
  assumes "k \<le> 2 ^ 64"
  shows "fold (\<lambda>i m. m(a + of_nat i := f i)) [0..<k] m x =
    (if unat (x - a) < k then f (unat (x - a)) else m x)"
  using assms
proof (induction k)
  case 0
  then show ?case by simp
next
  case (Suc k)
  have "x = a + of_nat k \<longleftrightarrow> unat (x - a) = k" using Suc.prems by (intro offset_eq_iff) simp
  with Suc show ?case by (auto simp: less_Suc_eq)
qed

lemma store64_byte:
  "store64 m a v x = (if unat (x - a) < 8 then ucast (drop_bit (8 * unat (x - a)) v) else m x)"
  unfolding store64_def by (rule fold_bytes) simp

lemma store32_byte:
  "store32 m a v x = (if unat (x - a) < 4 then ucast (drop_bit (8 * unat (x - a)) v) else m x)"
  unfolding store32_def by (rule fold_bytes) simp

lemma memset_byte:
  "memset m dest chr count x = (if unat (x - dest) < unat count then ucast chr else m x)"
  unfolding memset_def by (rule fold_bytes) (use unat_lt_u64 [of count] in simp)

lemma load64_store64_same: "load64 (store64 m a v) a = v"
proof (rule bit_word_eqI)
  fix n
  assume "n < LENGTH(64)"
  then have d: "n div 8 < 8" "unat (of_nat (n div 8) :: u64) = n div 8"
    by (auto intro!: unat_of_nat_lt)
  have "8 * (n div 8) + n mod 8 = n" by simp
  then show "bit (load64 (store64 m a v) a) n \<longleftrightarrow> bit v n"
    using d \<open>n < LENGTH(64)\<close> by (simp add: bit_load64 store64_byte bit_simps)
qed

lemma unat_diff_wrap:
  "unat (b - a) = (if unat a \<le> unat b then unat b - unat a else unat b + 2 ^ 64 - unat a)" for a b :: u64
  using unat_sub_if' [of b a] by simp

definition cells_apart :: "u64 \<Rightarrow> u64 \<Rightarrow> bool" where
  "cells_apart a b \<longleftrightarrow> 8 \<le> unat (b - a) \<and> 8 \<le> unat (a - b)"

lemma apart_byte:
  assumes "cells_apart a b" and "i < 8"
  shows "8 \<le> unat (b + of_nat i - a)"
proof -
  have u: "unat (of_nat i :: u64) = i" using assms(2) by (intro unat_of_nat_lt) simp
  have eq: "b + of_nat i - a = (b - a) + of_nat i" by simp
  show ?thesis
  proof (cases "unat (b - a) + i < 2 ^ 64")
    case True
    then have "unat ((b - a) + of_nat i) = unat (b - a) + i"
      using u by (subst unat_plus_no_wrap) simp_all
    then show ?thesis unfolding eq using assms by (simp add: cells_apart_def)
  next
    case False
    then have "unat (b - a) + 8 > 2 ^ 64" using assms(2) by simp
    moreover have "unat (a - b) + unat (b - a) \<le> 2 ^ 64"
        using unat_lt_u64 [of a] unat_lt_u64 [of b]
      by (cases "unat a = unat b") (auto simp: unat_diff_wrap)
    ultimately show ?thesis using assms(1) by (simp add: cells_apart_def)
  qed
qed

lemma load64_store64_apart: "cells_apart a b \<Longrightarrow> load64 (store64 m a v) b = load64 m b"
proof (rule bit_word_eqI)
  fix n
  assume ap: "cells_apart a b" and "n < LENGTH(64)"
  then have "n div 8 < 8" by auto
  then show "bit (load64 (store64 m a v) b) n = bit (load64 m b) n"
    using apart_byte [OF ap, of "n div 8"] by (simp add: bit_load64 store64_byte)
qed

lemma aligned_cells_apart:
  assumes "8 dvd unat a" and "8 dvd unat b" and "a \<noteq> b"
  shows "cells_apart a b"
proof -
  have ne: "unat a \<noteq> unat b" using assms(3) by (simp add: word_unat_eq_iff)
  have far: "8 \<le> unat y - unat x \<and> 8 \<le> unat x + 2 ^ 64 - unat y"
    if xy: "unat x < unat y" "8 dvd unat x" "8 dvd unat y" for x y :: u64
  proof -
    obtain i j where ij: "unat x = 8 * i" "unat y = 8 * j" using xy(2,3) by (metis dvdE)
    have "j < 2305843009213693952" using unat_lt_u64 [of y] ij by simp
    moreover have "8 * i + 8 \<le> 8 * j" using ij xy(1) by simp
    ultimately show ?thesis unfolding ij by auto
  qed
  show ?thesis
    using far [of a b] far [of b a] ne assms
    by (auto simp: cells_apart_def unat_diff_wrap)
qed

section \<open>The contract of 64-bit cells\<close>

locale cell_memory =
  fixes load :: "'m \<Rightarrow> 'a \<Rightarrow> 'v"
    and store :: "'m \<Rightarrow> 'a \<Rightarrow> 'v \<Rightarrow> 'm"
    and cell :: "'a \<Rightarrow> bool"
  assumes load_same: "load (store m a v) a = v"
    and load_other: "cell a \<Longrightarrow> cell b \<Longrightarrow> a \<noteq> b \<Longrightarrow> load (store m a v) b = load m b"
begin

lemma load_store: "cell a \<Longrightarrow> cell b \<Longrightarrow> load (store m a v) b = (if b = a then v else load m b)"
  using load_same load_other by simp

lemma load_store_twice:
  "cell a \<Longrightarrow> cell b \<Longrightarrow> cell c \<Longrightarrow> a \<noteq> b \<Longrightarrow>
    load (store (store m a v) b w) c = load (store (store m b w) a v) c"
  by (simp add: load_store)

end

interpretation mem: cell_memory load64 store64 "\<lambda>a. 8 dvd unat a"
  by unfold_locales (simp_all add: load64_store64_same load64_store64_apart aligned_cells_apart)

section \<open>Filling and copying\<close>

lemma fold_load_zero:
  "\<forall>i \<in> set is. m (a + of_nat i) = 0 \<Longrightarrow>
    fold (\<lambda>i w. w OR push_bit (8 * i) (ucast (m (a + of_nat i :: u64) :: u8))) is 0 = (0 :: 'w :: len word)"
  by (induction "is") simp_all

lemma load_zero:
  assumes "\<And>i. i < n \<Longrightarrow> m (a + of_nat i) = 0"
  shows "n = 2 \<Longrightarrow> load16 m a = 0" "n = 4 \<Longrightarrow> load32 m a = 0" "n = 8 \<Longrightarrow> load64 m a = 0"
  unfolding load16_def load32_def load64_def by (rule fold_load_zero; use assms in simp)+

lemma load64_memset_zero:
  assumes "unat (a - dest) + 8 \<le> unat count"
  shows "load64 (memset m dest 0 count) a = 0"
proof (rule bit_word_eqI)
  fix n
  assume "n < LENGTH(64)"
  then have n: "n div 8 < 8" "unat (of_nat (n div 8) :: u64) = n div 8"
    by (auto intro!: unat_of_nat_lt)
  have eq: "a + of_nat (n div 8) - dest = (a - dest) + of_nat (n div 8)" by simp
  have "unat (a + of_nat (n div 8) - dest) = unat (a - dest) + n div 8"
    unfolding eq using n assms unat_lt_u64 [of count]
    by (subst unat_plus_no_wrap) simp_all
  with n assms show "bit (load64 (memset m dest 0 count) a) n \<longleftrightarrow> bit (0 :: u64) n"
    by (simp add: bit_load64 memset_byte)
qed

lemma load64_memset_outside:
  assumes "\<And>i. i < 8 \<Longrightarrow> unat count \<le> unat (a + of_nat i - dest)"
  shows "load64 (memset m dest c count) a = load64 m a"
proof (rule bit_word_eqI)
  fix n
  assume "n < LENGTH(64)"
  then have "n div 8 < 8" by auto
  from assms [OF this] show "bit (load64 (memset m dest c count) a) n \<longleftrightarrow> bit (load64 m a) n"
    by (simp add: bit_load64 memset_byte)
qed

text \<open>
  The forward copy moves a buffer correctly even onto an overlapping destination, as long as
  the destination does not start inside the source.
\<close>

lemma memcpy_upto:
  fixes x :: u64 and m :: memory
  assumes "k \<le> 2 ^ 64" and apart: "\<And>j. j < k \<Longrightarrow> unat (src + of_nat j - dest) < k \<Longrightarrow> j \<le> unat (src + of_nat j - dest)"
  shows "fold (\<lambda>i m. m(dest + of_nat i := m (src + of_nat i))) [0..<k] m x =
    (if unat (x - dest) < k then m (src + of_nat (unat (x - dest))) else m x)"
  using assms
proof (induction k arbitrary: x)
  case 0
  then show ?case by simp
next
  case (Suc k)
  define f where "f = (\<lambda>i (m :: memory). m(dest + of_nat i := m (src + of_nat i)))"
  define m' where "m' = fold f [0..<k] m"
  have ap: "j \<le> unat (src + of_nat j - dest)" if "j < k" "unat (src + of_nat j - dest) < k" for j
    using Suc.prems(2) [of j] that by simp
  have IH: "m' x = (if unat (x - dest) < k then m (src + of_nat (unat (x - dest))) else m x)" for x
    unfolding m'_def f_def by (rule Suc.IH) (use Suc.prems(1) ap in simp_all)
  have src: "m' (src + of_nat k) = m (src + of_nat k)"
    using Suc.prems(2) [of k] by (auto simp: IH)
  have "fold f [0..<Suc k] m x = (if unat (x - dest) = k then m (src + of_nat k) else m' x)"
    using src offset_eq_iff [of k x dest] Suc.prems(1) by (simp add: f_def m'_def)
  also have "\<dots> = (if unat (x - dest) < Suc k then m (src + of_nat (unat (x - dest))) else m x)"
    by (auto simp: IH less_Suc_eq)
  finally show ?case unfolding f_def .
qed


text \<open>A destination that does not start strictly inside the source meets that condition.\<close>

lemma forward_apart:
  fixes src dest :: u64
  assumes "dest = src \<or> k \<le> unat (dest - src)" and "j < k" and "k < 2 ^ 64"
    and "unat (src + of_nat j - dest) < k"
  shows "j \<le> unat (src + of_nat j - dest)"
proof (rule ccontr)
  assume "\<not> j \<le> unat (src + of_nat j - dest)"
  then have lt: "unat (src + of_nat j - dest) < j" by simp
  define e where "e = unat (src + of_nat j - dest)"
  have "src + of_nat j - dest = of_nat e" by (simp add: e_def)
  then have "dest - src = of_nat j - of_nat e" by (simp add: algebra_simps)
  also have "\<dots> = of_nat (j - e)" using lt by (simp add: e_def of_nat_diff)
  finally have "unat (dest - src) = j - e" using assms(2,3) by (simp add: unat_of_nat_lt)
  moreover have "j - e \<noteq> 0" using lt by (simp add: e_def)
  ultimately show False using assms(1,2) by auto
qed

lemma memcpy_forward:
  assumes "dest = src \<or> unat n \<le> unat (dest - src)"
  shows "memcpy m dest src n x = (if unat (x - dest) < unat n then m (src + (x - dest)) else m x)"
proof -
  have n: "unat n < 2 ^ 64" using unat_lt_u64 [of n] by simp
  have "memcpy m dest src n x =
      (if unat (x - dest) < unat n then m (src + of_nat (unat (x - dest))) else m x)"
    unfolding memcpy_def
    by (rule memcpy_upto) (use n forward_apart [OF assms _ n] in auto)
  then show ?thesis by simp
qed

section \<open>Null-terminated strings\<close>

fun cstr_at :: "memory \<Rightarrow> u64 \<Rightarrow> u8 list \<Rightarrow> bool" where
  "cstr_at m p [] \<longleftrightarrow> m p = 0"
| "cstr_at m p (c # cs) \<longleftrightarrow> m p = c \<and> c \<noteq> 0 \<and> cstr_at m (p + 1) cs"

lemma strlen_from_cstr:
  "cstr_at m p cs \<Longrightarrow> strlen_from m p n = Some (n + of_nat (length cs))"
proof (induction cs arbitrary: p n)
  case Nil
  then show ?case by (subst strlen_from.simps) simp
next
  case (Cons c cs)
  then have "strlen_from m (p + 1) (n + 1) = Some (n + 1 + of_nat (length cs))" by simp
  with Cons.prems show ?case by (subst strlen_from.simps) (auto simp: add.assoc)
qed

lemma strcmp_step:
  "strcmp m a b = (if m a \<noteq> 0 \<and> m a = m b then strcmp m (a + 1) (b + 1)
      else Some (sint (m a) - sint (m b)))"
  by (subst strcmp.simps) auto

lemma strcmp_cstr:
  "cstr_at m p cs \<Longrightarrow> cstr_at m q ds \<Longrightarrow> \<exists>r. strcmp m p q = Some r \<and> (r = 0 \<longleftrightarrow> cs = ds)"
proof (induction cs arbitrary: p q ds)
  case Nil
  then show ?case by (cases ds) (subst strcmp_step, auto simp: signed_eq_0_iff)+
next
  case (Cons c cs)
  show ?case
  proof (cases ds)
    case Nil
    with Cons.prems show ?thesis by (subst strcmp_step) (auto simp: signed_eq_0_iff)
  next
    case (Cons d ds')
    with Cons.prems Cons.IH [of "p + 1" "q + 1" ds'] show ?thesis
      by (subst strcmp_step) (auto dest: signed_word_eqI)
  qed
qed

section \<open>Properties\<close>

text \<open>
  \<^verbatim>\<open>memcpy()\<close> copies forward byte by byte. Whenever the destination is not strictly
  inside the source buffer (disjoint buffers, equal ones, or a destination below an
  overlapping source, which is how the video console scrolls), every destination byte
  ends up as the source byte was before the call, and no other byte changes.
\<close>

theorem memcpy_copies:
  assumes "dest = src \<or> unat n \<le> unat (dest - src)"
  shows "memcpy m dest src n x =
    (if unat (x - dest) < unat n then m (src + (x - dest)) else m x)"
  using assms by (rule memcpy_forward)

theorem memcpy_copies_witness:
  "memcpy (\<lambda>a. ucast a) 100 260 4000 3900 =
    (if unat (3900 - 100 :: u64) < unat (4000 :: u64)
     then (\<lambda>a. ucast a) (260 + (3900 - 100) :: u64) else (\<lambda>a. ucast a) (3900 :: u64))"
  by (rule memcpy_copies) simp

text \<open>
  On null-terminated strings the scanning loops of \<^verbatim>\<open>include/string.h\<close> end:
  \<^verbatim>\<open>strlen()\<close> returns the number of bytes before the null, and \<^verbatim>\<open>strcmp()\<close> returns 0
  exactly when the two strings are equal.
\<close>

theorem string_scans_correct:
  assumes "cstr_at m p cs" and "cstr_at m q ds"
  shows "strlen m p = Some (of_nat (length cs)) \<and>
    (\<exists>r. strcmp m p q = Some r \<and> (r = 0 \<longleftrightarrow> cs = ds))"
  using strlen_from_cstr [OF assms(1), of 0] strcmp_cstr [OF assms] by (simp add: strlen_def)

theorem string_scans_correct_witness:
  "let m = (\<lambda>_. 0)(8 := 65, 9 := 66, 64 := 65) :: memory
   in strlen m 8 = Some (of_nat (length [65, 66 :: u8])) \<and>
     (\<exists>r. strcmp m 8 64 = Some r \<and> (r = 0 \<longleftrightarrow> [65, 66 :: u8] = [65]))"
  unfolding Let_def by (rule string_scans_correct) simp_all

end
