(* ===== verification/Page.thy ===== *)
theory Page
  imports Memory
begin

text \<open>
  Addresses, page table entries and their flags: \<^verbatim>\<open>include/page.h\<close> and the constants
  it takes from \<^verbatim>\<open>include/mm_defs.h\<close> and \<^verbatim>\<open>x86-consts.h\<close>. The wrapper structs
  (\<^verbatim>\<open>physaddr_t\<close>, \<^verbatim>\<open>virtaddr_t\<close>, \<^verbatim>\<open>pfn_t\<close>, \<^verbatim>\<open>pgde_t\<close>, \<dots>) hold one 64-bit
  word each and are that word here; \<^verbatim>\<open>map_flags_t\<close>, a 32-bit enumeration all of whose values are
  below \<open>2 ^ 32\<close>, is a 64-bit word as well. Page tables live in physical memory and are reached
  through the direct mapping, so an entry of the table at physical address \<open>t\<close> is the
  64-bit cell at virtual address \<^verbatim>\<open>KERNEL_DIRECT_MAP_BASE\<close> \<open>+ t + 8 * index\<close>.

  The lemmas show that the four indices and the offset of a virtual address are its bit
  fields and that \<^verbatim>\<open>encode_virt\<close> is their inverse, how an address advances by pages,
  and that an entry written by one of the assign functions is read back as it was meant.
\<close>

type_synonym physaddr_t = u64
type_synonym virtaddr_t = u64
type_synonym pfn_t = u64
type_synonym map_flags_t = u64

section \<open>Constants\<close>

abbreviation (input) PAGE_SHIFT :: nat where "PAGE_SHIFT \<equiv> 12"
abbreviation (input) PMD_SHIFT :: nat where "PMD_SHIFT \<equiv> 21"
abbreviation (input) PUD_SHIFT :: nat where "PUD_SHIFT \<equiv> 30"
abbreviation (input) PGD_SHIFT :: nat where "PGD_SHIFT \<equiv> 39"
abbreviation (input) PHYS_ADDR_BITS :: nat where "PHYS_ADDR_BITS \<equiv> 48"

definition PAGE_SIZE :: u64 where "PAGE_SIZE = BIT_MASK PAGE_SHIFT"
definition PAGE_MASK :: u64 where "PAGE_MASK = BIT_MASK_BELOW PAGE_SHIFT"
definition PHYS_ADDR_MASK :: u64 where "PHYS_ADDR_MASK = BIT_MASK_BELOW PHYS_ADDR_BITS"
definition PGD_SIZE :: u64 where "PGD_SIZE = BIT_MASK PGD_SHIFT"
definition PAGE_SIZE_1GIB :: u64 where "PAGE_SIZE_1GIB = BIT_MASK PUD_SHIFT"
definition PAGE_SIZE_2MIB :: u64 where "PAGE_SIZE_2MIB = BIT_MASK PMD_SHIFT"
definition PAGE_MASK_1GIB :: u64 where "PAGE_MASK_1GIB = BIT_MASK_BELOW PUD_SHIFT"
definition PAGE_MASK_2MIB :: u64 where "PAGE_MASK_2MIB = BIT_MASK_BELOW PMD_SHIFT"

definition PAGE_TABLE_PHYS_ADDR_MASK :: u64 where
  "PAGE_TABLE_PHYS_ADDR_MASK = PHYS_ADDR_MASK AND BIT_MASK_ABOVE PAGE_SHIFT"
definition PAGE_TABLE_PHYS_ADDR_MASK_2MIB :: u64 where
  "PAGE_TABLE_PHYS_ADDR_MASK_2MIB = PHYS_ADDR_MASK AND BIT_MASK_ABOVE PMD_SHIFT"
definition PAGE_TABLE_PHYS_ADDR_MASK_1GIB :: u64 where
  "PAGE_TABLE_PHYS_ADDR_MASK_1GIB = PHYS_ADDR_MASK AND BIT_MASK_ABOVE PUD_SHIFT"
definition PAGE_DIR_INDEX_MASK :: u64 where "PAGE_DIR_INDEX_MASK = BIT_MASK_BELOW 9"

abbreviation (input) PAGE_FLAG_PRESENT_BIT :: nat where "PAGE_FLAG_PRESENT_BIT \<equiv> 0"
abbreviation (input) PAGE_FLAG_PSE_BIT :: nat where "PAGE_FLAG_PSE_BIT \<equiv> 7"
definition PAGE_FLAG_PRESENT :: u64 where "PAGE_FLAG_PRESENT = BIT_MASK 0"
definition PAGE_FLAG_RW :: u64 where "PAGE_FLAG_RW = BIT_MASK 1"
definition PAGE_FLAG_USER :: u64 where "PAGE_FLAG_USER = BIT_MASK 2"
definition PAGE_FLAG_WRITE_THROUGH :: u64 where "PAGE_FLAG_WRITE_THROUGH = BIT_MASK 3"
definition PAGE_FLAG_UNCACHED :: u64 where "PAGE_FLAG_UNCACHED = BIT_MASK 4"
definition PAGE_FLAG_ACCESSED :: u64 where "PAGE_FLAG_ACCESSED = BIT_MASK 5"
definition PAGE_FLAG_DIRTY :: u64 where "PAGE_FLAG_DIRTY = BIT_MASK 6"
definition PAGE_FLAG_PSE :: u64 where "PAGE_FLAG_PSE = BIT_MASK 7"
definition PAGE_FLAG_GLOBAL :: u64 where "PAGE_FLAG_GLOBAL = BIT_MASK 8"
definition PAGE_FLAG_NX :: u64 where "PAGE_FLAG_NX = BIT_MASK 63"
definition PAGE_FLAG_DEFAULT :: u64 where "PAGE_FLAG_DEFAULT = PAGE_FLAG_PRESENT OR PAGE_FLAG_RW"
definition PAGE_FLAG_KERNEL :: u64 where "PAGE_FLAG_KERNEL = PAGE_FLAG_DEFAULT OR PAGE_FLAG_GLOBAL"
definition PAGE_TABLE_FLAG_MASK :: u64 where
  "PAGE_TABLE_FLAG_MASK = BIT_MASK_BELOW PAGE_SHIFT OR PAGE_FLAG_NX"

lemmas page_flag_defs = PAGE_FLAG_PRESENT_def PAGE_FLAG_RW_def PAGE_FLAG_USER_def
  PAGE_FLAG_WRITE_THROUGH_def PAGE_FLAG_UNCACHED_def PAGE_FLAG_ACCESSED_def PAGE_FLAG_DIRTY_def
  PAGE_FLAG_PSE_def PAGE_FLAG_GLOBAL_def PAGE_FLAG_NX_def PAGE_FLAG_DEFAULT_def
  PAGE_FLAG_KERNEL_def

lemmas page_mask_defs = PAGE_SIZE_def PAGE_MASK_def PHYS_ADDR_MASK_def PGD_SIZE_def
  PAGE_SIZE_1GIB_def PAGE_SIZE_2MIB_def PAGE_MASK_1GIB_def PAGE_MASK_2MIB_def
  PAGE_TABLE_PHYS_ADDR_MASK_def PAGE_TABLE_PHYS_ADDR_MASK_2MIB_def
  PAGE_TABLE_PHYS_ADDR_MASK_1GIB_def PAGE_DIR_INDEX_MASK_def PAGE_TABLE_FLAG_MASK_def

definition NUM_PAGE_TABLE_ENTRIES :: nat where "NUM_PAGE_TABLE_ENTRIES = 512"
definition NUM_PAGES_PTD :: u64 where "NUM_PAGES_PTD = 512"
definition NUM_PAGES_PMD :: u64 where "NUM_PAGES_PMD = 512 * NUM_PAGES_PTD"
definition NUM_PAGES_PUD :: u64 where "NUM_PAGES_PUD = 512 * NUM_PAGES_PMD"

definition KERNEL_DIRECT_MAP_BASE :: u64 where "KERNEL_DIRECT_MAP_BASE = 0xffff800000000000"
definition APIC_BASE_ADDRESS :: u64 where "APIC_BASE_ADDRESS = 0xffffc10040000000"
definition KERNEL_ELF_ADDRESS_PHYS :: u64 where "KERNEL_ELF_ADDRESS_PHYS = 0x1000000"
definition KERNEL_ELF_ADDRESS :: u64 where
  "KERNEL_ELF_ADDRESS = 0xffffc00000000000 + KERNEL_ELF_ADDRESS_PHYS"

section \<open>Mapping flags\<close>

definition MAP_KERNEL :: map_flags_t where "MAP_KERNEL = 1"
definition MAP_KERNEL_NOGLOBAL :: map_flags_t where "MAP_KERNEL_NOGLOBAL = 2"
definition MAP_DEVICE :: map_flags_t where "MAP_DEVICE = 3"
definition MAP_FLAG_MODE_MASK :: map_flags_t where "MAP_FLAG_MODE_MASK = BIT_MASK_BELOW 10"
definition MAP_CODE :: map_flags_t where "MAP_CODE = BIT_MASK (10 + 0)"
definition MAP_READONLY :: map_flags_t where "MAP_READONLY = BIT_MASK (10 + 1)"
definition MAP_SKIP_IF_MAPPED :: map_flags_t where "MAP_SKIP_IF_MAPPED = BIT_MASK (10 + 2)"

lemmas map_flag_defs = MAP_KERNEL_def MAP_KERNEL_NOGLOBAL_def MAP_DEVICE_def
  MAP_FLAG_MODE_MASK_def MAP_CODE_def MAP_READONLY_def MAP_SKIP_IF_MAPPED_def

datatype page_level_t = PGD | PUD | PMD | PTD

definition map_flags_to_page_flags :: "map_flags_t \<Rightarrow> u64" where
  "map_flags_to_page_flags map_flags =
     (let mode = map_flags AND MAP_FLAG_MODE_MASK;
          finish = (\<lambda>flags0.
            let flags1 = (if \<not> IS_MASK_SET map_flags MAP_CODE then flags0 OR PAGE_FLAG_NX else flags0)
            in if IS_MASK_SET map_flags MAP_READONLY then flags1 XOR PAGE_FLAG_RW else flags1)
      in if mode = MAP_KERNEL then finish PAGE_FLAG_KERNEL
         else if mode = MAP_KERNEL_NOGLOBAL then finish PAGE_FLAG_DEFAULT
         else if mode = MAP_DEVICE
           then finish (PAGE_FLAG_DEFAULT OR PAGE_FLAG_UNCACHED OR PAGE_FLAG_WRITE_THROUGH)
         else 0)"

section \<open>Addresses\<close>

definition bytes_to_pages :: "u64 \<Rightarrow> u64" where
  "bytes_to_pages bytes = drop_bit PAGE_SHIFT (ALIGN_UP bytes PAGE_SIZE)"

definition phys_to_virt :: "physaddr_t \<Rightarrow> virtaddr_t" where
  "phys_to_virt addr = KERNEL_DIRECT_MAP_BASE + addr"

definition phys_to_virt_ptr :: "physaddr_t \<Rightarrow> u64" where
  "phys_to_virt_ptr addr = phys_to_virt addr"

definition virt_to_phys :: "virtaddr_t \<Rightarrow> physaddr_t" where
  "virt_to_phys va =
     (let offset = (if va > KERNEL_ELF_ADDRESS then KERNEL_ELF_ADDRESS else KERNEL_DIRECT_MAP_BASE)
      in va - offset)"

definition virt_ptr_to_phys :: "u64 \<Rightarrow> physaddr_t" where
  "virt_ptr_to_phys ptr = virt_to_phys ptr"

definition zero_page :: "memory \<Rightarrow> physaddr_t \<Rightarrow> memory" where
  "zero_page m pa = memset m (phys_to_virt_ptr pa) 0 PAGE_SIZE"

definition phys_to_pfn :: "physaddr_t \<Rightarrow> pfn_t" where
  "phys_to_pfn pa = drop_bit PAGE_SHIFT pa"

definition pfn_to_phys :: "pfn_t \<Rightarrow> physaddr_t" where
  "pfn_to_phys pfn = push_bit PAGE_SHIFT pfn"

definition phys_next_page :: "physaddr_t \<Rightarrow> physaddr_t" where
  "phys_next_page pa = pfn_to_phys (phys_to_pfn pa + 1)"

definition phys_prev_page :: "physaddr_t \<Rightarrow> physaddr_t" where
  "phys_prev_page pa = pfn_to_phys (phys_to_pfn pa - 1)"

definition virt_next_page :: "virtaddr_t \<Rightarrow> virtaddr_t" where
  "virt_next_page va = push_bit PAGE_SHIFT (drop_bit PAGE_SHIFT va + 1)"

definition virt_data_offset :: "virtaddr_t \<Rightarrow> u64" where
  "virt_data_offset addr = addr AND PAGE_MASK"

definition virt_ptde_index :: "virtaddr_t \<Rightarrow> u64" where
  "virt_ptde_index addr = drop_bit PAGE_SHIFT addr AND PAGE_DIR_INDEX_MASK"

definition virt_pmde_index :: "virtaddr_t \<Rightarrow> u64" where
  "virt_pmde_index addr = drop_bit PMD_SHIFT addr AND PAGE_DIR_INDEX_MASK"

definition virt_pude_index :: "virtaddr_t \<Rightarrow> u64" where
  "virt_pude_index addr = drop_bit PUD_SHIFT addr AND PAGE_DIR_INDEX_MASK"

definition virt_pgde_index :: "virtaddr_t \<Rightarrow> u64" where
  "virt_pgde_index addr = drop_bit PGD_SHIFT addr AND PAGE_DIR_INDEX_MASK"

definition encode_virt :: "u64 \<Rightarrow> u64 \<Rightarrow> u64 \<Rightarrow> u64 \<Rightarrow> u64 \<Rightarrow> virtaddr_t" where
  "encode_virt pgde_ind pude_ind pmde_ind ptde_ind offset =
     (let va = push_bit PGD_SHIFT pgde_ind OR push_bit PUD_SHIFT pude_ind OR
               push_bit PMD_SHIFT pmde_ind OR push_bit PAGE_SHIFT ptde_ind OR offset
      in if IS_BIT_SET va (PHYS_ADDR_BITS - 1) then va OR BIT_MASK_ABOVE PHYS_ADDR_BITS else va)"

definition virt_next_pgde :: "virtaddr_t \<Rightarrow> virtaddr_t" where
  "virt_next_pgde addr = push_bit PGD_SHIFT (drop_bit PGD_SHIFT addr + 1)"

definition virt_next_pude :: "virtaddr_t \<Rightarrow> virtaddr_t" where
  "virt_next_pude addr = push_bit PUD_SHIFT (drop_bit PUD_SHIFT addr + 1)"

definition virt_next_pmde :: "virtaddr_t \<Rightarrow> virtaddr_t" where
  "virt_next_pmde addr = push_bit PMD_SHIFT (drop_bit PMD_SHIFT addr + 1)"

definition virt_pgde_remaining_pages :: "virtaddr_t \<Rightarrow> u64" where
  "virt_pgde_remaining_pages addr =
     (let a = addr AND BIT_MASK_ABOVE PAGE_SHIFT in bytes_to_pages (virt_next_pgde a - a))"

definition virt_pude_remaining_pages :: "virtaddr_t \<Rightarrow> u64" where
  "virt_pude_remaining_pages addr =
     (let a = addr AND BIT_MASK_ABOVE PAGE_SHIFT in bytes_to_pages (virt_next_pude a - a))"

definition virt_pmde_remaining_pages :: "virtaddr_t \<Rightarrow> u64" where
  "virt_pmde_remaining_pages addr =
     (let a = addr AND BIT_MASK_ABOVE PAGE_SHIFT in bytes_to_pages (virt_next_pmde a - a))"

definition virt_offset_pages :: "virtaddr_t \<Rightarrow> u64 \<Rightarrow> virtaddr_t" where
  "virt_offset_pages addr pages = push_bit PAGE_SHIFT (drop_bit PAGE_SHIFT addr + pages)"

definition phys_offset_pages :: "physaddr_t \<Rightarrow> u64 \<Rightarrow> physaddr_t" where
  "phys_offset_pages addr pages = push_bit PAGE_SHIFT (drop_bit PAGE_SHIFT addr + pages)"

section \<open>Page table entries\<close>

definition pgde_present :: "u64 \<Rightarrow> bool" where
  "pgde_present pgde = IS_BIT_SET pgde PAGE_FLAG_PRESENT_BIT"

definition pude_present :: "u64 \<Rightarrow> bool" where
  "pude_present pude = IS_BIT_SET pude PAGE_FLAG_PRESENT_BIT"

definition pmde_present :: "u64 \<Rightarrow> bool" where
  "pmde_present pmde = IS_BIT_SET pmde PAGE_FLAG_PRESENT_BIT"

definition ptde_present :: "u64 \<Rightarrow> bool" where
  "ptde_present ptde = IS_BIT_SET ptde PAGE_FLAG_PRESENT_BIT"

definition pude_1gib :: "u64 \<Rightarrow> bool" where
  "pude_1gib pude = IS_BIT_SET pude PAGE_FLAG_PSE_BIT"

definition pmde_2mib :: "u64 \<Rightarrow> bool" where
  "pmde_2mib pmde = IS_BIT_SET pmde PAGE_FLAG_PSE_BIT"

definition pgde_pud :: "u64 \<Rightarrow> physaddr_t" where
  "pgde_pud pgde = pgde AND PAGE_TABLE_PHYS_ADDR_MASK"

definition pude_pmd :: "u64 \<Rightarrow> physaddr_t" where
  "pude_pmd pude = pude AND PAGE_TABLE_PHYS_ADDR_MASK"

definition pude_data_1gib :: "u64 \<Rightarrow> physaddr_t" where
  "pude_data_1gib pude = pude AND PAGE_TABLE_PHYS_ADDR_MASK_1GIB"

definition pude_raw_flags_1gib :: "u64 \<Rightarrow> u64" where
  "pude_raw_flags_1gib pude = pude AND PAGE_TABLE_FLAG_MASK"

definition pmde_ptd :: "u64 \<Rightarrow> physaddr_t" where
  "pmde_ptd pmde = pmde AND PAGE_TABLE_PHYS_ADDR_MASK"

definition pmde_data_2mib :: "u64 \<Rightarrow> physaddr_t" where
  "pmde_data_2mib pmde = pmde AND PAGE_TABLE_PHYS_ADDR_MASK_2MIB"

definition pmde_raw_flags_2mib :: "u64 \<Rightarrow> u64" where
  "pmde_raw_flags_2mib pmde = pmde AND PAGE_TABLE_FLAG_MASK"

definition ptde_data :: "u64 \<Rightarrow> physaddr_t" where
  "ptde_data ptde = ptde AND PAGE_TABLE_PHYS_ADDR_MASK"

definition ptde_raw_flags :: "u64 \<Rightarrow> u64" where
  "ptde_raw_flags ptde = ptde AND PAGE_TABLE_FLAG_MASK"

text \<open>The address of entry \<open>index\<close> of the table at a physical address, at each level.\<close>

definition pgde_at :: "physaddr_t \<Rightarrow> u64 \<Rightarrow> u64" where
  "pgde_at pgd index = phys_to_virt_ptr pgd + 8 * index"

definition pude_at :: "physaddr_t \<Rightarrow> u64 \<Rightarrow> u64" where
  "pude_at pud index = phys_to_virt_ptr pud + 8 * index"

definition pmde_at :: "physaddr_t \<Rightarrow> u64 \<Rightarrow> u64" where
  "pmde_at pmd index = phys_to_virt_ptr pmd + 8 * index"

definition ptde_at :: "physaddr_t \<Rightarrow> u64 \<Rightarrow> u64" where
  "ptde_at ptd index = phys_to_virt_ptr ptd + 8 * index"

definition assign_pud :: "memory \<Rightarrow> physaddr_t \<Rightarrow> u64 \<Rightarrow> physaddr_t \<Rightarrow> memory" where
  "assign_pud m pgd index pud =
     store64 m (pgde_at pgd index) ((pud AND NOT PAGE_MASK) OR PAGE_FLAG_DEFAULT)"

definition assign_data_1gib :: "memory \<Rightarrow> physaddr_t \<Rightarrow> u64 \<Rightarrow> physaddr_t \<Rightarrow> map_flags_t \<Rightarrow> memory" where
  "assign_data_1gib m pud index pa flags =
     store64 m (pude_at pud index)
       ((pa AND NOT PAGE_MASK_1GIB) OR PAGE_FLAG_PSE OR map_flags_to_page_flags flags)"

definition assign_pmd :: "memory \<Rightarrow> physaddr_t \<Rightarrow> u64 \<Rightarrow> physaddr_t \<Rightarrow> memory" where
  "assign_pmd m pud index pmd =
     store64 m (pude_at pud index) ((pmd AND NOT PAGE_MASK) OR PAGE_FLAG_DEFAULT)"

definition assign_data_2mib :: "memory \<Rightarrow> physaddr_t \<Rightarrow> u64 \<Rightarrow> physaddr_t \<Rightarrow> map_flags_t \<Rightarrow> memory" where
  "assign_data_2mib m pmd index pa flags =
     store64 m (pmde_at pmd index)
       ((pa AND NOT PAGE_MASK_2MIB) OR PAGE_FLAG_PSE OR map_flags_to_page_flags flags)"

definition assign_ptd :: "memory \<Rightarrow> physaddr_t \<Rightarrow> u64 \<Rightarrow> physaddr_t \<Rightarrow> memory" where
  "assign_ptd m pmd index ptd =
     store64 m (pmde_at pmd index) ((ptd AND NOT PAGE_MASK) OR PAGE_FLAG_DEFAULT)"

definition assign_data :: "memory \<Rightarrow> physaddr_t \<Rightarrow> u64 \<Rightarrow> physaddr_t \<Rightarrow> map_flags_t \<Rightarrow> memory" where
  "assign_data m ptd index pa flags =
     store64 m (ptde_at ptd index) ((pa AND NOT PAGE_MASK) OR map_flags_to_page_flags flags)"

section \<open>Bit fields of an address\<close>

lemma bit_index_fields:
  "bit (virt_data_offset va) n \<longleftrightarrow> n < 12 \<and> bit va n"
  "bit (virt_ptde_index va) n \<longleftrightarrow> n < 9 \<and> bit va (n + 12)"
  "bit (virt_pmde_index va) n \<longleftrightarrow> n < 9 \<and> bit va (n + 21)"
  "bit (virt_pude_index va) n \<longleftrightarrow> n < 9 \<and> bit va (n + 30)"
  "bit (virt_pgde_index va) n \<longleftrightarrow> n < 9 \<and> bit va (n + 39)"
  by (auto simp: virt_data_offset_def virt_ptde_index_def virt_pmde_index_def virt_pude_index_def
      virt_pgde_index_def page_mask_defs macro_simps bit_simps ac_simps)

lemma unat_index_fields:
  "unat (virt_data_offset va) = unat va mod 2 ^ 12"
  "unat (virt_ptde_index va) = unat va div 2 ^ 12 mod 2 ^ 9"
  "unat (virt_pmde_index va) = unat va div 2 ^ 21 mod 2 ^ 9"
  "unat (virt_pude_index va) = unat va div 2 ^ 30 mod 2 ^ 9"
  "unat (virt_pgde_index va) = unat va div 2 ^ 39 mod 2 ^ 9"
  by (simp_all add: virt_data_offset_def virt_ptde_index_def virt_pmde_index_def
      virt_pude_index_def virt_pgde_index_def page_mask_defs BIT_MASK_BELOW_mask unat_and_mask
      drop_bit_eq_div unat_div)

lemma index_less_512:
  "unat (virt_ptde_index va) < 512" "unat (virt_pmde_index va) < 512"
  "unat (virt_pude_index va) < 512" "unat (virt_pgde_index va) < 512"
  by (simp_all add: unat_index_fields)

text \<open>\<open>canonical va\<close>: bits 48 to 63 repeat bit 47, as the processor demands of an address.\<close>

definition canonical :: "virtaddr_t \<Rightarrow> bool" where
  "canonical va \<longleftrightarrow> (\<forall>n\<in>{48..<64}. bit va n = bit va 47)"

lemma small_bits: "unat x < 2 ^ k \<Longrightarrow> bit x n \<Longrightarrow> n < k" for x :: u64
proof -
  assume small: "unat x < 2 ^ k" and b: "bit x n"
  have "x AND mask k = x"
    by (simp add: word_unat_eq_iff unat_and_mask small)
  with b have "bit (x AND mask k) n" by simp
  then show "n < k" by (simp add: bit_simps)
qed

lemma bit_encode_virt:
  assumes "unat i < 512" "unat j < 512" "unat k < 512" "unat l < 512" "unat off < 4096" "n < 64"
  shows "bit (encode_virt i j k l off) n \<longleftrightarrow>
    (if n < 12 then bit off n else if n < 21 then bit l (n - 12) else if n < 30 then bit k (n - 21)
     else if n < 39 then bit j (n - 30) else if n < 48 then bit i (n - 39) else bit i 8)"
proof -
  have s: "\<And>m. bit i m \<Longrightarrow> m < 9" "\<And>m. bit j m \<Longrightarrow> m < 9" "\<And>m. bit k m \<Longrightarrow> m < 9"
    "\<And>m. bit l m \<Longrightarrow> m < 9" "\<And>m. bit off m \<Longrightarrow> m < 12"
    using assms small_bits [of i 9] small_bits [of j 9] small_bits [of k 9] small_bits [of l 9]
      small_bits [of off 12] by auto
  define va where "va = push_bit 39 i OR push_bit 30 j OR push_bit 21 k OR push_bit 12 l OR off"
  have va: "bit va m \<longleftrightarrow> (39 \<le> m \<and> bit i (m - 39) \<or> 30 \<le> m \<and> bit j (m - 30) \<or>
      21 \<le> m \<and> bit k (m - 21) \<or> 12 \<le> m \<and> bit l (m - 12) \<or> bit off m)" if "m < 64" for m
    using that by (simp add: va_def bit_or_iff bit_push_bit_iff)
  have fields: "bit va m \<longleftrightarrow> (if m < 12 then bit off m else if m < 21 then bit l (m - 12)
      else if m < 30 then bit k (m - 21) else if m < 39 then bit j (m - 30)
      else if m < 48 then bit i (m - 39) else False)" if "m < 64" for m
    unfolding va [OF that]
    using s(1) [of "m - 39"] s(2) [of "m - 30"] s(3) [of "m - 21"] s(4) [of "m - 12"] s(5) [of m]
    by auto
  have "encode_virt i j k l off = (if bit va 47 then va OR NOT (mask 48) else va)"
    by (simp add: encode_virt_def va_def macro_simps Let_def)
  moreover have "bit va 47 \<longleftrightarrow> bit i 8" using fields [of 47] by simp
  ultimately show ?thesis
    using fields [OF assms(6)] assms(6) by (auto simp: bit_simps)
qed


lemma encode_virt_indices:
  assumes "unat i < 512" "unat j < 512" "unat k < 512" "unat l < 512" "unat off < 4096"
  shows "virt_pgde_index (encode_virt i j k l off) = i"
    "virt_pude_index (encode_virt i j k l off) = j"
    "virt_pmde_index (encode_virt i j k l off) = k"
    "virt_ptde_index (encode_virt i j k l off) = l"
    "virt_data_offset (encode_virt i j k l off) = off"
proof -
  have s: "\<And>m. bit i m \<Longrightarrow> m < 9" "\<And>m. bit j m \<Longrightarrow> m < 9" "\<And>m. bit k m \<Longrightarrow> m < 9"
    "\<And>m. bit l m \<Longrightarrow> m < 9" "\<And>m. bit off m \<Longrightarrow> m < 12"
    using assms small_bits [of i 9] small_bits [of j 9] small_bits [of k 9] small_bits [of l 9]
      small_bits [of off 12] by auto
  have e: "n < 9 \<Longrightarrow> bit (encode_virt i j k l off) (n + 39) = bit i n"
    "n < 9 \<Longrightarrow> bit (encode_virt i j k l off) (n + 30) = bit j n"
    "n < 9 \<Longrightarrow> bit (encode_virt i j k l off) (n + 21) = bit k n"
    "n < 9 \<Longrightarrow> bit (encode_virt i j k l off) (n + 12) = bit l n"
    "n < 12 \<Longrightarrow> bit (encode_virt i j k l off) n = bit off n" for n
    by (simp_all add: bit_encode_virt [OF assms])
  show "virt_pgde_index (encode_virt i j k l off) = i"
    by (rule bit_word_eqI) (use s(1) e(1) in \<open>auto simp: bit_index_fields\<close>)
  show "virt_pude_index (encode_virt i j k l off) = j"
    by (rule bit_word_eqI) (use s(2) e(2) in \<open>auto simp: bit_index_fields\<close>)
  show "virt_pmde_index (encode_virt i j k l off) = k"
    by (rule bit_word_eqI) (use s(3) e(3) in \<open>auto simp: bit_index_fields\<close>)
  show "virt_ptde_index (encode_virt i j k l off) = l"
    by (rule bit_word_eqI) (use s(4) e(4) in \<open>auto simp: bit_index_fields\<close>)
  show "virt_data_offset (encode_virt i j k l off) = off"
    by (rule bit_word_eqI) (use s(5) e(5) in \<open>auto simp: bit_index_fields\<close>)
qed

lemma canonical_encode_virt:
  assumes "unat i < 512" "unat j < 512" "unat k < 512" "unat l < 512" "unat off < 4096"
  shows "canonical (encode_virt i j k l off)"
  by (auto simp: canonical_def bit_encode_virt [OF assms])

lemma encode_virt_decoded:
  assumes "canonical va"
  shows "encode_virt (virt_pgde_index va) (virt_pude_index va) (virt_pmde_index va)
    (virt_ptde_index va) (virt_data_offset va) = va"
proof (rule bit_word_eqI)
  fix n
  assume n: "n < LENGTH(64)"
  have off: "unat (virt_data_offset va) < 4096" by (simp add: unat_index_fields)
  have "bit va n = bit va 47" if "48 \<le> n" using assms that n by (auto simp: canonical_def)
  then show "bit (encode_virt (virt_pgde_index va) (virt_pude_index va) (virt_pmde_index va)
    (virt_ptde_index va) (virt_data_offset va)) n = bit va n"
    using n by (subst bit_encode_virt [OF index_less_512(4,3,2,1) off])
      (auto simp: bit_index_fields)
qed

section \<open>Advancing by pages\<close>

lemma unat_page_sizes:
  "unat PAGE_SIZE = 2 ^ 12" "unat PAGE_SIZE_2MIB = 2 ^ 21" "unat PAGE_SIZE_1GIB = 2 ^ 30"
  by (simp_all add: page_mask_defs unat_BIT_MASK)

lemma unat_shift_add:
  fixes a n :: u64
  assumes "k < 64" and "(unat a div 2 ^ k + unat n) * 2 ^ k < 2 ^ 64"
  shows "unat (push_bit k (drop_bit k a + n)) = (unat a div 2 ^ k + unat n) * 2 ^ k"
proof -
  have "unat a div 2 ^ k + unat n < 2 ^ 64"
    using assms(2) by (metis le_less_trans mult_le_mono2 nat_mult_1_right one_le_numeral one_le_power)
  then have sum: "unat (drop_bit k a + n) = unat a div 2 ^ k + unat n"
    by (subst unat_plus_no_wrap) (simp_all add: unat_drop_bit)
  have "unat (push_bit k (drop_bit k a + n)) = (unat a div 2 ^ k + unat n) * 2 ^ k mod 2 ^ 64"
    by (subst unsigned_push_bit_eq) (simp add: sum push_bit_eq_mult take_bit_eq_mod)
  with assms(2) show ?thesis by simp
qed

lemma unat_bytes_to_pages:
  assumes "unat bytes + 2 ^ 12 \<le> 2 ^ 64"
  shows "unat (bytes_to_pages bytes) = (unat bytes + 4095) div 4096"
proof -
  have "unat (ALIGN_UP bytes PAGE_SIZE) = (unat bytes + 4095) div 4096 * 4096"
    unfolding PAGE_SIZE_def using assms by (subst unat_ALIGN_UP) simp_all
  then show ?thesis
    by (simp add: bytes_to_pages_def unat_drop_bit)
qed

lemma unat_page_base: "unat (a AND BIT_MASK_ABOVE PAGE_SHIFT) = unat a div 4096 * 4096"
  by (simp add: BIT_MASK_ABOVE_mask unat_and_not_mask minus_mod_eq_div_mult)

text \<open>
  The pages left below a table entry of \<open>2 ^ (12 + 9 * d)\<close> bytes: \<open>span - index\<close>, in pages,
  unless the entry is the last of the address space, where the next entry's address wraps.
\<close>

lemma remaining_pages_eq:
  fixes va :: u64
  assumes "12 \<le> k" "k < 63" and "(unat va div 2 ^ k + 1) * 2 ^ k < 2 ^ 64"
  defines "a \<equiv> va AND BIT_MASK_ABOVE PAGE_SHIFT"
  shows "unat (bytes_to_pages (push_bit k (drop_bit k a + 1) - a)) =
    2 ^ (k - 12) - unat va div 2 ^ 12 mod 2 ^ (k - 12)"
proof -
  let ?K = "2 ^ k :: nat" and ?s = "2 ^ (k - 12) :: nat" and ?v = "unat va div 4096"
  have K: "?K = 4096 * ?s" using assms(1) power_add [of "2 :: nat" 12 "k - 12"] by simp
  have ua: "unat a = ?v * 4096" unfolding a_def by (rule unat_page_base)
  have q: "unat a div ?K = unat va div ?K" "unat va div ?K = ?v div ?s"
    unfolding ua K by (simp_all only: div_mult2_eq) simp_all
  have nxt: "unat (push_bit k (drop_bit k a + 1)) = (unat va div ?K + 1) * ?K"
    using assms(2,3) q(1) by (subst unat_shift_add) (simp_all add: unat_drop_bit)
  have split: "?v = ?v div ?s * ?s + ?v mod ?s" by (rule div_mult_mod_eq [symmetric])
  have lt: "?v mod ?s < ?s" by simp
  define d where "d = ?s - ?v mod ?s"
  have d: "(unat va div ?K + 1) * ?K = ?v * 4096 + 4096 * d"
  proof -
    have "(?v div ?s + 1) * ?s = ?v div ?s * ?s + ?v mod ?s + d"
      using lt unfolding d_def by (simp add: distrib_right)
    then have "(?v div ?s + 1) * ?s = ?v + d" using split by simp
    then have "(?v div ?s + 1) * (4096 * ?s) = ?v * 4096 + 4096 * d" by (simp add: algebra_simps)
    then show ?thesis unfolding q(2) [symmetric] K [symmetric] .
  qed
  have "a \<le> push_bit k (drop_bit k a + 1)" unfolding word_le_nat_alt nxt ua d by simp
  then have diff: "unat (push_bit k (drop_bit k a + 1) - a) = 4096 * d"
    using nxt ua d by (simp add: unat_sub word_le_nat_alt)
  have "d \<le> ?s" unfolding d_def by simp
  then have "4096 * d \<le> ?K" unfolding K by simp
  also have "?K \<le> 2 ^ 62" using assms(2) by (intro power_increasing) auto
  finally have small: "4096 * d \<le> 2 ^ 62" .
  show ?thesis
    using small unfolding d_def [symmetric]
    by (subst unat_bytes_to_pages) (simp_all add: diff d_def)
qed


text \<open>
  The entry words the assign functions write. \<open>flag_bits f\<close>: no bit of \<open>f\<close> lies in the
  address field, which is so of every value of \<^verbatim>\<open>map_flags_to_page_flags\<close>.
\<close>

definition flag_bits :: "u64 \<Rightarrow> bool" where
  "flag_bits f \<longleftrightarrow> (\<forall>n. bit f n \<longrightarrow> n < 12 \<or> n = 63)"

lemma bit_page_flags [macro_simps]:
  "bit PAGE_FLAG_PRESENT n \<longleftrightarrow> n = 0" "bit PAGE_FLAG_RW n \<longleftrightarrow> n = 1"
  "bit PAGE_FLAG_UNCACHED n \<longleftrightarrow> n = 4" "bit PAGE_FLAG_WRITE_THROUGH n \<longleftrightarrow> n = 3"
  "bit PAGE_FLAG_PSE n \<longleftrightarrow> n = 7" "bit PAGE_FLAG_GLOBAL n \<longleftrightarrow> n = 8"
  "bit PAGE_FLAG_NX n \<longleftrightarrow> n = 63" "bit PAGE_FLAG_DEFAULT n \<longleftrightarrow> n = 0 \<or> n = 1"
  "bit PAGE_FLAG_KERNEL n \<longleftrightarrow> n = 0 \<or> n = 1 \<or> n = 8"
  by (auto simp: page_flag_defs macro_simps bit_simps)

lemma map_mode_cases:
  obtains (kernel) "map_flags AND MAP_FLAG_MODE_MASK = MAP_KERNEL"
  | (noglobal) "map_flags AND MAP_FLAG_MODE_MASK = MAP_KERNEL_NOGLOBAL"
  | (device) "map_flags AND MAP_FLAG_MODE_MASK = MAP_DEVICE"
  | (none) "map_flags_to_page_flags map_flags = 0"
proof -
  have "map_flags_to_page_flags map_flags = 0"
    if "map_flags AND MAP_FLAG_MODE_MASK \<notin> {MAP_KERNEL, MAP_KERNEL_NOGLOBAL, MAP_DEVICE}"
    using that by (simp add: map_flags_to_page_flags_def Let_def)
  with kernel noglobal device none show thesis by blast
qed

lemma map_modes_differ [simp]:
  "MAP_KERNEL \<noteq> MAP_KERNEL_NOGLOBAL" "MAP_KERNEL_NOGLOBAL \<noteq> MAP_KERNEL"
  "MAP_KERNEL \<noteq> MAP_DEVICE" "MAP_DEVICE \<noteq> MAP_KERNEL"
  "MAP_DEVICE \<noteq> MAP_KERNEL_NOGLOBAL" "MAP_KERNEL_NOGLOBAL \<noteq> MAP_DEVICE"
  by (simp_all add: map_flag_defs)

lemma flag_bits_map_flags: "flag_bits (map_flags_to_page_flags flags)"
  by (cases rule: map_mode_cases [of flags])
    (auto simp: flag_bits_def map_flags_to_page_flags_def Let_def bit_simps macro_simps)

lemma bit_address_mask:
  "bit PAGE_TABLE_PHYS_ADDR_MASK n \<longleftrightarrow> 12 \<le> n \<and> n < 48"
  "bit PAGE_TABLE_PHYS_ADDR_MASK_2MIB n \<longleftrightarrow> 21 \<le> n \<and> n < 48"
  "bit PAGE_TABLE_PHYS_ADDR_MASK_1GIB n \<longleftrightarrow> 30 \<le> n \<and> n < 48"
  by (auto simp: page_mask_defs macro_simps bit_simps)

text \<open>\<open>page_address s pa\<close>: a physical address of a page of \<open>2 ^ s\<close> bytes.\<close>

definition page_address :: "nat \<Rightarrow> physaddr_t \<Rightarrow> bool" where
  "page_address s pa \<longleftrightarrow> (\<forall>n. bit pa n \<longrightarrow> s \<le> n \<and> n < 48)"

lemma page_address_iff: "page_address s pa \<longleftrightarrow> 2 ^ s dvd unat pa \<and> unat pa < 2 ^ 48"
proof
  assume p: "page_address s pa"
  have "pa AND mask s = 0" by (rule bit_word_eqI) (use p in \<open>auto simp: page_address_def bit_simps\<close>)
  then have "2 ^ s dvd unat pa" by (metis and_mask_dvd_nat)
  moreover have "pa = pa AND mask 48" by (rule bit_word_eqI) (use p in \<open>auto simp: page_address_def bit_simps\<close>)
  then have "unat pa < 2 ^ 48" by (metis mod_less_divisor unat_and_mask zero_less_numeral zero_less_power)
  ultimately show "2 ^ s dvd unat pa \<and> unat pa < 2 ^ 48" ..
next
  assume d: "2 ^ s dvd unat pa \<and> unat pa < 2 ^ 48"
  then have "pa AND mask s = 0" by (simp add: and_mask_dvd_nat)
  then have "\<not> bit pa n" if "n < s" for n
    using that bit_and_iff [of pa "mask s" n] by (auto simp: bit_mask_iff dest: bit_imp_le_length)
  with d small_bits [of pa 48] show "page_address s pa"
    unfolding page_address_def by (metis linorder_not_le)
qed

lemma entry_fields:
  assumes "flag_bits f" and "page_address s pa" and "12 \<le> s"
  shows "12 \<le> t \<Longrightarrow> t \<le> s \<Longrightarrow> ((pa AND NOT (mask t)) OR f) AND (mask 48 AND NOT (mask t)) = pa"
    and "n < 12 \<or> n = 63 \<Longrightarrow> bit ((pa AND NOT (mask t)) OR f) n = bit f n"
proof -
  show "((pa AND NOT (mask t)) OR f) AND (mask 48 AND NOT (mask t)) = pa" if "12 \<le> t" "t \<le> s"
  proof (rule bit_word_eqI)
    fix n
    assume n: "n < LENGTH(64)"
    have "bit f n \<Longrightarrow> n < 12 \<or> n = 63" "bit pa n \<Longrightarrow> s \<le> n \<and> n < 48"
      using assms(1,2) by (auto simp: flag_bits_def page_address_def)
    then show "bit (((pa AND NOT (mask t)) OR f) AND (mask 48 AND NOT (mask t))) n = bit pa n"
      using n that by (auto simp: bit_simps)
  qed
  show "bit ((pa AND NOT (mask t)) OR f) n = bit f n" if "n < 12 \<or> n = 63"
    using assms(2,3) that by (auto simp: bit_simps page_address_def)
qed

lemmas entry_reader_defs = ptde_data_def ptde_raw_flags_def ptde_present_def pmde_data_2mib_def
  pmde_raw_flags_2mib_def pmde_2mib_def pmde_ptd_def pmde_present_def pude_data_1gib_def
  pude_raw_flags_1gib_def pude_1gib_def pude_pmd_def pude_present_def pgde_pud_def pgde_present_def

lemma read_entry:
  assumes "flag_bits f" and "page_address s pa" and "12 \<le> s"
  shows "((pa AND NOT (mask s)) OR f) AND (mask 48 AND NOT (mask s)) = pa"
    and "((pa AND NOT (mask s)) OR f) AND (mask 12 OR PAGE_FLAG_NX) = f"
    and "n < 12 \<Longrightarrow> bit ((pa AND NOT (mask s)) OR f) n = bit f n"
proof -
  show "((pa AND NOT (mask s)) OR f) AND (mask 48 AND NOT (mask s)) = pa"
    using entry_fields(1) [OF assms assms(3)] by simp
  show b: "bit ((pa AND NOT (mask s)) OR f) n = bit f n" if "n < 12"
    using entry_fields(2) [OF assms] that by simp
  show "((pa AND NOT (mask s)) OR f) AND (mask 12 OR PAGE_FLAG_NX) = f"
  proof (rule bit_word_eqI)
    fix n
    show "bit (((pa AND NOT (mask s)) OR f) AND (mask 12 OR PAGE_FLAG_NX)) n = bit f n"
      using entry_fields(2) [OF assms, of n s] assms(1)
      by (auto simp: bit_and_iff [of "(pa AND NOT (mask s)) OR f"] bit_or_iff [of "mask 12"]
        bit_mask_iff macro_simps flag_bits_def dest: bit_imp_le_length)
  qed
qed

text \<open>Entries of page aligned tables are aligned cells, different for different entries.\<close>

lemma unat_entry_offset:
  assumes "page_address 12 t" and "unat i < 512"
  shows "unat (t + 8 * i) = unat t + 8 * unat i"
proof -
  have "unat (8 * i) = 8 * unat i" using assms(2) by (simp add: unat_word_ariths)
  then show ?thesis
    using assms by (subst unat_plus_no_wrap) (simp_all add: page_address_iff)
qed

lemma entry_cell:
  assumes "page_address 12 t" and "unat i < 512"
  shows "8 dvd unat (ptde_at t i)"
proof -
  have "4096 dvd unat t" using assms(1) by (simp add: page_address_iff)
  then have "8 dvd unat t" using dvd_trans [of 8 4096 "unat t"] by simp
  then have "8 dvd unat (t + 8 * i)" by (simp add: unat_entry_offset [OF assms])
  then have "8 dvd (unat KERNEL_DIRECT_MAP_BASE + unat (t + 8 * i)) mod 2 ^ 64"
    by (simp add: dvd_mod_iff KERNEL_DIRECT_MAP_BASE_def)
  then show ?thesis
    by (simp add: ptde_at_def phys_to_virt_ptr_def phys_to_virt_def add.assoc
      unat_word_ariths(1) [of KERNEL_DIRECT_MAP_BASE "t + 8 * i"])
qed

lemma entry_cell_inj:
  assumes "page_address 12 t" "unat i < 512" "page_address 12 t'" "unat j < 512"
    and "ptde_at t i = ptde_at t' j"
  shows "t = t' \<and> i = j"
proof -
  have "t + 8 * i = t' + 8 * j"
    using assms(5) by (simp add: ptde_at_def phys_to_virt_ptr_def phys_to_virt_def add.assoc)
  then have eq: "unat t + 8 * unat i = unat t' + 8 * unat j"
    using unat_entry_offset [OF assms(1,2)] unat_entry_offset [OF assms(3,4)] by simp
  obtain x y where xy: "unat t = 4096 * x" "unat t' = 4096 * y"
    using assms(1,3) by (auto simp: page_address_iff elim!: dvdE)
  have "x = y"
    using eq assms(2,4) div_mult_self2 [of 4096 "8 * unat i" x] div_mult_self2 [of 4096 "8 * unat j" y]
    unfolding xy by simp
  with eq xy show ?thesis by (simp add: word_unat_eq_iff)
qed

lemma read_assigned_data:
  assumes "page_address 12 pa"
  shows "ptde_data (load64 (assign_data m t i pa fl) (ptde_at t i)) = pa"
    "ptde_raw_flags (load64 (assign_data m t i pa fl) (ptde_at t i)) = map_flags_to_page_flags fl"
  using read_entry(1,2) [OF flag_bits_map_flags [of fl] assms]
  by (simp_all add: assign_data_def load64_store64_same entry_reader_defs page_mask_defs macro_simps)

lemma read_assigned_table:
  assumes "page_address 12 pa"
  shows "pmde_ptd (load64 (assign_ptd m t i pa) (pmde_at t i)) = pa"
    "pude_pmd (load64 (assign_pmd m t i pa) (pude_at t i)) = pa"
    "pgde_pud (load64 (assign_pud m t i pa) (pgde_at t i)) = pa"
    "pmde_present (load64 (assign_ptd m t i pa) (pmde_at t i))"
    "pude_present (load64 (assign_pmd m t i pa) (pude_at t i))"
    "pgde_present (load64 (assign_pud m t i pa) (pgde_at t i))"
    "\<not> pmde_2mib (load64 (assign_ptd m t i pa) (pmde_at t i))"
    "\<not> pude_1gib (load64 (assign_pmd m t i pa) (pude_at t i))"
proof -
  have fb: "flag_bits PAGE_FLAG_DEFAULT" by (simp add: flag_bits_def macro_simps)
  note rd = read_entry [OF fb assms]
  show "pmde_ptd (load64 (assign_ptd m t i pa) (pmde_at t i)) = pa"
    "pude_pmd (load64 (assign_pmd m t i pa) (pude_at t i)) = pa"
    "pgde_pud (load64 (assign_pud m t i pa) (pgde_at t i)) = pa"
    "pmde_present (load64 (assign_ptd m t i pa) (pmde_at t i))"
    "pude_present (load64 (assign_pmd m t i pa) (pude_at t i))"
    "pgde_present (load64 (assign_pud m t i pa) (pgde_at t i))"
    "\<not> pmde_2mib (load64 (assign_ptd m t i pa) (pmde_at t i))"
    "\<not> pude_1gib (load64 (assign_pmd m t i pa) (pude_at t i))"
    using rd(1) rd(3) [of 0] rd(3) [of 7]
    by (simp_all add: assign_ptd_def assign_pmd_def assign_pud_def load64_store64_same
      entry_reader_defs page_mask_defs macro_simps)
qed

lemma read_assigned_table_flags:
  assumes "page_address 12 pa"
  shows "load64 (assign_ptd m t i pa) (pmde_at t i) AND PAGE_TABLE_FLAG_MASK = PAGE_FLAG_PRESENT OR PAGE_FLAG_RW"
    "load64 (assign_pmd m t i pa) (pude_at t i) AND PAGE_TABLE_FLAG_MASK = PAGE_FLAG_PRESENT OR PAGE_FLAG_RW"
    "load64 (assign_pud m t i pa) (pgde_at t i) AND PAGE_TABLE_FLAG_MASK = PAGE_FLAG_PRESENT OR PAGE_FLAG_RW"
proof -
  have "flag_bits PAGE_FLAG_DEFAULT" by (simp add: flag_bits_def macro_simps)
  from read_entry(2) [OF this assms]
  show "load64 (assign_ptd m t i pa) (pmde_at t i) AND PAGE_TABLE_FLAG_MASK = PAGE_FLAG_PRESENT OR PAGE_FLAG_RW"
    "load64 (assign_pmd m t i pa) (pude_at t i) AND PAGE_TABLE_FLAG_MASK = PAGE_FLAG_PRESENT OR PAGE_FLAG_RW"
    "load64 (assign_pud m t i pa) (pgde_at t i) AND PAGE_TABLE_FLAG_MASK = PAGE_FLAG_PRESENT OR PAGE_FLAG_RW"
    by (simp_all add: assign_ptd_def assign_pmd_def assign_pud_def load64_store64_same
      page_mask_defs macro_simps PAGE_FLAG_DEFAULT_def)
qed

lemma read_assigned_huge:
  assumes "page_address 21 pa2" "page_address 30 pa1"
  shows "pmde_data_2mib (load64 (assign_data_2mib m t i pa2 fl) (pmde_at t i)) = pa2"
    "pude_data_1gib (load64 (assign_data_1gib m t i pa1 fl) (pude_at t i)) = pa1"
    "pmde_raw_flags_2mib (load64 (assign_data_2mib m t i pa2 fl) (pmde_at t i)) =
      map_flags_to_page_flags fl OR PAGE_FLAG_PSE"
    "pude_raw_flags_1gib (load64 (assign_data_1gib m t i pa1 fl) (pude_at t i)) =
      map_flags_to_page_flags fl OR PAGE_FLAG_PSE"
    "pmde_2mib (load64 (assign_data_2mib m t i pa2 fl) (pmde_at t i))"
    "pude_1gib (load64 (assign_data_1gib m t i pa1 fl) (pude_at t i))"
proof -
  have fb: "flag_bits (PAGE_FLAG_PSE OR map_flags_to_page_flags fl)"
    using flag_bits_map_flags [of fl] by (auto simp: flag_bits_def macro_simps bit_simps)
  have seven: "bit (PAGE_FLAG_PSE OR map_flags_to_page_flags fl) 7"
    by (simp add: bit_or_iff macro_simps)
  note r2 = read_entry [OF fb assms(1)] and r1 = read_entry [OF fb assms(2)]
  show "pmde_data_2mib (load64 (assign_data_2mib m t i pa2 fl) (pmde_at t i)) = pa2"
    "pmde_raw_flags_2mib (load64 (assign_data_2mib m t i pa2 fl) (pmde_at t i)) =
      map_flags_to_page_flags fl OR PAGE_FLAG_PSE"
    "pmde_2mib (load64 (assign_data_2mib m t i pa2 fl) (pmde_at t i))"
    using r2(1,2) r2(3) [of 7] seven
    by (simp_all add: assign_data_2mib_def load64_store64_same entry_reader_defs page_mask_defs
      macro_simps or.commute)
  show "pude_data_1gib (load64 (assign_data_1gib m t i pa1 fl) (pude_at t i)) = pa1"
    "pude_raw_flags_1gib (load64 (assign_data_1gib m t i pa1 fl) (pude_at t i)) =
      map_flags_to_page_flags fl OR PAGE_FLAG_PSE"
    "pude_1gib (load64 (assign_data_1gib m t i pa1 fl) (pude_at t i))"
    using r1(1,2) r1(3) [of 7] seven
    by (simp_all add: assign_data_1gib_def load64_store64_same entry_reader_defs page_mask_defs
      macro_simps or.commute)
qed

text \<open>
  C29: The indices and offset a virtual address is decoded into are the ones it was encoded
  from, the encoded address is canonical, and encoding the decoded fields of any canonical
  address gives that address back.
\<close>

theorem encode_virt_roundtrip:
  assumes "unat i < 512" "unat j < 512" "unat k < 512" "unat l < 512" "unat off < 4096"
    and "canonical va"
  shows "virt_pgde_index (encode_virt i j k l off) = i \<and>
    virt_pude_index (encode_virt i j k l off) = j \<and>
    virt_pmde_index (encode_virt i j k l off) = k \<and>
    virt_ptde_index (encode_virt i j k l off) = l \<and>
    virt_data_offset (encode_virt i j k l off) = off \<and>
    canonical (encode_virt i j k l off) \<and>
    encode_virt (virt_pgde_index va) (virt_pude_index va) (virt_pmde_index va)
      (virt_ptde_index va) (virt_data_offset va) = va"
  using encode_virt_indices [OF assms(1-5)] canonical_encode_virt [OF assms(1-5)]
    encode_virt_decoded [OF assms(6)] by simp

theorem encode_virt_roundtrip_witness:
  "virt_pude_index (encode_virt 256 3 5 511 4095) = 3 \<and>
   encode_virt (virt_pgde_index KERNEL_DIRECT_MAP_BASE) (virt_pude_index KERNEL_DIRECT_MAP_BASE)
     (virt_pmde_index KERNEL_DIRECT_MAP_BASE) (virt_ptde_index KERNEL_DIRECT_MAP_BASE)
     (virt_data_offset KERNEL_DIRECT_MAP_BASE) = KERNEL_DIRECT_MAP_BASE"
proof -
  have "canonical KERNEL_DIRECT_MAP_BASE" by code_simp
  from encode_virt_roundtrip [OF _ _ _ _ _ this, of 256 3 5 511 4095] show ?thesis by simp
qed

text \<open>
  Address arithmetic in pages. A byte count is rounded up to pages; an address advanced
  by \<open>n\<close> pages is page aligned and \<open>n\<close> pages further when it does not pass the end of
  the address space; and the pages remaining under a PMD, PUD or PGD entry are the entries
  below it that the address has not passed.
\<close>

theorem page_arithmetic:
  assumes "unat bytes + 4096 \<le> 2 ^ 64"
    and "(unat va div 4096 + unat n) * 4096 < 2 ^ 64"
    and "(unat va div 2 ^ 39 + 1) * 2 ^ 39 < 2 ^ 64"
  shows "unat (bytes_to_pages bytes) = (unat bytes + 4095) div 4096 \<and>
    unat (virt_offset_pages va n) = (unat va div 4096 + unat n) * 4096 \<and>
    unat (virt_pmde_remaining_pages va) = 512 - unat (virt_ptde_index va) \<and>
    unat (virt_pude_remaining_pages va) = 512 ^ 2 - unat va div 4096 mod 512 ^ 2 \<and>
    unat (virt_pgde_remaining_pages va) = 512 ^ 3 - unat va div 4096 mod 512 ^ 3"
proof -
  have fits: "(unat va div 2 ^ k + 1) * 2 ^ k < 2 ^ 64" if "k \<le> 39" for k :: nat
  proof -
    have p: "(2 :: nat) ^ 39 = 2 ^ k * 2 ^ (39 - k)" using that by (simp flip: power_add)
    have "unat va div 2 ^ k < (unat va div 2 ^ 39 + 1) * 2 ^ (39 - k)"
      unfolding p div_mult2_eq by (simp add: dividend_less_div_times)
    then have "(unat va div 2 ^ k + 1) * 2 ^ k \<le> (unat va div 2 ^ 39 + 1) * 2 ^ (39 - k) * 2 ^ k"
      by (intro mult_le_mono1) simp
    also have "\<dots> = (unat va div 2 ^ 39 + 1) * 2 ^ 39" unfolding p by (simp only: ac_simps)
    also note assms(3)
    finally show ?thesis .
  qed
  have "unat (virt_offset_pages va n) = (unat va div 4096 + unat n) * 4096"
    using unat_shift_add [of 12 va n] assms(2) by (simp add: virt_offset_pages_def)
  moreover have "unat (virt_pmde_remaining_pages va) = 512 - unat (virt_ptde_index va)"
    using remaining_pages_eq [of 21 va] fits [of 21]
    by (simp add: virt_pmde_remaining_pages_def virt_next_pmde_def Let_def unat_index_fields)
  moreover have "unat (virt_pude_remaining_pages va) = 512 ^ 2 - unat va div 4096 mod 512 ^ 2"
    using remaining_pages_eq [of 30 va] fits [of 30]
    by (simp add: virt_pude_remaining_pages_def virt_next_pude_def Let_def)
  moreover have "unat (virt_pgde_remaining_pages va) = 512 ^ 3 - unat va div 4096 mod 512 ^ 3"
    using remaining_pages_eq [of 39 va] fits [of 39]
    by (simp add: virt_pgde_remaining_pages_def virt_next_pgde_def Let_def)
  ultimately show ?thesis using unat_bytes_to_pages [of bytes] assms(1) by simp
qed

theorem page_arithmetic_witness:
  "unat (bytes_to_pages 4097) = 2 \<and>
   unat (virt_pmde_remaining_pages 0x3000) = 512 - unat (virt_ptde_index 0x3000)"
  using page_arithmetic [of 4097 "0x3000" 5] by simp


text \<open>
  C30: An entry written by an assign function is read back as it was meant: the physical
  address is recovered exactly at every level and page size, the hardware flags are those
  of the mapping flags, with PSE for a huge page, and exactly present and writable for a
  pointer to a table; and none of the six assign functions changes another entry of any page
  aligned table in memory.
\<close>

theorem assigned_entries_read_back:
  assumes "page_address 12 pa" "page_address 21 pa2" "page_address 30 pa1" "page_address 12 t"
    and "page_address 12 t'" and "unat i < 512" "unat j < 512" and "(t', j) \<noteq> (t, i)"
  shows "(let e = load64 (assign_data m t i pa fl) (ptde_at t i)
      in ptde_data e = pa \<and> ptde_raw_flags e = map_flags_to_page_flags fl) \<and>
    (let e = load64 (assign_data_2mib m t i pa2 fl) (pmde_at t i)
      in pmde_data_2mib e = pa2 \<and> pmde_2mib e \<and>
         pmde_raw_flags_2mib e = map_flags_to_page_flags fl OR PAGE_FLAG_PSE) \<and>
    (let e = load64 (assign_data_1gib m t i pa1 fl) (pude_at t i)
      in pude_data_1gib e = pa1 \<and> pude_1gib e \<and>
         pude_raw_flags_1gib e = map_flags_to_page_flags fl OR PAGE_FLAG_PSE) \<and>
    (let e = load64 (assign_ptd m t i pa) (pmde_at t i)
      in pmde_ptd e = pa \<and> pmde_present e \<and> \<not> pmde_2mib e \<and> e AND PAGE_TABLE_FLAG_MASK = PAGE_FLAG_PRESENT OR PAGE_FLAG_RW) \<and>
    (let e = load64 (assign_pmd m t i pa) (pude_at t i)
      in pude_pmd e = pa \<and> pude_present e \<and> \<not> pude_1gib e \<and> e AND PAGE_TABLE_FLAG_MASK = PAGE_FLAG_PRESENT OR PAGE_FLAG_RW) \<and>
    (let e = load64 (assign_pud m t i pa) (pgde_at t i)
      in pgde_pud e = pa \<and> pgde_present e \<and> e AND PAGE_TABLE_FLAG_MASK = PAGE_FLAG_PRESENT OR PAGE_FLAG_RW) \<and>
    (\<forall>m' \<in> {assign_data m t i pa fl, assign_data_2mib m t i pa2 fl, assign_data_1gib m t i pa1 fl,
        assign_ptd m t i pa, assign_pmd m t i pa, assign_pud m t i pa}.
      load64 m' (ptde_at t' j) = load64 m (ptde_at t' j))"
proof -
  have apart: "load64 (store64 m (ptde_at t i) v) (ptde_at t' j) = load64 m (ptde_at t' j)" for v
    using entry_cell [OF assms(4,6)] entry_cell [OF assms(5,7)]
      entry_cell_inj [OF assms(4,6,5,7)] assms(8) by (intro mem.load_other) auto
  have at: "pmde_at t i = ptde_at t i" "pude_at t i = ptde_at t i" "pgde_at t i = ptde_at t i"
    by (simp_all add: ptde_at_def pmde_at_def pude_at_def pgde_at_def)
  have "\<forall>m' \<in> {assign_data m t i pa fl, assign_data_2mib m t i pa2 fl, assign_data_1gib m t i pa1 fl,
        assign_ptd m t i pa, assign_pmd m t i pa, assign_pud m t i pa}.
      load64 m' (ptde_at t' j) = load64 m (ptde_at t' j)"
    by (simp add: assign_data_def assign_data_2mib_def assign_data_1gib_def assign_ptd_def assign_pmd_def
      assign_pud_def at apart)
  then show ?thesis
    by (simp add: Let_def read_assigned_data [OF assms(1)] read_assigned_huge [OF assms(2,3)]
      read_assigned_table [OF assms(1)] read_assigned_table_flags [OF assms(1)])
qed

theorem assigned_entries_read_back_witness:
  "(let e = load64 (assign_data (\<lambda>_. 0) 0x5000 3 0x7000 MAP_KERNEL) (ptde_at 0x5000 3)
    in ptde_data e = 0x7000 \<and> ptde_raw_flags e = map_flags_to_page_flags MAP_KERNEL) \<and>
   load64 (assign_pud (\<lambda>_. 0) 0x5000 3 0x7000) (ptde_at 0x6000 4) =
     load64 (\<lambda>_. 0) (ptde_at 0x6000 4)"
proof -
  have a: "page_address 12 0x7000" "page_address 21 0x200000" "page_address 30 0x40000000"
    "page_address 12 0x5000" "page_address 12 0x6000"
    by (simp_all add: page_address_iff)
  show ?thesis
    using assigned_entries_read_back [OF a, of 3 4 "\<lambda>_. 0" MAP_KERNEL] by simp
qed

text \<open>
  The hardware flags of a mapping mode. Each of the three modes gives a present page;
  it is writable unless read-only was asked for, executable exactly when code was asked for,
  global exactly in kernel mode and uncached exactly in device mode; the PSE bit is never
  among them. Any other mode gives no flags at all, so the entry would not be present.
\<close>

theorem map_flags_meaning:
  assumes "mode \<in> {MAP_KERNEL, MAP_KERNEL_NOGLOBAL, MAP_DEVICE}"
    and "flags AND MAP_FLAG_MODE_MASK = mode"
    and "other AND MAP_FLAG_MODE_MASK \<notin> {MAP_KERNEL, MAP_KERNEL_NOGLOBAL, MAP_DEVICE}"
  shows "bit (map_flags_to_page_flags flags) 0 \<and>
    (bit (map_flags_to_page_flags flags) 1 \<longleftrightarrow> \<not> IS_MASK_SET flags MAP_READONLY) \<and>
    (bit (map_flags_to_page_flags flags) 63 \<longleftrightarrow> \<not> IS_MASK_SET flags MAP_CODE) \<and>
    (bit (map_flags_to_page_flags flags) 8 \<longleftrightarrow> mode = MAP_KERNEL) \<and>
    (bit (map_flags_to_page_flags flags) 4 \<longleftrightarrow> mode = MAP_DEVICE) \<and>
    \<not> bit (map_flags_to_page_flags flags) 7 \<and>
    map_flags_to_page_flags other = 0"
  using assms by (auto simp: map_flags_to_page_flags_def Let_def bit_simps macro_simps)

theorem map_flags_meaning_witness:
  "bit (map_flags_to_page_flags (MAP_KERNEL OR MAP_READONLY)) 0 \<and>
   \<not> bit (map_flags_to_page_flags (MAP_KERNEL OR MAP_READONLY)) 1 \<and>
   map_flags_to_page_flags 0 = 0"
proof -
  have "(MAP_KERNEL OR MAP_READONLY) AND MAP_FLAG_MODE_MASK = MAP_KERNEL"
    "0 AND MAP_FLAG_MODE_MASK \<notin> {MAP_KERNEL, MAP_KERNEL_NOGLOBAL, MAP_DEVICE}"
    "IS_MASK_SET (MAP_KERNEL OR MAP_READONLY) MAP_READONLY"
    by code_simp+
  with map_flags_meaning [of MAP_KERNEL "MAP_KERNEL OR MAP_READONLY" 0] show ?thesis by simp
qed

text \<open>
  C32: Direct mapping. A physical address below 64 TiB survives the way through its direct
  mapped virtual address and, page aligned, through its page frame number. An address
  of the kernel image is taken relative to \<^verbatim>\<open>KERNEL_ELF_ADDRESS\<close> itself: the result is the
  offset into the image, \<^verbatim>\<open>KERNEL_ELF_ADDRESS_PHYS\<close> below the physical address at which
  the boot loader places that byte.
\<close>

theorem direct_map_roundtrip:
  assumes "unat pa < 2 ^ 46" and "0 < unat x" and "unat x < 2 ^ 40"
  shows "virt_to_phys (phys_to_virt pa) = pa \<and>
    pfn_to_phys (phys_to_pfn pa) = ALIGN pa PAGE_SIZE \<and>
    virt_to_phys (KERNEL_ELF_ADDRESS + x) = x \<and>
    x + KERNEL_ELF_ADDRESS_PHYS \<noteq> x"
proof -
  have "unat (KERNEL_DIRECT_MAP_BASE + pa) = unat KERNEL_DIRECT_MAP_BASE + unat pa"
    using assms(1) by (subst unat_plus_no_wrap) (simp_all add: KERNEL_DIRECT_MAP_BASE_def)
  then have "\<not> KERNEL_DIRECT_MAP_BASE + pa > KERNEL_ELF_ADDRESS"
    using assms(1) by (simp add: word_less_nat_alt KERNEL_DIRECT_MAP_BASE_def KERNEL_ELF_ADDRESS_def
      KERNEL_ELF_ADDRESS_PHYS_def)
  moreover have "unat (KERNEL_ELF_ADDRESS + x) = unat KERNEL_ELF_ADDRESS + unat x"
    using assms(3) by (subst unat_plus_no_wrap)
      (simp_all add: KERNEL_ELF_ADDRESS_def KERNEL_ELF_ADDRESS_PHYS_def)
  moreover have "pfn_to_phys (phys_to_pfn pa) = ALIGN pa PAGE_SIZE"
    by (rule bit_word_eqI) (auto simp: pfn_to_phys_def phys_to_pfn_def ALIGN_def PAGE_SIZE_def
      BIT_MASK_minus_1 bit_simps)
  ultimately show ?thesis
    using assms(2) by (simp add: virt_to_phys_def phys_to_virt_def word_less_nat_alt
      KERNEL_ELF_ADDRESS_PHYS_def)
qed

theorem direct_map_roundtrip_witness:
  "virt_to_phys (phys_to_virt 0x1234567) = 0x1234567 \<and>
   virt_to_phys (KERNEL_ELF_ADDRESS + 0x1000) = 0x1000"
  using direct_map_roundtrip [of "0x1234567" "0x1000"] by simp

end
