(* ===== verification/E820.thy ===== *)
theory E820
  imports Range Page "HOL-Library.Multiset"
begin

text \<open>
  The BIOS memory map, \<^verbatim>\<open>early/mem.c\<close> lines 36 to 213 with the structures of
  \<^verbatim>\<open>include/early_mem.h\<close>: sorting the entries, merging neighbours of one type, trimming the
  RAM entries to whole pages and adding them up. The flexible array \<^verbatim>\<open>e820_entries[]\<close> is the
  memory that follows the header, a function from indices; \<open>entries_of\<close> is the list of the
  entries the count says are valid. Loops compare their \<^verbatim>\<open>int\<close> index with the count cast to
  \<^verbatim>\<open>int\<close>, which is \<open>entry_count\<close>.
\<close>

record e820_entry =
  e820_base :: u64
  e820_size :: u64
  e820_type :: u32

record early_boot_info =
  total_avail_ram_bytes :: u64
  num_ram_spans :: u64
  apic_base :: u64
  kernel_elf_size_bytes :: u32
  num_e820_entries :: u32
  e820_entries :: "nat \<Rightarrow> e820_entry"

definition E820_TYPE_RAM :: u32 where "E820_TYPE_RAM = 1"
definition E820_TYPE_RESERVED :: u32 where "E820_TYPE_RESERVED = 2"
definition E820_TYPE_ACPI :: u32 where "E820_TYPE_ACPI = 3"
definition E820_TYPE_NVS :: u32 where "E820_TYPE_NVS = 4"
definition E820_TYPE_UNUSABLE :: u32 where "E820_TYPE_UNUSABLE = 5"
definition E820_TYPE_DISABLED :: u32 where "E820_TYPE_DISABLED = 6"
definition E820_TYPE_PERSISTENT :: u32 where "E820_TYPE_PERSISTENT = 7"

lemmas e820_type_defs =
  E820_TYPE_RAM_def E820_TYPE_RESERVED_def E820_TYPE_ACPI_def E820_TYPE_NVS_def
  E820_TYPE_UNUSABLE_def E820_TYPE_DISABLED_def E820_TYPE_PERSISTENT_def

definition e820_type_to_string :: "u32 \<Rightarrow> string" where
  "e820_type_to_string t =
     (if t = E820_TYPE_RAM then ''RAM''
      else if t = E820_TYPE_RESERVED then ''reserved''
      else if t = E820_TYPE_ACPI then ''ACPI''
      else if t = E820_TYPE_NVS then ''NVS''
      else if t = E820_TYPE_UNUSABLE then ''unusable''
      else if t = E820_TYPE_DISABLED then ''disabled''
      else if t = E820_TYPE_PERSISTENT then ''persistent''
      else ''UNKNOWN'')"

text \<open>
  \<^verbatim>\<open>struct early_page_alloc_state\<close> is six 64-bit words and \<^verbatim>\<open>struct early_page_alloc_span\<close>
  seven, and both share one page.
\<close>

definition MAX_E820_RAM_ENTRIES :: u64 where
  "MAX_E820_RAM_ENTRIES = (PAGE_SIZE - 6 * 8) div (7 * 8)"

abbreviation entry_count :: "early_boot_info \<Rightarrow> nat" where
  "entry_count info \<equiv> nat (sint (num_e820_entries info))"

definition entries_of :: "early_boot_info \<Rightarrow> e820_entry list" where
  "entries_of info = map (e820_entries info) [0..<entry_count info]"

section \<open>Operations\<close>

definition less_e820 :: "e820_entry \<Rightarrow> e820_entry \<Rightarrow> bool" where
  "less_e820 a b \<longleftrightarrow>
     e820_base a < e820_base b \<or> (e820_base a = e820_base b \<and> e820_size a < e820_size b)"

definition delete_e820_entry :: "early_boot_info \<Rightarrow> nat \<Rightarrow> early_boot_info result" where
  "delete_e820_entry info index =
     (if num_e820_entries info = 0 then Inl (Panic ''0 e820 entries?'')
      else Inr (info\<lparr>e820_entries :=
             fold (\<lambda>i es. es(i := es (i + 1))) [index..<nat (sint (num_e820_entries info) - 1)]
               (e820_entries info),
           num_e820_entries := num_e820_entries info - 1\<rparr>))"

text \<open>The inner loop of the sort; its argument is the index \<^verbatim>\<open>j + 1\<close> of the hole.\<close>

fun insert_e820 :: "(nat \<Rightarrow> e820_entry) \<Rightarrow> e820_entry \<Rightarrow> nat \<Rightarrow> nat \<Rightarrow> e820_entry" where
  "insert_e820 es key 0 = es(0 := key)"
| "insert_e820 es key (Suc j) =
     (if \<not> less_e820 (es j) key then insert_e820 (es(Suc j := es j)) key j else es(Suc j := key))"

definition early_sort_e820 :: "early_boot_info \<Rightarrow> early_boot_info" where
  "early_sort_e820 info =
     info\<lparr>e820_entries := fold (\<lambda>i es. insert_e820 es (es i) i) [1..<entry_count info] (e820_entries info)\<rparr>"

text \<open>One turn of the merging loop, on \<^verbatim>\<open>curr_index\<close> and the entries.\<close>

definition merge_e820_step :: "nat \<Rightarrow> nat \<times> (nat \<Rightarrow> e820_entry) \<Rightarrow> nat \<times> (nat \<Rightarrow> e820_entry)" where
  "merge_e820_step i s =
     (case s of (curr_index, es) \<Rightarrow>
       let c = es curr_index; entry = es i;
           curr_range = \<lparr>range_from = e820_base c, range_to = e820_base c + e820_size c - 1\<rparr>;
           entry_range = \<lparr>range_from = e820_base entry, range_to = e820_base entry + e820_size entry - 1\<rparr>;
           keep = (curr_index + 1, if curr_index + 1 \<noteq> i then es(curr_index + 1 := entry) else es)
       in if e820_type entry \<noteq> e820_type c then keep
          else case range_compare curr_range entry_range of
              RANGE_SEPARATE \<Rightarrow> keep
            | RANGE_COINCIDE \<Rightarrow> (curr_index, es)
            | _ \<Rightarrow> (curr_index,
                es(curr_index := c\<lparr>e820_size := e820_size c + (range_to entry_range - range_to curr_range)\<rparr>)))"

definition early_merge_e820 :: "early_boot_info \<Rightarrow> early_boot_info" where
  "early_merge_e820 info =
     (case fold merge_e820_step [1..<entry_count info] (0, e820_entries info) of
        (curr_index, es) \<Rightarrow> info\<lparr>e820_entries := es, num_e820_entries := of_nat (curr_index + 1)\<rparr>)"

lemma sint_pred_u32: "0 < sint (x :: u32) \<Longrightarrow> sint (x - 1) = sint x - 1"
  using sint_ge [of x] sint_lt [of x] by (simp add: sint_word_ariths signed_take_bit_int_eq_self)

function normalise_e820_from :: "early_boot_info \<Rightarrow> nat \<Rightarrow> early_boot_info result" where
  "normalise_e820_from info i =
     (if i < entry_count info
      then let entry = e820_entries info i;
               start = e820_base entry; fin = e820_base entry + e820_size entry
           in if e820_type entry \<noteq> E820_TYPE_RAM then normalise_e820_from info (i + 1)
              else if IS_ALIGNED start PAGE_SIZE \<and> IS_ALIGNED fin PAGE_SIZE
              then normalise_e820_from info (i + 1)
              else let start = ALIGN_UP start PAGE_SIZE; fin = ALIGN fin PAGE_SIZE
                   in if start < fin
                      then normalise_e820_from
                        (info\<lparr>e820_entries := (e820_entries info)
                           (i := entry\<lparr>e820_base := start, e820_size := fin - start\<rparr>)\<rparr>) (i + 1)
                      else rbind (delete_e820_entry info i) (\<lambda>info. normalise_e820_from info i)
      else Inr info)"
  by pat_completeness auto
termination
  by (relation "measure (\<lambda>(info, i). entry_count info - i)")
    (auto simp: delete_e820_entry_def sint_pred_u32 split: if_splits)

declare normalise_e820_from.simps [simp del]

definition early_normalise_e820 :: "early_boot_info \<Rightarrow> early_boot_info result" where
  "early_normalise_e820 info = normalise_e820_from info 0"

definition early_set_total_ram :: "early_boot_info \<Rightarrow> early_boot_info result" where
  "early_set_total_ram info =
     (case fold (\<lambda>i (bytes, num_ram_entries).
             let entry = e820_entries info i
             in if e820_type entry \<noteq> E820_TYPE_RAM then (bytes, num_ram_entries)
                else (bytes + e820_size entry, num_ram_entries + 1))
           [0..<entry_count info] (0 :: u64, 0 :: u64) of
        (bytes, num_ram_entries) \<Rightarrow>
          if num_ram_entries > MAX_E820_RAM_ENTRIES
          then Inl (Panic ''There are %lu E820 RAM entries present, maximum permitted is %lu'')
          else Inr (info\<lparr>total_avail_ram_bytes := bytes, num_ram_spans := num_ram_entries\<rparr>))"


section \<open>Sorting\<close>

definition le_e820 :: "e820_entry \<Rightarrow> e820_entry \<Rightarrow> bool" where
  "le_e820 a b \<longleftrightarrow> \<not> less_e820 b a"

lemma le_e820_trans: "le_e820 a b \<Longrightarrow> le_e820 b c \<Longrightarrow> le_e820 a c"
  by (auto simp: le_e820_def less_e820_def)

lemma less_imp_le_e820: "less_e820 a b \<Longrightarrow> le_e820 a b"
  by (auto simp: le_e820_def less_e820_def)

text \<open>The first entries of the array, as a list.\<close>

definition slots :: "(nat \<Rightarrow> e820_entry) \<Rightarrow> nat \<Rightarrow> e820_entry list" where
  "slots es n = map es [0..<n]"

lemma slots_simps [simp]:
  "slots es 0 = []"
  "slots es (Suc n) = slots es n @ [es n]"
  "length (slots es n) = n"
  "n \<le> j \<Longrightarrow> slots (es(j := x)) n = slots es n"
  "n \<le> j \<Longrightarrow> slots (\<lambda>a. if a = j then x else es a) n = slots es n"
  by (auto simp: slots_def)

lemma slots_nth [simp]: "i < n \<Longrightarrow> slots es n ! i = es i"
  by (simp add: slots_def)

lemma entries_of_slots: "entries_of info = slots (e820_entries info) (entry_count info)"
  by (simp add: entries_of_def slots_def)

lemma insert_e820_frame [simp]: "k < j \<Longrightarrow> insert_e820 es key k j = es j"
  by (induction k arbitrary: es) simp_all

lemma insert_e820_mset: "mset (slots (insert_e820 es key k) (Suc k)) = add_mset key (mset (slots es k))"
  by (induction k arbitrary: es) simp_all

lemma insert_e820_sorted:
  "sorted_wrt le_e820 (slots es k) \<Longrightarrow> sorted_wrt le_e820 (slots (insert_e820 es key k) (Suc k))"
proof (induction k arbitrary: es)
  case (Suc j)
  have below: "\<forall>x \<in> set (slots es j). le_e820 x (es j)" using Suc.prems by (simp add: sorted_wrt_append)
  show ?case
  proof (cases "less_e820 (es j) key")
    case True
    then have "\<forall>x \<in> set (slots es j). le_e820 x key" using below less_imp_le_e820 le_e820_trans by blast
    with True Suc.prems show ?thesis by (simp add: sorted_wrt_append less_imp_le_e820)
  next
    case False
    let ?new = "slots (insert_e820 (es(Suc j := es j)) key j) (Suc j)"
    have "set ?new = insert key (set (slots es j))"
      using arg_cong [OF insert_e820_mset [of "es(Suc j := es j)" key j], of set_mset] by simp
    then have "\<forall>x \<in> set ?new. le_e820 x (es j)" using below False by (auto simp: le_e820_def)
    moreover have "sorted_wrt le_e820 ?new"
      using Suc.prems by (intro Suc.IH) (simp add: sorted_wrt_append)
    ultimately show ?thesis using False by (simp add: sorted_wrt_append)
  qed
qed simp

lemma sort_loop:
  fixes es :: "nat \<Rightarrow> e820_entry"
  assumes "1 \<le> k"
  defines "es' \<equiv> fold (\<lambda>i es. insert_e820 es (es i) i) [1..<k] es"
  shows "sorted_wrt le_e820 (slots es' k) \<and> mset (slots es' k) = mset (slots es k) \<and> (\<forall>j \<ge> k. es' j = es j)"
  using assms(1) unfolding es'_def
proof (induction k rule: dec_induct)
  case (step k)
  let ?s = "fold (\<lambda>i es. insert_e820 es (es i) i) [1..<k] es"
  have s: "fold (\<lambda>i es. insert_e820 es (es i) i) [1..<Suc k] es = insert_e820 ?s (?s k) k" using step.hyps by simp
  show ?case unfolding s
    using step.IH insert_e820_sorted [of ?s k "?s k"] insert_e820_mset [of ?s "?s k" k] by simp
qed simp

lemma early_sort_e820_fields [simp]:
  "num_e820_entries (early_sort_e820 info) = num_e820_entries info"
  "kernel_elf_size_bytes (early_sort_e820 info) = kernel_elf_size_bytes info"
  "apic_base (early_sort_e820 info) = apic_base info"
  by (simp_all add: early_sort_e820_def)

lemma early_sort_spec:
  "sorted_wrt le_e820 (entries_of (early_sort_e820 info)) \<and>
   mset (entries_of (early_sort_e820 info)) = mset (entries_of info) \<and>
   (\<forall>j \<ge> entry_count info. e820_entries (early_sort_e820 info) j = e820_entries info j)"
proof (cases "1 \<le> entry_count info")
  case True
  from sort_loop [OF True, of "e820_entries info"] show ?thesis
    unfolding entries_of_slots by (simp add: early_sort_e820_def)
next
  case False
  then show ?thesis unfolding entries_of_slots by (simp add: early_sort_e820_def)
qed


section \<open>Merging\<close>

text \<open>
  An entry covers the addresses from its base on. The entries the BIOS gives are assumed not
  to be empty and to end below the top of the 64-bit address space.
\<close>

definition covered :: "e820_entry \<Rightarrow> nat set" where
  "covered e = {unat (e820_base e) ..< unat (e820_base e) + unat (e820_size e)}"

definition covers :: "u32 \<Rightarrow> e820_entry list \<Rightarrow> nat set" where
  "covers t es = (\<Union>e \<in> {e \<in> set es. e820_type e = t}. covered e)"

definition entry_ok :: "e820_entry \<Rightarrow> bool" where
  "entry_ok e \<longleftrightarrow> 0 < unat (e820_size e) \<and> unat (e820_base e) + unat (e820_size e) < 2 ^ 64"

definition entry_end :: "e820_entry \<Rightarrow> nat" where
  "entry_end e = unat (e820_base e) + unat (e820_size e)"

lemma covers_simps [simp]:
  "covers t [] = {}"
  "covers t (es @ es') = covers t es \<union> covers t es'"
  "covers t [e] = (if e820_type e = t then covered e else {})"
  by (auto simp: covers_def)

lemma covers_Cons: "covers t (e # es) = covers t [e] \<union> covers t es"
  using covers_simps(2) [of t "[e]" es] by simp

lemma in_covers:
  "a \<in> covers t es \<longleftrightarrow>
    (\<exists>e \<in> set es. e820_type e = t \<and> unat (e820_base e) \<le> a \<and> a < unat (e820_base e) + unat (e820_size e))"
  by (auto simp: covers_def covered_def)

lemma covers_mono: "set es \<subseteq> set es' \<Longrightarrow> covers t es \<subseteq> covers t es'"
  by (auto simp: covers_def)

lemma covers_mset: "mset es = mset es' \<Longrightarrow> covers t es = covers t es'"
  by (metis covers_mono mset_eq_setD order_refl subset_antisym)

definition range_of :: "e820_entry \<Rightarrow> range_pair" where
  "range_of e = \<lparr>range_from = e820_base e, range_to = e820_base e + e820_size e - 1\<rparr>"

lemma unat_range_to: "entry_ok e \<Longrightarrow> unat (range_to (range_of e)) = entry_end e - 1"
proof -
  assume ok: "entry_ok e"
  then have "unat (e820_base e + e820_size e) = entry_end e"
    by (auto simp: entry_ok_def entry_end_def intro: unat_plus_no_wrap)
  with ok show ?thesis by (simp add: range_of_def entry_ok_def entry_end_def unat_minus_one_le)
qed

lemma range_of_facts:
  assumes "entry_ok e"
  shows "range_from (range_of e) = e820_base e" "unat (range_to (range_of e)) + 1 < 2 ^ 64"
    "proper_range (range_of e)" "range_set (range_of e) = covered e"
proof -
  show "range_from (range_of e) = e820_base e" by (simp add: range_of_def)
  show "unat (range_to (range_of e)) + 1 < 2 ^ 64"
    using assms unat_range_to [OF assms] by (simp add: entry_ok_def entry_end_def)
  show "proper_range (range_of e)" "range_set (range_of e) = covered e"
    using assms unat_range_to [OF assms]
    by (auto simp: proper_range_def range_set_def range_of_def word_le_nat_alt entry_ok_def entry_end_def covered_def)
qed

text \<open>How the code reads two entries of the sorted table, the first one earlier than the second.\<close>

lemma range_compare_ordered:
  assumes "entry_ok c" "entry_ok e" "e820_base c \<le> e820_base e"
  shows "range_compare (range_of c) (range_of e) =
    (if entry_end e \<le> entry_end c \<or> e820_base c = e820_base e then RANGE_COINCIDE
     else if unat (e820_base e) < entry_end c then RANGE_OVERLAP
     else if unat (e820_base e) = entry_end c then RANGE_ADJACENT else RANGE_SEPARATE)"
proof -
  have f: "unat (e820_base c) \<le> unat (e820_base e)" "unat (e820_base c) < entry_end c" "unat (e820_base e) < entry_end e"
    "e820_base c = e820_base e \<longleftrightarrow> unat (e820_base c) = unat (e820_base e)"
    using assms by (auto simp: entry_ok_def entry_end_def word_le_nat_alt word_unat_eq_iff)
  have cov: "covered x = {unat (e820_base x) ..< entry_end x}" for x by (simp add: covered_def entry_end_def)
  show ?thesis
    unfolding range_compare_sets [OF range_of_facts(3) [OF assms(1)] range_of_facts(3) [OF assms(2)]
        range_of_facts(2) [OF assms(1)] range_of_facts(2) [OF assms(2)]]
      range_of_facts(1,4) [OF assms(1)] range_of_facts(1,4) [OF assms(2)]
      unat_range_to [OF assms(1)] unat_range_to [OF assms(2)] cov
    using f by (auto simp: not_le)
qed

definition extend :: "e820_entry \<Rightarrow> e820_entry \<Rightarrow> e820_entry" where
  "extend c e = c\<lparr>e820_size := e820_size c + (range_to (range_of e) - range_to (range_of c))\<rparr>"

lemma extend_end:
  assumes "entry_ok c" "entry_ok e" "e820_base c \<le> e820_base e" "entry_end c \<le> entry_end e"
  shows "entry_ok (extend c e)" "entry_end (extend c e) = entry_end e"
    "e820_base (extend c e) = e820_base c" "e820_type (extend c e) = e820_type c"
proof -
  let ?d = "range_to (range_of e) - range_to (range_of c)"
  have "unat ?d = entry_end e - entry_end c"
    using assms by (subst unat_minus_le)
      (auto simp: word_le_nat_alt unat_range_to entry_ok_def entry_end_def)
  moreover from this have "unat (e820_size c + ?d) = unat (e820_size c) + unat ?d"
    using assms by (intro unat_plus_no_wrap) (auto simp: entry_ok_def entry_end_def)
  ultimately have "unat (e820_size (extend c e)) = unat (e820_size c) + (entry_end e - entry_end c)"
    by (simp add: extend_def)
  then show "entry_ok (extend c e)" "entry_end (extend c e) = entry_end e"
    using assms by (auto simp: entry_ok_def entry_end_def extend_def)
  show "e820_base (extend c e) = e820_base c" "e820_type (extend c e) = e820_type c"
    by (simp_all add: extend_def)
qed

text \<open>The turn of the loop, on entries in order.\<close>

lemma merge_step_ordered:
  assumes "entry_ok (es c)" "entry_ok (es i)" "e820_base (es c) \<le> e820_base (es i)"
  shows "merge_e820_step i (c, es) =
    (if e820_type (es i) \<noteq> e820_type (es c) \<or> entry_end (es c) < unat (e820_base (es i))
     then (Suc c, es(Suc c := es i))
     else if entry_end (es i) \<le> entry_end (es c) \<or> e820_base (es c) = e820_base (es i) then (c, es)
     else (c, es(c := extend (es c) (es i))))"
proof -
  have "\<not> unat (e820_base (es i)) < entry_end (es c) \<Longrightarrow> entry_end (es c) < entry_end (es i)"
    using assms(2) by (simp add: entry_ok_def entry_end_def)
  moreover have "entry_end (es c) < unat (e820_base (es i)) \<Longrightarrow> e820_base (es c) \<noteq> e820_base (es i)"
    by (auto simp: entry_end_def)
  moreover have "e820_base (es c) = e820_base (es i) \<Longrightarrow> unat (e820_base (es i)) < entry_end (es c)"
    using assms(1) by (auto simp: entry_ok_def entry_end_def)
  ultimately show ?thesis
    unfolding merge_e820_step_def prod.case Let_def range_of_def [symmetric] range_compare_ordered [OF assms]
    by (auto simp: extend_def [symmetric] fun_upd_idem)
qed


lemma covered_extend:
  assumes "entry_ok c" "entry_ok e" "e820_base c \<le> e820_base e" "unat (e820_base e) \<le> entry_end c" "entry_end c \<le> entry_end e"
  shows "covered (extend c e) = covered c \<union> covered e"
proof -
  have cov: "covered x = {unat (e820_base x) ..< entry_end x}" for x by (simp add: covered_def entry_end_def)
  show ?thesis unfolding cov extend_end [OF assms(1,2,3,5)] using assms(3,4,5) by (auto simp: word_le_nat_alt)
qed

abbreviation base_le :: "e820_entry \<Rightarrow> e820_entry \<Rightarrow> bool" where
  "base_le a b \<equiv> e820_base a \<le> e820_base b"

definition gap_between :: "e820_entry \<Rightarrow> e820_entry \<Rightarrow> bool" where
  "gap_between a b \<longleftrightarrow> (e820_type a = e820_type b \<longrightarrow> entry_end a < unat (e820_base b))"

text \<open>No two entries of one type start at the same address.\<close>

definition bases_distinct :: "e820_entry list \<Rightarrow> bool" where
  "bases_distinct es \<longleftrightarrow> distinct (map (\<lambda>e. (e820_type e, e820_base e)) es)"

definition merged_upto :: "(nat \<Rightarrow> e820_entry) \<Rightarrow> nat \<Rightarrow> nat \<times> (nat \<Rightarrow> e820_entry) \<Rightarrow> bool" where
  "merged_upto es0 k s \<longleftrightarrow>
     (case s of (c, es) \<Rightarrow>
       c < k \<and> (\<forall>j \<ge> k. es j = es0 j) \<and> (\<forall>e \<in> set (slots es (Suc c)). entry_ok e) \<and>
       (\<exists>e \<in> set (slots es0 k). e820_base (es c) = e820_base e \<and> e820_type (es c) = e820_type e) \<and>
       sorted_wrt base_le (slots es (Suc c)) \<and> successively gap_between (slots es (Suc c)) \<and>
       (\<forall>t. covers t (slots es (Suc c)) \<subseteq> covers t (slots es0 k)) \<and>
       (bases_distinct (slots es0 k) \<longrightarrow> (\<forall>t. covers t (slots es0 k) \<subseteq> covers t (slots es (Suc c)))))"

lemma merged_uptoI:
  assumes "c < k" "\<And>j. k \<le> j \<Longrightarrow> es j = es0 j" "\<forall>e \<in> set (slots es c). entry_ok e" "entry_ok (es c)"
    "\<exists>e \<in> set (slots es0 k). e820_base (es c) = e820_base e \<and> e820_type (es c) = e820_type e"
    "sorted_wrt base_le (slots es c @ [es c])" "successively gap_between (slots es c @ [es c])"
    "\<And>t. covers t (slots es c) \<union> covers t [es c] \<subseteq> covers t (slots es0 k)"
    "\<And>t. bases_distinct (slots es0 k) \<Longrightarrow> covers t (slots es0 k) \<subseteq> covers t (slots es c) \<union> covers t [es c]"
  shows "merged_upto es0 k (c, es)"
  unfolding merged_upto_def prod.case slots_simps(2) covers_simps(2) using assms by simp

lemma gap_between_base: "e820_base a = e820_base b \<Longrightarrow> e820_type a = e820_type b \<Longrightarrow> gap_between x a = gap_between x b"
  by (simp add: gap_between_def)

lemma merged_step:
  assumes inv: "merged_upto es0 k s" and ok: "entry_ok (es0 k)" and sorted: "sorted_wrt base_le (slots es0 (Suc k))"
  shows "merged_upto es0 (Suc k) (merge_e820_step k s)"
proof -
  obtain c es where s: "s = (c, es)" by (cases s)
  from inv obtain e where c: "c < k" "\<And>j. k \<le> j \<Longrightarrow> es j = es0 j" "\<forall>e \<in> set (slots es c). entry_ok e" "entry_ok (es c)"
    and e: "e \<in> set (slots es0 k)" "e820_base (es c) = e820_base e" "e820_type (es c) = e820_type e"
    and srt: "sorted_wrt base_le (slots es c @ [es c])" and gap: "successively gap_between (slots es c @ [es c])"
    and cov: "\<And>t. covers t (slots es c @ [es c]) \<subseteq> covers t (slots es0 k)"
      "\<And>t. bases_distinct (slots es0 k) \<Longrightarrow> covers t (slots es0 k) \<subseteq> covers t (slots es c @ [es c])"
    unfolding merged_upto_def s by auto
  have k: "es k = es0 k" using c(2) by simp
  have le: "e820_base (es c) \<le> e820_base (es k)" using sorted e by (auto simp: sorted_wrt_append k)
  have below: "\<forall>x \<in> set (slots es c). e820_base x \<le> e820_base (es c)" using srt by (simp add: sorted_wrt_append)
  have dist: "bases_distinct (slots es0 k)" "e820_type (es c) = e820_type (es k) \<Longrightarrow> e820_base (es c) \<noteq> e820_base (es k)"
    if "bases_distinct (slots es0 (Suc k))"
    using that e k by (auto simp: bases_distinct_def image_iff)
  have last: "\<exists>e \<in> set (slots es0 (Suc k)). e820_base (es c) = e820_base e \<and> e820_type (es c) = e820_type e"
    using e by auto
  have frame: "\<And>j. Suc k \<le> j \<Longrightarrow> es j = es0 j" using c(2) by simp
  note cov1 = cov(1) [unfolded covers_simps(2)] and cov2 = cov(2) [unfolded covers_simps(2)]
  show ?thesis
  proof (cases "e820_type (es k) \<noteq> e820_type (es c) \<or> entry_end (es c) < unat (e820_base (es k))")
    case True
    then have st: "merge_e820_step k s = (Suc c, es(Suc c := es0 k))"
      using merge_step_ordered [of es c k] c(4) ok le s k by simp
    have "gap_between (es c) (es0 k)" using True k by (auto simp: gap_between_def)
    moreover have "\<forall>x \<in> set (slots es c). e820_base x \<le> e820_base (es0 k)" using below le k by (auto intro: order_trans)
    moreover have upd: "slots (es(Suc c := es0 k)) (Suc c) = slots es c @ [es c]" "(es(Suc c := es0 k)) (Suc c) = es0 k" by simp_all
    ultimately show ?thesis unfolding st
    proof (intro merged_uptoI)
      fix t
      show "covers t (slots (es(Suc c := es0 k)) (Suc c)) \<union> covers t [(es(Suc c := es0 k)) (Suc c)] \<subseteq> covers t (slots es0 (Suc k))"
        unfolding upd slots_simps(2) [of es0] covers_simps(2) using cov1 [of t] by blast
      show "covers t (slots es0 (Suc k)) \<subseteq> covers t (slots (es(Suc c := es0 k)) (Suc c)) \<union> covers t [(es(Suc c := es0 k)) (Suc c)]"
        if "bases_distinct (slots es0 (Suc k))"
        unfolding upd slots_simps(2) [of es0] covers_simps(2) using cov2 [OF dist(1) [OF that], of t] by blast
    qed (use c ok srt gap le k in \<open>auto simp: sorted_wrt_append successively_append_iff\<close>)
  next
    case near: False
    show ?thesis
    proof (cases "entry_end (es k) \<le> entry_end (es c) \<or> e820_base (es c) = e820_base (es k)")
      case True
      with near have st: "merge_e820_step k s = (c, es)"
        using merge_step_ordered [of es c k] c(4) ok le s k by simp
      have in_c: "covered (es0 k) \<subseteq> covered (es c)" if "e820_base (es c) \<noteq> e820_base (es k)"
        using True that le k by (auto simp: covered_def entry_end_def word_le_nat_alt)
      show ?thesis unfolding st
      proof (intro merged_uptoI)
        fix t
        show "covers t (slots es c) \<union> covers t [es c] \<subseteq> covers t (slots es0 (Suc k))"
          unfolding slots_simps(2) covers_simps(2) using cov1 [of t] by blast
        show "covers t (slots es0 (Suc k)) \<subseteq> covers t (slots es c) \<union> covers t [es c]" if d: "bases_distinct (slots es0 (Suc k))"
        proof -
          have "covers t [es0 k] \<subseteq> covers t [es c]" using in_c dist(2) [OF d] near k by auto
          with cov2 [OF dist(1) [OF d], of t] show ?thesis unfolding slots_simps(2) covers_simps(2) by blast
        qed
      qed (use c srt gap last frame in \<open>simp_all del: slots_simps(2)\<close>)
    next
      case False
      let ?x = "extend (es c) (es k)"
      from near False have st: "merge_e820_step k s = (c, es(c := ?x))"
        using merge_step_ordered [of es c k] c(4) ok le s k by simp
      have okk: "entry_ok (es k)" using ok k by simp
      have end_le: "entry_end (es c) \<le> entry_end (es k)" using False by simp
      note x = extend_end [OF c(4) okk le end_le]
      have cx: "covers t [?x] = covers t [es c] \<union> covers t [es0 k]" for t
        using covered_extend [OF c(4) okk le _ end_le] near k x(4) by auto
      have "gap_between y ?x = gap_between y (es c)" for y using x(3,4) by (rule gap_between_base)
      then have gx: "successively gap_between (slots es c @ [?x])"
        using gap by (simp add: successively_append_iff)
      have upd: "slots (es(c := ?x)) c = slots es c" "(es(c := ?x)) c = ?x" by simp_all
      show ?thesis unfolding st
      proof (intro merged_uptoI; (unfold upd)?)
        fix t
        show "covers t (slots es c) \<union> covers t [?x] \<subseteq> covers t (slots es0 (Suc k))"
          unfolding cx slots_simps(2) covers_simps(2) using cov1 [of t] by blast
        show "covers t (slots es0 (Suc k)) \<subseteq> covers t (slots es c) \<union> covers t [?x]" if "bases_distinct (slots es0 (Suc k))"
          unfolding cx slots_simps(2) covers_simps(2) using cov2 [OF dist(1) [OF that], of t] by blast
      qed (use c(1,3) x gx last frame srt in \<open>simp_all add: sorted_wrt_append del: slots_simps(2)\<close>)
    qed
  qed
qed

lemma merge_loop:
  assumes "1 \<le> k" "\<forall>e \<in> set (slots es k). entry_ok e" "sorted_wrt base_le (slots es k)"
  shows "merged_upto es k (fold merge_e820_step [1..<k] (0, es))"
  using assms
proof (induction k rule: dec_induct)
  case base
  then show ?case by (auto simp: merged_upto_def)
next
  case (step k)
  have "fold merge_e820_step [1..<Suc k] (0, es) = merge_e820_step k (fold merge_e820_step [1..<k] (0, es))"
    using step.hyps by simp
  with step show ?case by (auto simp: sorted_wrt_append intro!: merged_step)
qed

lemma of_nat_count: "n < 2 ^ 31 \<Longrightarrow> nat (sint (of_nat n :: u32)) = n"
  by (simp add: sint_u32_eq_unat unat_of_nat_lt)

lemma early_merge_e820_fields [simp]:
  "kernel_elf_size_bytes (early_merge_e820 info) = kernel_elf_size_bytes info"
  "apic_base (early_merge_e820 info) = apic_base info"
  by (simp_all add: early_merge_e820_def split: prod.split)

lemma entry_count_lt: "entry_count info < 2 ^ 31"
  using sint_lt [of "num_e820_entries info"] by simp

lemma early_merge_spec:
  assumes "0 < entry_count info" "\<forall>e \<in> set (entries_of info). entry_ok e" "sorted_wrt base_le (entries_of info)"
  defines "out \<equiv> entries_of (early_merge_e820 info)"
  shows "0 < entry_count (early_merge_e820 info)" "length out \<le> length (entries_of info)" "\<forall>e \<in> set out. entry_ok e"
    "sorted_wrt base_le out" "successively gap_between out" "covers t out \<subseteq> covers t (entries_of info)"
    "bases_distinct (entries_of info) \<Longrightarrow> covers t out = covers t (entries_of info)"
proof -
  obtain c es where f: "fold merge_e820_step [1..<entry_count info] (0, e820_entries info) = (c, es)" by fastforce
  have m: "merged_upto (e820_entries info) (entry_count info) (c, es)"
    using merge_loop [of "entry_count info" "e820_entries info"] f assms(1-3) by (simp add: entries_of_slots)
  then have "c + 1 < 2 ^ 31" using entry_count_lt [of info] assms(1) by (simp add: merged_upto_def)
  then have n: "entry_count (early_merge_e820 info) = Suc c" using of_nat_count [of "Suc c"] f by (simp add: early_merge_e820_def)
  then have out: "out = slots es (Suc c)" unfolding out_def entries_of_slots using f by (simp add: early_merge_e820_def)
  note m = m [unfolded merged_upto_def prod.case, folded out entries_of_slots]
  show "0 < entry_count (early_merge_e820 info)" using n by simp
  show "length out \<le> length (entries_of info)" using m out unfolding entries_of_slots by simp
  show "\<forall>e \<in> set out. entry_ok e" "sorted_wrt base_le out" "successively gap_between out"
    "covers t out \<subseteq> covers t (entries_of info)" using m by blast+
  show "covers t out = covers t (entries_of info)" if "bases_distinct (entries_of info)"
    using m that by blast
qed


section \<open>Trimming to whole pages\<close>

definition normalise_entry :: "e820_entry \<Rightarrow> e820_entry list" where
  "normalise_entry e =
     (let start = ALIGN_UP (e820_base e) PAGE_SIZE; fin = ALIGN (e820_base e + e820_size e) PAGE_SIZE
      in if e820_type e \<noteq> E820_TYPE_RAM \<or>
            IS_ALIGNED (e820_base e) PAGE_SIZE \<and> IS_ALIGNED (e820_base e + e820_size e) PAGE_SIZE then [e]
         else if start < fin then [e\<lparr>e820_base := start, e820_size := fin - start\<rparr>] else [])"

lemma shift_loop:
  "fold (\<lambda>i es. es(i := es (Suc i))) [a..<b] es = (\<lambda>j. if a \<le> j \<and> j < b then es (Suc j) else es j)"
  by (induction b) (auto simp: fun_eq_iff less_Suc_eq)

definition same_but_entries :: "early_boot_info \<Rightarrow> early_boot_info \<Rightarrow> bool" where
  "same_but_entries a b \<longleftrightarrow>
     b = a\<lparr>e820_entries := e820_entries b, num_e820_entries := num_e820_entries b\<rparr>"

lemma same_but_entries_trans: "same_but_entries a b \<Longrightarrow> same_but_entries b c \<Longrightarrow> same_but_entries a c"
  by (cases a, cases b, cases c) (simp add: same_but_entries_def)

lemma delete_entry_spec:
  assumes "i < entry_count info"
  shows "\<exists>info'. delete_e820_entry info i = Inr info' \<and> same_but_entries info info' \<and>
    entries_of info' = take i (entries_of info) @ drop (Suc i) (entries_of info)"
proof -
  let ?n = "entry_count info"
  have pos: "0 < sint (num_e820_entries info)" using assms by simp
  then have nz: "num_e820_entries info \<noteq> 0" by auto
  have n: "nat (sint (num_e820_entries info - 1)) = ?n - 1" "nat (sint (num_e820_entries info) - 1) = ?n - 1"
    using sint_pred_u32 [OF pos] by simp_all
  have "map (\<lambda>j. if i \<le> j \<and> j < ?n - 1 then e820_entries info (Suc j) else e820_entries info j) [0..<?n - 1] =
      take i (entries_of info) @ drop (Suc i) (entries_of info)"
    using assms by (intro nth_equalityI) (auto simp: entries_of_def nth_append less_diff_conv)
  with nz show ?thesis by (auto simp: delete_e820_entry_def entries_of_def same_but_entries_def n shift_loop)
qed

lemma entries_of_upd:
  "entries_of (info\<lparr>e820_entries := (e820_entries info)(i := x)\<rparr>) = (entries_of info)[i := x]"
  by (rule nth_equalityI) (auto simp: entries_of_def nth_list_update)

lemma normalise_from_spec:
  "\<exists>info'. normalise_e820_from info i = Inr info' \<and> same_but_entries info info' \<and>
    entries_of info' = take i (entries_of info) @ concat (map normalise_entry (drop i (entries_of info)))"
proof (induction info i rule: normalise_e820_from.induct)
  case (1 info i)
  let ?es = "entries_of info" and ?e = "e820_entries info i"
  let ?s = "ALIGN_UP (e820_base ?e) PAGE_SIZE" and ?f = "ALIGN (e820_base ?e + e820_size ?e) PAGE_SIZE"
  show ?case
  proof (cases "i < entry_count info")
    case False
    then show ?thesis
      by (subst normalise_e820_from.simps) (simp add: same_but_entries_def entries_of_def)
  next
    case i: True
    then have len: "i < length ?es" and nth: "?es ! i = ?e" by (simp_all add: entries_of_def)
    have split: "drop i ?es = ?e # drop (Suc i) ?es" "take (Suc i) ?es = take i ?es @ [?e]"
      using Cons_nth_drop_Suc [OF len] take_Suc_conv_app_nth [OF len] nth by simp_all
    consider (keep) "e820_type ?e \<noteq> E820_TYPE_RAM \<or> IS_ALIGNED (e820_base ?e) PAGE_SIZE \<and>
           IS_ALIGNED (e820_base ?e + e820_size ?e) PAGE_SIZE"
      | (trim) "\<not> (e820_type ?e \<noteq> E820_TYPE_RAM)" "\<not> (IS_ALIGNED (e820_base ?e) PAGE_SIZE \<and>
           IS_ALIGNED (e820_base ?e + e820_size ?e) PAGE_SIZE)" "?s < ?f"
      | (drop) "\<not> (e820_type ?e \<noteq> E820_TYPE_RAM)" "\<not> (IS_ALIGNED (e820_base ?e) PAGE_SIZE \<and>
           IS_ALIGNED (e820_base ?e + e820_size ?e) PAGE_SIZE)" "\<not> ?s < ?f"
      by blast
    then show ?thesis
    proof cases
      case keep
      have "\<exists>info'. normalise_e820_from info (i + 1) = Inr info' \<and> same_but_entries info info' \<and>
          entries_of info' = take (i + 1) ?es @ concat (map normalise_entry (drop (i + 1) ?es))"
        using keep "1.IH"(1,2) [OF i refl refl refl] by blast
      moreover have "normalise_entry ?e = [?e]" using keep by (auto simp: normalise_entry_def Let_def)
      moreover have "normalise_e820_from info i = normalise_e820_from info (i + 1)"
        using i keep by (subst normalise_e820_from.simps) (auto simp: Let_def)
      ultimately show ?thesis using split by simp
    next
      case trim
      let ?x = "?e\<lparr>e820_base := ?s, e820_size := ?f - ?s\<rparr>"
      let ?info = "info\<lparr>e820_entries := (e820_entries info)(i := ?x)\<rparr>"
      obtain info' where "normalise_e820_from ?info (i + 1) = Inr info'" "same_but_entries ?info info'"
          "entries_of info' = take (i + 1) (?es[i := ?x]) @ concat (map normalise_entry (drop (i + 1) (?es[i := ?x])))"
        using "1.IH"(3) [OF i refl refl refl trim(1,2) refl refl trim(3)] by (auto simp: entries_of_upd)
      moreover have "normalise_e820_from info i = normalise_e820_from ?info (i + 1)"
        using i trim by (subst normalise_e820_from.simps) (auto simp: Let_def)
      moreover have "take (i + 1) (?es[i := ?x]) = take i ?es @ [?x]"
        using len by (simp add: take_Suc_conv_app_nth)
      moreover have "normalise_entry ?e = [?x]" using trim by (auto simp: normalise_entry_def Let_def)
      moreover have "same_but_entries info ?info" by (simp add: same_but_entries_def)
      ultimately show ?thesis using split same_but_entries_trans by (auto simp: drop_update_cancel)
    next
      case drop
      obtain info1 where d: "delete_e820_entry info i = Inr info1" "same_but_entries info info1"
          "entries_of info1 = take i ?es @ drop (Suc i) ?es"
        using delete_entry_spec [OF i] by blast
      obtain info' where "normalise_e820_from info1 i = Inr info'" "same_but_entries info1 info'"
          "entries_of info' = take i (entries_of info1) @ concat (map normalise_entry (drop i (entries_of info1)))"
        using "1.IH"(4) [OF i refl refl refl drop(1,2) refl refl drop(3), of info1] d(1) by auto
      moreover have "normalise_e820_from info i = normalise_e820_from info1 i"
        using i drop d by (subst normalise_e820_from.simps) (auto simp: Let_def)
      moreover have "normalise_entry ?e = []" using drop by (auto simp: normalise_entry_def Let_def)
      ultimately show ?thesis using split d len same_but_entries_trans [OF d(2)] by auto
    qed
  qed
qed


lemma early_normalise_spec:
  "\<exists>info'. early_normalise_e820 info = Inr info' \<and> same_but_entries info info' \<and>
    entries_of info' = concat (map normalise_entry (entries_of info))"
  using normalise_from_spec [of info 0] by (simp add: early_normalise_e820_def)

definition page :: "nat \<Rightarrow> nat set" where
  "page p = {4096 * p ..< 4096 * (p + 1)}"

lemma whole_pages:
  "{(b + 4095) div 4096 * 4096 ..< f - f mod 4096} = (\<Union>p \<in> {p. page p \<subseteq> {b ..< f}}. page p)" (is "?l = ?r")
proof
  have sub: "page p \<subseteq> {b ..< f} \<longleftrightarrow> b \<le> 4096 * p \<and> 4096 * (p + 1) \<le> f" for p
    unfolding page_def by (subst ivl_subset) auto
  show "?l \<subseteq> ?r"
  proof
    fix x
    assume "x \<in> ?l"
    then have x: "(b + 4095) div 4096 * 4096 \<le> x" "x < 4096 * (f div 4096)" by (simp_all add: minus_mod_eq_mult_div)
    have "(b + 4095) div 4096 \<le> x div 4096" using x(1) by (simp add: less_eq_div_iff_mult_less_eq)
    then have "b \<le> 4096 * (x div 4096)" by linarith
    moreover have "x div 4096 < f div 4096" using x(2) by (simp add: div_less_iff_less_mult mult.commute)
    then have "4096 * (x div 4096 + 1) \<le> 4096 * (f div 4096)" by simp
    then have "4096 * (x div 4096 + 1) \<le> f" by (rule order_trans) simp
    moreover have "x \<in> page (x div 4096)" unfolding page_def by simp
    ultimately show "x \<in> ?r" using sub by blast
  qed
  show "?r \<subseteq> ?l"
  proof
    fix x
    assume "x \<in> ?r"
    then obtain p where p: "b \<le> 4096 * p" "4096 * (p + 1) \<le> f" "x \<in> page p" unfolding sub by blast
    have "(b + 4095) div 4096 < p + 1" using p(1) by (subst div_less_iff_less_mult) simp_all
    moreover have "p + 1 \<le> f div 4096" using p(2) by (subst less_eq_div_iff_mult_less_eq) simp_all
    ultimately show "x \<in> ?l" using p(3) unfolding page_def minus_mod_eq_mult_div by auto
  qed
qed

text \<open>An entry whose end, rounded up to a page, still is a 64-bit value.\<close>

definition entry_roomy :: "e820_entry \<Rightarrow> bool" where
  "entry_roomy e \<longleftrightarrow> entry_ok e \<and> entry_end e + 4096 \<le> 2 ^ 64"

lemma normalise_entry_pages:
  assumes "entry_roomy e" "e820_type e = E820_TYPE_RAM"
  shows "(\<Union>x \<in> set (normalise_entry e). covered x) = (\<Union>p \<in> {p. page p \<subseteq> covered e}. page p) \<and>
    (\<forall>x \<in> set (normalise_entry e). e820_type x = E820_TYPE_RAM \<and> entry_ok x \<and> 4096 dvd unat (e820_base x) \<and>
      4096 dvd unat (e820_size x))"
proof -
  let ?b = "unat (e820_base e)" and ?f = "entry_end e"
  let ?s = "ALIGN_UP (e820_base e) PAGE_SIZE" and ?t = "ALIGN (e820_base e + e820_size e) PAGE_SIZE"
  have ok: "entry_ok e" "?f + 4096 \<le> 2 ^ 64" "0 < unat (e820_size e)"
    using assms(1) by (simp_all add: entry_roomy_def entry_ok_def)
  have f: "unat (e820_base e + e820_size e) = ?f"
    using ok by (auto simp: entry_ok_def entry_end_def intro: unat_plus_no_wrap)
  have s: "unat ?s = (?b + 4095) div 4096 * 4096"
    using unat_ALIGN_UP [of 12 "e820_base e"] ok(2) by (simp add: PAGE_SIZE_def entry_end_def)
  have t: "unat ?t = ?f - ?f mod 4096" using unat_ALIGN [of _ 12] f by (simp add: PAGE_SIZE_def)
  have al: "IS_ALIGNED (e820_base e) PAGE_SIZE \<longleftrightarrow> 4096 dvd ?b" "IS_ALIGNED (e820_base e + e820_size e) PAGE_SIZE \<longleftrightarrow> 4096 dvd ?f"
    using IS_ALIGNED_iff [of _ 12] f by (simp_all add: PAGE_SIZE_def)
  have cov: "covered x = {unat (e820_base x) ..< entry_end x}" for x by (simp add: covered_def entry_end_def)
  note pages = whole_pages [of ?b ?f, folded cov [of e] s t]
  consider (aligned) "4096 dvd ?b" "4096 dvd ?f" "normalise_entry e = [e]"
    | (trim) "?s < ?t" "normalise_entry e = [e\<lparr>e820_base := ?s, e820_size := ?t - ?s\<rparr>]"
    | (drop) "\<not> ?s < ?t" "normalise_entry e = []"
    using assms(2) al by (cases "4096 dvd ?b \<and> 4096 dvd ?f"; cases "?s < ?t") (simp_all add: normalise_entry_def Let_def)
  then show ?thesis
  proof cases
    case aligned
    then obtain u v where uv: "?b = 4096 * u" "?f = 4096 * v" by (auto simp: dvd_def)
    then have "unat ?s = ?b" "unat ?t = ?f" unfolding s t by simp_all
    with pages have "(\<Union>p \<in> {p. page p \<subseteq> covered e}. page p) = covered e" by (simp add: cov)
    moreover have "4096 dvd unat (e820_size e)" using uv by (simp add: entry_end_def) (metis dvd_triv_left dvd_add_right_iff)
    ultimately show ?thesis using aligned assms(2) ok(1) by simp
  next
    case trim
    let ?x = "e\<lparr>e820_base := ?s, e820_size := ?t - ?s\<rparr>"
    have d: "unat (?t - ?s) = unat ?t - unat ?s" "unat ?s < unat ?t" "unat ?t < 2 ^ 64"
      using unat_minus_le [OF less_imp_le [OF trim(1)]] trim(1) t ok(2) by (simp_all add: word_less_nat_alt)
    then have "covered ?x = {unat ?s ..< unat ?t}" by (simp add: covered_def)
    moreover have "4096 dvd unat ?t - unat ?s" unfolding s t minus_mod_eq_mult_div by (rule dvd_diff_nat) simp_all
    moreover have "4096 dvd unat ?s" unfolding s by simp
    ultimately show ?thesis using trim(2) assms(2) d pages by (simp add: entry_ok_def)
  next
    case drop
    then have "{unat ?s ..< unat ?t} = {}" by (simp add: word_less_nat_alt)
    with drop(2) pages show ?thesis by simp
  qed
qed

lemma normalise_other: "e820_type e \<noteq> E820_TYPE_RAM \<Longrightarrow> normalise_entry e = [e]"
  by (simp add: normalise_entry_def)

lemma normalised_list:
  assumes "\<forall>e \<in> set es. e820_type e = E820_TYPE_RAM \<longrightarrow> entry_roomy e"
  defines "out \<equiv> concat (map normalise_entry es)"
  shows "covers E820_TYPE_RAM out =
      (\<Union>p \<in> {p. \<exists>e \<in> set es. e820_type e = E820_TYPE_RAM \<and> page p \<subseteq> covered e}. page p) \<and>
    (\<forall>e \<in> set out. e820_type e = E820_TYPE_RAM \<longrightarrow> 4096 dvd unat (e820_base e) \<and> 4096 dvd unat (e820_size e)) \<and>
    filter (\<lambda>e. e820_type e \<noteq> E820_TYPE_RAM) out = filter (\<lambda>e. e820_type e \<noteq> E820_TYPE_RAM) es"
  using assms(1) unfolding out_def
proof (induction es)
  case (Cons e es)
  show ?case
  proof (cases "e820_type e = E820_TYPE_RAM")
    case True
    then have n: "(\<Union>x \<in> set (normalise_entry e). covered x) = (\<Union>p \<in> {p. page p \<subseteq> covered e}. page p)"
        "\<forall>x \<in> set (normalise_entry e). e820_type x = E820_TYPE_RAM \<and> 4096 dvd unat (e820_base x) \<and> 4096 dvd unat (e820_size x)"
      using normalise_entry_pages [of e] Cons.prems by auto
    have "filter (\<lambda>e. e820_type e \<noteq> E820_TYPE_RAM) (normalise_entry e) = []" using n(2) by (simp add: filter_empty_conv)
    moreover have "covers E820_TYPE_RAM (normalise_entry e) = (\<Union>x \<in> set (normalise_entry e). covered x)"
      using n(2) by (auto simp: covers_def)
    moreover have "(\<Union>p \<in> {p. \<exists>x \<in> set (e # es). e820_type x = E820_TYPE_RAM \<and> page p \<subseteq> covered x}. page p) =
        (\<Union>p \<in> {p. page p \<subseteq> covered e}. page p) \<union>
        (\<Union>p \<in> {p. \<exists>x \<in> set es. e820_type x = E820_TYPE_RAM \<and> page p \<subseteq> covered x}. page p)"
      using True by auto
    ultimately show ?thesis using Cons True n by auto
  next
    case False
    then show ?thesis using Cons by (simp add: normalise_other covers_Cons [of _ e])
  qed
qed simp

lemma normalised_length: "length (concat (map normalise_entry es)) \<le> length es"
proof (induction es)
  case (Cons e es)
  have "length (normalise_entry e) \<le> 1" by (simp add: normalise_entry_def Let_def)
  with Cons show ?case by simp
qed simp

section \<open>Adding up\<close>

lemma total_loop:
  fixes es :: "nat \<Rightarrow> e820_entry" and n :: nat
  defines "ram \<equiv> filter (\<lambda>e. e820_type e = E820_TYPE_RAM) (slots es n)"
  shows "fold (\<lambda>i (bytes, num_ram_entries).
      let entry = es i in if e820_type entry \<noteq> E820_TYPE_RAM then (bytes, num_ram_entries)
        else (bytes + e820_size entry, num_ram_entries + 1)) [0..<n] (0 :: u64, 0 :: u64) =
    (sum_list (map e820_size ram), of_nat (length ram))"
  unfolding ram_def by (induction n) (simp_all add: Let_def)

lemma unat_MAX_E820: "unat MAX_E820_RAM_ENTRIES = 72"
  by (simp add: MAX_E820_RAM_ENTRIES_def PAGE_SIZE_def BIT_MASK_def)

lemma early_set_total_ram_spec:
  defines "ram i \<equiv> filter (\<lambda>e. e820_type e = E820_TYPE_RAM) (entries_of i)"
  shows "early_set_total_ram info =
    (if 72 < length (ram info) then Inl (Panic ''There are %lu E820 RAM entries present, maximum permitted is %lu'')
     else Inr (info\<lparr>total_avail_ram_bytes := sum_list (map e820_size (ram info)), num_ram_spans := of_nat (length (ram info))\<rparr>))"
proof -
  have "length (ram info) \<le> entry_count info" by (simp add: ram_def entries_of_def) (metis length_filter_le length_map length_upt minus_nat.diff_0)
  then have "length (ram info) < 2 ^ 64" using entry_count_lt [of info] by simp
  then have "MAX_E820_RAM_ENTRIES < of_nat (length (ram info)) \<longleftrightarrow> 72 < length (ram info)"
    by (simp add: word_less_nat_alt unat_of_nat_lt unat_MAX_E820)
  then show ?thesis
    unfolding early_set_total_ram_def total_loop ram_def entries_of_slots [symmetric] by simp
qed


section \<open>What merging does not merge\<close>

lemma merge_alternating:
  assumes "0 < entry_count info" "successively (\<lambda>d e. e820_type d \<noteq> e820_type e) (entries_of info)"
  shows "entries_of (early_merge_e820 info) = entries_of info"
proof -
  let ?es = "e820_entries info"
  have differ: "e820_type (?es (Suc i)) \<noteq> e820_type (?es i)" if "Suc i < entry_count info" for i
    using assms(2) that unfolding successively_conv_nth entries_of_slots
    by (metis Suc_lessD slots_simps(3) slots_nth)
  have "fold merge_e820_step [1..<k] (0, ?es) = (k - 1, ?es)" if "1 \<le> k" "k \<le> entry_count info" for k
    using that
  proof (induction k rule: dec_induct)
    case (step k)
    then have "merge_e820_step k (k - 1, ?es) = (k, ?es)"
      using differ [of "k - 1"] by (simp add: merge_e820_step_def Let_def)
    with step show ?case by simp
  qed simp
  from this [of "entry_count info"] assms(1) show ?thesis
    using entry_count_lt [of info] by (simp add: early_merge_e820_def entries_of_slots of_nat_count)
qed

lemma merge_one_base:
  assumes "0 < entry_count info" "\<forall>e \<in> set (entries_of info). entry_ok e \<and> e820_base e = b \<and> e820_type e = t"
  shows "\<exists>e \<in> set (entries_of info). entries_of (early_merge_e820 (early_sort_e820 info)) = [e] \<and>
    (\<forall>e' \<in> set (entries_of info). e820_size e \<le> e820_size e')"
proof -
  let ?s = "early_sort_e820 info"
  let ?es = "e820_entries ?s" and ?n = "entry_count info"
  have srt: "sorted_wrt le_e820 (slots ?es ?n)" and set_eq: "set (slots ?es ?n) = set (entries_of info)"
    using early_sort_spec [of info] mset_eq_setD unfolding entries_of_slots [of ?s] by auto
  have els: "?es i \<in> set (entries_of info)" if "i < ?n" for i
    using that unfolding set_eq [symmetric] by (metis slots_simps(3) nth_mem slots_nth)
  have step: "merge_e820_step i (0, ?es) = (0, ?es)" if "i < ?n" for i
    using assms(2) els [OF that] els [OF assms(1)] by (subst merge_step_ordered) (auto simp: entry_ok_def entry_end_def)
  have loop: "fold merge_e820_step is (0, ?es) = (0, ?es)" if "\<forall>i \<in> set is. i < ?n" for "is"
    using that by (induction "is") (simp_all add: step)
  have "fold merge_e820_step [1..<?n] (0, ?es) = (0, ?es)" by (rule loop) simp
  then have "entries_of (early_merge_e820 ?s) = [?es 0]"
    by (simp add: early_merge_e820_def entries_of_slots)
  moreover have "e820_size (?es 0) \<le> e820_size e" if e: "e \<in> set (entries_of info)" for e
  proof -
    obtain i where i: "i < ?n" "e = ?es i" using e unfolding set_eq [symmetric] by (metis in_set_conv_nth slots_simps(3) slots_nth)
    then show ?thesis
      using sorted_wrt_nth_less [OF srt, of 0 i] assms(2) els [OF assms(1)] els [OF i(1)]
      by (cases "i = 0") (auto simp: le_e820_def less_e820_def not_less)
  qed
  ultimately show ?thesis using els [OF assms(1)] by blast
qed

section \<open>Properties\<close>

text \<open>A boot information block with a given table, for examples.\<close>

definition boot_table :: "e820_entry list \<Rightarrow> early_boot_info" where
  "boot_table es = \<lparr>total_avail_ram_bytes = 0, num_ram_spans = 0, apic_base = 0xfee00000,
     kernel_elf_size_bytes = 0x4000, num_e820_entries = of_nat (length es),
     e820_entries = (\<lambda>i. if i < length es then es ! i else \<lparr>e820_base = 0, e820_size = 0, e820_type = 0\<rparr>)\<rparr>"

lemma entries_of_boot_table: "length es < 2 ^ 31 \<Longrightarrow> entries_of (boot_table es) = es"
  by (rule nth_equalityI) (auto simp: entries_of_def boot_table_def of_nat_count)

abbreviation e820_row :: "u64 \<Rightarrow> u64 \<Rightarrow> u32 \<Rightarrow> e820_entry" where
  "e820_row b s t \<equiv> \<lparr>e820_base = b, e820_size = s, e820_type = t\<rparr>"

text \<open>
  Sorting the memory map. After \<^verbatim>\<open>early_sort_e820\<close> the valid entries are in order of
  base and, for one base, of size; they are the entries that were there, each as often as
  before; and nothing past the last valid entry, nor any other field, is written.
\<close>

theorem early_sort_e820_correct:
  "sorted_wrt (\<lambda>a b. e820_base a < e820_base b \<or> e820_base a = e820_base b \<and> e820_size a \<le> e820_size b)
     (entries_of (early_sort_e820 info)) \<and>
   mset (entries_of (early_sort_e820 info)) = mset (entries_of info) \<and>
   early_sort_e820 info = info\<lparr>e820_entries := e820_entries (early_sort_e820 info)\<rparr> \<and>
   (j < entry_count info \<or> e820_entries (early_sort_e820 info) j = e820_entries info j)"
proof -
  have "le_e820 = (\<lambda>a b. e820_base a < e820_base b \<or> e820_base a = e820_base b \<and> e820_size a \<le> e820_size b)"
    by (auto simp: fun_eq_iff le_e820_def less_e820_def)
  then show ?thesis using early_sort_spec [of info] by (auto simp: early_sort_e820_def not_le)
qed

text \<open>
  C25: Merging the sorted map. Take a table in order of base whose entries are not empty
  and end below the top of the address space. Afterwards there are at most as many entries,
  still in order of base; neighbours of one type have a gap between them; the addresses
  given a type are among those given it before, and exactly those when no two entries of one
  type start at the same address.
\<close>

theorem early_merge_e820_correct:
  assumes "0 < entry_count info" "\<forall>e \<in> set (entries_of info). entry_ok e" "sorted_wrt base_le (entries_of info)"
  shows "length (entries_of (early_merge_e820 info)) \<le> length (entries_of info) \<and>
    sorted_wrt base_le (entries_of (early_merge_e820 info)) \<and>
    successively gap_between (entries_of (early_merge_e820 info)) \<and>
    covers t (entries_of (early_merge_e820 info)) \<subseteq> covers t (entries_of info) \<and>
    (bases_distinct (entries_of info) \<longrightarrow>
      covers t (entries_of (early_merge_e820 info)) = covers t (entries_of info))"
  using early_merge_spec [OF assms] by blast

theorem early_merge_e820_correct_witness:
  "covers 1 (entries_of (early_merge_e820
     (boot_table [e820_row 0 0x2000 1, e820_row 0x1000 0x2000 1, e820_row 0x3000 0x1000 2]))) = {a. a < 0x3000}"
proof -
  let ?es = "[e820_row 0 0x2000 1, e820_row 0x1000 0x2000 1, e820_row 0x3000 0x1000 2]"
  have es: "entries_of (boot_table ?es) = ?es" by (rule entries_of_boot_table) simp
  have "length (entries_of (boot_table ?es)) = 3" unfolding es by simp
  then have "0 < entry_count (boot_table ?es)" by (simp add: entries_of_def)
  moreover have "\<forall>e \<in> set ?es. entry_ok e" "sorted_wrt base_le ?es" "bases_distinct ?es"
    by (simp_all add: entry_ok_def bases_distinct_def)
  ultimately have "covers 1 (entries_of (early_merge_e820 (boot_table ?es))) = covers 1 ?es"
    using early_merge_e820_correct [of "boot_table ?es" 1] unfolding es by blast
  also have "\<dots> = {a. a < 0x3000}" by (auto simp: set_eq_iff in_covers)
  finally show ?thesis .
qed

text \<open>
  C27: Where merging falls short. Of entries of one base and one type, however many and
  however large, sorting and merging keep a smallest one only, so the addresses past its end
  are lost; a table in which neighbours differ in type is kept as it is, whatever overlaps in
  it, so RAM that overlaps RAM across an entry of another type is listed twice; and a table
  with no entries turns into one of one entry, read from the memory after the header.
\<close>

theorem early_merge_e820_limits:
  assumes "0 < entry_count same" and "\<forall>e \<in> set (entries_of same). entry_ok e \<and> e820_base e = b \<and> e820_type e = t"
    and "0 < entry_count mixed" and "successively (\<lambda>d e. e820_type d \<noteq> e820_type e) (entries_of mixed)"
    and "entry_count none = 0"
  shows "(\<exists>e \<in> set (entries_of same). entries_of (early_merge_e820 (early_sort_e820 same)) = [e] \<and>
      (\<forall>e' \<in> set (entries_of same). e820_size e \<le> e820_size e')) \<and>
    entries_of (early_merge_e820 mixed) = entries_of mixed \<and>
    entries_of (early_merge_e820 none) = [e820_entries none 0]"
  using merge_one_base [OF assms(1,2)] merge_alternating [OF assms(3,4)] assms(5)
  by (simp add: entries_of_slots early_merge_e820_def)

theorem early_merge_e820_limits_witness:
  "entries_of (early_merge_e820 (boot_table [e820_row 0 0x4000 1, e820_row 0x1000 0x1000 3, e820_row 0x2000 0x1000 1])) =
     [e820_row 0 0x4000 1, e820_row 0x1000 0x1000 3, e820_row 0x2000 0x1000 1] \<and>
   (\<exists>e \<in> {e820_row 0 0x3000 1, e820_row 0 0x1000 1}.
      entries_of (early_merge_e820 (early_sort_e820 (boot_table [e820_row 0 0x3000 1, e820_row 0 0x1000 1]))) = [e] \<and>
      e820_size e \<le> 0x1000)"
proof -
  let ?same = "[e820_row 0 0x3000 1, e820_row 0 0x1000 1]"
  let ?mixed = "[e820_row 0 0x4000 1, e820_row 0x1000 0x1000 3, e820_row 0x2000 0x1000 1]"
  have es: "entries_of (boot_table ?same) = ?same" "entries_of (boot_table ?mixed) = ?mixed"
    "0 < entry_count (boot_table ?same)" "0 < entry_count (boot_table ?mixed)" "entry_count (boot_table []) = 0"
    by (simp_all add: entries_of_boot_table) (simp_all add: boot_table_def)
  have "\<forall>e \<in> set (entries_of (boot_table ?same)). entry_ok e \<and> e820_base e = 0 \<and> e820_type e = 1"
    unfolding es(1) by (simp add: entry_ok_def)
  moreover have "successively (\<lambda>d e. e820_type d \<noteq> e820_type e) (entries_of (boot_table ?mixed))"
    unfolding es(2) by simp
  ultimately show ?thesis
    using early_merge_e820_limits [OF es(3) _ es(4) _ es(5), of 0 1] unfolding es(1,2) by auto
qed

text \<open>
  C13: The memory map as the kernel uses it. Sorting, merging, trimming and adding up a map
  with at least one entry, none of them empty or within a page of the top of the address
  space, either halts, when more than 72 RAM entries remain (so that there were more than 72 entries), or ends with RAM entries that
  are page aligned and hold exactly the whole pages inside a merged RAM entry, all of which
  the BIOS called RAM, with their number as the number of spans and their sizes added up
  (modulo \<open>2\<^sup>6\<^sup>4\<close>) as the total. The other entries are the merged ones.
\<close>

theorem memory_map_prepared:
  assumes "0 < entry_count info" "\<forall>e \<in> set (entries_of info). entry_roomy e"
  defines "merged \<equiv> entries_of (early_merge_e820 (early_sort_e820 info))"
    and "out \<equiv> rbind (early_normalise_e820 (early_merge_e820 (early_sort_e820 info))) early_set_total_ram"
  shows "72 < length (entries_of info) \<and>
      out = Inl (Panic ''There are %lu E820 RAM entries present, maximum permitted is %lu'') \<or>
    (\<exists>info' ram. out = Inr info' \<and> ram = filter (\<lambda>e. e820_type e = E820_TYPE_RAM) (entries_of info') \<and>
      length ram \<le> 72 \<and>
      covers E820_TYPE_RAM (entries_of info') =
        (\<Union>p \<in> {p. \<exists>e \<in> set merged. e820_type e = E820_TYPE_RAM \<and> page p \<subseteq> covered e}. page p) \<and>
      covers E820_TYPE_RAM (entries_of info') \<subseteq> covers E820_TYPE_RAM (entries_of info) \<and>
      (\<forall>e \<in> set ram. 4096 dvd unat (e820_base e) \<and> 4096 dvd unat (e820_size e)) \<and>
      total_avail_ram_bytes info' = sum_list (map e820_size ram) \<and> num_ram_spans info' = of_nat (length ram) \<and>
      filter (\<lambda>e. e820_type e \<noteq> E820_TYPE_RAM) (entries_of info') = filter (\<lambda>e. e820_type e \<noteq> E820_TYPE_RAM) merged)"
proof -
  let ?sorted = "early_sort_e820 info" and ?ram = "filter (\<lambda>e. e820_type e = E820_TYPE_RAM)"
  have ms: "mset (entries_of ?sorted) = mset (entries_of info)" using early_sort_spec [of info] by simp
  then have set: "set (entries_of ?sorted) = set (entries_of info)" by (rule mset_eq_setD)
  have "sorted_wrt base_le (entries_of ?sorted)"
    using conjunct1 [OF early_sort_spec [of info]]
    by (rule sorted_wrt_mono_rel [rotated]) (auto simp: le_e820_def less_e820_def)
  moreover have "\<forall>e \<in> set (entries_of ?sorted). entry_ok e" using assms(2) set by (simp add: entry_roomy_def)
  moreover have "0 < entry_count ?sorted" using assms(1) by simp
  ultimately have m: "\<forall>e \<in> set merged. entry_ok e" "covers t merged \<subseteq> covers t (entries_of info)"
      "length merged \<le> length (entries_of info)" for t
    using early_merge_spec [of ?sorted] covers_mset [OF ms] mset_eq_length [OF ms] unfolding merged_def by auto
  have roomy: "entry_roomy e" if e: "e \<in> set merged" for e
  proof -
    have "entry_end e - 1 \<in> covered e" "0 < entry_end e"
      using m(1) e by (auto simp: entry_ok_def entry_end_def covered_def)
    moreover have "covered e \<subseteq> covers (e820_type e) merged" using e by (auto simp: covers_def)
    ultimately obtain e' where e': "e' \<in> set (entries_of info)" "entry_end e - 1 \<in> covered e'" "0 < entry_end e"
      using m(2) unfolding covers_def [of _ "entries_of info"] by blast
    then have "entry_end e \<le> entry_end e'" by (auto simp: covered_def entry_end_def)
    with e'(1) assms(2) m(1) e show ?thesis by (fastforce simp: entry_roomy_def)
  qed
  obtain info1 where n: "early_normalise_e820 (early_merge_e820 ?sorted) = Inr info1"
      "entries_of info1 = concat (map normalise_entry merged)"
    using early_normalise_spec [of "early_merge_e820 ?sorted"] unfolding merged_def by blast
  have l: "covers E820_TYPE_RAM (entries_of info1) =
        (\<Union>p \<in> {p. \<exists>e \<in> set merged. e820_type e = E820_TYPE_RAM \<and> page p \<subseteq> covered e}. page p)"
      "\<forall>e \<in> set (?ram (entries_of info1)). 4096 dvd unat (e820_base e) \<and> 4096 dvd unat (e820_size e)"
      "filter (\<lambda>e. e820_type e \<noteq> E820_TYPE_RAM) (entries_of info1) = filter (\<lambda>e. e820_type e \<noteq> E820_TYPE_RAM) merged"
    using normalised_list [of merged] roomy n(2) by auto
  have "covers E820_TYPE_RAM (entries_of info1) \<subseteq> covers E820_TYPE_RAM merged" unfolding l(1) by (auto simp: covers_def)
  then have sub: "covers E820_TYPE_RAM (entries_of info1) \<subseteq> covers E820_TYPE_RAM (entries_of info)" using m(2) by blast
  show ?thesis
  proof (cases "72 < length (?ram (entries_of info1))")
    case True
    also have "length (?ram (entries_of info1)) \<le> length (entries_of info1)" by (rule length_filter_le)
    also have "\<dots> \<le> length (entries_of info)" using normalised_length [of merged] m(3) n(2) by simp
    finally show ?thesis using True by (simp add: out_def n early_set_total_ram_spec)
  next
    case False
    let ?i = "info1\<lparr>total_avail_ram_bytes := sum_list (map e820_size (?ram (entries_of info1))),
      num_ram_spans := of_nat (length (?ram (entries_of info1)))\<rparr>"
    have "entries_of ?i = entries_of info1" by (simp add: entries_of_def)
    moreover have "out = Inr ?i" using False by (simp add: out_def n early_set_total_ram_spec)
    ultimately show ?thesis using l sub False
      by (intro disjI2 exI [of _ ?i] exI [of _ "?ram (entries_of info1)"]) simp
  qed
qed

theorem memory_map_prepared_witness:
  "\<exists>info'. rbind (early_normalise_e820 (early_merge_e820 (early_sort_e820
       (boot_table [e820_row 0x2800 0x2000 1, e820_row 0 0x1000 2])))) early_set_total_ram = Inr info' \<and>
     covers E820_TYPE_RAM (entries_of info') \<subseteq> {a. 0x2800 \<le> a \<and> a < 0x4800}"
proof -
  define es where "es = [e820_row 0x2800 0x2000 1, e820_row 0 0x1000 2]"
  have e: "entries_of (boot_table es) = es" by (rule entries_of_boot_table) (simp add: es_def)
  have "entry_count (boot_table es) = length (entries_of (boot_table es))" by (simp add: entries_of_def)
  then have "0 < entry_count (boot_table es)" unfolding e by (simp add: es_def)
  moreover have "\<forall>e \<in> set (entries_of (boot_table es)). entry_roomy e"
    unfolding e by (simp add: es_def entry_roomy_def entry_ok_def entry_end_def)
  moreover have "\<not> 72 < length (entries_of (boot_table es))" unfolding e by (simp add: es_def)
  moreover have "covers E820_TYPE_RAM (entries_of (boot_table es)) = {a. 0x2800 \<le> a \<and> a < 0x4800}"
    unfolding e by (simp add: es_def set_eq_iff in_covers E820_TYPE_RAM_def)
  ultimately show ?thesis using memory_map_prepared [of "boot_table es"] unfolding es_def [symmetric] by auto
qed

end
