(* ===== verification/Early_Alloc.thy ===== *)
theory Early_Alloc
  imports Bitmap E820
begin

text \<open>
  The two allocators of early boot, \<^verbatim>\<open>early/mem.c\<close> lines 43 to 57 and 213 to 567 with the inline
  functions of \<^verbatim>\<open>include/early_mem.h\<close>: the scratch allocator, which hands out 1024 pages below
  the kernel image one after the other, and the early page allocator, which keeps four
  bitmaps per span of RAM.

  The state \<open>early_state\<close> has the two static variables of \<^verbatim>\<open>mem.c\<close>, the boot information block,
  the bitmaps, kept in a store indexed by the address of the bitmap, and the bytes of memory
  that the zeroing functions write, seen through the direct mapping. Operations that can
  panic return a \<open>result\<close>. A pointer to a span is its index in \<^verbatim>\<open>alloc_state->spans\<close>; the
  enumeration \<^verbatim>\<open>early_alloc_type\<close> is a datatype, which makes the \<^verbatim>\<open>default\<close> branch of
  \<^verbatim>\<open>mark_page_allocated\<close> unreachable.
\<close>

datatype early_alloc_type =
    EARLY_ALLOC_NORMAL
  | EARLY_ALLOC_EPHEMERAL
  | EARLY_ALLOC_PAGETABLE
  | EARLY_ALLOC_PHYSBLOCK

record scratch_alloc_state =
  scratch_start :: physaddr_t
  scratch_pages :: u64

record early_page_alloc_span =
  es_start :: physaddr_t
  es_num_pages :: u64
  es_num_allocated_pages :: u64
  alloc_bitmap :: u64
  ephemeral_bitmap :: u64
  pagetable_bitmap :: u64
  physblock_bitmap :: u64

record early_page_alloc_state =
  ea_total_pages :: u64
  ea_num_allocated_pages :: u64
  ea_num_ephemeral_pages :: u64
  ea_num_pagetable_pages :: u64
  ea_num_physblock_pages :: u64
  ea_num_spans :: u64
  ea_spans :: "nat \<Rightarrow> early_page_alloc_span"

record early_state =
  scratch_state :: scratch_alloc_state
  alloc_state :: early_page_alloc_state
  boot_info :: early_boot_info
  bitmaps :: "u64 \<Rightarrow> bitmap"
  mem :: memory

definition EARLY_MAX_SCRATCH_PAGES :: u64 where "EARLY_MAX_SCRATCH_PAGES = 1024"
definition KERNEL_STACK_ADDRESS_PHYS :: u64 where "KERNEL_STACK_ADDRESS_PHYS = 0x80000"
definition KERNEL_STACK_PAGES :: nat where "KERNEL_STACK_PAGES = 4"
definition X86_EARLY_PGD :: u64 where "X86_EARLY_PGD = 0x1000"
definition X86_EARLY_PUD_DIRECT0 :: u64 where "X86_EARLY_PUD_DIRECT0 = 0x2000"
definition X86_EARLY_PUD_DIRECT_MAP :: u64 where "X86_EARLY_PUD_DIRECT_MAP = 0x3000"
definition X86_EARLY_PUD_KERNEL_ELF :: u64 where "X86_EARLY_PUD_KERNEL_ELF = 0x4000"
definition X86_EARLY_BOOT_INFO_ADDRESS_PHYS :: u64 where "X86_EARLY_BOOT_INFO_ADDRESS_PHYS = 0x6000"
definition EARLY_BOOT_INFO_ADDRESS :: u64 where
  "EARLY_BOOT_INFO_ADDRESS = KERNEL_DIRECT_MAP_BASE + X86_EARLY_BOOT_INFO_ADDRESS_PHYS"
definition X86_EARLY_VIDEO_BUFFER_ADDRESS_PHYS :: u64 where
  "X86_EARLY_VIDEO_BUFFER_ADDRESS_PHYS = 0x7000"

section \<open>The scratch allocator\<close>

definition early_scratch_alloc_init :: "early_state \<Rightarrow> early_state" where
  "early_scratch_alloc_init s =
     (let offset = KERNEL_ELF_ADDRESS_PHYS - push_bit PAGE_SHIFT EARLY_MAX_SCRATCH_PAGES
      in s\<lparr>scratch_state := \<lparr>scratch_start = offset, scratch_pages = 0\<rparr>\<rparr>)"

definition early_scratch_page_alloc :: "early_state \<Rightarrow> (physaddr_t \<times> early_state) result" where
  "early_scratch_page_alloc s =
     (let sc = scratch_state s
      in if scratch_pages sc \<ge> EARLY_MAX_SCRATCH_PAGES then Inl (Panic ''Out of scratch memory!'')
         else let addr = scratch_start sc + PAGE_SIZE * scratch_pages sc
              in Inr (addr, s\<lparr>scratch_state := sc\<lparr>scratch_pages := scratch_pages sc + 1\<rparr>,
                    mem := memset (mem s) (phys_to_virt_ptr addr) 0 PAGE_SIZE\<rparr>))"

text \<open>
  The statement that allocates the pages of one bitmap, which \<^verbatim>\<open>alloc_span_bitmaps\<close> has
  four times: a first page, whose address is kept, and \<^verbatim>\<open>bitmap_pages - 1\<close> more.
\<close>

definition scratch_bitmap_alloc :: "u64 \<Rightarrow> early_state \<Rightarrow> (u64 \<times> early_state) result" where
  "scratch_bitmap_alloc bitmap_pages s =
     rbind (early_scratch_page_alloc s) (\<lambda>(pa, s).
     rbind (rfold (\<lambda>_ s. rbind (early_scratch_page_alloc s) (\<lambda>(_, s). Inr s))
              [1..<nat (c_int bitmap_pages)] s) (\<lambda>s.
       Inr (phys_to_virt_ptr pa, s)))"

definition upd_span :: "nat \<Rightarrow> (early_page_alloc_span \<Rightarrow> early_page_alloc_span) \<Rightarrow> early_state \<Rightarrow> early_state" where
  "upd_span i f s =
     s\<lparr>alloc_state := (alloc_state s)\<lparr>ea_spans := (ea_spans (alloc_state s))(i := f (ea_spans (alloc_state s) i))\<rparr>\<rparr>"

definition upd_bitmap :: "u64 \<Rightarrow> (bitmap \<Rightarrow> bitmap) \<Rightarrow> early_state \<Rightarrow> early_state" where
  "upd_bitmap p f s = s\<lparr>bitmaps := (bitmaps s)(p := f (bitmaps s p))\<rparr>"

abbreviation span_at :: "early_state \<Rightarrow> nat \<Rightarrow> early_page_alloc_span" where
  "span_at s i \<equiv> ea_spans (alloc_state s) i"

definition alloc_span_bitmaps :: "early_state \<Rightarrow> nat \<Rightarrow> (u64 \<times> early_state) result" where
  "alloc_span_bitmaps s span =
     (let npages = es_num_pages (span_at s span);
          bitmap_bytes = bitmap_calc_size npages;
          bitmap_pages = bytes_to_pages bitmap_bytes
      in rbind (scratch_bitmap_alloc bitmap_pages s) (\<lambda>(p, s).
         let s = upd_span span (alloc_bitmap_update (\<lambda>_. p)) s in
         rbind (scratch_bitmap_alloc bitmap_pages s) (\<lambda>(p, s).
         let s = upd_span span (ephemeral_bitmap_update (\<lambda>_. p)) s in
         rbind (scratch_bitmap_alloc bitmap_pages s) (\<lambda>(p, s).
         let s = upd_span span (pagetable_bitmap_update (\<lambda>_. p)) s in
         rbind (scratch_bitmap_alloc bitmap_pages s) (\<lambda>(p, s).
         let s = upd_span span (physblock_bitmap_update (\<lambda>_. p)) s;
             s = upd_bitmap (alloc_bitmap (span_at s span)) (\<lambda>b. bitmap_init b npages) s;
             s = upd_bitmap (ephemeral_bitmap (span_at s span)) (\<lambda>b. bitmap_init b npages) s;
             s = upd_bitmap (pagetable_bitmap (span_at s span)) (\<lambda>b. bitmap_init b npages) s;
             s = upd_bitmap (physblock_bitmap (span_at s span)) (\<lambda>b. bitmap_init b npages) s
         in Inr (bitmap_pages * 4, s))))))"

section \<open>The early page allocator\<close>

abbreviation span_count :: "early_state \<Rightarrow> nat" where
  "span_count s \<equiv> nat (c_int (ea_num_spans (alloc_state s)))"

definition find_span :: "early_state \<Rightarrow> physaddr_t \<Rightarrow> nat option" where
  "find_span s pa =
     find (\<lambda>i. let span = span_at s i; start = es_start span
               in start \<le> pa \<and> pa < start + es_num_pages span * PAGE_SIZE)
       [0..<span_count s]"

definition phys_to_span_offset :: "early_page_alloc_span \<Rightarrow> physaddr_t \<Rightarrow> u64" where
  "phys_to_span_offset span pa = drop_bit PAGE_SHIFT (pa - es_start span)"

definition span_offset_to_pa :: "early_page_alloc_span \<Rightarrow> u64 \<Rightarrow> physaddr_t" where
  "span_offset_to_pa span offset = es_start span + push_bit PAGE_SHIFT offset"

definition upd_stats_early :: "(early_page_alloc_state \<Rightarrow> early_page_alloc_state) \<Rightarrow> early_state \<Rightarrow> early_state" where
  "upd_stats_early f s = s\<lparr>alloc_state := f (alloc_state s)\<rparr>"

definition mark_page_allocated :: "nat \<Rightarrow> u64 \<Rightarrow> early_alloc_type \<Rightarrow> early_state \<Rightarrow> early_state" where
  "mark_page_allocated span offset type s =
     (let s = upd_bitmap (alloc_bitmap (span_at s span)) (\<lambda>b. bitmap_set b offset) s;
          s = upd_stats_early (ea_num_allocated_pages_update (\<lambda>n. n + 1)) s;
          s = upd_span span (es_num_allocated_pages_update (\<lambda>n. n + 1)) s
      in case type of
           EARLY_ALLOC_NORMAL \<Rightarrow> s
         | EARLY_ALLOC_EPHEMERAL \<Rightarrow>
             upd_stats_early (ea_num_ephemeral_pages_update (\<lambda>n. n + 1))
               (upd_bitmap (ephemeral_bitmap (span_at s span)) (\<lambda>b. bitmap_set b offset) s)
         | EARLY_ALLOC_PAGETABLE \<Rightarrow>
             upd_stats_early (ea_num_pagetable_pages_update (\<lambda>n. n + 1))
               (upd_bitmap (pagetable_bitmap (span_at s span)) (\<lambda>b. bitmap_set b offset) s)
         | EARLY_ALLOC_PHYSBLOCK \<Rightarrow>
             upd_stats_early (ea_num_physblock_pages_update (\<lambda>n. n + 1))
               (upd_bitmap (physblock_bitmap (span_at s span)) (\<lambda>b. bitmap_set b offset) s))"

definition alloc_at :: "physaddr_t \<Rightarrow> early_alloc_type \<Rightarrow> early_state \<Rightarrow> early_state result" where
  "alloc_at pa type s =
     (case find_span s pa of
        None \<Rightarrow> Inl (Panic ''Unable to locate span for %lx'')
      | Some span \<Rightarrow>
          let offset = phys_to_span_offset (span_at s span) pa
          in if bitmap_is_set (bitmaps s (alloc_bitmap (span_at s span))) offset
             then Inl (Panic ''Page containing %lx is already allocated?'')
             else Inr (mark_page_allocated span offset type s))"

definition first_clear_in :: "early_state \<Rightarrow> nat \<Rightarrow> int" where
  "first_clear_in s i = bitmap_first_clear (bitmaps s (alloc_bitmap (span_at s i)))"

definition alloc :: "early_alloc_type \<Rightarrow> early_state \<Rightarrow> (physaddr_t \<times> early_state) result" where
  "alloc type s =
     (case find (\<lambda>i. first_clear_in s i \<noteq> - 1) [0..<span_count s] of
        None \<Rightarrow> Inl (Panic ''Out of memory, %lu pages of %lu allocated!'')
      | Some i \<Rightarrow>
          let offset = of_int (first_clear_in s i)
          in Inr (span_offset_to_pa (span_at s i) offset, mark_page_allocated i offset type s))"

definition early_page_alloc_ephemeral_at :: "physaddr_t \<Rightarrow> early_state \<Rightarrow> early_state result" where
  "early_page_alloc_ephemeral_at pa s = alloc_at pa EARLY_ALLOC_EPHEMERAL s"

definition early_page_alloc_at :: "physaddr_t \<Rightarrow> early_state \<Rightarrow> early_state result" where
  "early_page_alloc_at pa s = alloc_at pa EARLY_ALLOC_NORMAL s"

definition early_page_alloc :: "early_state \<Rightarrow> (physaddr_t \<times> early_state) result" where
  "early_page_alloc s = alloc EARLY_ALLOC_NORMAL s"

text \<open>\<^verbatim>\<open>sizeof(uint64_t)\<close> is 8.\<close>

definition early_pages_alloc :: "int \<Rightarrow> early_state \<Rightarrow> (physaddr_t \<times> early_state) result" where
  "early_pages_alloc pages s =
     (let run = (\<lambda>i. bitmap_zero_string_longer_than (bitmaps s (alloc_bitmap (span_at s i))) pages)
      in if pages > 8
         then Inl (Panic ''Can only allocate up to %d pages using the early allocator, attempting to allocate %d'')
         else case find (\<lambda>i. run i \<noteq> - 1) [0..<span_count s] of
             None \<Rightarrow> Inl (Panic ''Unable to allocate %d physically contiguous pages'')
           | Some i \<Rightarrow>
               Inr (span_offset_to_pa (span_at s i) (of_int (run i)),
                    fold (\<lambda>j. mark_page_allocated i (of_int j) EARLY_ALLOC_NORMAL)
                      [run i..run i + pages - 1] s))"

definition early_page_alloc_ephemeral :: "early_state \<Rightarrow> (physaddr_t \<times> early_state) result" where
  "early_page_alloc_ephemeral s = alloc EARLY_ALLOC_EPHEMERAL s"

definition zero_page_early :: "physaddr_t \<Rightarrow> early_state \<Rightarrow> early_state" where
  "zero_page_early pa s = s\<lparr>mem := zero_page (mem s) pa\<rparr>"

definition early_pagetable_alloc :: "early_state \<Rightarrow> (physaddr_t \<times> early_state) result" where
  "early_pagetable_alloc s = rbind (alloc EARLY_ALLOC_PAGETABLE s) (\<lambda>(pa, s). Inr (pa, zero_page_early pa s))"

definition early_physblock_page_alloc :: "early_state \<Rightarrow> (physaddr_t \<times> early_state) result" where
  "early_physblock_page_alloc s = rbind (alloc EARLY_ALLOC_PHYSBLOCK s) (\<lambda>(pa, s). Inr (pa, zero_page_early pa s))"

definition early_page_alloc_zero :: "early_state \<Rightarrow> (physaddr_t \<times> early_state) result" where
  "early_page_alloc_zero s = rbind (early_page_alloc s) (\<lambda>(pa, s). Inr (pa, zero_page_early pa s))"

definition early_pages_alloc_zero :: "int \<Rightarrow> early_state \<Rightarrow> (physaddr_t \<times> early_state) result" where
  "early_pages_alloc_zero pages s =
     rbind (early_pages_alloc pages s) (\<lambda>(pa, s).
       Inr (pa, snd (fold (\<lambda>_ (curr_pa, s). (phys_next_page curr_pa, zero_page_early curr_pa s))
                  [0..<nat pages] (pa, s))))"

definition early_page_free :: "physaddr_t \<Rightarrow> early_state \<Rightarrow> early_state result" where
  "early_page_free pa s =
     (case find_span s pa of
        None \<Rightarrow> Inl (Panic ''Cannot find span for PA %lx'')
      | Some i \<Rightarrow>
          let span = span_at s i; offset = phys_to_span_offset span pa
          in if \<not> bitmap_is_set (bitmaps s (alloc_bitmap span)) offset
             then Inl (Panic ''Attempt to free unallocated PA %lx'')
             else
               let s = upd_bitmap (alloc_bitmap span) (\<lambda>b. bitmap_clear b offset) s;
                   s = upd_stats_early (ea_num_allocated_pages_update (\<lambda>n. n - 1)) s;
                   s = upd_span i (es_num_allocated_pages_update (\<lambda>n. n - 1)) s;
                   s = (if bitmap_is_set (bitmaps s (ephemeral_bitmap span)) offset
                        then upd_stats_early (ea_num_ephemeral_pages_update (\<lambda>n. n - 1))
                               (upd_bitmap (ephemeral_bitmap span) (\<lambda>b. bitmap_clear b offset) s)
                        else s);
                   s = (if bitmap_is_set (bitmaps s (pagetable_bitmap span)) offset
                        then upd_stats_early (ea_num_pagetable_pages_update (\<lambda>n. n - 1))
                               (upd_bitmap (pagetable_bitmap span) (\<lambda>b. bitmap_clear b offset) s)
                        else s);
                   s = (if bitmap_is_set (bitmaps s (physblock_bitmap span)) offset
                        then upd_stats_early (ea_num_physblock_pages_update (\<lambda>n. n - 1))
                               (upd_bitmap (physblock_bitmap span) (\<lambda>b. bitmap_clear b offset) s)
                        else s)
               in Inr s)"

section \<open>Setting the early page allocator up\<close>

text \<open>Reserving consecutive pages: the loops that thread \<^verbatim>\<open>pa\<close> through \<^verbatim>\<open>phys_next_page\<close>.\<close>

definition reserve_pages ::
  "(physaddr_t \<Rightarrow> early_state \<Rightarrow> early_state result) \<Rightarrow> (physaddr_t \<Rightarrow> physaddr_t) \<Rightarrow> nat \<Rightarrow>
   physaddr_t \<Rightarrow> early_state \<Rightarrow> early_state result" where
  "reserve_pages reserve next_page n pa s =
     rbind (rfold (\<lambda>_ (pa, s). rbind (reserve pa s) (\<lambda>s. Inr (next_page pa, s))) [0..<n] (pa, s))
       (\<lambda>(_, s). Inr s)"

definition alloc_init_pages :: "physaddr_t \<Rightarrow> u64 \<Rightarrow> early_state \<Rightarrow> early_state result" where
  "alloc_init_pages first_scratch_page num_scratch_pages s =
     rbind (reserve_pages early_page_alloc_ephemeral_at phys_next_page (nat (c_int num_scratch_pages))
              first_scratch_page s) (\<lambda>s.
     rbind (reserve_pages early_page_alloc_at phys_prev_page KERNEL_STACK_PAGES
              KERNEL_STACK_ADDRESS_PHYS s) (\<lambda>s.
     rbind (early_page_alloc_at (virt_ptr_to_phys EARLY_BOOT_INFO_ADDRESS) s) (\<lambda>s.
     rbind (reserve_pages early_page_alloc_at phys_next_page
              (nat (c_int (bytes_to_pages (ucast (kernel_elf_size_bytes (boot_info s))))))
              KERNEL_ELF_ADDRESS_PHYS s) (\<lambda>s.
     rbind (early_page_alloc_ephemeral_at X86_EARLY_PGD s) (\<lambda>s.
     rbind (early_page_alloc_ephemeral_at X86_EARLY_PUD_DIRECT_MAP s) (\<lambda>s.
     rbind (early_page_alloc_ephemeral_at X86_EARLY_PUD_KERNEL_ELF s) (\<lambda>s.
     rbind (early_page_alloc_at X86_EARLY_VIDEO_BUFFER_ADDRESS_PHYS s) (\<lambda>s.
       early_page_alloc_at (X86_EARLY_VIDEO_BUFFER_ADDRESS_PHYS + 0x1000) s))))))))"

text \<open>The allocator's state lives in a zeroed scratch page.\<close>

definition zero_span :: early_page_alloc_span where
  "zero_span = \<lparr>es_start = 0, es_num_pages = 0, es_num_allocated_pages = 0,
     alloc_bitmap = 0, ephemeral_bitmap = 0, pagetable_bitmap = 0, physblock_bitmap = 0\<rparr>"

definition zero_alloc_state :: early_page_alloc_state where
  "zero_alloc_state = \<lparr>ea_total_pages = 0, ea_num_allocated_pages = 0, ea_num_ephemeral_pages = 0,
     ea_num_pagetable_pages = 0, ea_num_physblock_pages = 0, ea_num_spans = 0, ea_spans = (\<lambda>_. zero_span)\<rparr>"

text \<open>One turn of the loop over the memory map, on \<^verbatim>\<open>span_index\<close>, \<^verbatim>\<open>num_scratch_pages\<close> and the state.\<close>

definition early_span_init :: "early_boot_info \<Rightarrow> nat \<Rightarrow> nat \<times> u64 \<times> early_state \<Rightarrow> (nat \<times> u64 \<times> early_state) result" where
  "early_span_init info i acc =
     (case acc of (span_idx, num_scratch_pages, s) \<Rightarrow>
       let entry = e820_entries info i
       in if e820_type entry \<noteq> E820_TYPE_RAM then Inr acc
          else let s = upd_span span_idx (\<lambda>sp. sp\<lparr>es_start := e820_base entry,
                          es_num_pages := drop_bit PAGE_SHIFT (e820_size entry)\<rparr>) s
               in rbind (alloc_span_bitmaps s span_idx) (\<lambda>(n, s).
                    Inr (span_idx + 1, num_scratch_pages + n, s)))"

definition early_page_alloc_init :: "early_boot_info \<Rightarrow> early_state \<Rightarrow> early_state result" where
  "early_page_alloc_init info s =
     rbind (early_scratch_page_alloc s) (\<lambda>(first_scratch_page, s).
     if \<not> IS_ALIGNED (total_avail_ram_bytes info) PAGE_SIZE
     then Inl (Panic ''e820 entries not normalised to page size?'')
     else
       let s = s\<lparr>alloc_state := zero_alloc_state\<lparr>
                   ea_total_pages := bytes_to_pages (total_avail_ram_bytes info),
                   ea_num_spans := num_ram_spans info\<rparr>\<rparr>
       in rbind (rfold (early_span_init info) [0..<entry_count info] (0, 1, s))
            (\<lambda>(_, num_scratch_pages, s). alloc_init_pages first_scratch_page num_scratch_pages s))"

end
