(* ===== verification/Early_Invariant.thy ===== *)
theory Early_Invariant
  imports Early_Alloc
begin

text \<open>
  What the early page allocator keeps true. Every span has four well-formed bitmaps of its
  size at addresses of their own, the spans do not overlap, a page marked as ephemeral, page
  table or descriptor page is an allocated page of one of these kinds only, and every counter
  is the number of bits set. \<open>early_pages s k\<close> is the set of pages whose bitmap of kind \<open>k\<close> is
  set, with \<open>EARLY_ALLOC_NORMAL\<close> standing for the allocation bitmap itself.
\<close>

fun ptr_of :: "early_alloc_type \<Rightarrow> early_page_alloc_span \<Rightarrow> u64" where
  "ptr_of EARLY_ALLOC_NORMAL = alloc_bitmap"
| "ptr_of EARLY_ALLOC_EPHEMERAL = ephemeral_bitmap"
| "ptr_of EARLY_ALLOC_PAGETABLE = pagetable_bitmap"
| "ptr_of EARLY_ALLOC_PHYSBLOCK = physblock_bitmap"

fun counter :: "early_alloc_type \<Rightarrow> early_page_alloc_state \<Rightarrow> u64" where
  "counter EARLY_ALLOC_NORMAL = ea_num_allocated_pages"
| "counter EARLY_ALLOC_EPHEMERAL = ea_num_ephemeral_pages"
| "counter EARLY_ALLOC_PAGETABLE = ea_num_pagetable_pages"
| "counter EARLY_ALLOC_PHYSBLOCK = ea_num_physblock_pages"

definition map_of_kind :: "early_state \<Rightarrow> nat \<Rightarrow> early_alloc_type \<Rightarrow> bitmap" where
  "map_of_kind s i k = bitmaps s (ptr_of k (span_at s i))"

abbreviation marked :: "early_state \<Rightarrow> nat \<Rightarrow> early_alloc_type \<Rightarrow> nat set" where
  "marked s i k \<equiv> bits_of (map_of_kind s i k)"

definition span_end :: "early_page_alloc_span \<Rightarrow> nat" where
  "span_end sp = unat (es_start sp) + unat (es_num_pages sp) * 4096"

definition span_ok :: "early_page_alloc_span \<Rightarrow> bool" where
  "span_ok sp \<longleftrightarrow> 4096 dvd unat (es_start sp) \<and> span_end sp < 2 ^ 64 \<and> unat (es_num_pages sp) < 2 ^ 31"

definition spans_ok :: "early_state \<Rightarrow> bool" where
  "spans_ok s \<longleftrightarrow>
     (\<forall>i < span_count s. span_ok (span_at s i)) \<and>
     (\<forall>i < span_count s. \<forall>j < span_count s. i \<noteq> j \<longrightarrow>
        {unat (es_start (span_at s i)) ..< span_end (span_at s i)} \<inter>
        {unat (es_start (span_at s j)) ..< span_end (span_at s j)} = {}) \<and>
     (\<forall>i < span_count s. \<forall>j < span_count s. \<forall>k l.
        ptr_of k (span_at s i) = ptr_of l (span_at s j) \<longrightarrow> i = j \<and> k = l)"

definition maps_ok :: "early_state \<Rightarrow> nat \<Rightarrow> bool" where
  "maps_ok s i \<longleftrightarrow>
     (\<forall>k. wf_bitmap (map_of_kind s i k) \<and> nbits (map_of_kind s i k) = unat (es_num_pages (span_at s i))) \<and>
     (\<forall>k. marked s i k \<subseteq> marked s i EARLY_ALLOC_NORMAL) \<and>
     (\<forall>k l. k \<noteq> l \<longrightarrow> k \<noteq> EARLY_ALLOC_NORMAL \<longrightarrow> l \<noteq> EARLY_ALLOC_NORMAL \<longrightarrow> marked s i k \<inter> marked s i l = {}) \<and>
     es_num_allocated_pages (span_at s i) = of_nat (card (marked s i EARLY_ALLOC_NORMAL))"

definition early_inv :: "early_state \<Rightarrow> bool" where
  "early_inv s \<longleftrightarrow>
     spans_ok s \<and> (\<forall>i < span_count s. maps_ok s i) \<and>
     (\<forall>k. counter k (alloc_state s) = of_nat (\<Sum>i \<in> {..<span_count s}. card (marked s i k)))"

section \<open>Addresses and spans\<close>

lemma unat_4096_mult: "unat n * 4096 < 2 ^ 64 \<Longrightarrow> unat (n * PAGE_SIZE) = unat n * 4096"
  by (simp add: PAGE_SIZE_def BIT_MASK_def unat_word_ariths)

lemma in_span_iff:
  assumes "span_ok sp"
  shows "es_start sp \<le> pa \<and> pa < es_start sp + es_num_pages sp * PAGE_SIZE \<longleftrightarrow>
    unat (es_start sp) \<le> unat pa \<and> unat pa < span_end sp"
proof -
  have "unat (es_num_pages sp * PAGE_SIZE) = unat (es_num_pages sp) * 4096"
    using assms by (intro unat_4096_mult) (simp add: span_ok_def span_end_def)
  then have "unat (es_start sp + es_num_pages sp * PAGE_SIZE) = span_end sp"
    using assms by (subst unat_plus_no_wrap) (simp_all add: span_ok_def span_end_def)
  then show ?thesis by (simp add: word_le_nat_alt word_less_nat_alt)
qed

lemma find_span_Some:
  assumes "spans_ok s"
  shows "find_span s pa = Some i \<longleftrightarrow>
    i < span_count s \<and> unat (es_start (span_at s i)) \<le> unat pa \<and> unat pa < span_end (span_at s i)"
proof -
  let ?in = "\<lambda>i. unat (es_start (span_at s i)) \<le> unat pa \<and> unat pa < span_end (span_at s i)"
  have ok: "span_ok (span_at s j)" if "j < span_count s" for j using assms that by (simp add: spans_ok_def)
  have eq: "find_span s pa = find ?in [0..<span_count s]"
    unfolding find_span_def Let_def by (rule find_cong) (auto simp: in_span_iff [OF ok])
  have uniq: "i = j" if "i < span_count s" "j < span_count s" "?in i" "?in j" for i j
  proof (rule ccontr)
    assume "i \<noteq> j"
    then have "{unat (es_start (span_at s i)) ..< span_end (span_at s i)} \<inter>
        {unat (es_start (span_at s j)) ..< span_end (span_at s j)} = {}"
      using assms that unfolding spans_ok_def by blast
    with that(3,4) show False by (auto simp: disjoint_iff)
  qed
  have "\<not> ?in j" if "i < span_count s" "?in i" "j < i" for j
  proof
    assume "?in j"
    moreover have "j < span_count s" using that(1,3) by (rule less_trans [rotated])
    ultimately show False using uniq [of i j] that by simp
  qed
  then show ?thesis unfolding eq find_upt_Some_iff by blast
qed

lemma unat_span_offset:
  assumes "unat (es_start sp) \<le> unat pa"
  shows "unat (phys_to_span_offset sp pa) = (unat pa - unat (es_start sp)) div 4096"
  using assms by (simp add: phys_to_span_offset_def unat_drop_bit unat_minus_le word_le_nat_alt)

lemma unat_offset_pa:
  assumes "span_ok sp" "o' < unat (es_num_pages sp)"
  shows "unat (span_offset_to_pa sp (of_nat o')) = unat (es_start sp) + o' * 4096"
proof -
  have b: "o' < 2 ^ 31" "unat (es_start sp) + o' * 4096 < 2 ^ 64"
    using assms by (auto simp: span_ok_def span_end_def)
  have "unat (push_bit 12 (of_nat o' :: u64)) = o' * 4096"
    using b by (simp add: push_bit_eq_mult unat_word_ariths unat_of_nat)
  with b show ?thesis by (simp add: span_offset_to_pa_def unat_plus_no_wrap)
qed

text \<open>The page at an offset of a span is found again, in that span and at that offset.\<close>

lemma offset_pa_found:
  assumes "spans_ok s" "i < span_count s" "o' < unat (es_num_pages (span_at s i))"
  defines "pa \<equiv> span_offset_to_pa (span_at s i) (of_nat o')"
  shows "find_span s pa = Some i" "unat (phys_to_span_offset (span_at s i) pa) = o'" "4096 dvd unat pa"
proof -
  have ok: "span_ok (span_at s i)" using assms by (simp add: spans_ok_def)
  note u = unat_offset_pa [OF ok assms(3), folded pa_def]
  show "find_span s pa = Some i" using assms(2,3) u by (simp add: find_span_Some [OF assms(1)] span_end_def)
  show "unat (phys_to_span_offset (span_at s i) pa) = o'" using u by (subst unat_span_offset) simp_all
  show "4096 dvd unat pa" unfolding u using ok by (simp add: span_ok_def)
qed

lemma found_offset_pa:
  assumes "spans_ok s" "find_span s pa = Some i" "4096 dvd unat pa"
  shows "i < span_count s" "unat (phys_to_span_offset (span_at s i) pa) < unat (es_num_pages (span_at s i))"
    "span_offset_to_pa (span_at s i) (phys_to_span_offset (span_at s i) pa) = pa"
proof -
  have f: "i < span_count s" "unat (es_start (span_at s i)) \<le> unat pa" "unat pa < span_end (span_at s i)"
    using assms(2) by (simp_all add: find_span_Some [OF assms(1)])
  have ok: "span_ok (span_at s i)" using assms(1) f(1) by (simp add: spans_ok_def)
  show "i < span_count s" by (rule f(1))
  note u = unat_span_offset [OF f(2)]
  show lt: "unat (phys_to_span_offset (span_at s i) pa) < unat (es_num_pages (span_at s i))"
    unfolding u using f(2,3) by (simp add: span_end_def div_less_iff_less_mult)
  have "4096 dvd unat pa - unat (es_start (span_at s i))" using assms(3) ok by (intro dvd_diff_nat) (simp_all add: span_ok_def)
  then have "unat (span_offset_to_pa (span_at s i) (of_nat (unat (phys_to_span_offset (span_at s i) pa)))) = unat pa"
    using unat_offset_pa [OF ok lt] f(2) unfolding u by simp
  then show "span_offset_to_pa (span_at s i) (phys_to_span_offset (span_at s i) pa) = pa"
    by (simp add: word_unat_eq_iff)
qed


section \<open>Marking and unmarking one page\<close>

lemma sum_one_changed:
  fixes f g :: "nat \<Rightarrow> nat"
  assumes "i < n" "\<And>j. j < n \<Longrightarrow> j \<noteq> i \<Longrightarrow> g j = f j"
  shows "sum g {..<n} + f i = sum f {..<n} + g i"
proof -
  have "sum g ({..<n} - {i}) = sum f ({..<n} - {i})" using assms(2) by (intro sum.cong) auto
  then show ?thesis using assms(1) by (simp add: sum.remove [of "{..<n}" i])
qed

text \<open>The kinds of bitmap an allocation of a type sets.\<close>

definition sets_kind :: "early_alloc_type \<Rightarrow> early_alloc_type \<Rightarrow> bool" where
  "sets_kind t k \<longleftrightarrow> k = EARLY_ALLOC_NORMAL \<or> k = t"

lemma mark_fields [simp]:
  "ea_num_spans (alloc_state (mark_page_allocated i off t s)) = ea_num_spans (alloc_state s)"
  "ea_total_pages (alloc_state (mark_page_allocated i off t s)) = ea_total_pages (alloc_state s)"
  "scratch_state (mark_page_allocated i off t s) = scratch_state s"
  "boot_info (mark_page_allocated i off t s) = boot_info s"
  "mem (mark_page_allocated i off t s) = mem s"
  by (cases t; simp add: mark_page_allocated_def Let_def upd_bitmap_def upd_stats_early_def upd_span_def)+

lemma mark_span:
  "span_at (mark_page_allocated i off t s) j =
    (if j = i then (span_at s i)\<lparr>es_num_allocated_pages := es_num_allocated_pages (span_at s i) + 1\<rparr> else span_at s j)"
  by (cases t; simp add: mark_page_allocated_def Let_def upd_bitmap_def upd_stats_early_def upd_span_def)

lemma ptr_of_counts [simp]: "ptr_of k (sp\<lparr>es_num_allocated_pages := n\<rparr>) = ptr_of k sp"
  by (cases k) simp_all

lemma mark_counter:
  "counter k (alloc_state (mark_page_allocated i off t s)) =
    (if sets_kind t k then counter k (alloc_state s) + 1 else counter k (alloc_state s))"
  by (cases t; cases k)
    (simp_all add: mark_page_allocated_def Let_def upd_bitmap_def upd_stats_early_def upd_span_def sets_kind_def)

lemma mark_bitmaps:
  "bitmaps (mark_page_allocated i off t s) =
    (let bs = (bitmaps s)(ptr_of EARLY_ALLOC_NORMAL (span_at s i) := bitmap_set (map_of_kind s i EARLY_ALLOC_NORMAL) off)
     in if t = EARLY_ALLOC_NORMAL then bs
        else bs(ptr_of t (span_at s i) := bitmap_set (bs (ptr_of t (span_at s i))) off))"
  by (cases t)
    (simp_all add: mark_page_allocated_def Let_def upd_bitmap_def upd_stats_early_def upd_span_def map_of_kind_def)

lemma ptr_distinct:
  assumes "spans_ok s" "i < span_count s" "j < span_count s"
  shows "ptr_of k (span_at s i) = ptr_of l (span_at s j) \<longleftrightarrow> i = j \<and> k = l"
  using assms unfolding spans_ok_def by blast

lemma mark_map_of_kind:
  assumes "spans_ok s" "i < span_count s" "j < span_count s"
  shows "map_of_kind (mark_page_allocated i off t s) j k =
    (if j = i \<and> sets_kind t k then bitmap_set (map_of_kind s j k) off else map_of_kind s j k)"
proof -
  have p: "ptr_of k (span_at (mark_page_allocated i off t s) j) = ptr_of k (span_at s j)" by (simp add: mark_span)
  note d = ptr_distinct [OF assms(1,3,2)] ptr_distinct [OF assms(1,2,2)]
  show ?thesis
    unfolding map_of_kind_def p mark_bitmaps Let_def
    by (cases "t = EARLY_ALLOC_NORMAL") (auto simp: d sets_kind_def map_of_kind_def simp del: ptr_of.simps)
qed

lemma spans_ok_cong:
  assumes "spans_ok s" "ea_num_spans (alloc_state s') = ea_num_spans (alloc_state s)"
    "\<And>i. es_start (span_at s' i) = es_start (span_at s i)" "\<And>i. es_num_pages (span_at s' i) = es_num_pages (span_at s i)"
    "\<And>i k. ptr_of k (span_at s' i) = ptr_of k (span_at s i)"
  shows "spans_ok s'" "find_span s' = find_span s"
proof -
  have e: "span_end (span_at s' i) = span_end (span_at s i)" "span_ok (span_at s' i) = span_ok (span_at s i)" for i
    using assms(3,4) by (simp_all add: span_end_def span_ok_def)
  show "spans_ok s'" using assms(1) unfolding spans_ok_def e assms(2,3,5) .
  show "find_span s' = find_span s" by (rule ext) (simp add: find_span_def Let_def assms(2,3,4))
qed

lemma mark_spans_ok:
  assumes "spans_ok s"
  shows "spans_ok (mark_page_allocated i off t s)" "find_span (mark_page_allocated i off t s) = find_span s"
  by (rule spans_ok_cong [OF assms]; simp add: mark_span)+

lemma mark_early_inv:
  assumes inv: "early_inv s" and i: "i < span_count s" and off: "unat off < unat (es_num_pages (span_at s i))"
    and new: "unat off \<notin> marked s i EARLY_ALLOC_NORMAL"
  shows "early_inv (mark_page_allocated i off t s)"
proof -
  let ?s = "mark_page_allocated i off t s"
  have sp: "spans_ok s" and mo: "\<And>j. j < span_count s \<Longrightarrow> maps_ok s j"
    and cn: "\<And>k. counter k (alloc_state s) = of_nat (\<Sum>i \<in> {..<span_count s}. card (marked s i k))"
    using inv by (auto simp: early_inv_def)
  note m = mark_map_of_kind [OF sp i]
  have nb: "unat off < nbits (map_of_kind s i k)" and wf: "wf_bitmap (map_of_kind s i k)" for k
    using mo [OF i] off by (simp_all add: maps_ok_def)
  have notin: "unat off \<notin> marked s i k" for k using mo [OF i] new by (auto simp: maps_ok_def)
  have bits: "marked ?s j k = (if j = i \<and> sets_kind t k then insert (unat off) (marked s j k) else marked s j k)"
    if "j < span_count s" for j k
    using m [OF that, of off t k] nb by (simp add: bits_of_set)
  have "maps_ok ?s j" if j: "j < span_count s" for j
  proof (cases "j = i")
    case False
    then show ?thesis using mo [OF j] m [OF j] by (simp add: maps_ok_def mark_span)
  next
    case True
    then have wf': "wf_bitmap (map_of_kind ?s j k)" "nbits (map_of_kind ?s j k) = nbits (map_of_kind s j k)" for k
      using m [OF j, of off t k] wf nb by (simp_all add: wf_bitmap_set)
    have c: "card (insert (unat off) (marked s i EARLY_ALLOC_NORMAL)) = card (marked s i EARLY_ALLOC_NORMAL) + 1"
      using notin by simp
    show ?thesis
      unfolding maps_ok_def bits [OF j] wf'(2)
      using mo [OF j] True wf'(1) notin c by (auto simp: maps_ok_def mark_span sets_kind_def)
  qed
  moreover have "counter k (alloc_state ?s) = of_nat (\<Sum>j \<in> {..<span_count s}. card (marked ?s j k))" for k
  proof -
    have "(\<Sum>j \<in> {..<span_count s}. card (marked ?s j k)) + card (marked s i k) =
        (\<Sum>j \<in> {..<span_count s}. card (marked s j k)) + card (marked ?s i k)"
      by (rule sum_one_changed [OF i]) (simp add: bits)
    moreover have "card (marked ?s i k) = card (marked s i k) + (if sets_kind t k then 1 else 0)"
      using notin [of k] by (simp add: bits [OF i])
    ultimately have "(\<Sum>j \<in> {..<span_count s}. card (marked ?s j k)) =
        (\<Sum>j \<in> {..<span_count s}. card (marked s j k)) + (if sets_kind t k then 1 else 0)" by simp
    then show ?thesis by (simp add: mark_counter cn)
  qed
  ultimately show ?thesis unfolding early_inv_def using mark_spans_ok(1) [OF sp] by simp
qed


lemma kind_ptrs_distinct:
  assumes "spans_ok s" "i < span_count s"
  shows "alloc_bitmap (span_at s i) \<noteq> ephemeral_bitmap (span_at s i)"
    "alloc_bitmap (span_at s i) \<noteq> pagetable_bitmap (span_at s i)"
    "alloc_bitmap (span_at s i) \<noteq> physblock_bitmap (span_at s i)"
    "ephemeral_bitmap (span_at s i) \<noteq> pagetable_bitmap (span_at s i)"
    "ephemeral_bitmap (span_at s i) \<noteq> physblock_bitmap (span_at s i)"
    "pagetable_bitmap (span_at s i) \<noteq> physblock_bitmap (span_at s i)"
  using ptr_distinct [OF assms(1,2,2), of EARLY_ALLOC_NORMAL EARLY_ALLOC_EPHEMERAL]
    ptr_distinct [OF assms(1,2,2), of EARLY_ALLOC_NORMAL EARLY_ALLOC_PAGETABLE]
    ptr_distinct [OF assms(1,2,2), of EARLY_ALLOC_NORMAL EARLY_ALLOC_PHYSBLOCK]
    ptr_distinct [OF assms(1,2,2), of EARLY_ALLOC_EPHEMERAL EARLY_ALLOC_PAGETABLE]
    ptr_distinct [OF assms(1,2,2), of EARLY_ALLOC_EPHEMERAL EARLY_ALLOC_PHYSBLOCK]
    ptr_distinct [OF assms(1,2,2), of EARLY_ALLOC_PAGETABLE EARLY_ALLOC_PHYSBLOCK] by simp_all

lemma bitmap_clear_set: "\<not> bitmap_is_set b off \<Longrightarrow> bitmap_clear (bitmap_set b off) off = b"
proof -
  assume "\<not> bitmap_is_set b off"
  then have "\<not> bit (data b (unat (off div 64))) (unat (off mod 64))"
    by (simp add: bitmap_is_set_def IS_BIT_SET_iff unat_mod_64)
  then have "(data b (unat (off div 64)) OR BIT_MASK (unat (off mod 64))) XOR BIT_MASK (unat (off mod 64)) =
      data b (unat (off div 64))"
    by (intro bit_word_eqI) (auto simp: bit_simps bit_BIT_MASK unat_mod_64)
  then show ?thesis by (simp add: bitmap_clear_def bitmap_set_def Let_def)
qed

text \<open>What freeing does, one component of the state at a time.\<close>

definition kind_clear :: "early_alloc_type \<Rightarrow> u64 \<Rightarrow> u64 \<Rightarrow> early_state \<Rightarrow> early_state" where
  "kind_clear k p off s =
     (if bitmap_is_set (bitmaps s p) off
      then upd_stats_early
        (case k of EARLY_ALLOC_NORMAL \<Rightarrow> ea_num_allocated_pages_update (\<lambda>n. n - 1)
          | EARLY_ALLOC_EPHEMERAL \<Rightarrow> ea_num_ephemeral_pages_update (\<lambda>n. n - 1)
          | EARLY_ALLOC_PAGETABLE \<Rightarrow> ea_num_pagetable_pages_update (\<lambda>n. n - 1)
          | EARLY_ALLOC_PHYSBLOCK \<Rightarrow> ea_num_physblock_pages_update (\<lambda>n. n - 1))
        (upd_bitmap p (\<lambda>b. bitmap_clear b off) s)
      else s)"

lemma kind_clear_fields [simp]:
  "bitmaps (kind_clear k p off s) x =
    (if x = p \<and> bitmap_is_set (bitmaps s p) off then bitmap_clear (bitmaps s p) off else bitmaps s x)"
  "counter l (alloc_state (kind_clear k p off s)) =
    (if l = k \<and> bitmap_is_set (bitmaps s p) off then counter l (alloc_state s) - 1 else counter l (alloc_state s))"
  "ea_spans (alloc_state (kind_clear k p off s)) = ea_spans (alloc_state s)"
  "ea_num_spans (alloc_state (kind_clear k p off s)) = ea_num_spans (alloc_state s)"
  "ea_total_pages (alloc_state (kind_clear k p off s)) = ea_total_pages (alloc_state s)"
  "scratch_state (kind_clear k p off s) = scratch_state s" "boot_info (kind_clear k p off s) = boot_info s"
  "mem (kind_clear k p off s) = mem s"
  by (cases k; cases l; simp add: kind_clear_def upd_bitmap_def upd_stats_early_def)+

definition unmark :: "nat \<Rightarrow> u64 \<Rightarrow> early_state \<Rightarrow> early_state" where
  "unmark i off s =
     (let sp = span_at s i
      in kind_clear EARLY_ALLOC_PHYSBLOCK (physblock_bitmap sp) off
          (kind_clear EARLY_ALLOC_PAGETABLE (pagetable_bitmap sp) off
            (kind_clear EARLY_ALLOC_EPHEMERAL (ephemeral_bitmap sp) off
              (upd_span i (es_num_allocated_pages_update (\<lambda>n. n - 1))
                (kind_clear EARLY_ALLOC_NORMAL (alloc_bitmap sp) off s)))))"

lemma early_page_free_unmark:
  "early_page_free pa s =
    (case find_span s pa of None \<Rightarrow> Inl (Panic ''Cannot find span for PA %lx'')
     | Some i \<Rightarrow> if bitmap_is_set (map_of_kind s i EARLY_ALLOC_NORMAL) (phys_to_span_offset (span_at s i) pa)
         then Inr (unmark i (phys_to_span_offset (span_at s i) pa) s)
         else Inl (Panic ''Attempt to free unallocated PA %lx''))"
  by (simp add: early_page_free_def unmark_def kind_clear_def Let_def map_of_kind_def split: option.split)

lemma upd_span_fields [simp]:
  "bitmaps (upd_span i f s) = bitmaps s" "counter k (alloc_state (upd_span i f s)) = counter k (alloc_state s)"
  "ea_num_spans (alloc_state (upd_span i f s)) = ea_num_spans (alloc_state s)"
  "ea_total_pages (alloc_state (upd_span i f s)) = ea_total_pages (alloc_state s)"
  "span_at (upd_span i f s) j = (if j = i then f (span_at s i) else span_at s j)"
  "scratch_state (upd_span i f s) = scratch_state s" "boot_info (upd_span i f s) = boot_info s"
  "mem (upd_span i f s) = mem s"
  by (cases k; simp add: upd_span_def)+

lemma unmark_fields [simp]:
  "ea_num_spans (alloc_state (unmark i off s)) = ea_num_spans (alloc_state s)"
  "ea_total_pages (alloc_state (unmark i off s)) = ea_total_pages (alloc_state s)"
  "scratch_state (unmark i off s) = scratch_state s" "boot_info (unmark i off s) = boot_info s"
  "mem (unmark i off s) = mem s"
  by (simp_all add: unmark_def Let_def)

lemma unmark_span:
  "span_at (unmark i off s) j =
    (if j = i then (span_at s i)\<lparr>es_num_allocated_pages := es_num_allocated_pages (span_at s i) - 1\<rparr> else span_at s j)"
  by (simp add: unmark_def Let_def)

lemma all_kinds: "(\<exists>k. P k) \<longleftrightarrow> P EARLY_ALLOC_NORMAL \<or> P EARLY_ALLOC_EPHEMERAL \<or> P EARLY_ALLOC_PAGETABLE \<or> P EARLY_ALLOC_PHYSBLOCK"
  by (metis early_alloc_type.exhaust)

lemma unmark_bitmaps:
  assumes "spans_ok s" "i < span_count s"
  shows "bitmaps (unmark i off s) x =
    (if (\<exists>k. x = ptr_of k (span_at s i)) \<and> bitmap_is_set (bitmaps s x) off then bitmap_clear (bitmaps s x) off else bitmaps s x)"
proof (cases "\<exists>k. x = ptr_of k (span_at s i)")
  case True
  then obtain k where "x = ptr_of k (span_at s i)" by blast
  with True show ?thesis
    by (cases k) (simp_all add: unmark_def Let_def kind_ptrs_distinct [OF assms] kind_ptrs_distinct [OF assms, symmetric])
next
  case False
  then have "x \<noteq> alloc_bitmap (span_at s i)" "x \<noteq> ephemeral_bitmap (span_at s i)" "x \<noteq> pagetable_bitmap (span_at s i)"
    "x \<noteq> physblock_bitmap (span_at s i)" by (simp_all add: all_kinds)
  with False show ?thesis by (simp add: unmark_def Let_def)
qed

lemma unmark_counter:
  assumes "spans_ok s" "i < span_count s"
  shows "counter k (alloc_state (unmark i off s)) =
    (if bitmap_is_set (map_of_kind s i k) off then counter k (alloc_state s) - 1 else counter k (alloc_state s))"
  by (cases k) (simp_all add: unmark_def Let_def map_of_kind_def kind_ptrs_distinct [OF assms]
      kind_ptrs_distinct [OF assms, symmetric] del: counter.simps)

lemma unmark_map_of_kind:
  assumes "spans_ok s" "i < span_count s" "j < span_count s"
  shows "map_of_kind (unmark i off s) j k =
    (if j = i \<and> bitmap_is_set (map_of_kind s j k) off then bitmap_clear (map_of_kind s j k) off else map_of_kind s j k)"
proof -
  have p: "ptr_of k (span_at (unmark i off s) j) = ptr_of k (span_at s j)" by (simp add: unmark_span)
  have "(\<exists>l. ptr_of k (span_at s j) = ptr_of l (span_at s i)) \<longleftrightarrow> j = i"
    using ptr_distinct [OF assms(1,3,2)] by auto
  then show ?thesis unfolding map_of_kind_def p unmark_bitmaps [OF assms(1,2)] by simp
qed


text \<open>Freeing a page that has just been marked gives the state back, bit for bit.\<close>

lemma counters_eqI:
  assumes "\<And>k. counter k a = counter k b" "ea_total_pages a = ea_total_pages b" "ea_num_spans a = ea_num_spans b"
    "\<And>i. ea_spans a i = ea_spans b i"
  shows "a = (b :: early_page_alloc_state)"
  using assms(1) [of EARLY_ALLOC_NORMAL] assms(1) [of EARLY_ALLOC_EPHEMERAL] assms(1) [of EARLY_ALLOC_PAGETABLE]
    assms(1) [of EARLY_ALLOC_PHYSBLOCK] assms(2-)
  by (intro early_page_alloc_state.equality) (auto simp: fun_eq_iff)

lemma bitmap_is_set_set: "bitmap_is_set (bitmap_set b off) off"
  by (simp add: bitmap_is_set_iff bit_at_bitmap_set)

lemma unmark_mark:
  assumes ok: "spans_ok s" and i: "i < span_count s" and clear: "\<And>k. \<not> bitmap_is_set (map_of_kind s i k) off"
  shows "unmark i off (mark_page_allocated i off t s) = s"
proof -
  let ?m = "mark_page_allocated i off t s"
  have ok': "spans_ok ?m" and i': "i < span_count ?m" using mark_spans_ok(1) [OF ok] i by simp_all
  have ptr: "ptr_of k (span_at ?m i) = ptr_of k (span_at s i)" for k by (simp add: mark_span)
  have set: "bitmap_is_set (map_of_kind ?m i k) off \<longleftrightarrow> sets_kind t k" for k
    using clear [of k] by (simp add: mark_map_of_kind [OF ok i i] bitmap_is_set_set)
  have "alloc_state (unmark i off ?m) = alloc_state s"
    by (rule counters_eqI) (simp_all add: unmark_counter [OF ok' i'] set mark_counter unmark_span mark_span)
  moreover have "bitmaps (unmark i off ?m) x = bitmaps s x" for x
  proof (cases "\<exists>k. x = ptr_of k (span_at s i)")
    case True
    then obtain k where x: "x = ptr_of k (span_at s i)" by blast
    have "bitmaps ?m x = map_of_kind ?m i k" by (simp add: map_of_kind_def ptr x)
    with True show ?thesis using clear [of k] set [of k]
      by (simp add: unmark_bitmaps [OF ok' i'] ptr mark_map_of_kind [OF ok i i] bitmap_clear_set)
        (simp add: map_of_kind_def x)
  next
    case False
    then have "x \<noteq> ptr_of EARLY_ALLOC_NORMAL (span_at s i)" "x \<noteq> ptr_of t (span_at s i)" by blast+
    with False show ?thesis by (simp add: unmark_bitmaps [OF ok' i'] ptr mark_bitmaps Let_def)
  qed
  ultimately show ?thesis by (intro early_state.equality) (simp_all add: fun_eq_iff)
qed

end
