(* ===== verification/Early_Pool.thy ===== *)
theory Early_Pool
  imports Early_Invariant
begin

text \<open>
  The early page allocator as a set of free pages: every operation of \<open>Early_Alloc\<close> keeps the
  invariant of \<open>Early_Invariant\<close> and moves pages between the free and the allocated ones. The
  locale \<open>frame_allocator\<close> is what a user of single pages relies on; the operations that hand
  out one page interpret it.
\<close>

section \<open>Freeing keeps the invariant\<close>

lemma early_invD:
  assumes "early_inv s"
  shows "spans_ok s" "\<And>i. i < span_count s \<Longrightarrow> maps_ok s i"
    "\<And>k. counter k (alloc_state s) = of_nat (\<Sum>i \<in> {..<span_count s}. card (marked s i k))"
  using assms by (auto simp: early_inv_def)

lemma maps_okD:
  assumes "maps_ok s i"
  shows "wf_bitmap (map_of_kind s i k)" "nbits (map_of_kind s i k) = unat (es_num_pages (span_at s i))"
    "marked s i k \<subseteq> marked s i EARLY_ALLOC_NORMAL"
    "k \<noteq> l \<Longrightarrow> k \<noteq> EARLY_ALLOC_NORMAL \<Longrightarrow> l \<noteq> EARLY_ALLOC_NORMAL \<Longrightarrow> marked s i k \<inter> marked s i l = {}"
    "es_num_allocated_pages (span_at s i) = of_nat (card (marked s i EARLY_ALLOC_NORMAL))"
  using assms by (auto simp: maps_ok_def)

lemma unmark_spans_ok:
  assumes "spans_ok s"
  shows "spans_ok (unmark i off s)" "find_span (unmark i off s) = find_span s"
  by (rule spans_ok_cong [OF assms]; simp add: unmark_span)+

lemma of_nat_pred: "0 < n \<Longrightarrow> of_nat (n - 1) = (of_nat n - 1 :: u64)"
  by (cases n) simp_all

lemma unmark_early_inv:
  assumes inv: "early_inv s" and i: "i < span_count s" and old: "unat off \<in> marked s i EARLY_ALLOC_NORMAL"
  shows "early_inv (unmark i off s)"
    and "j < span_count s \<Longrightarrow> marked (unmark i off s) j k = (if j = i then marked s j k - {unat off} else marked s j k)"
proof -
  let ?s = "unmark i off s"
  note sp = early_invD(1) [OF inv] and mo = early_invD(2) [OF inv] and cn = early_invD(3) [OF inv]
  note d = maps_okD [OF mo [OF i]]
  have nb: "unat off < nbits (map_of_kind s i k)" for k using old d(2) by (auto simp: bits_of_def)
  have set: "bitmap_is_set (map_of_kind s i k) off \<longleftrightarrow> unat off \<in> marked s i k" for k
    by (rule is_set_bits_of [OF nb])
  note m = unmark_map_of_kind [OF sp i]
  have bits: "marked ?s j k = (if j = i then marked s j k - {unat off} else marked s j k)" if "j < span_count s" for j k
    using m [OF that, of off k] nb set by (auto simp: bits_of_clear)
  show "j < span_count s \<Longrightarrow> marked ?s j k = (if j = i then marked s j k - {unat off} else marked s j k)"
    by (rule bits)
  have "maps_ok ?s j" if j: "j < span_count s" for j
  proof (cases "j = i")
    case False
    then show ?thesis using mo [OF j] m [OF j] by (simp add: maps_ok_def unmark_span)
  next
    case True
    then have wf': "wf_bitmap (map_of_kind ?s j k)" "nbits (map_of_kind ?s j k) = nbits (map_of_kind s j k)" for k
      using m [OF j, of off k] d(1) nb by (simp_all add: wf_bitmap_clear)
    have "card (marked s i EARLY_ALLOC_NORMAL - {unat off}) = card (marked s i EARLY_ALLOC_NORMAL) - 1"
      "0 < card (marked s i EARLY_ALLOC_NORMAL)" using old by (auto simp: card_gt_0_iff)
    then have c: "of_nat (card (marked s i EARLY_ALLOC_NORMAL - {unat off})) =
        (of_nat (card (marked s i EARLY_ALLOC_NORMAL)) - 1 :: u64)" by (simp add: of_nat_pred)
    show ?thesis
      unfolding maps_ok_def bits [OF j] wf'(2) using d(1,2,3,5) True wf'(1) c
      by (auto simp: unmark_span) (use d(4) in blast)
  qed
  moreover have "counter k (alloc_state ?s) = of_nat (\<Sum>j \<in> {..<span_count s}. card (marked ?s j k))" for k
  proof -
    have sum: "(\<Sum>j \<in> {..<span_count s}. card (marked ?s j k)) + card (marked s i k) =
        (\<Sum>j \<in> {..<span_count s}. card (marked s j k)) + card (marked ?s i k)"
      by (rule sum_one_changed [OF i]) (simp add: bits)
    show ?thesis
    proof (cases "unat off \<in> marked s i k")
      case True
      then have "card (marked s i k) = Suc (card (marked s i k - {unat off}))"
        using card_Suc_Diff1 [OF finite_bits_of True] by simp
      then have "card (marked s i k) = Suc (card (marked ?s i k))" by (simp only: bits [OF i] if_True simp_thms)
      then have "(\<Sum>j \<in> {..<span_count s}. card (marked s j k)) = Suc (\<Sum>j \<in> {..<span_count s}. card (marked ?s j k))"
        using sum by simp
      with True show ?thesis by (simp add: unmark_counter [OF sp i] set cn)
    next
      case False
      with sum show ?thesis by (simp add: unmark_counter [OF sp i] set cn bits [OF i])
    qed
  qed
  ultimately show "early_inv ?s" unfolding early_inv_def using unmark_spans_ok(1) [OF sp] by simp
qed

section \<open>Pages\<close>

definition managed_pages :: "early_state \<Rightarrow> physaddr_t set" where
  "managed_pages s = {pa. 4096 dvd unat pa \<and> find_span s pa \<noteq> None}"

definition early_pages :: "early_state \<Rightarrow> early_alloc_type \<Rightarrow> physaddr_t set" where
  "early_pages s k = {pa. 4096 dvd unat pa \<and>
     (\<exists>i. find_span s pa = Some i \<and> unat (phys_to_span_offset (span_at s i) pa) \<in> marked s i k)}"

abbreviation unused_pages :: "early_state \<Rightarrow> physaddr_t set" where
  "unused_pages s \<equiv> managed_pages s - early_pages s EARLY_ALLOC_NORMAL"

lemma same_page:
  assumes "spans_ok s" "find_span s pa = Some i" "find_span s pa' = Some i" "4096 dvd unat pa" "4096 dvd unat pa'"
  shows "unat (phys_to_span_offset (span_at s i) pa') = unat (phys_to_span_offset (span_at s i) pa) \<longleftrightarrow> pa' = pa"
  using found_offset_pa(3) [OF assms(1,2,4)] found_offset_pa(3) [OF assms(1,3,5)] by (metis word_unat_eq_iff)

lemma offset_mark [simp]:
  "phys_to_span_offset (span_at (mark_page_allocated i off t s) j) pa = phys_to_span_offset (span_at s j) pa"
  "phys_to_span_offset (span_at (unmark i off s) j) pa = phys_to_span_offset (span_at s j) pa"
  by (simp_all add: phys_to_span_offset_def mark_span unmark_span)

lemma mark_pages:
  fixes t :: early_alloc_type
  assumes inv: "early_inv s" and f: "find_span s pa = Some i" and al: "4096 dvd unat pa"
    and new: "pa \<notin> early_pages s EARLY_ALLOC_NORMAL"
  defines "s' \<equiv> mark_page_allocated i (phys_to_span_offset (span_at s i) pa) t s"
  shows "early_inv s'" "managed_pages s' = managed_pages s"
    "early_pages s' k = (if sets_kind t k then insert pa (early_pages s k) else early_pages s k)"
proof -
  let ?off = "phys_to_span_offset (span_at s i) pa"
  note sp = early_invD(1) [OF inv]
  note o = found_offset_pa [OF sp f al]
  have free: "unat ?off \<notin> marked s i EARLY_ALLOC_NORMAL" using new f al by (auto simp: early_pages_def)
  show "early_inv s'" unfolding s'_def by (rule mark_early_inv [OF inv o(1,2) free])
  have fs: "find_span s' = find_span s" unfolding s'_def by (rule mark_spans_ok(2) [OF sp])
  then show "managed_pages s' = managed_pages s" by (simp add: managed_pages_def)
  have nb: "unat ?off < nbits (map_of_kind s i k)" using o(2) maps_okD(2) [OF early_invD(2) [OF inv o(1)]] by simp
  have bits: "marked s' j k = (if j = i \<and> sets_kind t k then insert (unat ?off) (marked s j k) else marked s j k)"
    if "j < span_count s" for j
    unfolding s'_def mark_map_of_kind [OF sp o(1) that] using nb by (auto simp: bits_of_set)
  have "q \<in> early_pages s' k \<longleftrightarrow> q \<in> early_pages s k \<or> sets_kind t k \<and> q = pa" for q
  proof (cases "4096 dvd unat q \<and> find_span s q \<noteq> None")
    case False
    then show ?thesis using f al by (auto simp: early_pages_def fs)
  next
    case True
    then obtain j where j: "4096 dvd unat q" "find_span s q = Some j" by auto
    note jl = found_offset_pa(1) [OF sp j(2,1)]
    have off: "phys_to_span_offset (span_at s' j) q = phys_to_span_offset (span_at s j) q" by (simp add: s'_def)
    have "q \<noteq> pa" if "j \<noteq> i" using that j f by auto
    moreover have "j = i \<Longrightarrow> unat (phys_to_span_offset (span_at s i) q) = unat ?off \<longleftrightarrow> q = pa"
      using same_page [OF sp f _ al] j by blast
    ultimately show ?thesis
      unfolding early_pages_def fs using j bits [OF jl] off by auto
  qed
  then show "early_pages s' k = (if sets_kind t k then insert pa (early_pages s k) else early_pages s k)" by auto
qed


lemma unmark_pages:
  assumes inv: "early_inv s" and f: "find_span s pa = Some i" and pa: "pa \<in> early_pages s EARLY_ALLOC_NORMAL"
  defines "s' \<equiv> unmark i (phys_to_span_offset (span_at s i) pa) s"
  shows "early_inv s'" "managed_pages s' = managed_pages s" "early_pages s' k = early_pages s k - {pa}"
proof -
  let ?off = "phys_to_span_offset (span_at s i) pa"
  note sp = early_invD(1) [OF inv]
  have al: "4096 dvd unat pa" and old: "unat ?off \<in> marked s i EARLY_ALLOC_NORMAL"
    using pa f by (auto simp: early_pages_def)
  note o = found_offset_pa [OF sp f al]
  note u = unmark_early_inv [OF inv o(1) old]
  show "early_inv s'" unfolding s'_def by (rule u(1))
  have fs: "find_span s' = find_span s" unfolding s'_def by (rule unmark_spans_ok(2) [OF sp])
  then show "managed_pages s' = managed_pages s" by (simp add: managed_pages_def)
  have "q \<in> early_pages s' k \<longleftrightarrow> q \<in> early_pages s k \<and> q \<noteq> pa" for q
  proof (cases "4096 dvd unat q \<and> find_span s q \<noteq> None")
    case False
    then show ?thesis using f al by (auto simp: early_pages_def fs)
  next
    case True
    then obtain j where j: "4096 dvd unat q" "find_span s q = Some j" by auto
    note jl = found_offset_pa(1) [OF sp j(2,1)]
    have off: "phys_to_span_offset (span_at s' j) q = phys_to_span_offset (span_at s j) q" by (simp add: s'_def)
    have "q \<noteq> pa" if "j \<noteq> i" using that j f by auto
    moreover have "j = i \<Longrightarrow> unat (phys_to_span_offset (span_at s i) q) = unat ?off \<longleftrightarrow> q = pa"
      using same_page [OF sp f _ al] j by blast
    ultimately show ?thesis
      unfolding early_pages_def fs using j u(2) [OF jl, of k] off by (auto simp: s'_def)
  qed
  then show "early_pages s' k = early_pages s k - {pa}" by auto
qed

section \<open>Allocating one page\<close>

lemma early_pages_kinds: "early_inv s \<Longrightarrow> early_pages s k \<subseteq> early_pages s EARLY_ALLOC_NORMAL"
proof
  fix q
  assume inv: "early_inv s" and q: "q \<in> early_pages s k"
  then obtain i where i: "4096 dvd unat q" "find_span s q = Some i" "unat (phys_to_span_offset (span_at s i) q) \<in> marked s i k"
    by (auto simp: early_pages_def)
  with maps_okD(3) [OF early_invD(2) [OF inv found_offset_pa(1) [OF early_invD(1) [OF inv] i(2,1)]], of k]
  show "q \<in> early_pages s EARLY_ALLOC_NORMAL" by (auto simp: early_pages_def)
qed

lemma not_set_any_kind:
  assumes inv: "early_inv s" and f: "find_span s pa = Some i" and al: "4096 dvd unat pa"
    and new: "pa \<notin> early_pages s EARLY_ALLOC_NORMAL"
  shows "\<not> bitmap_is_set (map_of_kind s i k) (phys_to_span_offset (span_at s i) pa)"
proof -
  note o = found_offset_pa [OF early_invD(1) [OF inv] f al]
  note d = maps_okD [OF early_invD(2) [OF inv o(1)]]
  have "unat (phys_to_span_offset (span_at s i) pa) \<notin> marked s i k" using new f al d(3) [of k] by (auto simp: early_pages_def)
  with is_set_bits_of [of "phys_to_span_offset (span_at s i) pa" "map_of_kind s i k"] o(2) d(2) [of k] show ?thesis by simp
qed

text \<open>Where a successful allocation puts the page.\<close>

lemma alloc_cases:
  assumes inv: "early_inv s"
  obtains (none) "alloc t s = Inl (Panic ''Out of memory, %lu pages of %lu allocated!'')" "unused_pages s = {}"
    | (some) pa i where "pa \<in> unused_pages s" "find_span s pa = Some i"
      "alloc t s = Inr (pa, mark_page_allocated i (phys_to_span_offset (span_at s i) pa) t s)"
proof (cases "find (\<lambda>i. first_clear_in s i \<noteq> - 1) [0..<span_count s]")
  case None
  then have full: "first_clear_in s i = - 1" if "i < span_count s" for i
    using that by (simp add: find_upt_None_iff)
  have "pa \<in> early_pages s EARLY_ALLOC_NORMAL" if pa: "pa \<in> managed_pages s" for pa
  proof -
    obtain i where i: "4096 dvd unat pa" "find_span s pa = Some i" using pa by (auto simp: managed_pages_def)
    note o = found_offset_pa [OF early_invD(1) [OF inv] i(2,1)]
    note d = maps_okD(1,2) [OF early_invD(2) [OF inv o(1)], of EARLY_ALLOC_NORMAL]
    have "bitmap_first_clear (map_of_kind s i EARLY_ALLOC_NORMAL) = - 1"
      using full [OF o(1)] by (simp add: first_clear_in_def map_of_kind_def)
    then have "marked s i EARLY_ALLOC_NORMAL = {..<nbits (map_of_kind s i EARLY_ALLOC_NORMAL)}"
      using bm.first_clear_full [OF d(1)] by simp
    with o(2) d(2) i show ?thesis by (auto simp: early_pages_def)
  qed
  with None show ?thesis by (intro none) (auto simp: alloc_def)
next
  case (Some i)
  then have i: "i < span_count s" "first_clear_in s i \<noteq> - 1" by (auto simp: find_upt_Some_iff)
  note d = maps_okD(1,2) [OF early_invD(2) [OF inv i(1)], of EARLY_ALLOC_NORMAL]
  have fc: "first_clear_in s i = bitmap_first_clear (map_of_kind s i EARLY_ALLOC_NORMAL)"
    by (simp add: first_clear_in_def map_of_kind_def)
  obtain k where k: "first_clear_in s i = int k" "k < nbits (map_of_kind s i EARLY_ALLOC_NORMAL)"
      "k \<notin> marked s i EARLY_ALLOC_NORMAL"
    using bm.first_clear_free [OF d(1)] i(2) unfolding fc by blast
  have lt: "k < unat (es_num_pages (span_at s i))" using k(2) d(2) by simp
  let ?pa = "span_offset_to_pa (span_at s i) (of_nat k)"
  note o = offset_pa_found [OF early_invD(1) [OF inv] i(1) lt]
  have "?pa \<in> unused_pages s" using o k(3) by (auto simp: managed_pages_def early_pages_def)
  moreover have off: "phys_to_span_offset (span_at s i) ?pa = of_nat k" using o(2) by (metis of_nat_unat ucast_id unsigned_ucast_eq)
  moreover have "alloc t s = Inr (?pa, mark_page_allocated i (of_nat k) t s)"
    using Some k(1) by (simp add: alloc_def Let_def)
  ultimately show ?thesis using some [of ?pa i] o(1) by simp
qed


lemma alloc_spec:
  assumes inv: "early_inv s" and a: "alloc t s = Inr (pa, s')"
  shows "pa \<in> unused_pages s" "early_inv s'" "managed_pages s' = managed_pages s"
    "early_pages s' k = (if sets_kind t k then insert pa (early_pages s k) else early_pages s k)"
    "unused_pages s' = unused_pages s - {pa}" "early_page_free pa s' = Inr s"
    "mem s' = mem s" "boot_info s' = boot_info s" "scratch_state s' = scratch_state s"
proof -
  from a obtain i where i: "pa \<in> unused_pages s" "find_span s pa = Some i"
      "s' = mark_page_allocated i (phys_to_span_offset (span_at s i) pa) t s"
    by (cases rule: alloc_cases [OF inv, of t]) auto
  then have al: "4096 dvd unat pa" and new: "pa \<notin> early_pages s EARLY_ALLOC_NORMAL" by (auto simp: managed_pages_def)
  note m = mark_pages [OF inv i(2) al new, of t, folded i(3)]
  note sp = early_invD(1) [OF inv] and o = found_offset_pa [OF early_invD(1) [OF inv] i(2) al]
  show "pa \<in> unused_pages s" "early_inv s'" "managed_pages s' = managed_pages s"
    "early_pages s' k = (if sets_kind t k then insert pa (early_pages s k) else early_pages s k)"
    using i(1) m by auto
  show "unused_pages s' = unused_pages s - {pa}" using m(2) m(3) [of EARLY_ALLOC_NORMAL] by (auto simp: sets_kind_def)
  show "mem s' = mem s" "boot_info s' = boot_info s" "scratch_state s' = scratch_state s" using i(3) by simp_all
  let ?off = "phys_to_span_offset (span_at s i) pa"
  have "unmark i ?off s' = s"
    unfolding i(3) by (rule unmark_mark [OF sp o(1)]) (rule not_set_any_kind [OF inv i(2) al new])
  moreover have "bitmap_is_set (map_of_kind s' i EARLY_ALLOC_NORMAL) ?off"
    unfolding i(3) by (simp add: mark_map_of_kind [OF sp o(1,1)] sets_kind_def bitmap_is_set_set)
  moreover have "find_span s' pa = Some i" unfolding i(3) using i(2) by (simp add: mark_spans_ok(2) [OF sp])
  moreover have "phys_to_span_offset (span_at s' i) pa = ?off" unfolding i(3) by simp
  ultimately show "early_page_free pa s' = Inr s" by (simp add: early_page_free_unmark)
qed

lemma free_spec:
  assumes inv: "early_inv s" and al: "4096 dvd unat pa"
  shows "early_page_free pa s =
      (if pa \<in> early_pages s EARLY_ALLOC_NORMAL
       then Inr (unmark (the (find_span s pa)) (phys_to_span_offset (span_at s (the (find_span s pa))) pa) s)
       else if pa \<in> managed_pages s then Inl (Panic ''Attempt to free unallocated PA %lx'')
       else Inl (Panic ''Cannot find span for PA %lx''))"
proof (cases "find_span s pa")
  case None
  then show ?thesis by (simp add: early_page_free_unmark early_pages_def managed_pages_def)
next
  case (Some i)
  note o = found_offset_pa [OF early_invD(1) [OF inv] Some al]
  have "bitmap_is_set (map_of_kind s i EARLY_ALLOC_NORMAL) (phys_to_span_offset (span_at s i) pa) \<longleftrightarrow>
      pa \<in> early_pages s EARLY_ALLOC_NORMAL"
    using is_set_bits_of [of "phys_to_span_offset (span_at s i) pa" "map_of_kind s i EARLY_ALLOC_NORMAL"] o(2)
      maps_okD(2) [OF early_invD(2) [OF inv o(1)], of EARLY_ALLOC_NORMAL] Some al
    by (simp add: early_pages_def)
  with Some al show ?thesis by (simp add: early_page_free_unmark managed_pages_def)
qed

lemma alloc_at_spec:
  assumes inv: "early_inv s" and al: "4096 dvd unat pa"
  shows "alloc_at pa t s =
      (if pa \<in> unused_pages s
       then Inr (mark_page_allocated (the (find_span s pa)) (phys_to_span_offset (span_at s (the (find_span s pa))) pa) t s)
       else if pa \<in> managed_pages s then Inl (Panic ''Page containing %lx is already allocated?'')
       else Inl (Panic ''Unable to locate span for %lx''))"
proof (cases "find_span s pa")
  case None
  then show ?thesis by (simp add: alloc_at_def managed_pages_def)
next
  case (Some i)
  note o = found_offset_pa [OF early_invD(1) [OF inv] Some al]
  have "bitmap_is_set (bitmaps s (alloc_bitmap (span_at s i))) (phys_to_span_offset (span_at s i) pa) \<longleftrightarrow>
      pa \<in> early_pages s EARLY_ALLOC_NORMAL"
    using is_set_bits_of [of "phys_to_span_offset (span_at s i) pa" "map_of_kind s i EARLY_ALLOC_NORMAL"] o(2)
      maps_okD(2) [OF early_invD(2) [OF inv o(1)], of EARLY_ALLOC_NORMAL] Some al
    by (simp add: early_pages_def map_of_kind_def)
  with Some al show ?thesis by (simp add: alloc_at_def managed_pages_def Let_def)
qed

lemma finite_pages: "finite (X :: physaddr_t set)"
  by (rule finite)

section \<open>Users of single pages\<close>

fun take_pages :: "('s \<Rightarrow> (physaddr_t \<times> 's) result) \<Rightarrow> nat \<Rightarrow> 's \<Rightarrow> (physaddr_t list \<times> 's) result" where
  "take_pages f 0 s = Inr ([], s)"
| "take_pages f (Suc n) s = rbind (f s) (\<lambda>(pa, s). rbind (take_pages f n s) (\<lambda>(pas, s). Inr (pa # pas, s)))"

locale frame_allocator =
  fixes inv :: "'s \<Rightarrow> bool"
    and avail :: "'s \<Rightarrow> physaddr_t set"
    and take1 :: "'s \<Rightarrow> (physaddr_t \<times> 's) result"
    and give1 :: "physaddr_t \<Rightarrow> 's \<Rightarrow> 's result"
  assumes take_some: "inv s \<Longrightarrow> (\<exists>pa s'. take1 s = Inr (pa, s')) \<longleftrightarrow> avail s \<noteq> {}"
    and take_law: "inv s \<Longrightarrow> take1 s = Inr (pa, s') \<Longrightarrow> inv s' \<and> pa \<in> avail s \<and> avail s' = avail s - {pa}"
    and give_law: "inv s \<Longrightarrow> take1 s = Inr (pa, s') \<Longrightarrow> \<exists>s''. give1 pa s' = Inr s'' \<and> inv s'' \<and> avail s'' = avail s"
begin

lemma take_pages_ok:
  "inv s \<Longrightarrow> n \<le> card (avail s) \<Longrightarrow>
    \<exists>pas s'. take_pages take1 n s = Inr (pas, s') \<and> inv s' \<and> length pas = n \<and> distinct pas \<and>
      set pas \<subseteq> avail s \<and> avail s' = avail s - set pas"
proof (induction n arbitrary: s)
  case (Suc n)
  then have "avail s \<noteq> {}" by auto
  then obtain pa s1 where s1: "take1 s = Inr (pa, s1)" using take_some [OF Suc.prems(1)] by blast
  note l = take_law [OF Suc.prems(1) s1]
  have "n \<le> card (avail s1)" using l Suc.prems(2) by (simp add: finite_pages)
  then obtain pas s' where "take_pages take1 n s1 = Inr (pas, s')" "inv s'" "length pas = n" "distinct pas"
      "set pas \<subseteq> avail s1" "avail s' = avail s1 - set pas"
    using Suc.IH [of s1] l by blast
  with s1 l show ?case by (intro exI [of _ "pa # pas"] exI [of _ s']) auto
qed simp

lemma take_pages_too_many:
  "inv s \<Longrightarrow> card (avail s) < n \<Longrightarrow> \<exists>e. take_pages take1 n s = Inl e"
proof (induction n arbitrary: s)
  case (Suc n)
  show ?case
  proof (cases "take1 s")
    case (Inr r)
    obtain pa s1 where s1: "take1 s = Inr (pa, s1)" using Inr by (cases r) simp
    note l = take_law [OF Suc.prems(1) s1]
    then have "card (avail s1) < n" using Suc.prems(2) card_gt_0_iff [of "avail s"] finite_pages by fastforce
    then obtain e where "take_pages take1 n s1 = Inl e" using Suc.IH l by blast
    with s1 show ?thesis by simp
  qed simp
qed simp

end

interpretation early: frame_allocator early_inv unused_pages "alloc t" early_page_free for t
proof unfold_locales
  fix s pa s'
  assume inv: "early_inv s"
  show "(\<exists>pa s'. alloc t s = Inr (pa, s')) \<longleftrightarrow> unused_pages s \<noteq> {}"
    by (cases rule: alloc_cases [OF inv, of t]) auto
  assume a: "alloc t s = Inr (pa, s')"
  show "early_inv s' \<and> pa \<in> unused_pages s \<and> unused_pages s' = unused_pages s - {pa}"
    using alloc_spec(1,2,5) [OF inv a] by blast
  show "\<exists>s''. early_page_free pa s' = Inr s'' \<and> early_inv s'' \<and> unused_pages s'' = unused_pages s"
    using alloc_spec(6) [OF inv a] inv by blast
qed


section \<open>Allocating a run of pages\<close>

lemma upto_map_int: "[int k..int k + int n - 1] = map int [k..<k + n]"
proof (induction n)
  case (Suc n)
  have "[int k..int k + int n] = [int k..int k + int n - 1] @ [int k + int n]" by (rule upto_rec2) simp
  with Suc show ?case by simp
qed simp

definition page_of :: "early_state \<Rightarrow> nat \<Rightarrow> nat \<Rightarrow> physaddr_t" where
  "page_of s i n = span_offset_to_pa (span_at s i) (of_nat n)"

lemma page_of_mark [simp]: "page_of (mark_page_allocated j off t s) i n = page_of s i n"
  by (simp add: page_of_def mark_span span_offset_to_pa_def)

lemma page_of_unused:
  assumes inv: "early_inv s" and i: "i < span_count s" and n: "n < unat (es_num_pages (span_at s i))"
  shows "page_of s i n \<in> managed_pages s" "page_of s i n \<in> early_pages s k \<longleftrightarrow> n \<in> marked s i k"
    "find_span s (page_of s i n) = Some i" "phys_to_span_offset (span_at s i) (page_of s i n) = of_nat n"
proof -
  note o = offset_pa_found [OF early_invD(1) [OF inv] i n, folded page_of_def]
  show "page_of s i n \<in> managed_pages s" "page_of s i n \<in> early_pages s k \<longleftrightarrow> n \<in> marked s i k"
    "find_span s (page_of s i n) = Some i" using o by (auto simp: managed_pages_def early_pages_def)
  show "phys_to_span_offset (span_at s i) (page_of s i n) = of_nat n"
    using o(2) by (metis of_nat_unat ucast_id unsigned_ucast_eq)
qed

lemma mark_run:
  assumes "early_inv s" "i < span_count s" "k + n \<le> unat (es_num_pages (span_at s i))"
    "\<forall>j < n. k + j \<notin> marked s i EARLY_ALLOC_NORMAL"
  defines "s' \<equiv> fold (\<lambda>j. mark_page_allocated i (of_nat j) EARLY_ALLOC_NORMAL) [k..<k + n] s"
  shows "early_inv s' \<and> managed_pages s' = managed_pages s \<and>
    (\<forall>l. early_pages s' l = early_pages s l \<union> (if l = EARLY_ALLOC_NORMAL then page_of s i ` {k..<k + n} else {})) \<and>
    span_count s' = span_count s \<and> es_num_pages (span_at s' i) = es_num_pages (span_at s i) \<and>
    (\<forall>m. page_of s' i m = page_of s i m)"
  using assms(3,4) unfolding s'_def
proof (induction n)
  case (Suc n)
  let ?s = "fold (\<lambda>j. mark_page_allocated i (of_nat j) EARLY_ALLOC_NORMAL) [k..<k + n] s"
  have IH: "early_inv ?s" "managed_pages ?s = managed_pages s" "span_count ?s = span_count s"
      "\<And>l. early_pages ?s l = early_pages s l \<union> (if l = EARLY_ALLOC_NORMAL then page_of s i ` {k..<k + n} else {})"
      "es_num_pages (span_at ?s i) = es_num_pages (span_at s i)" "\<And>m. page_of ?s i m = page_of s i m"
    using Suc by auto
  have lt: "k + n < unat (es_num_pages (span_at s i))" using Suc.prems by simp
  note here = page_of_unused [OF IH(1) _ lt [folded IH(5)], unfolded IH(3,6), OF assms(2)]
  note was = page_of_unused [OF assms(1,2)]
  have inj: "page_of s i m \<noteq> page_of s i (k + n)" if "m \<in> {k..<k + n}" for m
  proof
    assume eq: "page_of s i m = page_of s i (k + n)"
    have b: "k + n < 2 ^ 64" using lt unat_lt_u64 [of "es_num_pages (span_at s i)"] by simp
    have "(of_nat m :: u64) = of_nat (k + n)" using was(4) [of m] was(4) [OF lt] that lt eq by simp
    moreover have "unat (of_nat (k + n) :: u64) = k + n" using b by (intro unat_of_nat_lt) simp
    moreover have "unat (of_nat m :: u64) = m" using that b by (intro unat_of_nat_lt) simp
    ultimately have "m = k + n" by metis
    with that show False by simp
  qed
  have new: "page_of s i (k + n) \<notin> early_pages ?s EARLY_ALLOC_NORMAL"
  proof -
    have "page_of s i (k + n) \<notin> page_of s i ` {k..<k + n}" using inj by force
    moreover have "page_of s i (k + n) \<notin> early_pages s EARLY_ALLOC_NORMAL"
      using was(2) [OF lt, of EARLY_ALLOC_NORMAL] Suc.prems(2) by simp
    ultimately show ?thesis by (simp add: IH(4))
  qed
  have al: "4096 dvd unat (page_of s i (k + n))" using here(1) by (simp add: managed_pages_def)
  note m = mark_pages [OF IH(1) here(3) al new, where t = EARLY_ALLOC_NORMAL, unfolded here(4)]
  have st: "fold (\<lambda>j. mark_page_allocated i (of_nat j) EARLY_ALLOC_NORMAL) [k..<k + Suc n] s =
      mark_page_allocated i (of_nat (k + n)) EARLY_ALLOC_NORMAL ?s" by simp
  show ?case unfolding st using m(1,2) IH m(3) by (auto simp: sets_kind_def mark_span atLeastLessThanSuc)
qed (simp add: assms(1))

text \<open>The run found is handed out as a block of consecutive pages, all of them free before.\<close>

lemma early_pages_alloc_spec:
  fixes pages :: int and pa :: physaddr_t
  assumes inv: "early_inv s" and a: "early_pages_alloc pages s = Inr (pa, s')" and pos: "1 \<le> pages"
  defines "block \<equiv> (\<lambda>j. pa + of_nat j * 4096) ` {..<nat pages}"
  shows "pages \<le> 8" "block \<subseteq> unused_pages s" "card block = nat pages" "early_inv s'" "managed_pages s' = managed_pages s"
    "early_pages s' EARLY_ALLOC_NORMAL = early_pages s EARLY_ALLOC_NORMAL \<union> block"
proof -
  let ?run = "\<lambda>i. bitmap_zero_string_longer_than (map_of_kind s i EARLY_ALLOC_NORMAL) pages"
  have eq: "bitmaps s (alloc_bitmap (span_at s i)) = map_of_kind s i EARLY_ALLOC_NORMAL" for i by (simp add: map_of_kind_def)
  from a obtain i where le: "pages \<le> 8" and f: "find (\<lambda>i. ?run i \<noteq> - 1) [0..<span_count s] = Some i"
    and r: "pa = span_offset_to_pa (span_at s i) (of_int (?run i))"
      "s' = fold (\<lambda>j. mark_page_allocated i (of_int j) EARLY_ALLOC_NORMAL) [?run i..?run i + pages - 1] s"
    unfolding early_pages_alloc_def eq by (auto simp: Let_def split: if_splits option.splits)
  have i: "i < span_count s" "?run i \<noteq> - 1" using f by (auto simp: find_upt_Some_iff)
  note d = maps_okD(1,2) [OF early_invD(2) [OF inv i(1)], of EARLY_ALLOC_NORMAL]
  have ok: "span_ok (span_at s i)" using early_invD(1) [OF inv] i(1) by (simp add: spans_ok_def)
  then have small: "nbits (map_of_kind s i EARLY_ALLOC_NORMAL) < 2 ^ 31" using d(2) by (simp add: span_ok_def)
  obtain k where k: "?run i = int k" "clear_run (map_of_kind s i EARLY_ALLOC_NORMAL) k (nat pages)"
    using zero_string_Some [OF d(1) small pos i(2)] by blast
  then have bound: "k + nat pages \<le> unat (es_num_pages (span_at s i))"
    and clear: "\<forall>j < nat pages. k + j \<notin> marked s i EARLY_ALLOC_NORMAL"
    using d(2) by (auto simp: clear_run_def bits_of_def)
  have s': "s' = fold (\<lambda>j. mark_page_allocated i (of_nat j) EARLY_ALLOC_NORMAL) [k..<k + nat pages] s"
    using r(2) upto_map_int [of k "nat pages"] pos unfolding k(1) by (simp add: fold_map comp_def)
  note m = mark_run [OF inv i(1) bound clear, folded s']
  have pg: "page_of s i (k + j) = pa + of_nat j * 4096" for j
    unfolding page_of_def r(1) k(1) span_offset_to_pa_def by (simp add: push_bit_eq_mult algebra_simps)
  have img: "page_of s i ` {k..<k + nat pages} = block"
  proof -
    have "(\<lambda>j. k + j) ` {..<nat pages} = {k..<k + nat pages}" unfolding lessThan_atLeast0 by (simp add: add.commute)
    then have "{k..<k + nat pages} = (\<lambda>j. k + j) ` {..<nat pages}" by (rule sym)
    then show ?thesis by (simp add: block_def pg image_image)
  qed
  have each: "page_of s i (k + j) \<in> unused_pages s" if "j < nat pages" for j
    using page_of_unused(1,2) [OF inv i(1), of "k + j"] bound clear that by auto
  show "pages \<le> 8" "early_inv s'" "managed_pages s' = managed_pages s"
    "early_pages s' EARLY_ALLOC_NORMAL = early_pages s EARLY_ALLOC_NORMAL \<union> block" using le m img by simp_all
  show "block \<subseteq> unused_pages s" using each by (auto simp: block_def pg)
  have "inj_on (\<lambda>j. pa + of_nat j * 4096 :: u64) {..<nat pages}"
  proof (rule inj_onI)
    fix x y
    assume xy: "x \<in> {..<nat pages}" "y \<in> {..<nat pages}" "pa + of_nat x * 4096 = pa + of_nat y * (4096 :: u64)"
    have u: "unat (of_nat z * 4096 :: u64) = z * 4096" if "z < nat pages" for z
      using that le by (simp add: unat_word_ariths unat_of_nat)
    have "of_nat x * 4096 = (of_nat y * 4096 :: u64)" using xy(3) by (rule add_left_imp_eq)
    then have "x * 4096 = y * 4096" using u [of x] u [of y] xy(1,2) by (metis lessThan_iff)
    then show "x = y" by simp
  qed
  then show "card block = nat pages" by (simp add: block_def card_image)
qed

end
