(* ===== verification/Early_Init.thy ===== *)
theory Early_Init
  imports Early_Pool
begin

text \<open>
  Setting the early page allocator up (\<^verbatim>\<open>early_page_alloc_init\<close> of \<^verbatim>\<open>early/mem.c\<close>): where the
  scratch allocator puts the bitmaps, that the state built from the memory map satisfies the
  invariant, and which pages are reserved before the first allocation. The properties of the
  early allocators stand at the end.
\<close>

section \<open>The scratch allocator\<close>

definition scratch_ok :: "early_state \<Rightarrow> bool" where
  "scratch_ok s \<longleftrightarrow> scratch_start (scratch_state s) = 0xC00000"

definition scratch_page :: "nat \<Rightarrow> physaddr_t" where
  "scratch_page m = 0xC00000 + 4096 * of_nat m"

abbreviation scratch_used :: "early_state \<Rightarrow> nat" where
  "scratch_used s \<equiv> unat (scratch_pages (scratch_state s))"

text \<open>\<open>s'\<close> is \<open>s\<close> after scratch allocations only, \<open>m\<close> pages in all.\<close>

definition scratched :: "early_state \<Rightarrow> nat \<Rightarrow> early_state \<Rightarrow> bool" where
  "scratched s m s' \<longleftrightarrow> scratch_ok s' \<and> scratch_used s' = m \<and> alloc_state s' = alloc_state s \<and>
     bitmaps s' = bitmaps s \<and> boot_info s' = boot_info s"

lemma scratch_init: "scratch_ok (early_scratch_alloc_init s)" "scratch_used (early_scratch_alloc_init s) = 0"
  by (simp_all add: early_scratch_alloc_init_def scratch_ok_def Let_def KERNEL_ELF_ADDRESS_PHYS_def EARLY_MAX_SCRATCH_PAGES_def)

lemma scratched_trans: "scratched a m b \<Longrightarrow> scratched b n c \<Longrightarrow> scratched a n c"
  by (simp add: scratched_def)

lemma scratch_alloc:
  assumes "scratch_ok s"
  shows "scratch_used s < 1024 \<Longrightarrow>
      \<exists>s'. early_scratch_page_alloc s = Inr (scratch_page (scratch_used s), s') \<and> scratched s (scratch_used s + 1) s'"
    and "1024 \<le> scratch_used s \<Longrightarrow> early_scratch_page_alloc s = Inl (Panic ''Out of scratch memory!'')"
proof -
  have m: "EARLY_MAX_SCRATCH_PAGES \<le> x \<longleftrightarrow> 1024 \<le> unat x" for x
    by (simp add: word_le_nat_alt EARLY_MAX_SCRATCH_PAGES_def)
  show "1024 \<le> scratch_used s \<Longrightarrow> early_scratch_page_alloc s = Inl (Panic ''Out of scratch memory!'')"
    by (simp add: early_scratch_page_alloc_def m)
  assume lt: "scratch_used s < 1024"
  then have "unat (scratch_pages (scratch_state s) + 1) = scratch_used s + 1"
    using unat_plus_no_wrap [of "scratch_pages (scratch_state s)" 1] by simp
  with lt assms show "\<exists>s'. early_scratch_page_alloc s = Inr (scratch_page (scratch_used s), s') \<and> scratched s (scratch_used s + 1) s'"
    by (auto simp: early_scratch_page_alloc_def m not_le scratch_page_def scratch_ok_def scratched_def PAGE_SIZE_def BIT_MASK_def Let_def)
qed

lemma scratch_rest:
  assumes "scratch_ok s"
  defines "go n \<equiv> rfold (\<lambda>_ s. rbind (early_scratch_page_alloc s) (\<lambda>(_, s). Inr s)) [1..<Suc n] s"
  shows "scratch_used s + n \<le> 1024 \<Longrightarrow> \<exists>s'. go n = Inr s' \<and> scratched s (scratch_used s + n) s'"
    and "1024 < scratch_used s + n \<Longrightarrow> scratch_used s \<le> 1024 \<Longrightarrow> go n = Inl (Panic ''Out of scratch memory!'')"
proof -
  have step: "go (Suc n) = rbind (go n) (\<lambda>s. rbind (early_scratch_page_alloc s) (\<lambda>(_, s). Inr s))" for n
  proof -
    have "[1..<Suc (Suc n)] = [1..<Suc n] @ [Suc n]" by simp
    then show ?thesis unfolding go_def by (simp only: rfold_snoc)
  qed
  have ok: "\<exists>s'. go n = Inr s' \<and> scratched s (scratch_used s + n) s'" if "scratch_used s + n \<le> 1024" for n
    using that
  proof (induction n)
    case 0
    then show ?case using assms(1) by (simp add: go_def scratched_def)
  next
    case (Suc n)
    then obtain s1 where s1: "go n = Inr s1" "scratched s (scratch_used s + n) s1" by auto
    then have k: "scratch_ok s1" "scratch_used s1 = scratch_used s + n" by (simp_all add: scratched_def)
    obtain s2 where "early_scratch_page_alloc s1 = Inr (scratch_page (scratch_used s1), s2)" "scratched s1 (scratch_used s1 + 1) s2"
      using scratch_alloc(1) [OF k(1)] k(2) Suc.prems by auto
    with s1 k(2) show ?case using scratched_trans [OF s1(2)] by (simp add: step)
  qed
  then show "scratch_used s + n \<le> 1024 \<Longrightarrow> \<exists>s'. go n = Inr s' \<and> scratched s (scratch_used s + n) s'" .
  show "go n = Inl (Panic ''Out of scratch memory!'')" if "1024 < scratch_used s + n" "scratch_used s \<le> 1024"
    using that
  proof (induction n)
    case (Suc n)
    show ?case
    proof (cases "1024 < scratch_used s + n")
      case False
      with Suc.prems have eq: "scratch_used s + n = 1024" by simp
      then obtain s1 where "go n = Inr s1" "scratched s (scratch_used s + n) s1" using ok [of n] by auto
      with eq scratch_alloc(2) [of s1] show ?thesis by (simp add: step scratched_def)
    qed (use Suc in \<open>simp add: step\<close>)
  qed simp
qed

lemma scratch_bitmap:
  assumes "scratch_ok s" "scratch_used s \<le> 1024" "1 \<le> unat b" "unat b < 2 ^ 31"
  shows "scratch_used s + unat b \<le> 1024 \<Longrightarrow>
      \<exists>s'. scratch_bitmap_alloc b s = Inr (phys_to_virt_ptr (scratch_page (scratch_used s)), s') \<and> scratched s (scratch_used s + unat b) s'"
    and "1024 < scratch_used s + unat b \<Longrightarrow> scratch_bitmap_alloc b s = Inl (Panic ''Out of scratch memory!'')"
proof -
  have n: "[1..<nat (c_int b)] = [1..<Suc (unat b - 1)]" using assms(3,4) by (simp add: c_int_small)
  note rest = scratch_rest [of _ "unat b - 1", folded n]
  show "\<exists>s'. scratch_bitmap_alloc b s = Inr (phys_to_virt_ptr (scratch_page (scratch_used s)), s') \<and> scratched s (scratch_used s + unat b) s'"
    if fits: "scratch_used s + unat b \<le> 1024"
  proof -
    obtain s1 where s1: "early_scratch_page_alloc s = Inr (scratch_page (scratch_used s), s1)" "scratched s (scratch_used s + 1) s1"
      using scratch_alloc(1) [OF assms(1)] fits assms(3) by auto
    then have k: "scratch_ok s1" "scratch_used s1 = scratch_used s + 1" by (simp_all add: scratched_def)
    with rest(1) [OF k(1)] fits assms(3) scratched_trans [OF s1(2)] s1(1) show ?thesis
      by (fastforce simp: scratch_bitmap_alloc_def)
  qed
  show "scratch_bitmap_alloc b s = Inl (Panic ''Out of scratch memory!'')" if over: "1024 < scratch_used s + unat b"
  proof (cases "scratch_used s < 1024")
    case True
    then obtain s1 where s1: "early_scratch_page_alloc s = Inr (scratch_page (scratch_used s), s1)" "scratched s (scratch_used s + 1) s1"
      using scratch_alloc(1) [OF assms(1)] by auto
    then have k: "scratch_ok s1" "scratch_used s1 = scratch_used s + 1" by (simp_all add: scratched_def)
    with rest(2) [OF k(1)] over True assms(3) s1(1) show ?thesis by (simp add: scratch_bitmap_alloc_def)
  next
    case False
    with scratch_alloc(2) [OF assms(1)] show ?thesis by (simp add: scratch_bitmap_alloc_def)
  qed
qed


section \<open>The bitmaps of a span\<close>

definition bitmap_pages_of :: "u64 \<Rightarrow> nat" where
  "bitmap_pages_of n = unat (bytes_to_pages (bitmap_calc_size n))"

fun kind_index :: "early_alloc_type \<Rightarrow> nat" where
  "kind_index EARLY_ALLOC_NORMAL = 0"
| "kind_index EARLY_ALLOC_EPHEMERAL = 1"
| "kind_index EARLY_ALLOC_PAGETABLE = 2"
| "kind_index EARLY_ALLOC_PHYSBLOCK = 3"

definition scratch_ptr :: "nat \<Rightarrow> u64" where
  "scratch_ptr m = phys_to_virt_ptr (scratch_page m)"

lemma kind_index_less: "kind_index k < 4"
  by (cases k) simp_all

lemma kind_index_inj: "kind_index k = kind_index l \<longleftrightarrow> k = l"
  by (cases k; cases l) simp_all

lemma bitmap_pages_of:
  assumes "unat n < 2 ^ 31"
  shows "bitmap_pages_of n = (8 + (unat n + 63) div 64 * 8 + 4095) div 4096" "1 \<le> bitmap_pages_of n" "bitmap_pages_of n < 2 ^ 31"
proof -
  have w: "unat (bitmap_calc_words n) = (unat n + 63) div 64" using assms by (intro unat_bitmap_calc_words) simp
  have le: "(unat n + 63) div 64 \<le> 2 ^ 26" using assms by simp
  have "unat (bitmap_calc_words n * 8) = (unat n + 63) div 64 * 8"
    using le w by (simp add: unat_word_ariths)
  then have sz: "unat (bitmap_calc_size n) = 8 + (unat n + 63) div 64 * 8"
    using le unfolding bitmap_calc_size_def by (subst unat_plus_no_wrap) simp_all
  then show eq: "bitmap_pages_of n = (8 + (unat n + 63) div 64 * 8 + 4095) div 4096"
    using le unfolding bitmap_pages_of_def by (subst unat_bytes_to_pages) simp_all
  have "(8 + (unat n + 63) div 64 * 8 + 4095) div 4096 \<le> (8 + 2 ^ 26 * 8 + 4095) div 4096"
    using le by (intro div_le_mono) simp
  with eq show "bitmap_pages_of n < 2 ^ 31" by simp
  show "1 \<le> bitmap_pages_of n" unfolding eq by simp
qed

text \<open>What setting up the bitmaps of span \<open>i\<close> from scratch page \<open>p\<close> on leaves behind.\<close>

definition span_bitmaps_at :: "early_state \<Rightarrow> nat \<Rightarrow> early_state \<Rightarrow> bool" where
  "span_bitmaps_at s i s' \<longleftrightarrow>
     (let n = es_num_pages (span_at s i); b = bitmap_pages_of n; p = scratch_used s in
      scratch_ok s' \<and> scratch_used s' = p + 4 * b \<and> boot_info s' = boot_info s \<and>
      (\<forall>j. j \<noteq> i \<longrightarrow> span_at s' j = span_at s j) \<and>
      es_start (span_at s' i) = es_start (span_at s i) \<and> es_num_pages (span_at s' i) = n \<and>
      es_num_allocated_pages (span_at s' i) = es_num_allocated_pages (span_at s i) \<and>
      (\<forall>k. ptr_of k (span_at s' i) = scratch_ptr (p + kind_index k * b)) \<and>
      (\<forall>k. counter k (alloc_state s') = counter k (alloc_state s)) \<and>
      ea_num_spans (alloc_state s') = ea_num_spans (alloc_state s) \<and>
      (\<forall>k. \<exists>bm. bitmaps s' (scratch_ptr (p + kind_index k * b)) = bitmap_init bm n) \<and>
      (\<forall>x. (\<forall>k. x \<noteq> scratch_ptr (p + kind_index k * b)) \<longrightarrow> bitmaps s' x = bitmaps s x))"

lemma scratched_upd_span:
  "scratched s m s' \<Longrightarrow> scratched (upd_span i f s) m (upd_span i f s')"
  by (simp add: scratched_def scratch_ok_def upd_span_def)

lemma scratched_used: "scratched s m s' \<Longrightarrow> scratch_ok s' \<and> scratch_used s' = m"
  by (simp add: scratched_def)

lemma scratch_ok_upd [simp]: "scratch_ok (upd_span i f s) = scratch_ok s"
  by (simp add: scratch_ok_def)

lemma upd_bitmap_span [simp]: "alloc_state (upd_bitmap p f s) = alloc_state s"
  by (simp add: upd_bitmap_def)

lemma all_kindsI:
  "P EARLY_ALLOC_NORMAL \<Longrightarrow> P EARLY_ALLOC_EPHEMERAL \<Longrightarrow> P EARLY_ALLOC_PAGETABLE \<Longrightarrow> P EARLY_ALLOC_PHYSBLOCK \<Longrightarrow> \<forall>k. P k"
  by (metis early_alloc_type.exhaust)

lemma alloc_span_bitmaps_steps:
  assumes ok: "scratch_ok s" and le: "scratch_used s \<le> 1024" and n: "unat (es_num_pages (span_at s i)) < 2 ^ 31"
  defines "b \<equiv> bitmap_pages_of (es_num_pages (span_at s i))"
  shows "1024 < scratch_used s + 4 * b \<Longrightarrow> alloc_span_bitmaps s i = Inl (Panic ''Out of scratch memory!'')"
    and "scratch_used s + 4 * b \<le> 1024 \<Longrightarrow> \<exists>s'. alloc_span_bitmaps s i = Inr (of_nat (4 * b), s') \<and> span_bitmaps_at s i s'"
proof -
  let ?b = "bytes_to_pages (bitmap_calc_size (es_num_pages (span_at s i)))"
  let ?oom = "Inl (Panic ''Out of scratch memory!'')"
  let ?set = "\<lambda>f q s. upd_span i (f (\<lambda>_. q)) s"
  let ?q = "\<lambda>m. scratch_ptr (scratch_used s + m * b)"
  have b: "unat ?b = b" "1 \<le> unat ?b" "unat ?b < 2 ^ 31"
    using bitmap_pages_of(2,3) [OF n] by (simp_all add: b_def bitmap_pages_of_def)
  note go = scratch_bitmap [OF _ _ b(2,3), unfolded b(1), folded scratch_ptr_def]
  have step: "(1024 < scratch_used t + b \<longrightarrow> scratch_bitmap_alloc ?b t = ?oom) \<and>
      (scratch_used t + b \<le> 1024 \<longrightarrow> (\<exists>t'. scratch_bitmap_alloc ?b t = Inr (scratch_ptr (scratch_used t), t') \<and> scratched t (scratch_used t + b) t'))"
    if "scratch_ok t" "scratch_used t \<le> 1024" for t using go [OF that] by blast
  have next_step: "\<exists>t'. scratch_bitmap_alloc ?b t = Inr (?q m, t') \<and> scratched t (scratch_used s + Suc m * b) t'"
    if "scratch_ok t" "scratch_used t = scratch_used s + m * b" "scratch_used s + Suc m * b \<le> 1024" for t m
    using step [OF that(1)] that(2,3) by (auto simp: algebra_simps)
  have stop: "scratch_bitmap_alloc ?b t = ?oom"
    if "scratch_ok t" "scratch_used t = scratch_used s + m * b" "scratch_used t \<le> 1024" "1024 < scratch_used s + Suc m * b" for t m
    using step [OF that(1,3)] that(2,4) by (simp add: algebra_simps)
  note def = alloc_span_bitmaps_def Let_def
  show "alloc_span_bitmaps s i = ?oom" if over: "1024 < scratch_used s + 4 * b"
  proof (cases "1024 < scratch_used s + Suc 0 * b")
    case True
    with stop [of s 0] ok le show ?thesis by (simp add: def)
  next
    case False
    then obtain s1 where s1: "scratch_bitmap_alloc ?b s = Inr (?q 0, s1)" "scratched s (scratch_used s + 1 * b) s1"
      using next_step [of s 0] ok by auto
    define u1 where "u1 = ?set alloc_bitmap_update (?q 0) s1"
    have u1: "scratch_ok u1" "scratch_used u1 = scratch_used s + 1 * b" using scratched_used [OF s1(2)] by (simp_all add: u1_def)
    show ?thesis
    proof (cases "1024 < scratch_used s + Suc 1 * b")
      case True
      with stop [OF u1] False u1(2) s1(1) show ?thesis by (simp add: def u1_def)
    next
      case False
      then obtain s2 where s2: "scratch_bitmap_alloc ?b u1 = Inr (?q 1, s2)" "scratched u1 (scratch_used s + 2 * b) s2"
        using next_step [OF u1] by (auto simp: numeral_2_eq_2)
      define u2 where "u2 = ?set ephemeral_bitmap_update (?q 1) s2"
      have u2: "scratch_ok u2" "scratch_used u2 = scratch_used s + 2 * b" using scratched_used [OF s2(2)] by (simp_all add: u2_def)
      show ?thesis
      proof (cases "1024 < scratch_used s + Suc 2 * b")
        case True
        with stop [OF u2] False u2(2) s1(1) s2(1) show ?thesis by (simp add: def u1_def u2_def)
      next
        case False
        then obtain s3 where s3: "scratch_bitmap_alloc ?b u2 = Inr (?q 2, s3)" "scratched u2 (scratch_used s + 3 * b) s3"
          using next_step [OF u2] by auto
        define u3 where "u3 = ?set pagetable_bitmap_update (?q 2) s3"
        have u3: "scratch_ok u3" "scratch_used u3 = scratch_used s + 3 * b" using scratched_used [OF s3(2)] by (simp_all add: u3_def)
        with stop [OF u3] False over u3(2) s1(1) s2(1) s3(1) show ?thesis by (simp add: def u1_def u2_def u3_def)
      qed
    qed
  qed
  show "\<exists>s'. alloc_span_bitmaps s i = Inr (of_nat (4 * b), s') \<and> span_bitmaps_at s i s'" if fits: "scratch_used s + 4 * b \<le> 1024"
  proof -
    obtain s1 where s1: "scratch_bitmap_alloc ?b s = Inr (?q 0, s1)" "scratched s (scratch_used s + 1 * b) s1"
      using next_step [of s 0] ok fits by auto
    define u1 where "u1 = ?set alloc_bitmap_update (?q 0) s1"
    have u1: "scratch_ok u1" "scratch_used u1 = scratch_used s + 1 * b" using scratched_used [OF s1(2)] by (simp_all add: u1_def)
    obtain s2 where s2: "scratch_bitmap_alloc ?b u1 = Inr (?q 1, s2)" "scratched u1 (scratch_used s + 2 * b) s2"
      using next_step [OF u1] fits by (auto simp: numeral_2_eq_2)
    define u2 where "u2 = ?set ephemeral_bitmap_update (?q 1) s2"
    have u2: "scratch_ok u2" "scratch_used u2 = scratch_used s + 2 * b" using scratched_used [OF s2(2)] by (simp_all add: u2_def)
    obtain s3 where s3: "scratch_bitmap_alloc ?b u2 = Inr (?q 2, s3)" "scratched u2 (scratch_used s + 3 * b) s3"
      using next_step [OF u2] fits by auto
    define u3 where "u3 = ?set pagetable_bitmap_update (?q 2) s3"
    have u3: "scratch_ok u3" "scratch_used u3 = scratch_used s + 3 * b" using scratched_used [OF s3(2)] by (simp_all add: u3_def)
    obtain s4 where s4: "scratch_bitmap_alloc ?b u3 = Inr (?q 3, s4)" "scratched u3 (scratch_used s + 4 * b) s4"
      using next_step [OF u3] fits by auto
    define u4 where "u4 = ?set physblock_bitmap_update (?q 3) s4"
    have al: "alloc_state u1 = alloc_state (?set alloc_bitmap_update (?q 0) s)"
      "alloc_state u2 = alloc_state (?set ephemeral_bitmap_update (?q 1) u1)"
      "alloc_state u3 = alloc_state (?set pagetable_bitmap_update (?q 2) u2)"
      "alloc_state u4 = alloc_state (?set physblock_bitmap_update (?q 3) u3)"
      using s1(2) s2(2) s3(2) s4(2) by (simp_all add: u1_def u2_def u3_def u4_def scratched_def upd_span_def)
    have rest: "bitmaps u4 = bitmaps s" "boot_info u4 = boot_info s" "scratch_ok u4" "scratch_used u4 = scratch_used s + 4 * b"
      using s1(2) s2(2) s3(2) s4(2) by (simp_all add: u1_def u2_def u3_def u4_def scratched_def)
    have sp: "span_at u4 i = (span_at s i)\<lparr>alloc_bitmap := ?q 0, ephemeral_bitmap := ?q 1, pagetable_bitmap := ?q 2, physblock_bitmap := ?q 3\<rparr>"
      "j \<noteq> i \<Longrightarrow> span_at u4 j = span_at s j" "counter k (alloc_state u4) = counter k (alloc_state s)"
      "ea_num_spans (alloc_state u4) = ea_num_spans (alloc_state s)" for j k
      using al by simp_all
    let ?n = "es_num_pages (span_at s i)"
    let ?init = "\<lambda>p t. upd_bitmap p (\<lambda>b. bitmap_init b ?n) t"
    define s' where "s' = ?init (?q 3) (?init (?q 2) (?init (?q 1) (?init (?q 0) u4)))"
    have "alloc_bitmap (span_at s4 i) = ?q 0" "ephemeral_bitmap (span_at s4 i) = ?q 1" "pagetable_bitmap (span_at s4 i) = ?q 2"
      using s4(2) al by (simp_all add: scratched_def)
    then have "alloc_span_bitmaps s i = Inr (?b * 4, s')"
      unfolding s'_def using s1(1) s2(1) s3(1) s4(1) sp(1)
      by (simp add: def flip: u1_def [simplified] u2_def [simplified] u3_def [simplified] u4_def [simplified])
    moreover have "?b * 4 = of_nat (4 * b)" unfolding b(1) [symmetric] by simp
    moreover have inits: "\<exists>bm. bitmaps (?init p t) p = bitmap_init bm ?n"
      "\<exists>bm. bitmaps t x = bitmap_init bm ?n \<Longrightarrow> \<exists>bm. bitmaps (?init p t) x = bitmap_init bm ?n" for p t x
      by (auto simp: upd_bitmap_def)
    have set: "\<exists>bm. bitmaps s' (?q 0) = bitmap_init bm ?n" "\<exists>bm. bitmaps s' (?q 1) = bitmap_init bm ?n"
      "\<exists>bm. bitmaps s' (?q 2) = bitmap_init bm ?n" "\<exists>bm. bitmaps s' (?q 3) = bitmap_init bm ?n"
      unfolding s'_def by (rule inits)+
    moreover have "span_bitmaps_at s i s'"
      unfolding span_bitmaps_at_def Let_def b_def [symmetric]
    proof (intro conjI all_kindsI allI impI)
      fix x
      assume "\<forall>k. x \<noteq> scratch_ptr (scratch_used s + kind_index k * b)"
      then have "x \<noteq> ?q (kind_index k)" for k by blast
      from this [of EARLY_ALLOC_NORMAL] this [of EARLY_ALLOC_EPHEMERAL] this [of EARLY_ALLOC_PAGETABLE] this [of EARLY_ALLOC_PHYSBLOCK]
      show "bitmaps s' x = bitmaps s x" by (simp add: s'_def upd_bitmap_def rest)
    next
      show "\<exists>bm. bitmaps s' (?q (kind_index EARLY_ALLOC_NORMAL)) = bitmap_init bm ?n"
        "\<exists>bm. bitmaps s' (?q (kind_index EARLY_ALLOC_EPHEMERAL)) = bitmap_init bm ?n"
        "\<exists>bm. bitmaps s' (?q (kind_index EARLY_ALLOC_PAGETABLE)) = bitmap_init bm ?n"
        "\<exists>bm. bitmaps s' (?q (kind_index EARLY_ALLOC_PHYSBLOCK)) = bitmap_init bm ?n"
        unfolding kind_index.simps by (rule set)+
    qed (use rest sp in \<open>simp_all add: s'_def upd_bitmap_def scratch_ok_def del: counter.simps\<close>)
    ultimately show ?thesis by auto
  qed
qed


section \<open>The loop over the memory map\<close>

definition span_init_entry :: "e820_entry \<Rightarrow> nat \<times> u64 \<times> early_state \<Rightarrow> (nat \<times> u64 \<times> early_state) result" where
  "span_init_entry entry acc =
     (case acc of (span_idx, num_scratch_pages, s) \<Rightarrow>
       let s = upd_span span_idx (\<lambda>sp. sp\<lparr>es_start := e820_base entry,
                 es_num_pages := drop_bit PAGE_SHIFT (e820_size entry)\<rparr>) s
       in rbind (alloc_span_bitmaps s span_idx) (\<lambda>(n, s). Inr (span_idx + 1, num_scratch_pages + n, s)))"

abbreviation ram_of :: "e820_entry list \<Rightarrow> e820_entry list" where
  "ram_of es \<equiv> filter (\<lambda>e. e820_type e = E820_TYPE_RAM) es"

lemma span_loop:
  "rfold (early_span_init info) [0..<n] acc = rfold span_init_entry (ram_of (slots (e820_entries info) n)) acc"
proof (induction n)
  case (Suc n)
  have "early_span_init info n acc = (if e820_type (e820_entries info n) = E820_TYPE_RAM
      then span_init_entry (e820_entries info n) acc else Inr acc)" for acc
    by (cases acc) (simp add: early_span_init_def span_init_entry_def Let_def)
  then have st: "early_span_init info n = (\<lambda>acc. if e820_type (e820_entries info n) = E820_TYPE_RAM
      then span_init_entry (e820_entries info n) acc else Inr acc)" by (rule ext)
  have "rbind r (\<lambda>x. Inr x) = r" for r :: "(nat \<times> u64 \<times> early_state) result" by (cases r) simp_all
  then show ?case by (simp add: rfold_snoc Suc st)
qed simp

definition entry_bitmap_pages :: "e820_entry \<Rightarrow> nat" where
  "entry_bitmap_pages e = bitmap_pages_of (drop_bit 12 (e820_size e))"

definition first_page :: "e820_entry list \<Rightarrow> nat \<Rightarrow> nat" where
  "first_page es j = 1 + 4 * sum_list (map entry_bitmap_pages (take j es))"

definition scratch_need :: "e820_entry list \<Rightarrow> nat" where
  "scratch_need es = 1 + 4 * sum_list (map entry_bitmap_pages es)"

definition built :: "early_boot_info \<Rightarrow> u64 \<Rightarrow> e820_entry list \<Rightarrow> nat \<times> u64 \<times> early_state \<Rightarrow> bool" where
  "built bi n es acc \<longleftrightarrow>
     (case acc of (idx, ns, s) \<Rightarrow>
       idx = length es \<and> ns = scratch_pages (scratch_state s) \<and> scratch_ok s \<and> scratch_used s = scratch_need es \<and>
       scratch_used s \<le> 1024 \<and> boot_info s = bi \<and> ea_num_spans (alloc_state s) = n \<and> (\<forall>k. counter k (alloc_state s) = 0) \<and>
       (\<forall>j < length es. es_start (span_at s j) = e820_base (es ! j) \<and>
          es_num_pages (span_at s j) = drop_bit 12 (e820_size (es ! j)) \<and> es_num_allocated_pages (span_at s j) = 0 \<and>
          (\<forall>k. ptr_of k (span_at s j) = scratch_ptr (first_page es j + kind_index k * entry_bitmap_pages (es ! j))) \<and>
          (\<forall>k. \<exists>bm. map_of_kind s j k = bitmap_init bm (es_num_pages (span_at s j)))) \<and>
       (\<forall>j \<ge> length es. span_at s j = zero_span))"

lemma scratch_ptr_inj: "m < 2 ^ 20 \<Longrightarrow> n < 2 ^ 20 \<Longrightarrow> scratch_ptr m = scratch_ptr n \<longleftrightarrow> m = n"
proof
  assume b: "m < 2 ^ 20" "n < 2 ^ 20" and eq: "scratch_ptr m = scratch_ptr n"
  have u: "unat (4096 * of_nat x :: u64) = 4096 * x" if "x < 2 ^ 20" for x
    using that by (simp add: unat_word_ariths unat_of_nat)
  have "4096 * of_nat m = (4096 * of_nat n :: u64)"
    using eq unfolding scratch_ptr_def scratch_page_def phys_to_virt_ptr_def phys_to_virt_def by (metis add_left_imp_eq)
  then have "4096 * m = 4096 * n" using u [OF b(1)] u [OF b(2)] by metis
  then show "m = n" by simp
qed simp

lemma first_page_Suc: "j < length es \<Longrightarrow> first_page es (Suc j) = first_page es j + 4 * entry_bitmap_pages (es ! j)"
  by (simp add: first_page_def take_Suc_conv_app_nth)

lemma first_page_mono: "i \<le> j \<Longrightarrow> first_page es i \<le> first_page es j"
proof -
  assume "i \<le> j"
  then obtain d where "j = i + d" using le_Suc_ex by blast
  then show ?thesis by (simp add: first_page_def take_add)
qed

lemma first_page_all: "length es \<le> j \<Longrightarrow> first_page es j = scratch_need es"
  by (simp add: first_page_def scratch_need_def)

text \<open>The pages of one bitmap come before those of the next.\<close>

lemma bitmap_slot_bounds:
  assumes "j < length es" "1 \<le> entry_bitmap_pages (es ! j)"
  shows "first_page es j + kind_index k * entry_bitmap_pages (es ! j) + entry_bitmap_pages (es ! j) \<le> first_page es (Suc j)"
    "first_page es j + kind_index k * entry_bitmap_pages (es ! j) < scratch_need es"
proof -
  have "(kind_index k + 1) * entry_bitmap_pages (es ! j) \<le> 4 * entry_bitmap_pages (es ! j)"
    using kind_index_less [of k] by (intro mult_le_mono1) simp
  then show a: "first_page es j + kind_index k * entry_bitmap_pages (es ! j) + entry_bitmap_pages (es ! j) \<le> first_page es (Suc j)"
    by (simp add: first_page_Suc [OF assms(1)])
  have "first_page es (Suc j) \<le> first_page es (length es)" using assms(1) by (intro first_page_mono) simp
  with a assms(2) show "first_page es j + kind_index k * entry_bitmap_pages (es ! j) < scratch_need es"
    using first_page_all [of es "length es"] by simp
qed

definition span_sizes_ok :: "e820_entry list \<Rightarrow> bool" where
  "span_sizes_ok es \<longleftrightarrow> (\<forall>e \<in> set es. unat (drop_bit 12 (e820_size e)) < 2 ^ 31)"

lemma entry_bitmap_pages_pos: "span_sizes_ok es \<Longrightarrow> j < length es \<Longrightarrow> 1 \<le> entry_bitmap_pages (es ! j)"
  unfolding entry_bitmap_pages_def span_sizes_ok_def by (intro bitmap_pages_of(2)) simp


lemma first_page_append [simp]: "j \<le> length es \<Longrightarrow> first_page (es @ fs) j = first_page es j"
  by (simp add: first_page_def)

lemma scratch_need_snoc: "scratch_need (es @ [e]) = scratch_need es + 4 * entry_bitmap_pages e"
  by (simp add: scratch_need_def)

lemma built_step:
  assumes b: "built bi n es acc" and sz: "span_sizes_ok (es @ [e])"
  shows "1024 < scratch_need (es @ [e]) \<Longrightarrow> span_init_entry e acc = Inl (Panic ''Out of scratch memory!'')"
    and "scratch_need (es @ [e]) \<le> 1024 \<Longrightarrow> \<exists>acc'. span_init_entry e acc = Inr acc' \<and> built bi n (es @ [e]) acc'"
proof -
  obtain s where acc: "acc = (length es, scratch_pages (scratch_state s), s)" using b by (cases acc) (simp add: built_def)
  let ?L = "length es" and ?B = "entry_bitmap_pages e"
  define s1 where "s1 = upd_span ?L (\<lambda>sp. sp\<lparr>es_start := e820_base e, es_num_pages := drop_bit 12 (e820_size e)\<rparr>) s"
  have f: "scratch_ok s" "scratch_used s = scratch_need es" "scratch_used s \<le> 1024" "boot_info s = bi"
    "ea_num_spans (alloc_state s) = n" "\<And>k. counter k (alloc_state s) = 0" "\<And>j. ?L \<le> j \<Longrightarrow> span_at s j = zero_span"
    and old: "\<And>j. j < ?L \<Longrightarrow> es_start (span_at s j) = e820_base (es ! j) \<and>
          es_num_pages (span_at s j) = drop_bit 12 (e820_size (es ! j)) \<and> es_num_allocated_pages (span_at s j) = 0 \<and>
          (\<forall>k. ptr_of k (span_at s j) = scratch_ptr (first_page es j + kind_index k * entry_bitmap_pages (es ! j))) \<and>
          (\<forall>k. \<exists>bm. map_of_kind s j k = bitmap_init bm (es_num_pages (span_at s j)))"
    using b unfolding acc built_def by auto
  have s1: "scratch_ok s1" "scratch_used s1 = scratch_need es" "scratch_used s1 \<le> 1024" "boot_info s1 = bi"
    "es_num_pages (span_at s1 ?L) = drop_bit 12 (e820_size e)" "es_start (span_at s1 ?L) = e820_base e"
    "es_num_allocated_pages (span_at s1 ?L) = 0" "bitmaps s1 = bitmaps s" "ea_num_spans (alloc_state s1) = n"
    "\<And>k. counter k (alloc_state s1) = 0" "\<And>j. j \<noteq> ?L \<Longrightarrow> span_at s1 j = span_at s j"
    using f by (simp_all add: s1_def zero_span_def del: counter.simps)
  have n: "unat (es_num_pages (span_at s1 ?L)) < 2 ^ 31" using sz s1(5) by (simp add: span_sizes_ok_def)
  have B: "bitmap_pages_of (es_num_pages (span_at s1 ?L)) = ?B" using s1(5) by (simp add: entry_bitmap_pages_def)
  note st = alloc_span_bitmaps_steps [OF s1(1,3) n, unfolded B s1(2) scratch_need_snoc [symmetric]]
  have go: "span_init_entry e acc = rbind (alloc_span_bitmaps s1 ?L)
      (\<lambda>(m, s). Inr (?L + 1, scratch_pages (scratch_state s1) + m, s))"
    by (simp add: span_init_entry_def acc Let_def s1_def)
  show "span_init_entry e acc = Inl (Panic ''Out of scratch memory!'')" if "1024 < scratch_need (es @ [e])"
    using st(1) [OF that] by (simp add: go)
  show "\<exists>acc'. span_init_entry e acc = Inr acc' \<and> built bi n (es @ [e]) acc'" if fits: "scratch_need (es @ [e]) \<le> 1024"
  proof -
    obtain s' where s': "alloc_span_bitmaps s1 ?L = Inr (of_nat (4 * ?B), s')" "span_bitmaps_at s1 ?L s'"
      using st(2) [OF fits] by blast
    note d = s'(2) [unfolded span_bitmaps_at_def Let_def B s1(2)]
    let ?new = "\<lambda>k. scratch_ptr (scratch_need es + kind_index k * ?B)"
    have used: "scratch_used s' = scratch_need (es @ [e])" using d by (simp add: scratch_need_snoc)
    have ns: "scratch_pages (scratch_state s1) + of_nat (4 * ?B) = scratch_pages (scratch_state s')"
    proof (rule word_unat_eq_iff [THEN iffD2])
      have le: "4 * ?B \<le> 1024" using fits by (simp add: scratch_need_snoc)
      then have u: "unat (of_nat (4 * ?B) :: u64) = 4 * ?B" by (intro unat_of_nat_lt) simp
      show "unat (scratch_pages (scratch_state s1) + of_nat (4 * ?B)) = scratch_used s'"
        using u s1(2) used fits le by (subst unat_plus_no_wrap) (simp_all add: scratch_need_snoc)
    qed
    have apart: "scratch_ptr (first_page es j + kind_index k * entry_bitmap_pages (es ! j)) \<noteq> ?new l" if j: "j < ?L" for j k l
    proof
      assume eq: "scratch_ptr (first_page es j + kind_index k * entry_bitmap_pages (es ! j)) = ?new l"
      have "span_sizes_ok es" using sz by (simp add: span_sizes_ok_def)
      then have lt: "first_page es j + kind_index k * entry_bitmap_pages (es ! j) < scratch_need es"
        using bitmap_slot_bounds(2) [OF j] entry_bitmap_pages_pos j by blast
      have "kind_index l * ?B \<le> 4 * ?B" using kind_index_less [of l] by (intro mult_le_mono1) simp
      then have "scratch_need es + kind_index l * ?B \<le> 1024" using fits unfolding scratch_need_snoc by linarith
      with scratch_ptr_inj [of "first_page es j + kind_index k * entry_bitmap_pages (es ! j)"
          "scratch_need es + kind_index l * ?B"] lt eq show False by simp
    qed
    have same: "map_of_kind s' j k = map_of_kind s j k" "span_at s' j = span_at s j" if "j < ?L" for j k
    proof -
      show sp: "span_at s' j = span_at s j" using d s1(11) that by simp
      have p: "ptr_of k (span_at s j) = scratch_ptr (first_page es j + kind_index k * entry_bitmap_pages (es ! j))"
        using old [OF that] by blast
      have "bitmaps s' (ptr_of k (span_at s j)) = bitmaps s1 (ptr_of k (span_at s j))"
        unfolding p using d apart [OF that] by blast
      then show "map_of_kind s' j k = map_of_kind s j k" by (simp add: map_of_kind_def sp s1(8))
    qed
    have "built bi n (es @ [e]) (?L + 1, scratch_pages (scratch_state s'), s')"
      unfolding built_def prod.case
    proof (intro conjI allI impI)
      fix j k
      assume j: "j < length (es @ [e])"
      let ?P = "es_start (span_at s' j) = e820_base ((es @ [e]) ! j) \<and>
        es_num_pages (span_at s' j) = drop_bit 12 (e820_size ((es @ [e]) ! j)) \<and> es_num_allocated_pages (span_at s' j) = 0 \<and>
        ptr_of k (span_at s' j) = scratch_ptr (first_page (es @ [e]) j + kind_index k * entry_bitmap_pages ((es @ [e]) ! j)) \<and>
        (\<exists>bm. map_of_kind s' j k = bitmap_init bm (es_num_pages (span_at s' j)))"
      have ?P
      proof (cases "j < ?L")
        case True
        then show ?thesis using old [OF True] same [OF True] by (simp add: nth_append) metis
      next
        case False
        then have "j = ?L" using j by simp
        then show ?thesis using d s1 by (simp add: map_of_kind_def first_page_all)
      qed
      then show "es_start (span_at s' j) = e820_base ((es @ [e]) ! j)"
        "es_num_pages (span_at s' j) = drop_bit 12 (e820_size ((es @ [e]) ! j))" "es_num_allocated_pages (span_at s' j) = 0"
        "ptr_of k (span_at s' j) = scratch_ptr (first_page (es @ [e]) j + kind_index k * entry_bitmap_pages ((es @ [e]) ! j))"
        "\<exists>bm. map_of_kind s' j k = bitmap_init bm (es_num_pages (span_at s' j))" by blast+
    qed (use d s1 used fits f(7) in \<open>simp_all del: counter.simps\<close>)
    then show ?thesis using s'(1) by (simp add: go ns del: of_nat_mult)
  qed
qed

lemma built_loop:
  "built bi n es acc \<Longrightarrow> span_sizes_ok (es @ fs) \<Longrightarrow>
   (if scratch_need (es @ fs) \<le> 1024 then \<exists>acc'. rfold span_init_entry fs acc = Inr acc' \<and> built bi n (es @ fs) acc'
    else rfold span_init_entry fs acc = Inl (Panic ''Out of scratch memory!''))"
proof (induction fs arbitrary: es acc)
  case Nil
  then have "scratch_need es \<le> 1024" by (auto simp: built_def split: prod.splits)
  with Nil show ?case by simp
next
  case (Cons f fs)
  have sz: "span_sizes_ok (es @ [f])" using Cons.prems(2) by (simp add: span_sizes_ok_def)
  have le: "scratch_need (es @ [f]) \<le> scratch_need (es @ f # fs)" by (simp add: scratch_need_def)
  show ?case
  proof (cases "scratch_need (es @ [f]) \<le> 1024")
    case True
    then obtain acc1 where acc1: "span_init_entry f acc = Inr acc1" "built bi n (es @ [f]) acc1"
      using built_step(2) [OF Cons.prems(1) sz] by blast
    have "rfold span_init_entry (f # fs) acc = rfold span_init_entry fs acc1" using acc1(1) by simp
    with Cons.IH [of "es @ [f]" acc1, unfolded append_assoc append.simps, OF acc1(2) Cons.prems(2)] show ?thesis
      by (simp only:)
  next
    case False
    with built_step(1) [OF Cons.prems(1) sz] le show ?thesis by simp
  qed
qed


section \<open>The invariant holds of what is built\<close>

text \<open>The RAM entries of a prepared memory map: whole pages, below the top of memory, apart from each other.\<close>

definition ram_ok :: "e820_entry list \<Rightarrow> bool" where
  "ram_ok es \<longleftrightarrow> length es \<le> 72 \<and>
     (\<forall>e \<in> set es. entry_ok e \<and> 4096 dvd unat (e820_base e) \<and> 4096 dvd unat (e820_size e) \<and> unat (e820_size e) < 2 ^ 43) \<and>
     (\<forall>i < length es. \<forall>j < length es. i \<noteq> j \<longrightarrow> covered (es ! i) \<inter> covered (es ! j) = {})"

definition ram_pages :: "e820_entry list \<Rightarrow> physaddr_t set" where
  "ram_pages es = {pa. 4096 dvd unat pa \<and> (\<exists>e \<in> set es. unat pa \<in> covered e)}"

lemma ram_ok_sizes: "ram_ok es \<Longrightarrow> span_sizes_ok es"
  by (auto simp: ram_ok_def span_sizes_ok_def unat_drop_bit)

lemma built_inv:
  assumes b: "built bi (of_nat (length es)) es (idx, ns, s)" and ram: "ram_ok es"
  shows "early_inv s" "managed_pages s = ram_pages es" "early_pages s k = {}"
proof -
  let ?L = "length es"
  have L: "?L \<le> 72" using ram by (simp add: ram_ok_def)
  have f: "ea_num_spans (alloc_state s) = of_nat ?L" "\<And>k. counter k (alloc_state s) = 0" "scratch_used s = scratch_need es" "scratch_used s \<le> 1024"
    and sp: "\<And>j. j < ?L \<Longrightarrow> es_start (span_at s j) = e820_base (es ! j)"
      "\<And>j. j < ?L \<Longrightarrow> es_num_pages (span_at s j) = drop_bit 12 (e820_size (es ! j))"
      "\<And>j. j < ?L \<Longrightarrow> es_num_allocated_pages (span_at s j) = 0"
      "\<And>j k. j < ?L \<Longrightarrow> ptr_of k (span_at s j) = scratch_ptr (first_page es j + kind_index k * entry_bitmap_pages (es ! j))"
      "\<And>j k. j < ?L \<Longrightarrow> \<exists>bm. map_of_kind s j k = bitmap_init bm (es_num_pages (span_at s j))"
    using b unfolding built_def by auto
  have cnt: "span_count s = ?L"
    using L by (simp add: f(1) c_int_small unat_of_nat_lt)
  have e: "entry_ok (es ! j)" "4096 dvd unat (e820_base (es ! j))" "4096 dvd unat (e820_size (es ! j))" "unat (e820_size (es ! j)) < 2 ^ 43"
    if "j < ?L" for j using ram that by (auto simp: ram_ok_def)
  have np: "unat (es_num_pages (span_at s j)) * 4096 = unat (e820_size (es ! j))" "unat (es_num_pages (span_at s j)) < 2 ^ 31"
    if "j < ?L" for j
    using e [OF that] sp(2) [OF that] by (simp_all add: unat_drop_bit)
  have se: "span_end (span_at s j) = unat (e820_base (es ! j)) + unat (e820_size (es ! j))" if "j < ?L" for j
    using np [OF that] sp(1) [OF that] by (simp add: span_end_def)
  have "spans_ok s"
    unfolding spans_ok_def cnt
  proof (intro conjI allI impI)
    fix i j k l
    assume i: "i < ?L"
    show "span_ok (span_at s i)" using e [OF i] np [OF i] se [OF i] sp(1) [OF i] by (simp add: span_ok_def entry_ok_def)
    assume j: "j < ?L"
    show "{unat (es_start (span_at s i))..<span_end (span_at s i)} \<inter> {unat (es_start (span_at s j))..<span_end (span_at s j)} = {}"
      if "i \<noteq> j"
      using ram i j that unfolding ram_ok_def se [OF i] se [OF j] sp(1) [OF i] sp(1) [OF j] covered_def by blast
    assume eq: "ptr_of k (span_at s i) = ptr_of l (span_at s j)"
    let ?B = "\<lambda>i. entry_bitmap_pages (es ! i)"
    have pos: "1 \<le> ?B x" if "x < ?L" for x using entry_bitmap_pages_pos [OF ram_ok_sizes [OF ram] that] .
    note bd = bitmap_slot_bounds [OF i pos [OF i], of k] bitmap_slot_bounds [OF j pos [OF j], of l]
    have m: "first_page es i + kind_index k * ?B i = first_page es j + kind_index l * ?B j"
      using eq bd f(3,4) by (simp add: sp(4) [OF i] sp(4) [OF j] scratch_ptr_inj)
    have "\<not> i < j" using first_page_mono [of "Suc i" j es] bd m pos [OF i] by (auto simp: Suc_le_eq)
    moreover have "\<not> j < i" using first_page_mono [of "Suc j" i es] bd m pos [OF j] by (auto simp: Suc_le_eq)
    ultimately have ij: "i = j" by simp
    then have "kind_index k = kind_index l" using m pos [OF j] by simp
    with ij show "i = j" "k = l" by (simp_all add: kind_index_inj)
  qed
  moreover have wf: "wf_bitmap (map_of_kind s j k)" "bits_of (map_of_kind s j k) = {}"
    "nbits (map_of_kind s j k) = unat (es_num_pages (span_at s j))" if "j < ?L" for j k
    using sp(5) [OF that, of k] bitmap_init_facts [of "es_num_pages (span_at s j)"] np(2) [OF that] by auto
  ultimately show inv: "early_inv s"
    unfolding early_inv_def maps_ok_def cnt using sp(3) f(2) by simp
  have here: "find_span s pa = Some i \<longleftrightarrow> i < ?L \<and> unat pa \<in> covered (es ! i)" for pa i
    using find_span_Some [OF early_invD(1) [OF inv], of pa i] sp(1) [of i] se [of i] cnt by (auto simp: covered_def)
  have "q \<notin> early_pages s k" for q
  proof
    assume "q \<in> early_pages s k"
    then obtain i where "find_span s q = Some i" "unat (phys_to_span_offset (span_at s i) q) \<in> marked s i k"
      by (auto simp: early_pages_def)
    with here [of q i] wf(2) [of i k] show False by simp
  qed
  then show "early_pages s k = {}" by blast
  have "(\<exists>i. find_span s pa = Some i) \<longleftrightarrow> (\<exists>e \<in> set es. unat pa \<in> covered e)" for pa
    unfolding here by (metis in_set_conv_nth)
  then show "managed_pages s = ram_pages es" by (simp add: managed_pages_def ram_pages_def)
qed


section \<open>The reserved pages\<close>

abbreviation frame :: "nat \<Rightarrow> physaddr_t" where
  "frame f \<equiv> pfn_to_phys (of_nat f)"

text \<open>
  The page frames \<^verbatim>\<open>alloc_init_pages\<close> reserves: the scratch pages, the kernel stack, the boot
  information, the kernel image, the early page tables and the video buffer.
\<close>

definition reserved_frames :: "nat \<Rightarrow> nat \<Rightarrow> (nat \<times> early_alloc_type) list" where
  "reserved_frames scratch elf_pages =
     map (\<lambda>f. (f, EARLY_ALLOC_EPHEMERAL)) [0xC00..<0xC00 + scratch] @
     map (\<lambda>f. (f, EARLY_ALLOC_NORMAL)) [0x80, 0x7f, 0x7e, 0x7d, 6] @
     map (\<lambda>f. (f, EARLY_ALLOC_NORMAL)) [0x1000..<0x1000 + elf_pages] @
     map (\<lambda>f. (f, EARLY_ALLOC_EPHEMERAL)) [1, 3, 4] @ map (\<lambda>f. (f, EARLY_ALLOC_NORMAL)) [7, 8]"

lemma frame_aligned: "4096 dvd unat (pfn_to_phys x)"
  unfolding pfn_to_phys_def unsigned_push_bit_eq by (simp add: push_bit_eq_mult take_bit_eq_mod dvd_mod)

lemma push_drop_push: "push_bit k (drop_bit k (push_bit k x)) = push_bit k x" for x :: u64
  by (rule bit_word_eqI) (auto simp: bit_simps)

lemma next_page_frame: "phys_next_page (pfn_to_phys x) = pfn_to_phys (x + 1)"
  using push_drop_push [of 12 x] by (simp add: phys_next_page_def pfn_to_phys_def phys_to_pfn_def push_bit_add)

lemma prev_page_frame: "phys_prev_page (pfn_to_phys x) = pfn_to_phys (x - 1)"
  using push_drop_push [of 12 x]
  by (simp add: phys_prev_page_def pfn_to_phys_def phys_to_pfn_def push_bit_eq_mult algebra_simps)

lemma reserve_pages_rfold:
  "reserve_pages f nxt n pa s = rfold f (map (\<lambda>j. (nxt ^^ j) pa) [0..<n]) s"
proof -
  have "rfold (\<lambda>_ (pa, s). rbind (f pa s) (\<lambda>s. Inr (nxt pa, s))) [0..<n] (pa, s) =
      rbind (rfold f (map (\<lambda>j. (nxt ^^ j) pa) [0..<n]) s) (\<lambda>s. Inr ((nxt ^^ n) pa, s))"
  proof (induction n)
    case (Suc n)
    then show ?case by (simp add: rfold_snoc rbind_assoc)
  qed simp
  moreover have "rbind (rbind r (\<lambda>s. Inr (c, s))) (\<lambda>(_, s). Inr s) = r" for r :: "early_state result" and c :: physaddr_t
    by (cases r) simp_all
  ultimately show ?thesis by (simp add: reserve_pages_def)
qed

lemma funpow_frames:
  "(phys_next_page ^^ j) (pfn_to_phys x) = pfn_to_phys (x + of_nat j)"
  "(phys_prev_page ^^ j) (pfn_to_phys x) = pfn_to_phys (x - of_nat j)"
  by (induction j) (simp_all add: next_page_frame prev_page_frame algebra_simps)

definition reserve :: "nat \<times> early_alloc_type \<Rightarrow> early_state \<Rightarrow> early_state result" where
  "reserve ft s = alloc_at (frame (fst ft)) (snd ft) s"

lemma reserve_boot_info: "reserve ft s = Inr s' \<Longrightarrow> boot_info s' = boot_info s"
  by (auto simp: reserve_def alloc_at_def Let_def split: option.splits if_splits)

lemma rfold_reserve_boot_info: "rfold reserve xs s = Inr s' \<Longrightarrow> boot_info s' = boot_info s"
  by (induction xs arbitrary: s) (auto simp: rbind_Inr_iff dest: reserve_boot_info)

lemma reserve_single:
  "early_page_alloc_at (frame f) = reserve (f, EARLY_ALLOC_NORMAL)"
  "early_page_alloc_ephemeral_at (frame f) = reserve (f, EARLY_ALLOC_EPHEMERAL)"
  by (rule ext, simp add: reserve_def early_page_alloc_at_def early_page_alloc_ephemeral_at_def)+

lemma rfold_reserve:
  "rfold early_page_alloc_at (map frame xs) = rfold reserve (map (\<lambda>f. (f, EARLY_ALLOC_NORMAL)) xs)"
  "rfold early_page_alloc_ephemeral_at (map frame xs) = rfold reserve (map (\<lambda>f. (f, EARLY_ALLOC_EPHEMERAL)) xs)"
  by (simp_all add: rfold_map reserve_single)

definition elf_pages_of :: "early_state \<Rightarrow> nat" where
  "elf_pages_of s = unat (bytes_to_pages (ucast (kernel_elf_size_bytes (boot_info s))))"

lemma elf_pages_bound: "elf_pages_of s \<le> 2 ^ 20"
proof -
  have "unat (ucast (kernel_elf_size_bytes (boot_info s)) :: u64) < 2 ^ 32"
    using unat_lt_u32 [of "kernel_elf_size_bytes (boot_info s)"]
    by (simp add: unsigned_ucast_eq le_less_trans [OF take_bit_nat_less_eq_self])
  then show ?thesis unfolding elf_pages_of_def by (subst unat_bytes_to_pages) simp_all
qed

lemma frame_lists:
  "map (\<lambda>j. (phys_next_page ^^ j) (frame a)) [0..<n] = map frame [a..<a + n]"
proof -
  have "map (\<lambda>j. (phys_next_page ^^ j) (frame a)) [0..<n] = map (\<lambda>j. frame (a + j)) [0..<n]"
    by (simp add: funpow_frames)
  also have "\<dots> = map frame (map (\<lambda>j. a + j) [0..<n])" by simp
  also have "map (\<lambda>j. a + j) [0..<n] = [a..<a + n]" using map_add_upt [of a n] by (simp add: add.commute)
  finally show ?thesis .
qed

lemma alloc_init_pages_rfold:
  assumes ns: "unat ns \<le> 1024"
  shows "alloc_init_pages (scratch_page 0) ns s = rfold reserve (reserved_frames (unat ns) (elf_pages_of s)) s"
proof -
  let ?N = "map (\<lambda>f. (f, EARLY_ALLOC_NORMAL))" and ?E = "map (\<lambda>f. (f, EARLY_ALLOC_EPHEMERAL))"
  let ?P = "?E [0xC00..<0xC00 + unat ns] @ ?N [0x80, 0x7f, 0x7e, 0x7d, 6]"
  let ?Q = "\<lambda>e. ?N [0x1000..<0x1000 + e]" and ?R = "?E [1, 3, 4] @ ?N [7, 8]"
  have c: "nat (c_int ns) = unat ns" "nat (c_int (bytes_to_pages (ucast (kernel_elf_size_bytes (boot_info t))))) = elf_pages_of t" for t
    using ns elf_pages_bound [of t] by (simp_all add: c_int_small elf_pages_of_def)
  have addr: "scratch_page 0 = frame 0xC00" "KERNEL_STACK_ADDRESS_PHYS = frame 0x80" "KERNEL_ELF_ADDRESS_PHYS = frame 0x1000"
    "virt_ptr_to_phys EARLY_BOOT_INFO_ADDRESS = frame 6" "X86_EARLY_PGD = frame 1" "X86_EARLY_PUD_DIRECT_MAP = frame 3"
    "X86_EARLY_PUD_KERNEL_ELF = frame 4" "X86_EARLY_VIDEO_BUFFER_ADDRESS_PHYS = frame 7"
    "X86_EARLY_VIDEO_BUFFER_ADDRESS_PHYS + 0x1000 = frame 8"
    by (simp_all add: scratch_page_def pfn_to_phys_def push_bit_eq_mult KERNEL_STACK_ADDRESS_PHYS_def KERNEL_ELF_ADDRESS_PHYS_def
        virt_ptr_to_phys_def virt_to_phys_def EARLY_BOOT_INFO_ADDRESS_def KERNEL_DIRECT_MAP_BASE_def KERNEL_ELF_ADDRESS_def
        X86_EARLY_BOOT_INFO_ADDRESS_PHYS_def X86_EARLY_PGD_def X86_EARLY_PUD_DIRECT_MAP_def X86_EARLY_PUD_KERNEL_ELF_def
        X86_EARLY_VIDEO_BUFFER_ADDRESS_PHYS_def Let_def)
  have stack: "map (\<lambda>j. (phys_prev_page ^^ j) (frame 0x80)) [0..<KERNEL_STACK_PAGES] = map frame [0x80, 0x7f, 0x7e, 0x7d]"
    by (simp add: KERNEL_STACK_PAGES_def upt_conv_Cons funpow_frames del: funpow.simps)
  have A: "alloc_init_pages (scratch_page 0) ns s =
      rbind (rfold reserve ?P s) (\<lambda>s. rbind (rfold reserve (?Q (elf_pages_of s)) s) (rfold reserve ?R))"
    unfolding alloc_init_pages_def reserve_pages_rfold addr(9)
    unfolding c addr(1-8) frame_lists stack rfold_reserve reserve_single
    by (simp add: rfold_append rbind_assoc rfold_fun del: rfold.simps)
  have "reserved_frames (unat ns) (elf_pages_of s) = ?P @ ?Q (elf_pages_of s) @ ?R" by (simp add: reserved_frames_def)
  then have B: "rfold reserve (reserved_frames (unat ns) (elf_pages_of s)) s =
      rbind (rfold reserve ?P s) (rfold reserve (?Q (elf_pages_of s) @ ?R))" by (simp only: rfold_append)
  show ?thesis
  proof (cases "rfold reserve ?P s")
    case (Inr s1)
    then have "elf_pages_of s1 = elf_pages_of s" using rfold_reserve_boot_info by (metis elf_pages_of_def)
    then show ?thesis unfolding A B Inr rbind_simps by (simp only: rfold_append)
  next
    case (Inl e)
    then show ?thesis unfolding A B by simp
  qed
qed

lemma reserve_list:
  assumes "early_inv s" "distinct (map fst fts)" "\<forall>f \<in> fst ` set fts. f < 2 ^ 30"
  shows "if frame ` fst ` set fts \<subseteq> unused_pages s
    then \<exists>s'. rfold reserve fts s = Inr s' \<and> early_inv s' \<and> managed_pages s' = managed_pages s \<and>
      (\<forall>k. early_pages s' k = early_pages s k \<union> frame ` fst ` {ft \<in> set fts. sets_kind (snd ft) k})
    else \<exists>e. rfold reserve fts s = Inl e"
  using assms
proof (induction fts arbitrary: s)
  case Nil
  then show ?case by simp
next
  case (Cons ft fts)
  obtain f t where ft: "ft = (f, t)" by (cases ft)
  note at = alloc_at_spec [OF Cons.prems(1) frame_aligned, of "of_nat f" t]
  show ?case
  proof (cases "frame f \<in> unused_pages s")
    case False
    then have "\<exists>e. reserve ft s = Inl e" using at by (simp add: reserve_def ft)
    then have "\<exists>e. rfold reserve (ft # fts) s = Inl e" by auto
    moreover have "\<not> frame ` fst ` set (ft # fts) \<subseteq> unused_pages s" using False ft by auto
    ultimately show ?thesis by (simp only: if_False)
  next
    case True
    let ?i = "the (find_span s (frame f))"
    let ?s = "mark_page_allocated ?i (phys_to_span_offset (span_at s ?i) (frame f)) t s"
    have fs: "find_span s (frame f) = Some ?i" and new: "frame f \<notin> early_pages s EARLY_ALLOC_NORMAL"
      using True by (auto simp: managed_pages_def)
    note m = mark_pages [OF Cons.prems(1) fs frame_aligned new, of t]
    have r: "rfold reserve (ft # fts) s = rfold reserve fts ?s" using at True by (simp add: reserve_def ft)
    have inj: "frame g \<noteq> frame f" if "g \<in> fst ` set fts" for g
    proof
      assume eq: "frame g = frame f"
      have b: "g < 2 ^ 30" "f < 2 ^ 30" using Cons.prems(3) that ft by auto
      have u: "unat (frame x) = x * 4096" if "x < 2 ^ 30" for x
        using that by (simp add: pfn_to_phys_def push_bit_eq_mult unat_word_ariths unat_of_nat)
      from eq have "g * 4096 = f * 4096" using u [OF b(1)] u [OF b(2)] by metis
      with that Cons.prems(2) ft show False by (force simp: image_iff)
    qed
    have un: "unused_pages ?s = unused_pages s - {frame f}" using m(2) m(3) [of EARLY_ALLOC_NORMAL] by (auto simp: sets_kind_def)
    have sub: "frame ` fst ` set fts \<subseteq> unused_pages ?s \<longleftrightarrow> frame ` fst ` set (ft # fts) \<subseteq> unused_pages s"
      unfolding un using True inj ft by auto
    have pg: "early_pages ?s k \<union> frame ` fst ` {ft \<in> set fts. sets_kind (snd ft) k} =
        early_pages s k \<union> frame ` fst ` {x \<in> set (ft # fts). sets_kind (snd x) k}" for k
    proof -
      have "{x \<in> set (ft # fts). sets_kind (snd x) k} =
          (if sets_kind t k then insert (f, t) {x \<in> set fts. sets_kind (snd x) k} else {x \<in> set fts. sets_kind (snd x) k})"
        unfolding ft by auto
      then show ?thesis unfolding m(3) by simp
    qed
    have "distinct (map fst fts)" "\<forall>f \<in> fst ` set fts. f < 2 ^ 30" using Cons.prems(2,3) by auto
    from Cons.IH [OF m(1) this, unfolded sub pg, unfolded m(2)] show ?thesis unfolding r .
  qed
qed


text \<open>The whole initialisation.\<close>

lemma reserved_distinct:
  assumes "n \<le> 1024" "e \<le> 2 ^ 20"
  shows "distinct (map fst (reserved_frames n e))" "\<forall>f \<in> fst ` set (reserved_frames n e). f < 2 ^ 30"
proof -
  have m: "map fst (reserved_frames n e) =
      [0xC00..<0xC00 + n] @ [0x80, 0x7f, 0x7e, 0x7d, 6] @ [0x1000..<0x1000 + e] @ [1, 3, 4] @ [7, 8]"
    by (simp add: reserved_frames_def comp_def)
  show "distinct (map fst (reserved_frames n e))" unfolding m using assms by auto
  have "fst ` set (reserved_frames n e) = set (map fst (reserved_frames n e))" by simp
  then show "\<forall>f \<in> fst ` set (reserved_frames n e). f < 2 ^ 30" unfolding m using assms by auto
qed

lemma early_page_alloc_init_spec:
  assumes ok: "scratch_ok s" "scratch_used s = 0" and ram: "ram_ok (ram_of (entries_of info))"
    and info: "num_ram_spans info = of_nat (length (ram_of (entries_of info)))" "4096 dvd unat (total_avail_ram_bytes info)"
  defines "need \<equiv> scratch_need (ram_of (entries_of info))"
  shows "if 1024 < need then early_page_alloc_init info s = Inl (Panic ''Out of scratch memory!'')
    else if frame ` fst ` set (reserved_frames need (elf_pages_of s)) \<subseteq> ram_pages (ram_of (entries_of info))
    then \<exists>s'. early_page_alloc_init info s = Inr s' \<and> early_inv s' \<and> managed_pages s' = ram_pages (ram_of (entries_of info)) \<and>
      (\<forall>k. early_pages s' k = frame ` fst ` {ft \<in> set (reserved_frames need (elf_pages_of s)). sets_kind (snd ft) k})
    else \<exists>e. early_page_alloc_init info s = Inl e"
proof -
  let ?es = "ram_of (entries_of info)"
  obtain s1 where s1: "early_scratch_page_alloc s = Inr (scratch_page 0, s1)" "scratched s 1 s1"
    using scratch_alloc(1) [OF ok(1)] ok(2) by auto
  define s2 where "s2 = s1\<lparr>alloc_state := zero_alloc_state\<lparr>ea_total_pages := bytes_to_pages (total_avail_ram_bytes info),
      ea_num_spans := num_ram_spans info\<rparr>\<rparr>"
  have al: "IS_ALIGNED (total_avail_ram_bytes info) PAGE_SIZE" using info(2) IS_ALIGNED_iff [of _ 12] by (simp add: PAGE_SIZE_def)
  have go: "early_page_alloc_init info s = rbind (rfold span_init_entry ?es (0, 1, s2))
      (\<lambda>(_, ns, s). alloc_init_pages (scratch_page 0) ns s)"
    using al by (simp add: early_page_alloc_init_def s1(1) span_loop s2_def flip: entries_of_slots)
  have zc: "counter k (alloc_state s2) = 0" for k by (cases k) (simp_all add: s2_def zero_alloc_state_def)
  have "unat (scratch_pages (scratch_state s1)) = unat (1 :: u64)" using s1(2) by (simp add: scratched_def)
  then have one: "scratch_pages (scratch_state s1) = 1" by (simp add: word_unat_eq_iff)
  have "built (boot_info s) (of_nat (length ?es)) [] (0, 1, s2)"
    using s1(2) zc one by (simp add: built_def scratched_def scratch_ok_def scratch_need_def s2_def zero_alloc_state_def info(1) del: counter.simps)
  note loop = built_loop [OF this, of ?es, unfolded append_Nil, OF ram_ok_sizes [OF ram], folded need_def]
  show ?thesis
  proof (cases "need \<le> 1024")
    case False
    then show ?thesis using loop by (simp add: go)
  next
    case True
    then obtain idx ns t where t: "rfold span_init_entry ?es (0, 1, s2) = Inr (idx, ns, t)"
        "built (boot_info s) (of_nat (length ?es)) ?es (idx, ns, t)" using loop by auto
    note inv = built_inv [OF t(2) ram]
    have ns: "unat ns = need" "boot_info t = boot_info s" using t(2) by (auto simp: built_def need_def)
    then have e: "elf_pages_of t = elf_pages_of s" by (simp add: elf_pages_of_def)
    have init: "early_page_alloc_init info s = rfold reserve (reserved_frames need (elf_pages_of s)) t"
      using alloc_init_pages_rfold [of ns t] True ns(1) by (simp add: go t(1) e)
    note rl = reserve_list [OF inv(1) reserved_distinct [OF True elf_pages_bound [of s]],
        unfolded inv(2) inv(3) Diff_empty Un_empty_left]
    have "\<not> 1024 < need" using True by simp
    with rl show ?thesis unfolding init by (simp only: if_False)
  qed
qed


section \<open>An example machine\<close>

text \<open>Low memory up to \<open>0x9f000\<close> and 31 MiB from the first mebibyte on, with a kernel image of four pages.\<close>

definition small_ram :: "e820_entry list" where
  "small_ram = [e820_row 0 0x9f000 1, e820_row 0x100000 0x1f00000 1]"

definition small_info :: early_boot_info where
  "small_info = (boot_table small_ram)\<lparr>total_avail_ram_bytes := 0x1f9f000, num_ram_spans := 2\<rparr>"

definition blank_state :: early_state where
  "blank_state = \<lparr>scratch_state = \<lparr>scratch_start = 0, scratch_pages = 0\<rparr>, alloc_state = zero_alloc_state,
     boot_info = small_info, bitmaps = (\<lambda>_. \<lparr>num_bits = 0, num_words = 0, data = (\<lambda>_. 0)\<rparr>), mem = (\<lambda>_. 0)\<rparr>"

lemma in_covered: "a \<in> covered e \<longleftrightarrow> unat (e820_base e) \<le> a \<and> a < unat (e820_base e) + unat (e820_size e)"
  by (simp add: covered_def)

lemma small_ram_of: "ram_of (entries_of small_info) = small_ram"
proof -
  have "entries_of small_info = entries_of (boot_table small_ram)" by (simp add: small_info_def entries_of_def)
  also have "\<dots> = small_ram" by (rule entries_of_boot_table) (simp add: small_ram_def)
  finally show ?thesis by (simp add: small_ram_def E820_TYPE_RAM_def)
qed

lemma small_need: "scratch_need small_ram = 9"
  by (simp add: scratch_need_def small_ram_def entry_bitmap_pages_def bitmap_pages_of unat_drop_bit)

lemma small_ram_ok: "ram_ok small_ram"
proof -
  have "covered (small_ram ! 0) \<inter> covered (small_ram ! 1) = {}"
    by (simp add: disjoint_iff in_covered small_ram_def)
  then have "\<forall>i < 2. \<forall>j < 2. i \<noteq> j \<longrightarrow> covered (small_ram ! i) \<inter> covered (small_ram ! j) = {}"
    by (auto simp: less_2_cases_iff)
  then show ?thesis by (simp add: ram_ok_def small_ram_def entry_ok_def)
qed

lemma unat_frame: "f < 2 ^ 30 \<Longrightarrow> unat (frame f) = f * 4096"
  by (simp add: pfn_to_phys_def push_bit_eq_mult unat_word_ariths unat_of_nat)

lemma small_ram_frames: "f < 2 ^ 30 \<Longrightarrow> frame f \<in> ram_pages small_ram \<longleftrightarrow> f < 0x9f \<or> 0x100 \<le> f \<and> f < 0x2000"
  by (auto simp: ram_pages_def frame_aligned small_ram_def in_covered unat_frame)

lemma small_elf: "elf_pages_of (early_scratch_alloc_init blank_state) = 4"
  by (simp add: elf_pages_of_def early_scratch_alloc_init_def Let_def blank_state_def small_info_def boot_table_def unat_bytes_to_pages)

lemma reserved_iff:
  "f \<in> fst ` set (reserved_frames n e) \<longleftrightarrow>
    0xC00 \<le> f \<and> f < 0xC00 + n \<or> 0x1000 \<le> f \<and> f < 0x1000 + e \<or> f \<in> {0x80, 0x7f, 0x7e, 0x7d, 6, 1, 3, 4, 7, 8}"
  by (auto simp: reserved_frames_def image_Un image_image)

lemma small_reserved_ram: "frame ` fst ` set (reserved_frames 9 4) \<subseteq> ram_pages small_ram"
proof
  fix pa
  assume "pa \<in> frame ` fst ` set (reserved_frames 9 4)"
  then obtain f where f: "pa = frame f" "f \<in> fst ` set (reserved_frames 9 4)" by blast
  then have "f < 0x9f \<or> 0x100 \<le> f \<and> f < 0x2000" unfolding reserved_iff by auto
  with f(1) small_ram_frames [of f] show "pa \<in> ram_pages small_ram" by auto
qed

lemma small_started:
  "\<exists>s. early_page_alloc_init small_info (early_scratch_alloc_init blank_state) = Inr s \<and> early_inv s \<and>
     managed_pages s = ram_pages small_ram \<and> early_pages s EARLY_ALLOC_NORMAL = frame ` fst ` set (reserved_frames 9 4)"
proof -
  have "num_ram_spans small_info = of_nat (length small_ram)" "4096 dvd unat (total_avail_ram_bytes small_info)"
    by (simp_all add: small_info_def small_ram_def)
  from early_page_alloc_init_spec [OF scratch_init, of small_info blank_state, unfolded small_ram_of small_need small_elf, OF small_ram_ok this]
  show ?thesis using small_reserved_ram by (auto simp: sets_kind_def)
qed

lemma small_unused: "\<exists>s. early_inv s \<and> frame 0x200 \<in> unused_pages s"
proof -
  obtain s where s: "early_inv s" "managed_pages s = ram_pages small_ram"
      "early_pages s EARLY_ALLOC_NORMAL = frame ` fst ` set (reserved_frames 9 4)" using small_started by blast
  have "frame 0x200 \<notin> frame ` fst ` set (reserved_frames 9 4)"
  proof
    assume "frame 0x200 \<in> frame ` fst ` set (reserved_frames 9 4)"
    then obtain f where eq: "frame 0x200 = frame f" and f: "f \<in> fst ` set (reserved_frames 9 4)" by (rule imageE)
    have "f < 2 ^ 30" "f \<noteq> 0x200" using f unfolding reserved_iff by auto
    then show False using arg_cong [where f = unat, OF eq] unat_frame [of f] unat_frame [of "0x200"] by simp
  qed
  then have "frame 0x200 \<notin> early_pages s EARLY_ALLOC_NORMAL" by (simp only: s(3) not_False_eq_True)
  moreover have "frame 0x200 \<in> managed_pages s" unfolding s(2) using small_ram_frames [of "0x200"] by simp
  ultimately show ?thesis using s(1) by blast
qed


section \<open>Properties\<close>

text \<open>
  C12: Starting the early page allocator on a prepared memory map. It halts when the bitmaps
  need more scratch pages than there are; it halts when a page it has to reserve is not RAM;
  otherwise it returns a state that satisfies the invariant, manages exactly the pages of the
  RAM entries, and has allocated exactly the scratch pages, the four stack pages, the boot
  information page, the pages of the kernel image, three page table pages and the two pages of the
  video buffer, each in the bitmaps of its kind and in no other.
\<close>

theorem early_page_alloc_init_correct:
  fixes s :: early_state
  assumes "ram_ok (ram_of (entries_of info))" "num_ram_spans info = of_nat (length (ram_of (entries_of info)))"
    "4096 dvd unat (total_avail_ram_bytes info)"
  defines "need \<equiv> scratch_need (ram_of (entries_of info))" and "s0 \<equiv> early_scratch_alloc_init s"
  shows "if 1024 < need then early_page_alloc_init info s0 = Inl (Panic ''Out of scratch memory!'')
    else if frame ` fst ` set (reserved_frames need (elf_pages_of s0)) \<subseteq> ram_pages (ram_of (entries_of info))
    then \<exists>s'. early_page_alloc_init info s0 = Inr s' \<and> early_inv s' \<and> managed_pages s' = ram_pages (ram_of (entries_of info)) \<and>
      (\<forall>k. early_pages s' k = frame ` fst ` {ft \<in> set (reserved_frames need (elf_pages_of s0)). sets_kind (snd ft) k})
    else \<exists>e. early_page_alloc_init info s0 = Inl e"
  using early_page_alloc_init_spec [OF scratch_init assms(1,2,3), of s] unfolding need_def s0_def .

theorem early_page_alloc_init_correct_witness:
  "\<exists>s. early_page_alloc_init small_info (early_scratch_alloc_init blank_state) = Inr s \<and> early_inv s \<and>
     managed_pages s = ram_pages small_ram"
proof -
  have "num_ram_spans small_info = of_nat (length small_ram)" "4096 dvd unat (total_avail_ram_bytes small_info)"
    by (simp_all add: small_info_def small_ram_def)
  from early_page_alloc_init_correct [of small_info blank_state, unfolded small_ram_of small_need small_elf, OF small_ram_ok this]
  show ?thesis using small_reserved_ram by auto
qed

text \<open>
  C11: Allocating one early page, of any kind, from a state that satisfies the invariant. It
  halts exactly when every managed page is allocated; otherwise the page returned is a managed
  page that was not allocated, it is marked in the allocation bitmap and in that of its kind and
  in no other, no other page changes, the counters stay exact (they are part of the invariant),
  and freeing the page at once gives back the very state from before.
\<close>

theorem early_alloc_correct:
  assumes "early_inv s"
  shows "if unused_pages s = {} then alloc t s = Inl (Panic ''Out of memory, %lu pages of %lu allocated!'')
    else \<exists>pa s'. alloc t s = Inr (pa, s') \<and> pa \<in> unused_pages s \<and> early_inv s' \<and> managed_pages s' = managed_pages s \<and>
      (\<forall>k. early_pages s' k = (if sets_kind t k then insert pa (early_pages s k) else early_pages s k)) \<and>
      early_page_free pa s' = Inr s"
proof (rule alloc_cases [OF assms, of t])
  fix pa i
  assume pa: "pa \<in> unused_pages s"
    and a: "alloc t s = Inr (pa, mark_page_allocated i (phys_to_span_offset (span_at s i) pa) t s)"
  from pa have "unused_pages s \<noteq> {}" by blast
  with a alloc_spec [OF assms a] show ?thesis by auto
qed simp

theorem early_alloc_correct_witness:
  "\<exists>s pa s'. early_inv s \<and> alloc EARLY_ALLOC_PAGETABLE s = Inr (pa, s') \<and> pa \<in> unused_pages s \<and>
     early_pages s' EARLY_ALLOC_PAGETABLE = insert pa (early_pages s EARLY_ALLOC_PAGETABLE) \<and> early_page_free pa s' = Inr s"
proof -
  obtain s where s: "early_inv s" "frame 0x200 \<in> unused_pages s" using small_unused by blast
  then have "unused_pages s \<noteq> {}" by blast
  with early_alloc_correct [OF s(1), of EARLY_ALLOC_PAGETABLE] s(1) show ?thesis by (auto simp: sets_kind_def)
qed

text \<open>
  Freeing an early page. An allocated page becomes free in every bitmap, no other page
  changes, and the invariant with its exact counters is kept; freeing a page that is not
  allocated, or an address outside every span, halts with the message for that case.
\<close>

theorem early_free_correct:
  assumes "early_inv s" "4096 dvd unat pa"
  shows "if pa \<in> early_pages s EARLY_ALLOC_NORMAL
    then \<exists>s'. early_page_free pa s = Inr s' \<and> early_inv s' \<and> managed_pages s' = managed_pages s \<and>
      (\<forall>k. early_pages s' k = early_pages s k - {pa})
    else early_page_free pa s =
      Inl (Panic (if pa \<in> managed_pages s then ''Attempt to free unallocated PA %lx'' else ''Cannot find span for PA %lx''))"
proof (cases "pa \<in> early_pages s EARLY_ALLOC_NORMAL")
  case True
  then obtain i where i: "find_span s pa = Some i" by (auto simp: early_pages_def)
  from free_spec [OF assms] unmark_pages [OF assms(1) i True] True i show ?thesis by auto
next
  case False
  with free_spec [OF assms] show ?thesis by simp
qed

theorem early_free_correct_witness:
  "\<exists>s. early_inv s \<and> early_page_free (frame 0x200) s = Inl (Panic ''Attempt to free unallocated PA %lx'')"
proof -
  obtain s where s: "early_inv s" "frame 0x200 \<in> unused_pages s" using small_unused by blast
  with early_free_correct [OF s(1) frame_aligned [of "of_nat 0x200"]] show ?thesis by auto
qed

text \<open>
  Reserving a given page (\<^verbatim>\<open>early_page_alloc_at\<close> and its ephemeral variant) succeeds exactly
  for a managed page that is not allocated, and marks that page and no other.
\<close>

theorem early_alloc_at_correct:
  assumes "early_inv s" "4096 dvd unat pa"
  shows "if pa \<in> unused_pages s
    then \<exists>s'. alloc_at pa t s = Inr s' \<and> early_inv s' \<and>
      (\<forall>k. early_pages s' k = (if sets_kind t k then insert pa (early_pages s k) else early_pages s k))
    else alloc_at pa t s =
      Inl (Panic (if pa \<in> managed_pages s then ''Page containing %lx is already allocated?'' else ''Unable to locate span for %lx''))"
proof (cases "pa \<in> unused_pages s")
  case True
  then obtain i where i: "find_span s pa = Some i" by (auto simp: managed_pages_def)
  have new: "pa \<notin> early_pages s EARLY_ALLOC_NORMAL" using True by blast
  from alloc_at_spec [OF assms, of t] mark_pages [OF assms(1) i assms(2) new, of t] True i show ?thesis by auto
next
  case False
  with alloc_at_spec [OF assms, of t] show ?thesis by auto
qed

theorem early_alloc_at_correct_witness:
  "\<exists>s s'. early_inv s \<and> alloc_at (frame 0x200) EARLY_ALLOC_NORMAL s = Inr s' \<and> early_inv s'"
proof -
  obtain s where s: "early_inv s" "frame 0x200 \<in> unused_pages s" using small_unused by blast
  with early_alloc_at_correct [OF s(1) frame_aligned [of "of_nat 0x200"], of EARLY_ALLOC_NORMAL] show ?thesis by auto
qed

text \<open>
  The early allocator never stops short of its memory and never hands a page out twice.
  From a state that satisfies the invariant, \<open>n\<close> allocations in a row succeed with \<open>n\<close> different
  pages as long as \<open>n\<close> pages are free, and one allocation too many halts.
\<close>

theorem early_alloc_until_full:
  assumes "early_inv s"
  shows "if n \<le> card (unused_pages s)
    then \<exists>pas s'. take_pages (alloc t) n s = Inr (pas, s') \<and> length pas = n \<and> distinct pas \<and> set pas \<subseteq> unused_pages s \<and>
      early_inv s' \<and> unused_pages s' = unused_pages s - set pas
    else \<exists>e. take_pages (alloc t) n s = Inl e"
  using early.take_pages_ok [OF assms, of n t] early.take_pages_too_many [OF assms, of n t] by auto

theorem early_alloc_until_full_witness:
  "\<exists>s pas s'. early_inv s \<and> take_pages (alloc EARLY_ALLOC_NORMAL) 1 s = Inr (pas, s') \<and> length pas = 1 \<and> early_inv s'"
proof -
  obtain s where s: "early_inv s" "frame 0x200 \<in> unused_pages s" using small_unused by blast
  then have "0 < card (unused_pages s)" using finite_pages by (auto simp: card_gt_0_iff)
  then have "1 \<le> card (unused_pages s)" by simp
  with early_alloc_until_full [OF s(1), of 1 EARLY_ALLOC_NORMAL] s(1) show ?thesis by auto
qed

text \<open>
  C26: Allocating several pages at once. More than eight pages halt, although the comment in
  \<^verbatim>\<open>early_mem.h\<close> gives 64 as the limit. A run that is returned is that many consecutive pages, all
  free before and exactly they allocated after, with the invariant kept.
\<close>

theorem early_pages_alloc_correct:
  assumes "early_inv s" "1 \<le> pages"
  shows "(8 < pages \<longrightarrow> early_pages_alloc pages s =
      Inl (Panic ''Can only allocate up to %d pages using the early allocator, attempting to allocate %d'')) \<and>
    (early_pages_alloc pages s = Inr (pa, s') \<longrightarrow>
      (let block = (\<lambda>j. pa + of_nat j * 4096) ` {..<nat pages} in
       pages \<le> 8 \<and> card block = nat pages \<and> block \<subseteq> unused_pages s \<and> early_inv s' \<and> managed_pages s' = managed_pages s \<and>
       early_pages s' EARLY_ALLOC_NORMAL = early_pages s EARLY_ALLOC_NORMAL \<union> block))"
  using early_pages_alloc_spec [OF assms(1) _ assms(2)] by (auto simp: early_pages_alloc_def Let_def)

theorem early_pages_alloc_correct_witness:
  "\<exists>s. early_inv s \<and> early_pages_alloc 9 s =
     Inl (Panic ''Can only allocate up to %d pages using the early allocator, attempting to allocate %d'')"
  using small_unused early_pages_alloc_correct [of _ 9] by fastforce

end
