(* ===== verification/Page_Map.thy ===== *)
theory Page_Map
  imports Page
begin

text \<open>
  Building and walking page tables: \<^verbatim>\<open>mm/page.c\<close> lines 1 to 289. Each of the four mapping
  loops is two definitions, the body that fills one entry and the loop that runs the body
  until no page is left or the last entry of the table has been filled. The memory the tables
  live in and the state of the allocators the caller passes in are threaded together; a call
  of \<^verbatim>\<open>alloc->panic()\<close>, which does not return, is the value \<open>Inl\<close>.

  \<^verbatim>\<open>num_remaining_pages\<close> is a signed 64-bit integer that only decreases from the caller's value
  and is tested against the amount before each subtraction, so it is an \<open>int\<close> here. Every
  entry the loops fill takes at least one page off it, which is why they end.
\<close>

text \<open>The allocators of \<^verbatim>\<open>include/page.h\<close>: functions of the memory and of the allocator's own state.\<close>

type_synonym 'a world = "memory \<times> 'a"

record 'a page_allocators =
  alloc_pud :: "'a world \<Rightarrow> (physaddr_t \<times> 'a world) result"
  alloc_pmd :: "'a world \<Rightarrow> (physaddr_t \<times> 'a world) result"
  alloc_ptd :: "'a world \<Rightarrow> (physaddr_t \<times> 'a world) result"
  alloc_data :: "'a world \<Rightarrow> (physaddr_t \<times> 'a world) result"

record page_map_state =
  map_va :: virtaddr_t
  map_pa :: physaddr_t
  num_remaining_pages :: int
  num_pagetables_allocated :: u64
  map_flags :: map_flags_t

text \<open>The three assignments that move the state past the pages just mapped.\<close>

definition advance_pages :: "u64 \<Rightarrow> page_map_state \<Rightarrow> page_map_state" where
  "advance_pages n st =
     st\<lparr>map_pa := phys_offset_pages (map_pa st) n,
        map_va := virt_offset_pages (map_va st) n,
        num_remaining_pages := num_remaining_pages st - uint n\<rparr>"

definition count_pagetable :: "page_map_state \<Rightarrow> page_map_state" where
  "count_pagetable st = st\<lparr>num_pagetables_allocated := num_pagetables_allocated st + 1\<rparr>"

abbreviation last_index :: "u64 \<Rightarrow> bool" where
  "last_index index \<equiv> unat index = NUM_PAGE_TABLE_ENTRIES - 1"

section \<open>Mapping\<close>

definition map_ptd_entry :: "physaddr_t \<Rightarrow> 'a world \<Rightarrow> page_map_state \<Rightarrow> ('a world \<times> page_map_state) result" where
  "map_ptd_entry ptd w st =
     (let m = fst w;
          index = virt_ptde_index (map_va st);
          ptde = load64 m (ptde_at ptd index)
      in if ptde_present ptde then
           if IS_MASK_SET (map_flags st) MAP_SKIP_IF_MAPPED then Inr (w, advance_pages 1 st)
           else Inl (Panic ''Trying to map VA 0x%lx to PA 0x%lx but already mapped to 0x%lx'')
         else Inr ((assign_data m ptd index (map_pa st) (map_flags st), snd w), advance_pages 1 st))"

function map_page_range_ptd :: "physaddr_t \<Rightarrow> 'a world \<Rightarrow> page_map_state \<Rightarrow> ('a world \<times> page_map_state) result" where
  "map_page_range_ptd ptd w st =
     (if num_remaining_pages st > 0 then
        rbind (map_ptd_entry ptd w st) (\<lambda>(w', st').
          if last_index (virt_ptde_index (map_va st)) then Inr (w', st')
          else map_page_range_ptd ptd w' st')
      else Inr (w, st))"
  by pat_completeness auto

lemma remaining_advance [simp]: "num_remaining_pages (advance_pages n st) = num_remaining_pages st - uint n"
  by (simp add: advance_pages_def)

lemma remaining_count [simp]: "num_remaining_pages (count_pagetable st) = num_remaining_pages st"
  by (simp add: count_pagetable_def)

lemma map_ptd_entry_remaining:
  "map_ptd_entry ptd w st = Inr (w', st') \<Longrightarrow> num_remaining_pages st' = num_remaining_pages st - 1"
  by (auto simp: map_ptd_entry_def Let_def split: if_splits)

termination map_page_range_ptd
  by (relation "measure (\<lambda>(ptd, w, st). nat (num_remaining_pages st))")
    (auto dest!: map_ptd_entry_remaining)

declare map_page_range_ptd.simps [simp del]

lemma map_page_range_ptd_remaining:
  "map_page_range_ptd ptd w st = Inr (w', st') \<Longrightarrow> num_remaining_pages st' \<le> num_remaining_pages st \<and>
    (num_remaining_pages st > 0 \<longrightarrow> num_remaining_pages st' < num_remaining_pages st)"
proof (induction ptd w st rule: map_page_range_ptd.induct)
  case (1 ptd w st)
  show ?case
  proof (cases "num_remaining_pages st > 0 \<and> (\<exists>v. map_ptd_entry ptd w st = Inr v)")
    case True
    then obtain w1 st1 where e: "map_ptd_entry ptd w st = Inr (w1, st1)" by auto
    note less = map_ptd_entry_remaining [OF e]
    show ?thesis
      using 1(1) [OF _ e refl] 1(2) True e less
      by (subst (asm) map_page_range_ptd.simps) (auto split: if_splits)
  next
    case False
    then show ?thesis
      using 1(2) by (subst (asm) map_page_range_ptd.simps) (auto simp: rbind_Inr_iff split: if_splits)
  qed
qed

text \<open>What a body does with the table below its entry: fill it, then check that the range continues at the next entry.\<close>

definition map_pmd_entry :: "'a page_allocators \<Rightarrow> physaddr_t \<Rightarrow> 'a world \<Rightarrow> page_map_state \<Rightarrow>
    ('a world \<times> page_map_state) result" where
  "map_pmd_entry al pmd w st =
     (let m = fst w;
          index = virt_pmde_index (map_va st);
          pmde = load64 m (pmde_at pmd index);
          present = pmde_present pmde;
          under = (\<lambda>ptd w st.
            rbind (map_page_range_ptd ptd w st) (\<lambda>(w, st).
              if num_remaining_pages st > 0 \<and> \<not> IS_ALIGNED (map_va st) PAGE_SIZE_2MIB
              then Inl (Panic ''%lu pages unassigned under PMD for VA 0x%lx'')
              else Inr (w, st)))
      in if \<not> present \<and> IS_ALIGNED (map_va st) PAGE_SIZE_2MIB \<and>
            IS_ALIGNED (map_pa st) PAGE_SIZE_2MIB \<and> num_remaining_pages st \<ge> uint NUM_PAGES_PTD
         then Inr ((assign_data_2mib m pmd index (map_pa st) (map_flags st), snd w),
                   advance_pages NUM_PAGES_PTD st)
         else if present \<and> pmde_2mib pmde
         then Inl (Panic ''Unable to map VA 0x%lx at PA 0x%lx as 2 MiB PMDE already maps to 0x%lx'')
         else if \<not> present
         then rbind (alloc_ptd al w) (\<lambda>(ptd, w).
                under ptd (assign_ptd (fst w) pmd index ptd, snd w) (count_pagetable st))
         else under (pmde_ptd pmde) w st)"

lemma map_pmd_entry_remaining:
  "map_pmd_entry al pmd w st = Inr (w', st') \<Longrightarrow> num_remaining_pages st > 0 \<Longrightarrow>
    num_remaining_pages st' < num_remaining_pages st"
  by (auto simp: map_pmd_entry_def Let_def rbind_Inr_iff NUM_PAGES_PTD_def split: if_splits
      dest!: map_page_range_ptd_remaining)

function map_page_range_pmd :: "'a page_allocators \<Rightarrow> physaddr_t \<Rightarrow> 'a world \<Rightarrow> page_map_state \<Rightarrow>
    ('a world \<times> page_map_state) result" where
  "map_page_range_pmd al pmd w st =
     (if num_remaining_pages st > 0 then
        rbind (map_pmd_entry al pmd w st) (\<lambda>(w', st').
          if num_remaining_pages st' \<le> 0 \<or> last_index (virt_pmde_index (map_va st)) then Inr (w', st')
          else map_page_range_pmd al pmd w' st')
      else Inr (w, st))"
  by pat_completeness auto

termination map_page_range_pmd
  by (relation "measure (\<lambda>(al, pmd, w, st). nat (num_remaining_pages st))")
    (auto dest!: map_pmd_entry_remaining)

declare map_page_range_pmd.simps [simp del]

lemma map_page_range_pmd_remaining:
  "map_page_range_pmd al pmd w st = Inr (w', st') \<Longrightarrow> num_remaining_pages st' \<le> num_remaining_pages st \<and>
    (num_remaining_pages st > 0 \<longrightarrow> num_remaining_pages st' < num_remaining_pages st)"
proof (induction al pmd w st rule: map_page_range_pmd.induct)
  case (1 al pmd w st)
  show ?case
  proof (cases "num_remaining_pages st > 0 \<and> (\<exists>v. map_pmd_entry al pmd w st = Inr v)")
    case True
    then obtain w1 st1 where e: "map_pmd_entry al pmd w st = Inr (w1, st1)" by auto
    note less = map_pmd_entry_remaining [OF e]
    show ?thesis
      using 1(1) [OF _ e refl] 1(2) True e less
      by (subst (asm) map_page_range_pmd.simps) (auto split: if_splits)
  next
    case False
    then show ?thesis
      using 1(2) by (subst (asm) map_page_range_pmd.simps) (auto simp: rbind_Inr_iff split: if_splits)
  qed
qed

definition map_pud_entry :: "'a page_allocators \<Rightarrow> physaddr_t \<Rightarrow> 'a world \<Rightarrow> page_map_state \<Rightarrow>
    ('a world \<times> page_map_state) result" where
  "map_pud_entry al pud w st =
     (let m = fst w;
          index = virt_pude_index (map_va st);
          pude = load64 m (pude_at pud index);
          present = pude_present pude;
          under = (\<lambda>pmd w st.
            rbind (map_page_range_pmd al pmd w st) (\<lambda>(w, st).
              if num_remaining_pages st > 0 \<and> \<not> IS_ALIGNED (map_va st) PAGE_SIZE_1GIB
              then Inl (Panic ''%lu pages unassigned under PUD for VA 0x%lx'')
              else Inr (w, st)))
      in if \<not> present \<and> IS_ALIGNED (map_va st) PAGE_SIZE_1GIB \<and>
            IS_ALIGNED (map_pa st) PAGE_SIZE_1GIB \<and> num_remaining_pages st \<ge> uint NUM_PAGES_PMD
         then Inr ((assign_data_1gib m pud index (map_pa st) (map_flags st), snd w),
                   advance_pages NUM_PAGES_PMD st)
         else if present \<and> pude_1gib pude
         then Inl (Panic ''Unable to map VA 0x%lx at PA 0x%lx as 1 GiB PUDE already maps to 0x%lx'')
         else if \<not> present
         then rbind (alloc_pmd al w) (\<lambda>(pmd, w).
                under pmd (assign_pmd (fst w) pud index pmd, snd w) (count_pagetable st))
         else under (pude_pmd pude) w st)"

lemma map_pud_entry_remaining:
  "map_pud_entry al pud w st = Inr (w', st') \<Longrightarrow> num_remaining_pages st > 0 \<Longrightarrow>
    num_remaining_pages st' < num_remaining_pages st"
  by (auto simp: map_pud_entry_def Let_def rbind_Inr_iff NUM_PAGES_PMD_def NUM_PAGES_PTD_def
      split: if_splits dest!: map_page_range_pmd_remaining)

function map_page_range_pud :: "'a page_allocators \<Rightarrow> physaddr_t \<Rightarrow> 'a world \<Rightarrow> page_map_state \<Rightarrow>
    ('a world \<times> page_map_state) result" where
  "map_page_range_pud al pud w st =
     (if num_remaining_pages st > 0 then
        rbind (map_pud_entry al pud w st) (\<lambda>(w', st').
          if num_remaining_pages st' \<le> 0 \<or> last_index (virt_pude_index (map_va st)) then Inr (w', st')
          else map_page_range_pud al pud w' st')
      else Inr (w, st))"
  by pat_completeness auto

termination map_page_range_pud
  by (relation "measure (\<lambda>(al, pud, w, st). nat (num_remaining_pages st))")
    (auto dest!: map_pud_entry_remaining)

declare map_page_range_pud.simps [simp del]

lemma map_page_range_pud_remaining:
  "map_page_range_pud al pud w st = Inr (w', st') \<Longrightarrow> num_remaining_pages st' \<le> num_remaining_pages st \<and>
    (num_remaining_pages st > 0 \<longrightarrow> num_remaining_pages st' < num_remaining_pages st)"
proof (induction al pud w st rule: map_page_range_pud.induct)
  case (1 al pud w st)
  show ?case
  proof (cases "num_remaining_pages st > 0 \<and> (\<exists>v. map_pud_entry al pud w st = Inr v)")
    case True
    then obtain w1 st1 where e: "map_pud_entry al pud w st = Inr (w1, st1)" by auto
    note less = map_pud_entry_remaining [OF e]
    show ?thesis
      using 1(1) [OF _ e refl] 1(2) True e less
      by (subst (asm) map_page_range_pud.simps) (auto split: if_splits)
  next
    case False
    then show ?thesis
      using 1(2) by (subst (asm) map_page_range_pud.simps) (auto simp: rbind_Inr_iff split: if_splits)
  qed
qed

definition map_pgd_entry :: "'a page_allocators \<Rightarrow> physaddr_t \<Rightarrow> 'a world \<Rightarrow> page_map_state \<Rightarrow>
    ('a world \<times> page_map_state) result" where
  "map_pgd_entry al pgd w st =
     (let m = fst w;
          index = virt_pgde_index (map_va st);
          pgde = load64 m (pgde_at pgd index);
          under = (\<lambda>pud w st.
            rbind (map_page_range_pud al pud w st) (\<lambda>(w, st).
              if num_remaining_pages st > 0 \<and> \<not> IS_ALIGNED (map_va st) PGD_SIZE
              then Inl (Panic ''%lu pages unassigned under PGD for VA 0x%lx'')
              else Inr (w, st)))
      in if \<not> pgde_present pgde
         then rbind (alloc_pud al w) (\<lambda>(pud, w).
                under pud (assign_pud (fst w) pgd index pud, snd w) (count_pagetable st))
         else under (pgde_pud pgde) w st)"

lemma map_pgd_entry_remaining:
  "map_pgd_entry al pgd w st = Inr (w', st') \<Longrightarrow> num_remaining_pages st > 0 \<Longrightarrow>
    num_remaining_pages st' < num_remaining_pages st"
  by (auto simp: map_pgd_entry_def Let_def rbind_Inr_iff split: if_splits
      dest!: map_page_range_pud_remaining)

function map_pgd_entries :: "'a page_allocators \<Rightarrow> physaddr_t \<Rightarrow> 'a world \<Rightarrow> page_map_state \<Rightarrow>
    ('a world \<times> page_map_state) result" where
  "map_pgd_entries al pgd w st =
     (if num_remaining_pages st > 0 then
        rbind (map_pgd_entry al pgd w st) (\<lambda>(w', st').
          if num_remaining_pages st' \<le> 0 then Inr (w', st') else map_pgd_entries al pgd w' st')
      else Inr (w, st))"
  by pat_completeness auto

termination map_pgd_entries
  by (relation "measure (\<lambda>(al, pgd, w, st). nat (num_remaining_pages st))")
    (auto dest!: map_pgd_entry_remaining)

declare map_pgd_entries.simps [simp del]

definition map_page_range :: "physaddr_t \<Rightarrow> virtaddr_t \<Rightarrow> physaddr_t \<Rightarrow> int \<Rightarrow> map_flags_t \<Rightarrow>
    'a page_allocators \<Rightarrow> 'a world \<Rightarrow> (u64 \<times> 'a world) result" where
  "map_page_range pgd start_va start_pa num_pages flags al w =
     rbind (map_pgd_entries al pgd w
       \<lparr>map_va = start_va, map_pa = start_pa, num_remaining_pages = num_pages,
        num_pagetables_allocated = 0, map_flags = flags\<rparr>)
       (\<lambda>(w, st). Inr (num_pagetables_allocated st, w))"

section \<open>Walking\<close>

definition walk_to_data :: "memory \<Rightarrow> physaddr_t \<Rightarrow> virtaddr_t \<Rightarrow> (u64 \<times> page_level_t) result" where
  "walk_to_data m pgd va =
     (let pgde = load64 m (pgde_at pgd (virt_pgde_index va))
      in if \<not> pgde_present pgde then Inl (Panic ''0x%lx: PGDE not present'')
         else
      let pud = pgde_pud pgde; pude = load64 m (pude_at pud (virt_pude_index va))
      in if \<not> pude_present pude then Inl (Panic ''0x%lx: PUDE not present'')
         else if pude_1gib pude then Inr (pude, PUD)
         else
      let pmd = pude_pmd pude; pmde = load64 m (pmde_at pmd (virt_pmde_index va))
      in if \<not> pmde_present pmde then Inl (Panic ''0x%lx: PMDE not present'')
         else if pmde_2mib pmde then Inr (pmde, PMD)
         else
      let ptd = pmde_ptd pmde; ptde = load64 m (ptde_at ptd (virt_ptde_index va))
      in if \<not> ptde_present ptde then Inl (Panic ''0x%lx: PTDE not present'')
         else Inr (ptde, PTD))"

definition walk_virt_to_raw_flags :: "memory \<Rightarrow> physaddr_t \<Rightarrow> virtaddr_t \<Rightarrow> u64 result" where
  "walk_virt_to_raw_flags m pgd va =
     rbind (walk_to_data m pgd va) (\<lambda>(raw, level).
       case level of
         PUD \<Rightarrow> Inr (pude_raw_flags_1gib raw)
       | PMD \<Rightarrow> Inr (pmde_raw_flags_2mib raw)
       | PTD \<Rightarrow> Inr (ptde_raw_flags raw)
       | PGD \<Rightarrow> Inl (Panic ''Bug in walk_to_data()''))"

definition walk_virt_to_phys :: "memory \<Rightarrow> physaddr_t \<Rightarrow> virtaddr_t \<Rightarrow> physaddr_t result" where
  "walk_virt_to_phys m pgd va =
     rbind (walk_to_data m pgd va) (\<lambda>(raw, level).
       case level of
         PUD \<Rightarrow> Inr (pude_data_1gib raw)
       | PMD \<Rightarrow> Inr (pmde_data_2mib raw)
       | PTD \<Rightarrow> Inr (ptde_data raw)
       | PGD \<Rightarrow> Inl (Panic ''Bug in walk_to_data()''))"

end
