(* ===== verification/Page_Tree.thy ===== *)
theory Page_Tree
  imports Page_Map
begin

text \<open>
  Page tables in memory as a tree, and the address translation they stand for. A table of
  level 0 is a PTD, of level 1 a PMD, of level 2 a PUD and of level 3 a PGD, so that an entry
  at level \<open>k\<close> maps \<open>512 ^ k\<close> pages. \<open>tables\<close> is the set of tables reached from one,
  \<open>tree_ok\<close> says that they are page aligned and that none is reached twice, and \<open>xlat\<close> is the
  translation: from the number of a virtual page to the physical address of its page and its
  flags, whatever the size of the page that maps it.

  The central lemma, \<open>tree_update\<close>, is that rewriting one entry of a table, together with
  tables that only that entry leads to, changes the translation below that entry only.
\<close>

section \<open>Entries\<close>

definition entry :: "memory \<Rightarrow> physaddr_t \<Rightarrow> nat \<Rightarrow> u64" where
  "entry m t i = load64 m (ptde_at t (of_nat i))"

definition huge :: "nat \<Rightarrow> u64 \<Rightarrow> bool" where
  "huge k e \<longleftrightarrow> (k = 1 \<or> k = 2) \<and> bit e 7"

definition is_table :: "nat \<Rightarrow> u64 \<Rightarrow> bool" where
  "is_table k e \<longleftrightarrow> 0 < k \<and> bit e 0 \<and> \<not> huge k e"

definition child :: "u64 \<Rightarrow> physaddr_t" where
  "child e = e AND PAGE_TABLE_PHYS_ADDR_MASK"

text \<open>The index of a page in its table of level \<open>k\<close>, and the page number of an address.\<close>

definition index_at :: "nat \<Rightarrow> nat \<Rightarrow> nat" where
  "index_at k p = p div 512 ^ k mod 512"

definition vpn :: "virtaddr_t \<Rightarrow> nat" where
  "vpn va = unat va div 4096 mod 2 ^ 36"

definition leaf_data :: "nat \<Rightarrow> u64 \<Rightarrow> u64" where
  "leaf_data k e = e AND (PHYS_ADDR_MASK AND BIT_MASK_ABOVE (12 + 9 * k))"

definition leaf_flags :: "nat \<Rightarrow> u64 \<Rightarrow> u64" where
  "leaf_flags k e =
     (if k = 0 then e AND PAGE_TABLE_FLAG_MASK else (e AND PAGE_TABLE_FLAG_MASK) AND NOT PAGE_FLAG_PSE)"

definition leaf_xlat :: "nat \<Rightarrow> u64 \<Rightarrow> nat \<Rightarrow> (nat \<times> u64) option" where
  "leaf_xlat k e p =
     (if bit e 0 then Some (unat (leaf_data k e) + 4096 * (p mod 512 ^ k), leaf_flags k e) else None)"

lemma index_at_less [simp]: "index_at k p < 512"
  by (simp add: index_at_def)

lemma vpn_less: "vpn va < 2 ^ 36"
  by (simp add: vpn_def)

lemma index_at_vpn: "k \<le> 3 \<Longrightarrow> index_at k (vpn va) = unat va div 2 ^ (12 + 9 * k) mod 512"
proof -
  assume "k \<le> 3"
  then have split: "(2 :: nat) ^ 36 = 2 ^ (9 * k) * 2 ^ (36 - 9 * k)" by (simp flip: power_add)
  have dvd: "(512 :: nat) dvd 2 ^ (36 - 9 * k)"
    using \<open>k \<le> 3\<close> le_imp_power_dvd [of 9 "36 - 9 * k" "2 :: nat"] by simp
  have "vpn va div 2 ^ (9 * k) = unat va div 4096 div 2 ^ (9 * k) mod 2 ^ (36 - 9 * k)"
    unfolding vpn_def split by (simp add: mod_mult2_eq)
  then have "index_at k (vpn va) = unat va div 4096 div 2 ^ (9 * k) mod 2 ^ (36 - 9 * k) mod 512"
    by (simp add: index_at_def power_mult)
  also have "\<dots> = unat va div (4096 * 2 ^ (9 * k)) mod 512"
    using dvd by (simp add: mod_mod_cancel div_mult2_eq)
  finally show ?thesis by (simp add: power_add)
qed

lemma virt_index_vpn:
  "virt_ptde_index va = of_nat (index_at 0 (vpn va))"
  "virt_pmde_index va = of_nat (index_at 1 (vpn va))"
  "virt_pude_index va = of_nat (index_at 2 (vpn va))"
  "virt_pgde_index va = of_nat (index_at 3 (vpn va))"
proof -
  have eqI: "unat x = n \<Longrightarrow> x = of_nat n" for x :: u64 and n by auto
  show "virt_ptde_index va = of_nat (index_at 0 (vpn va))"
    by (rule eqI) (simp add: index_at_vpn unat_index_fields)
  show "virt_pmde_index va = of_nat (index_at 1 (vpn va))"
    by (rule eqI) (simp add: index_at_vpn unat_index_fields)
  show "virt_pude_index va = of_nat (index_at 2 (vpn va))"
    by (rule eqI) (simp add: index_at_vpn unat_index_fields)
  show "virt_pgde_index va = of_nat (index_at 3 (vpn va))"
    by (rule eqI) (simp add: index_at_vpn unat_index_fields)
qed

lemma unat_index: "i < 512 \<Longrightarrow> unat (of_nat i :: u64) = i"
  by (rule unat_of_nat_lt) simp

lemma entry_at_eq: "pgde_at t i = ptde_at t i" "pude_at t i = ptde_at t i" "pmde_at t i = ptde_at t i"
  by (simp_all add: pgde_at_def pude_at_def pmde_at_def ptde_at_def)

lemma entry_store:
  assumes "page_address 12 t" "page_address 12 u" "i < 512" "j < 512"
  shows "entry (store64 m (ptde_at t (of_nat i)) v) u j = (if u = t \<and> j = i then v else entry m u j)"
proof -
  have i: "unat (of_nat i :: u64) < 512" "unat (of_nat j :: u64) < 512"
    using assms by (simp_all add: unat_index)
  have eq: "ptde_at u (of_nat j) = ptde_at t (of_nat i) \<longleftrightarrow> u = t \<and> j = i"
    using entry_cell_inj [OF assms(2) i(2) assms(1) i(1)] unat_index [OF assms(3)] unat_index [OF assms(4)]
    by metis
  show ?thesis
    unfolding entry_def by (subst mem.load_store) (simp_all add: entry_cell assms i eq)
qed

section \<open>The tree of tables\<close>

primrec tables :: "nat \<Rightarrow> memory \<Rightarrow> physaddr_t \<Rightarrow> physaddr_t set" where
  "tables 0 m t = {t}"
| "tables (Suc k) m t =
     insert t (\<Union>i\<in>{i. i < 512 \<and> is_table (Suc k) (entry m t i)}. tables k m (child (entry m t i)))"

primrec tree_ok :: "nat \<Rightarrow> memory \<Rightarrow> physaddr_t \<Rightarrow> bool" where
  "tree_ok 0 m t \<longleftrightarrow> page_address 12 t"
| "tree_ok (Suc k) m t \<longleftrightarrow> page_address 12 t \<and>
     (\<forall>i<512. is_table (Suc k) (entry m t i) \<longrightarrow>
        tree_ok k m (child (entry m t i)) \<and> t \<notin> tables k m (child (entry m t i)) \<and>
        (\<forall>j<512. j \<noteq> i \<longrightarrow> is_table (Suc k) (entry m t j) \<longrightarrow>
           tables k m (child (entry m t i)) \<inter> tables k m (child (entry m t j)) = {}))"

primrec xlat :: "nat \<Rightarrow> memory \<Rightarrow> physaddr_t \<Rightarrow> nat \<Rightarrow> (nat \<times> u64) option" where
  "xlat 0 m t p = leaf_xlat 0 (entry m t (index_at 0 p)) p"
| "xlat (Suc k) m t p =
     (let e = entry m t (index_at (Suc k) p)
      in if is_table (Suc k) e then xlat k m (child e) p else leaf_xlat (Suc k) e p)"

text \<open>The three at every level alike.\<close>

lemma not_table_0 [simp]: "\<not> is_table 0 e"
  by (simp add: is_table_def)

lemma tables_eq:
  "tables k m t = insert t (\<Union>i\<in>{i. i < 512 \<and> is_table k (entry m t i)}. tables (k - 1) m (child (entry m t i)))"
  by (cases k) simp_all

lemma tree_ok_iff:
  "tree_ok k m t \<longleftrightarrow> page_address 12 t \<and>
     (\<forall>i<512. is_table k (entry m t i) \<longrightarrow>
        tree_ok (k - 1) m (child (entry m t i)) \<and> t \<notin> tables (k - 1) m (child (entry m t i)) \<and>
        (\<forall>j<512. j \<noteq> i \<longrightarrow> is_table k (entry m t j) \<longrightarrow>
           tables (k - 1) m (child (entry m t i)) \<inter> tables (k - 1) m (child (entry m t j)) = {}))"
  by (cases k) (simp_all only: tree_ok.simps not_table_0 diff_Suc_1, simp)

lemma xlat_eq:
  "xlat k m t p =
     (let e = entry m t (index_at k p)
      in if is_table k e then xlat (k - 1) m (child e) p else leaf_xlat k e p)"
  by (cases k) (simp_all add: Let_def)

lemma tree_ok_child:
  assumes "tree_ok k m t" "i < 512" "is_table k (entry m t i)"
  shows "tree_ok (k - 1) m (child (entry m t i))" "t \<notin> tables (k - 1) m (child (entry m t i))"
  using assms unfolding tree_ok_iff [of k] by blast+

lemma tree_ok_apart:
  "tree_ok k m t \<Longrightarrow> i < 512 \<Longrightarrow> j < 512 \<Longrightarrow> i \<noteq> j \<Longrightarrow> is_table k (entry m t i) \<Longrightarrow> is_table k (entry m t j) \<Longrightarrow>
    tables (k - 1) m (child (entry m t i)) \<inter> tables (k - 1) m (child (entry m t j)) = {}"
  unfolding tree_ok_iff [of k] by blast

lemma xlat_table:
  "is_table k (entry m t (index_at k p)) \<Longrightarrow> xlat k m t p = xlat (k - 1) m (child (entry m t (index_at k p))) p"
  by (subst xlat_eq) (simp add: Let_def)

lemma xlat_leaf:
  "\<not> is_table k (entry m t (index_at k p)) \<Longrightarrow> xlat k m t p = leaf_xlat k (entry m t (index_at k p)) p"
  by (subst xlat_eq) (simp add: Let_def)

lemma tables_self [simp]: "t \<in> tables k m t"
  by (cases k) simp_all

lemma child_tables: "i < 512 \<Longrightarrow> is_table k (entry m t i) \<Longrightarrow> tables (k - 1) m (child (entry m t i)) \<subseteq> tables k m t"
  by (subst (2) tables_eq) auto

lemma tree_ok_page: "tree_ok k m t \<Longrightarrow> page_address 12 t"
  by (cases k) simp_all

lemma tables_page: "tree_ok k m t \<Longrightarrow> u \<in> tables k m t \<Longrightarrow> page_address 12 u"
proof (induction k arbitrary: t)
  case (Suc k)
  then show ?case by auto
qed simp

section \<open>Memories that differ in few tables\<close>

definition same_tables :: "physaddr_t set \<Rightarrow> memory \<Rightarrow> memory \<Rightarrow> bool" where
  "same_tables X m m' \<longleftrightarrow> (\<forall>u i. page_address 12 u \<and> u \<notin> X \<and> i < 512 \<longrightarrow> entry m' u i = entry m u i)"

lemma same_tablesD: "same_tables X m m' \<Longrightarrow> page_address 12 u \<Longrightarrow> u \<notin> X \<Longrightarrow> i < 512 \<Longrightarrow> entry m' u i = entry m u i"
  by (simp add: same_tables_def)

lemma same_tables_refl [simp]: "same_tables X m m"
  by (simp add: same_tables_def)

lemma same_tables_trans:
  "same_tables X m m' \<Longrightarrow> same_tables Y m' m'' \<Longrightarrow> X \<subseteq> Z \<Longrightarrow> Y \<subseteq> Z \<Longrightarrow> same_tables Z m m''"
  unfolding same_tables_def by (metis subsetD)

lemma same_tables_mono: "same_tables X m m' \<Longrightarrow> X \<subseteq> Y \<Longrightarrow> same_tables Y m m'"
  by (auto simp: same_tables_def)

lemma same_tables_store:
  "page_address 12 t \<Longrightarrow> i < 512 \<Longrightarrow> same_tables {t} m (store64 m (ptde_at t (of_nat i)) v)"
  by (auto simp: same_tables_def entry_store)

text \<open>A tree of which no table changes stays the tree it is.\<close>

lemma tree_unchanged:
  assumes "same_tables X m m'" and "tree_ok k m t" and "tables k m t \<inter> X = {}"
  shows "tables k m' t = tables k m t \<and> tree_ok k m' t \<and> xlat k m' t = xlat k m t"
  using assms
proof (induction k arbitrary: t)
  case 0
  then show ?case by (auto simp: fun_eq_iff same_tables_def)
next
  case (Suc k)
  have e: "entry m' t i = entry m t i" if "i < 512" for i
    using Suc.prems that by (auto intro!: same_tablesD [of X])
  have c: "tables k m' (child (entry m t i)) = tables k m (child (entry m t i))"
    "tree_ok k m' (child (entry m t i))" "xlat k m' (child (entry m t i)) = xlat k m (child (entry m t i))"
    if "i < 512" "is_table (Suc k) (entry m t i)" for i
    using Suc.IH [of "child (entry m t i)"] Suc.prems that by auto
  have "xlat (Suc k) m' t p = xlat (Suc k) m t p" for p
    using e [of "index_at (Suc k) p"] c(3) [of "index_at (Suc k) p"] by (simp add: Let_def)
  then show ?case using Suc.prems e c by (auto simp: fun_eq_iff)
qed

declare tables.simps(2) [simp del] tree_ok.simps(2) [simp del] xlat.simps(2) [simp del]

text \<open>
  Rewriting entry \<open>i\<close> of \<open>t\<close>, together with tables \<open>Y\<close> that no other entry leads to and that
  hold all that the new entry leads to.
\<close>

lemma tree_update:
  assumes ok: "tree_ok k m t" and i: "i < 512"
    and same: "same_tables (insert t Y) m m'" and tY: "t \<notin> Y"
    and others: "\<And>j. j < 512 \<Longrightarrow> j \<noteq> i \<Longrightarrow> entry m' t j = entry m t j"
    and apart: "\<And>j. j < 512 \<Longrightarrow> j \<noteq> i \<Longrightarrow> is_table k (entry m t j) \<Longrightarrow>
      tables (k - 1) m (child (entry m t j)) \<inter> Y = {}"
    and new: "is_table k (entry m' t i) \<Longrightarrow>
      tree_ok (k - 1) m' (child (entry m' t i)) \<and> tables (k - 1) m' (child (entry m' t i)) \<subseteq> Y"
  shows "tree_ok k m' t"
    and "tables k m' t = insert t ((\<Union>j\<in>{j. j < 512 \<and> j \<noteq> i \<and> is_table k (entry m t j)}.
        tables (k - 1) m (child (entry m t j))) \<union>
      (if is_table k (entry m' t i) then tables (k - 1) m' (child (entry m' t i)) else {}))"
    and "xlat k m' t p =
      (if index_at k p = i
       then if is_table k (entry m' t i) then xlat (k - 1) m' (child (entry m' t i)) p
            else leaf_xlat k (entry m' t i) p
       else xlat k m t p)"
proof -
  let ?c = "\<lambda>j. child (entry m t j)"
  have old: "tables (k - 1) m' (?c j) = tables (k - 1) m (?c j) \<and> tree_ok (k - 1) m' (?c j) \<and>
      xlat (k - 1) m' (?c j) = xlat (k - 1) m (?c j)"
    if "j < 512" "j \<noteq> i" "is_table k (entry m t j)" for j
    using ok apart [OF that] that
    by (intro tree_unchanged [OF same]) (auto simp: tree_ok_iff [of k])
  have tab: "is_table k (entry m' t j) \<longleftrightarrow> (if j = i then is_table k (entry m' t i) else is_table k (entry m t j))"
    if "j < 512" for j
    using others [OF that] by simp
  show "tables k m' t = insert t ((\<Union>j\<in>{j. j < 512 \<and> j \<noteq> i \<and> is_table k (entry m t j)}.
        tables (k - 1) m (?c j)) \<union>
      (if is_table k (entry m' t i) then tables (k - 1) m' (child (entry m' t i)) else {}))" (is "_ = ?T")
  proof -
    have "u \<in> tables k m' t \<longleftrightarrow> u = t \<or> (\<exists>j<512. is_table k (entry m' t j) \<and> u \<in> tables (k - 1) m' (child (entry m' t j)))" for u
      by (subst tables_eq) auto
    moreover have "(\<exists>j<512. is_table k (entry m' t j) \<and> u \<in> tables (k - 1) m' (child (entry m' t j))) \<longleftrightarrow>
        (\<exists>j<512. j \<noteq> i \<and> is_table k (entry m t j) \<and> u \<in> tables (k - 1) m (?c j)) \<or>
        is_table k (entry m' t i) \<and> u \<in> tables (k - 1) m' (child (entry m' t i))" for u
      using old others i by (metis (no_types, lifting))
    ultimately have "u \<in> tables k m' t \<longleftrightarrow> u \<in> ?T" for u by auto
    then show ?thesis by blast
  qed
  show "xlat k m' t p =
      (if index_at k p = i
       then if is_table k (entry m' t i) then xlat (k - 1) m' (child (entry m' t i)) p
            else leaf_xlat k (entry m' t i) p
       else xlat k m t p)"
    using old [of "index_at k p"] others [of "index_at k p"]
    by (subst (1) xlat_eq, subst (3) xlat_eq) (simp add: Let_def)
  have pa: "page_address 12 t" using ok by (rule tree_ok_page)
  have disj: "tables (k - 1) m (?c j) \<inter> tables (k - 1) m (?c l) = {}"
    if "j < 512" "l < 512" "j \<noteq> l" "is_table k (entry m t j)" "is_table k (entry m t l)" for j l
    using ok that unfolding tree_ok_iff [of k] by blast
  have notin: "t \<notin> tables (k - 1) m (?c j)" if "j < 512" "is_table k (entry m t j)" for j
    using ok that unfolding tree_ok_iff [of k] by blast
  show "tree_ok k m' t"
    unfolding tree_ok_iff [of k m' t]
  proof (intro conjI allI impI)
    show "page_address 12 t" by fact
    fix j
    assume j: "j < 512" "is_table k (entry m' t j)"
    show "tree_ok (k - 1) m' (child (entry m' t j))"
      using j new old [of j] others [of j] by (cases "j = i") auto
    show "t \<notin> tables (k - 1) m' (child (entry m' t j))"
      using j new old [of j] others [of j] notin [of j] tY by (cases "j = i") auto
    fix l
    assume l: "l < 512" "l \<noteq> j" "is_table k (entry m' t l)"
    show "tables (k - 1) m' (child (entry m' t j)) \<inter> tables (k - 1) m' (child (entry m' t l)) = {}"
    proof -
      consider "j = i" | "l = i" | "j \<noteq> i" "l \<noteq> i" by blast
      then show ?thesis
      proof cases
        case 1
        then show ?thesis using j l new old [of l] others [of l] apart [of l] by auto
      next
        case 2
        then show ?thesis using j l new old [of j] others [of j] apart [of j] by auto
      next
        case 3
        then show ?thesis using j l old [of j] old [of l] others [of j] others [of l] disj [of j l] by auto
      qed
    qed
  qed
qed

end
