(* ===== verification/Page_Refine.thy ===== *)
theory Page_Refine
  imports Page_Tree
begin

text \<open>
  Mapping a range refines one update of the translation. The locale \<open>table_source\<close> is what the
  mapping code relies on in the allocators it is given: a table comes from a pool of free
  frames, is zeroed, and nothing else in memory changes. Inside it, \<open>mapped\<close> is the contract
  of one run of a body or of a loop, which says how many pages were mapped, what the
  translation became and which tables were taken from the pool; \<open>mapped_trans\<close> composes two
  runs, \<open>entry_under\<close> lifts a run below an entry to the entry's table, and each loop of
  \<^verbatim>\<open>mm/page.c\<close> is then one use of \<open>loop_runs\<close>.
\<close>

section \<open>How much a range needs\<close>

text \<open>The entries at level \<open>j\<close> that cover pages \<open>p\<close> to \<open>p + d - 1\<close>, and the tables below level \<open>k\<close>.\<close>

definition entries_over :: "nat \<Rightarrow> nat \<Rightarrow> nat \<Rightarrow> nat" where
  "entries_over j p d = (p + d - 1) div 512 ^ j - p div 512 ^ j + 1"

definition tables_needed :: "nat \<Rightarrow> nat \<Rightarrow> nat \<Rightarrow> nat" where
  "tables_needed k p d = (\<Sum>j\<in>{1..k}. entries_over j p d)"

lemma pred_div: "0 < x \<Longrightarrow> n dvd x \<Longrightarrow> (x - 1) div n = x div n - 1" for x n :: nat
proof -
  assume x: "0 < x" "n dvd x"
  then obtain c where c: "x = n * c" by auto
  then obtain d where d: "c = Suc d" "0 < n" using x by (cases c) auto
  have "x - 1 = n * d + (n - 1)" using c d by simp
  moreover have "(n * d + (n - 1)) div n = d" using d by (intro div_nat_eqI) auto
  ultimately show ?thesis using c d by simp
qed

lemma entries_over_append:
  assumes "0 < d1" "0 < d2" "512 ^ j dvd p + d1"
  shows "entries_over j p d1 + entries_over j (p + d1) d2 = entries_over j p (d1 + d2)"
proof -
  let ?n = "512 ^ j :: nat"
  have "(p + d1 - 1) div ?n = (p + d1) div ?n - 1" using assms by (intro pred_div) simp_all
  moreover have "0 < (p + d1) div ?n" using assms by (auto simp: div_greater_zero_iff dvd_imp_le)
  moreover have "p div ?n \<le> (p + d1 - 1) div ?n" using assms(1) by (intro div_le_mono) simp
  moreover have "(p + d1) div ?n \<le> (p + d1 + d2 - 1) div ?n" using assms(2) by (intro div_le_mono) simp
  ultimately show ?thesis unfolding entries_over_def add.assoc [symmetric] by linarith
qed

lemma tables_needed_append:
  assumes "0 < d1" "0 < d2" "512 ^ k dvd p + d1"
  shows "tables_needed k p d1 + tables_needed k (p + d1) d2 = tables_needed k p (d1 + d2)"
proof -
  have "512 ^ j dvd p + d1" if "j \<in> {1..k}" for j
    using that assms(3) power_le_dvd [of 512 k "p + d1" j] by simp
  then show ?thesis
    unfolding tables_needed_def sum.distrib [symmetric]
    by (intro sum.cong) (auto intro!: entries_over_append assms)
qed

lemma tables_needed_Suc:
  assumes "0 < d" "p mod 512 ^ Suc k + d \<le> 512 ^ Suc k"
  shows "tables_needed (Suc k) p d = Suc (tables_needed k p d)"
proof -
  let ?n = "512 ^ Suc k :: nat"
  have "p + d - 1 = p div ?n * ?n + (p mod ?n + d - 1)"
    using assms(1) div_mult_mod_eq [of p ?n] by linarith
  moreover have "(p div ?n * ?n + (p mod ?n + d - 1)) div ?n = p div ?n"
    using assms by (subst div_mult_self3) simp_all
  ultimately have "(p + d - 1) div ?n = p div ?n" by simp
  then have "entries_over (Suc k) p d = 1" by (simp add: entries_over_def)
  then show ?thesis by (simp add: tables_needed_def)
qed

section \<open>Advancing the state\<close>

definition moved :: "page_map_state \<Rightarrow> nat \<Rightarrow> nat \<Rightarrow> page_map_state \<Rightarrow> bool" where
  "moved st d c st' \<longleftrightarrow> map_flags st' = map_flags st \<and>
     unat (map_pa st') = unat (map_pa st) + 4096 * d \<and>
     num_remaining_pages st' = num_remaining_pages st - int d \<and>
     vpn (map_va st') = (vpn (map_va st) + d) mod 2 ^ 36 \<and>
     4096 dvd unat (map_va st') \<and>
     num_pagetables_allocated st' = num_pagetables_allocated st + of_nat c"

lemma moved_trans:
  assumes "moved st d1 c1 st1" "moved st1 d2 c2 st2"
  shows "moved st (d1 + d2) (c1 + c2) st2"
  using assms by (auto simp: moved_def mod_simps ac_simps)

lemma moved_counted: "moved (count_pagetable st) d c st' \<Longrightarrow> moved st d (Suc c) st'"
  by (auto simp: moved_def count_pagetable_def ac_simps)

lemma unat_push_page: "unat (push_bit 12 (x :: u64)) = (unat x * 4096) mod 2 ^ 64"
  by (subst unsigned_push_bit_eq) (simp add: push_bit_eq_mult take_bit_eq_mod)

lemma vpn_offset: "vpn (virt_offset_pages va n) = (vpn va + unat n) mod 2 ^ 36"
proof -
  let ?a = "unat va div 4096" and ?n = "unat n"
  have "unat (drop_bit 12 va + n) = (?a + ?n) mod 2 ^ 64"
    by (simp add: unat_word_ariths unat_drop_bit)
  then have "unat (virt_offset_pages va n) = (?a + ?n) * 4096 mod 2 ^ 64"
    by (simp add: virt_offset_pages_def unat_push_page mod_simps)
  also have "\<dots> = (?a + ?n) * 4096 mod (2 ^ 52 * 4096)" by simp
  also have "\<dots> = (?a + ?n) mod 2 ^ 52 * 4096" by (rule mod_mult_mult2)
  finally have "vpn (virt_offset_pages va n) = (?a + ?n) mod 2 ^ 52 mod 2 ^ 36" by (simp add: vpn_def)
  also have "\<dots> = (?a + ?n) mod 2 ^ 36" by (rule mod_mod_cancel) (rule le_imp_power_dvd, simp)
  finally show ?thesis by (simp add: vpn_def mod_simps)
qed

lemma offset_aligned: "4096 dvd unat (virt_offset_pages va n)"
proof -
  have "(4096 :: nat) dvd 2 ^ 64" by simp
  then show ?thesis unfolding virt_offset_pages_def unat_push_page by (simp add: dvd_mod_iff)
qed

lemma moved_advance:
  assumes "4096 dvd unat (map_pa st)" "unat (map_pa st) + 4096 * unat n < 2 ^ 64"
  shows "moved st (unat n) 0 (advance_pages n st)"
proof -
  have "unat (map_pa st) div 4096 * 4096 = unat (map_pa st)" using assms(1) by simp
  then have "unat (phys_offset_pages (map_pa st) n) = unat (map_pa st) + 4096 * unat n"
    unfolding phys_offset_pages_def using assms(2)
    by (subst unat_shift_add) (simp_all add: distrib_right mult.commute)
  then show ?thesis
    by (simp add: moved_def advance_pages_def vpn_offset offset_aligned)
qed

lemma aligned_vpn:
  assumes "4096 dvd unat va" "k \<le> 4"
  shows "IS_ALIGNED va (BIT_MASK (12 + 9 * k)) \<longleftrightarrow> 512 ^ k dvd vpn va"
proof -
  have "IS_ALIGNED va (BIT_MASK (12 + 9 * k)) \<longleftrightarrow> 2 ^ (12 + 9 * k) dvd unat va"
    by (rule IS_ALIGNED_iff)
  also have "\<dots> \<longleftrightarrow> 4096 * 512 ^ k dvd 4096 * (unat va div 4096)"
    using assms(1) by (simp add: power_add power_mult)
  also have "\<dots> \<longleftrightarrow> 512 ^ k dvd unat va div 4096" by simp
  also have "\<dots> \<longleftrightarrow> 512 ^ k dvd vpn va"
  proof -
    have "(512 :: nat) ^ k = 2 ^ (9 * k)" by (simp add: power_mult)
    then have "(512 :: nat) ^ k dvd 2 ^ 36" using assms(2) by (simp only: le_imp_power_dvd)
    then show ?thesis by (simp add: vpn_def dvd_mod_iff)
  qed
  finally show ?thesis .
qed

section \<open>The translation after mapping a range\<close>

definition spread :: "page_map_state \<Rightarrow> nat \<Rightarrow> (nat \<Rightarrow> (nat \<times> u64) option) \<Rightarrow> nat \<Rightarrow> (nat \<times> u64) option" where
  "spread st d f q =
     (if vpn (map_va st) \<le> q \<and> q < vpn (map_va st) + d \<and> f q = None
      then Some (unat (map_pa st) + 4096 * (q - vpn (map_va st)), map_flags_to_page_flags (map_flags st))
      else f q)"

lemma spread_append:
  assumes "moved st d1 c st1" "vpn (map_va st1) = vpn (map_va st) + d1" "f1 q = spread st d1 f q"
  shows "spread st1 d2 f1 q = spread st (d1 + d2) f q"
  using assms by (auto simp: spread_def moved_def)

lemma spread_count [simp]: "spread (count_pagetable st) d f = spread st d f"
  by (simp add: spread_def count_pagetable_def fun_eq_iff)

lemma spread_none: "q < vpn (map_va st) \<or> vpn (map_va st) + d \<le> q \<Longrightarrow> spread st d f q = f q"
  by (auto simp: spread_def)

section \<open>The contract of the allocators\<close>

locale table_source =
  fixes al :: "'a page_allocators"
    and ok :: "'a \<Rightarrow> bool"
    and pool :: "'a \<Rightarrow> physaddr_t set"
  assumes alloc_gives: "f \<in> {alloc_pud al, alloc_pmd al, alloc_ptd al} \<Longrightarrow> ok a \<Longrightarrow>
      f (m, a) = Inr (t, m', a') \<Longrightarrow>
      ok a' \<and> t \<in> pool a \<and> pool a' = pool a - {t} \<and> page_address 12 t \<and>
      (\<forall>i<512. entry m' t i = 0) \<and> same_tables {t} m m'"
    and alloc_fails: "f \<in> {alloc_pud al, alloc_pmd al, alloc_ptd al} \<Longrightarrow> ok a \<Longrightarrow>
      f (m, a) = Inl e \<Longrightarrow> pool a = {}"
begin

definition ready :: "nat \<Rightarrow> physaddr_t \<Rightarrow> memory \<Rightarrow> 'a \<Rightarrow> page_map_state \<Rightarrow> bool" where
  "ready k t m a st \<longleftrightarrow> ok a \<and> tree_ok k m t \<and> tables k m t \<inter> pool a = {} \<and>
     0 < num_remaining_pages st \<and> 4096 dvd unat (map_pa st) \<and>
     unat (map_pa st) + 4096 * nat (num_remaining_pages st) \<le> 2 ^ 48 \<and>
     bit (map_flags_to_page_flags (map_flags st)) 0"

definition mapped :: "nat \<Rightarrow> physaddr_t \<Rightarrow> nat \<Rightarrow> memory \<Rightarrow> 'a \<Rightarrow> page_map_state \<Rightarrow>
    memory \<Rightarrow> 'a \<Rightarrow> page_map_state \<Rightarrow> bool" where
  "mapped k t d m a st m' a' st' \<longleftrightarrow>
     ok a' \<and> pool a' \<subseteq> pool a \<and> tree_ok k m' t \<and> tables k m' t = tables k m t \<union> (pool a - pool a') \<and>
     same_tables (tables k m' t) m m' \<and> moved st d (card (pool a - pool a')) st' \<and>
     card (pool a - pool a') \<le> tables_needed k (vpn (map_va st)) d \<and>
     (\<forall>q. q div 512 ^ Suc k = vpn (map_va st) div 512 ^ Suc k \<longrightarrow> xlat k m' t q = spread st d (xlat k m t) q) \<and>
     (\<not> IS_MASK_SET (map_flags st) MAP_SKIP_IF_MAPPED \<longrightarrow>
       (\<forall>q\<in>{vpn (map_va st)..<vpn (map_va st) + d}. xlat k m t q = None))"

definition stuck :: "nat \<Rightarrow> physaddr_t \<Rightarrow> nat \<Rightarrow> memory \<Rightarrow> 'a \<Rightarrow> page_map_state \<Rightarrow> bool" where
  "stuck k t d m a st \<longleftrightarrow>
     (\<exists>q\<in>{vpn (map_va st)..<vpn (map_va st) + d}. xlat k m t q \<noteq> None) \<or>
     card (pool a) < tables_needed k (vpn (map_va st)) d"

definition runs :: "nat \<Rightarrow> physaddr_t \<Rightarrow> nat \<Rightarrow> memory \<Rightarrow> 'a \<Rightarrow> page_map_state \<Rightarrow>
    ('a world \<times> page_map_state) result \<Rightarrow> bool" where
  "runs k t d m a st r \<longleftrightarrow>
     (case r of Inl e \<Rightarrow> stuck k t d m a st
      | Inr ((m', a'), st') \<Rightarrow> mapped k t d m a st m' a' st')"

lemma runs_Inr [simp]: "runs k t d m a st (Inr ((m', a'), st')) = mapped k t d m a st m' a' st'"
  by (simp add: runs_def)

lemma runs_Inl [simp]: "runs k t d m a st (Inl e) = stuck k t d m a st"
  by (simp add: runs_def)


end

section \<open>Ranges inside one block\<close>

lemma same_block:
  fixes p q n :: nat
  assumes "p \<le> q" "q < p + d" "p mod n + d \<le> n"
  shows "q div n = p div n"
proof (rule div_nat_eqI)
  have "n * (p div n) + p mod n = p" by simp
  then show "n * (p div n) \<le> q" "q < n * Suc (p div n)"
    unfolding mult_Suc_right using assms by linarith+
qed

lemma same_block_Suc:
  "q div 512 ^ Suc (Suc k) = p div 512 ^ Suc (Suc k) \<Longrightarrow>
    index_at (Suc k) q = index_at (Suc k) p \<longleftrightarrow> q div 512 ^ Suc k = p div 512 ^ Suc k"
proof -
  assume "q div 512 ^ Suc (Suc k) = p div 512 ^ Suc (Suc k)"
  then have "q div 512 ^ Suc k div 512 = p div 512 ^ Suc k div 512"
    by (simp only: div_mult2_eq [symmetric] power_Suc2)
  then show ?thesis
    unfolding index_at_def by (metis div_mult_mod_eq)
qed

lemma finite_frames [simp]: "finite (X :: physaddr_t set)"
  by (rule finite_subset [OF subset_UNIV]) simp

lemma card_taken:
  fixes A B C :: "physaddr_t set"
  assumes "B \<subseteq> A" "C \<subseteq> B"
  shows "card (A - C) = card (A - B) + card (B - C)" "card A = card (A - B) + card B"
proof -
  have "A - C = (A - B) \<union> (B - C)" "(A - B) \<inter> (B - C) = {}" using assms by auto
  then show "card (A - C) = card (A - B) + card (B - C)" by (simp add: card_Un_disjoint)
  have "A = (A - B) \<union> B" using assms by auto
  then show "card A = card (A - B) + card B" by (metis card_Un_disjoint Diff_disjoint Int_commute finite_frames)
qed

context table_source
begin

lemma mapped_trans:
  assumes 1: "mapped k t d1 m a st m1 a1 st1" and 2: "mapped k t d2 m1 a1 st1 m2 a2 st2"
    and v: "vpn (map_va st1) = vpn (map_va st) + d1" and al: "512 ^ k dvd vpn (map_va st) + d1"
    and d: "0 < d1" "0 < d2" and fits: "vpn (map_va st) mod 512 ^ Suc k + (d1 + d2) \<le> 512 ^ Suc k"
  shows "mapped k t (d1 + d2) m a st m2 a2 st2"
proof -
  let ?p = "vpn (map_va st)"
  have sub: "pool a1 \<subseteq> pool a" "pool a2 \<subseteq> pool a1" using 1 2 by (auto simp: mapped_def)
  note cards = card_taken(1) [OF sub]
  have blk: "q div 512 ^ Suc k = ?p div 512 ^ Suc k" if "?p \<le> q" "q < ?p + (d1 + d2)" for q
    using that fits by (rule same_block)
  have x1: "xlat k m1 t q = spread st d1 (xlat k m t) q" if "q div 512 ^ Suc k = ?p div 512 ^ Suc k" for q
    using 1 that by (simp add: mapped_def)
  have "(?p + d1) div 512 ^ Suc k = ?p div 512 ^ Suc k" using d by (intro blk) simp_all
  then have x2: "xlat k m2 t q = spread st1 d2 (xlat k m1 t) q" if "q div 512 ^ Suc k = ?p div 512 ^ Suc k" for q
    using 2 that by (simp add: mapped_def v)
  have mv: "moved st d1 (card (pool a - pool a1)) st1" using 1 by (simp add: mapped_def)
  have "xlat k m2 t q = spread st (d1 + d2) (xlat k m t) q" if "q div 512 ^ Suc k = ?p div 512 ^ Suc k" for q
    using x2 [OF that] spread_append [OF mv v, of "xlat k m1 t" q "xlat k m t" d2] x1 [OF that] by simp
  moreover have "tables k m2 t = tables k m t \<union> (pool a - pool a2)"
    using 1 2 by (auto simp: mapped_def)
  moreover have "same_tables (tables k m2 t) m m2"
    by (rule same_tables_trans [of "tables k m1 t" m m1 "tables k m2 t"]) (use 1 2 in \<open>auto simp: mapped_def\<close>)
  moreover have "moved st (d1 + d2) (card (pool a - pool a2)) st2"
    unfolding cards using mv 2 by (auto simp: mapped_def intro: moved_trans)
  moreover have "card (pool a - pool a2) \<le> tables_needed k ?p (d1 + d2)"
    unfolding cards tables_needed_append [OF d al, symmetric] using 1 2 by (auto simp: mapped_def v intro: add_mono)
  moreover have "xlat k m t q = None"
    if "\<not> IS_MASK_SET (map_flags st) MAP_SKIP_IF_MAPPED" "q \<in> {?p..<?p + (d1 + d2)}" for q
  proof (cases "q < ?p + d1")
    case True
    then show ?thesis using 1 that by (simp add: mapped_def)
  next
    case False
    then have "xlat k m1 t q = None" using 2 mv that by (simp add: mapped_def v moved_def)
    with False that blk [of q] x1 [of q] show ?thesis by (simp add: spread_none)
  qed
  ultimately show ?thesis using 2 sub by (auto simp: mapped_def)
qed

lemma stuck_trans:
  assumes 1: "mapped k t d1 m a st m1 a1 st1" and 2: "stuck k t d2 m1 a1 st1"
    and v: "vpn (map_va st1) = vpn (map_va st) + d1" and al: "512 ^ k dvd vpn (map_va st) + d1"
    and d: "0 < d1" "0 < d2" and fits: "vpn (map_va st) mod 512 ^ Suc k + (d1 + d2) \<le> 512 ^ Suc k"
  shows "stuck k t (d1 + d2) m a st"
proof -
  let ?p = "vpn (map_va st)"
  have sub: "pool a1 \<subseteq> pool a" using 1 by (simp add: mapped_def)
  have "card (pool a - pool a1) \<le> tables_needed k ?p d1" using 1 by (simp add: mapped_def)
  then have "card (pool a) < tables_needed k ?p (d1 + d2)" if "card (pool a1) < tables_needed k (?p + d1) d2"
    unfolding tables_needed_append [OF d al, symmetric] card_taken(2) [OF sub subset_refl] using that by simp
  moreover have "xlat k m t q \<noteq> None" "q \<in> {?p..<?p + (d1 + d2)}"
    if "q \<in> {?p + d1..<?p + d1 + d2}" "xlat k m1 t q \<noteq> None" for q
  proof -
    show "q \<in> {?p..<?p + (d1 + d2)}" using that(1) by simp
    have "q div 512 ^ Suc k = ?p div 512 ^ Suc k" using that(1) fits by (intro same_block) auto
    then have "xlat k m1 t q = spread st d1 (xlat k m t) q" using 1 by (simp add: mapped_def)
    with that show "xlat k m t q \<noteq> None" by (simp add: spread_none)
  qed
  ultimately show ?thesis using 2 unfolding stuck_def v by blast
qed

text \<open>A run on the table below an entry is a run on the table that has the entry.\<close>

lemma entry_under:
  fixes m a st k t
  defines "p \<equiv> vpn (map_va st)"
  defines "c \<equiv> child (entry m t (index_at (Suc k) p))"
  assumes ok: "tree_ok (Suc k) m t" "tables (Suc k) m t \<inter> pool a = {}"
    and tab: "is_table (Suc k) (entry m t (index_at (Suc k) p))"
    and run: "runs k c d m a st r" and d: "0 < d" "p mod 512 ^ Suc k + d \<le> 512 ^ Suc k"
  shows "runs (Suc k) t d m a st r"
proof -
  let ?i = "index_at (Suc k) p"
  have at: "xlat (Suc k) m t q = xlat k m c q" if "index_at (Suc k) q = ?i" for q
    using tab that xlat_table [of "Suc k" m t q] by (simp add: c_def)
  have blk: "index_at (Suc k) q = ?i" "q div 512 ^ Suc k = p div 512 ^ Suc k" if "q \<in> {p..<p + d}" for q
  proof -
    show *: "q div 512 ^ Suc k = p div 512 ^ Suc k" using that d(2) by (intro same_block) auto
    show "index_at (Suc k) q = ?i" using * by (simp add: index_at_def)
  qed
  show ?thesis
  proof (cases r)
    case (Inl e)
    then have "stuck k c d m a st" using run by simp
    then consider q where "q \<in> {p..<p + d}" "xlat k m c q \<noteq> None" | "card (pool a) < tables_needed k p d"
      unfolding stuck_def p_def [symmetric] by blast
    then have "stuck (Suc k) t d m a st"
    proof cases
      case 1
      then show ?thesis using at [OF blk(1)] unfolding stuck_def p_def [symmetric] by metis
    next
      case 2
      then show ?thesis unfolding stuck_def p_def [symmetric] tables_needed_Suc [OF d] by simp
    qed
    with Inl show ?thesis by simp
  next
    case (Inr w)
    then obtain m' a' st' where r: "r = Inr ((m', a'), st')" by (cases w) auto
    then have M: "mapped k c d m a st m' a' st'" using run by simp
    let ?Y = "tables k m' c"
    have Y: "?Y = tables k m c \<union> (pool a - pool a')" and same: "same_tables ?Y m m'"
      using M by (auto simp: mapped_def)
    have tc: "t \<notin> tables k m c" "tables k m c \<subseteq> tables (Suc k) m t"
      using tree_ok_child(2) [OF ok(1) index_at_less tab] child_tables [OF index_at_less tab]
      by (simp_all add: c_def)
    have tY: "t \<notin> ?Y" using tc ok(2) tables_self [of t "Suc k" m] unfolding Y by blast
    have e: "entry m' t j = entry m t j" if "j < 512" for j
      using same tree_ok_page [OF ok(1)] tY that by (rule same_tablesD)
    have apart: "tables (Suc k - 1) m (child (entry m t j)) \<inter> ?Y = {}"
      if "j < 512" "j \<noteq> ?i" "is_table (Suc k) (entry m t j)" for j
    proof -
      have "tables k m (child (entry m t j)) \<inter> tables k m c = {}"
        using tree_ok_apart [OF ok(1) that(1) index_at_less that(2,3) tab] by (simp add: c_def)
      moreover have "tables k m (child (entry m t j)) \<subseteq> tables (Suc k) m t"
        using child_tables [OF that(1,3)] by simp
      ultimately show ?thesis using ok(2) unfolding Y by auto
    qed
    have new: "tree_ok k m' c" using M by (simp add: mapped_def)
    note upd = tree_update [OF ok(1) index_at_less [of "Suc k" p] same_tables_mono [OF same subset_insertI] tY e apart,
        unfolded e [OF index_at_less]]
    have ok': "tree_ok (Suc k) m' t"
      by (rule upd(1)) (use new in \<open>simp_all add: c_def\<close>)
    have T: "tables (Suc k) m' t = tables (Suc k) m t \<union> (pool a - pool a')"
    proof -
      have "tables (Suc k) m' t = insert t ((\<Union>j\<in>{j. j < 512 \<and> j \<noteq> ?i \<and> is_table (Suc k) (entry m t j)}.
          tables k m (child (entry m t j))) \<union> ?Y)"
        by (subst upd(2)) (use new tab in \<open>simp_all add: c_def\<close>)
      moreover have "tables (Suc k) m t = insert t ((\<Union>j\<in>{j. j < 512 \<and> j \<noteq> ?i \<and> is_table (Suc k) (entry m t j)}.
          tables k m (child (entry m t j))) \<union> tables k m c)"
        using tree_update(2) [OF ok(1) index_at_less [of "Suc k" p] same_tables_refl, of "tables k m c"]
          tc(1) tab tree_ok_child(1) [OF ok(1) index_at_less tab] tree_ok_apart [OF ok(1) _ index_at_less _ _ tab]
        by (simp add: c_def)
      ultimately show ?thesis unfolding Y by auto
    qed
    have x: "xlat (Suc k) m' t q = spread st d (xlat (Suc k) m t) q"
      if q: "q div 512 ^ Suc (Suc k) = p div 512 ^ Suc (Suc k)" for q
    proof (cases "index_at (Suc k) q = ?i")
      case True
      then have "q div 512 ^ Suc k = p div 512 ^ Suc k" using same_block_Suc [OF q] by simp
      then have "xlat k m' c q = spread st d (xlat k m c) q" using M by (simp add: mapped_def p_def)
      moreover have "xlat (Suc k) m' t q = xlat k m' c q"
        using tab True xlat_table [of "Suc k" m' t q] by (simp add: e c_def)
      ultimately show ?thesis using at [OF True] by (simp add: spread_def)
    next
      case False
      then have "xlat (Suc k) m' t q = xlat (Suc k) m t q"
        by (subst upd(3)) (use new in \<open>simp_all add: c_def\<close>)
      moreover have "q \<notin> {p..<p + d}" using False blk by blast
      ultimately show ?thesis using spread_none [of q st d] by (auto simp: p_def)
    qed
    note M' = M [unfolded mapped_def, folded p_def]
    have "mapped (Suc k) t d m a st m' a' st'"
      unfolding mapped_def p_def [symmetric]
    proof (intro conjI allI impI ballI)
      show "same_tables (tables (Suc k) m' t) m m'"
        using same by (rule same_tables_mono) (use tc in \<open>auto simp: T Y\<close>)
      show "card (pool a - pool a') \<le> tables_needed (Suc k) p d"
        unfolding tables_needed_Suc [OF d] using M' by linarith
      show "xlat (Suc k) m t q = None" if "\<not> IS_MASK_SET (map_flags st) MAP_SKIP_IF_MAPPED" "q \<in> {p..<p + d}" for q
        using M' that at [OF blk(1) [OF that(2)]] by metis
      show "tree_ok (Suc k) m' t" "tables (Suc k) m' t = tables (Suc k) m t \<union> (pool a - pool a')" by fact+
      show "xlat (Suc k) m' t q = spread st d (xlat (Suc k) m t) q"
        if "q div 512 ^ Suc (Suc k) = p div 512 ^ Suc (Suc k)" for q using that by (rule x)
    qed (use M' in \<open>simp_all only:\<close>)
    with r show ?thesis by simp
  qed
qed

end

end
