(* ===== verification/Page_Map_Correct.thy ===== *)
theory Page_Map_Correct
  imports Page_Refine
begin

text \<open>
  The correctness of \<^verbatim>\<open>_map_page_range()\<close> for any allocators that keep the contract
  \<open>table_source\<close>. First the three things a body can do with an entry: fill it with a page,
  hang a fresh table below it, or go on in the table that is already there. Then the loops:
  a loop over bodies that keep the contract keeps it for the whole table, which is used at
  each of the four levels, the bodies of a level resting on the loop of the level below.
\<close>

section \<open>Entries written\<close>

lemma zero_table:
  assumes "page_address 12 t" "\<And>i. i < 512 \<Longrightarrow> entry m t i = 0"
  shows "tree_ok k m t" "tables k m t = {t}" "xlat k m t q = None"
  using assms by (cases k; auto simp: tables.simps tree_ok.simps is_table_def xlat_leaf leaf_xlat_def)+

lemma table_entry:
  assumes "page_address 12 c" "0 < k"
  shows "is_table k ((c AND NOT PAGE_MASK) OR PAGE_FLAG_DEFAULT)"
    "child ((c AND NOT PAGE_MASK) OR PAGE_FLAG_DEFAULT) = c"
proof -
  have fb: "flag_bits PAGE_FLAG_DEFAULT" by (simp add: flag_bits_def macro_simps)
  note rd = read_entry [OF fb assms(1)]
  show "is_table k ((c AND NOT PAGE_MASK) OR PAGE_FLAG_DEFAULT)"
    using rd(3) [of 0] rd(3) [of 7] assms(2)
    by (simp add: is_table_def huge_def page_mask_defs macro_simps)
  show "child ((c AND NOT PAGE_MASK) OR PAGE_FLAG_DEFAULT) = c"
    using rd(1) by (simp add: child_def page_mask_defs macro_simps)
qed

lemma page_entry:
  assumes "page_address (12 + 9 * k) pa" "bit (map_flags_to_page_flags fl) 0" "k = 0 \<or> k = 1 \<or> k = 2"
  defines "v \<equiv> (pa AND NOT (mask (12 + 9 * k))) OR
      (if k = 0 then map_flags_to_page_flags fl else PAGE_FLAG_PSE OR map_flags_to_page_flags fl)"
  shows "\<not> is_table k v" "leaf_xlat k v q = Some (unat pa + 4096 * (q mod 512 ^ k), map_flags_to_page_flags fl)"
proof -
  let ?f = "map_flags_to_page_flags fl" and ?g = "PAGE_FLAG_PSE OR map_flags_to_page_flags fl"
  have fb: "flag_bits ?f" by (rule flag_bits_map_flags)
  then have fg: "flag_bits ?g" by (auto simp: flag_bits_def macro_simps bit_simps)
  have no7: "\<not> bit ?f 7"
    by (cases rule: map_mode_cases [of fl])
      (auto simp: map_flags_to_page_flags_def Let_def bit_simps macro_simps)
  have "?g AND NOT PAGE_FLAG_PSE = ?f"
    by (rule bit_word_eqI) (use no7 in \<open>auto simp: bit_and_iff bit_or_iff bit_not_iff bit_page_flags\<close>)
  moreover have "flag_bits (if k = 0 then ?f else ?g)" using fb fg by simp
  note rd = read_entry [OF this assms(1)]
  ultimately show "\<not> is_table k v" "leaf_xlat k v q = Some (unat pa + 4096 * (q mod 512 ^ k), ?f)"
    using rd(1) rd(2) rd(3) [of 0] rd(3) [of 7] assms(2,3)
    by (auto simp: is_table_def huge_def leaf_xlat_def leaf_data_def leaf_flags_def v_def
      page_mask_defs macro_simps bit_or_iff)
qed

context table_source
begin

section \<open>A page in the entry\<close>

lemma entry_page:
  fixes m a st k t
  defines "p \<equiv> vpn (map_va st)"
  assumes R: "ready k t m a st" and k: "k = 0 \<or> k = 1 \<or> k = 2"
    and free: "\<not> bit (entry m t (index_at k p)) 0"
    and pa: "512 ^ k dvd p" "page_address (12 + 9 * k) (map_pa st)" "512 ^ k \<le> nat (num_remaining_pages st)"
    and v: "v = (map_pa st AND NOT (mask (12 + 9 * k))) OR
      (if k = 0 then map_flags_to_page_flags (map_flags st)
       else PAGE_FLAG_PSE OR map_flags_to_page_flags (map_flags st))"
    and n: "unat n = 512 ^ k"
  shows "mapped k t (512 ^ k) m a st (store64 m (ptde_at t (of_nat (index_at k p))) v) a (advance_pages n st)"
proof -
  let ?i = "index_at k p" and ?m = "store64 m (ptde_at t (of_nat (index_at k p))) v"
  have ok: "tree_ok k m t" using R by (simp add: ready_def)
  note pt = tree_ok_page [OF ok]
  have e: "entry ?m t j = (if j = ?i then v else entry m t j)" if "j < 512" for j
    using that by (simp add: entry_store [OF pt pt])
  have v': "\<not> is_table k v" "leaf_xlat k v q =
      Some (unat (map_pa st) + 4096 * (q mod 512 ^ k), map_flags_to_page_flags (map_flags st))" for q
    unfolding v by (rule page_entry [OF pa(2) _ k]; use R in \<open>simp add: ready_def\<close>)+
  have old: "\<not> is_table k (entry m t ?i)" using free by (simp add: is_table_def)
  have same: "same_tables {t} m ?m" by (rule same_tables_store [OF pt]) simp
  note upd = tree_update [OF ok index_at_less [of k p] same, unfolded e [OF index_at_less]]
  have ok': "tree_ok k ?m t" by (rule upd(1)) (use v' in \<open>simp_all add: e\<close>)
  have T: "tables k ?m t = tables k m t"
  proof -
    have "tables k ?m t = insert t (\<Union>j\<in>{j. j < 512 \<and> j \<noteq> ?i \<and> is_table k (entry m t j)}.
        tables (k - 1) m (child (entry m t j)))"
      by (subst upd(2)) (use v' in \<open>simp_all add: e\<close>)
    also have "{j. j < 512 \<and> j \<noteq> ?i \<and> is_table k (entry m t j)} = {j. j < 512 \<and> is_table k (entry m t j)}"
      using old by auto
    finally show ?thesis by (subst (2) tables_eq) simp
  qed
  have "xlat k ?m t q = (if index_at k q = ?i then leaf_xlat k v q else xlat k m t q)" for q
    by (subst upd(3)) (use v' in \<open>simp_all add: e\<close>)
  moreover have "index_at k q = ?i \<longleftrightarrow> q \<in> {p..<p + 512 ^ k}" "index_at k q = ?i \<Longrightarrow> q mod 512 ^ k = q - p"
    if q: "q div 512 ^ Suc k = p div 512 ^ Suc k" for q
  proof -
    have "q div 512 ^ k div 512 = p div 512 ^ k div 512"
      using q by (simp only: div_mult2_eq [symmetric] power_Suc2)
    then have "index_at k q = ?i \<longleftrightarrow> q div 512 ^ k = p div 512 ^ k"
      unfolding index_at_def by (metis div_mult_mod_eq)
    moreover have pp: "512 ^ k * (p div 512 ^ k) = p" using pa(1) by simp
    moreover have "q div 512 ^ k = p div 512 ^ k \<longleftrightarrow> q \<in> {p..<p + 512 ^ k}"
    proof
      assume "q div 512 ^ k = p div 512 ^ k"
      then have "q = p + q mod 512 ^ k" using pp mult_div_mod_eq [of "512 ^ k" q] by simp
      moreover have "q mod 512 ^ k < 512 ^ k" by simp
      ultimately have "p \<le> q" "q < p + 512 ^ k" by linarith+
      then show "q \<in> {p..<p + 512 ^ k}" by simp
    next
      assume "q \<in> {p..<p + 512 ^ k}"
      then show "q div 512 ^ k = p div 512 ^ k" using pa(1) by (intro same_block) auto
    qed
    ultimately show "index_at k q = ?i \<longleftrightarrow> q \<in> {p..<p + 512 ^ k}" by simp
    show "q mod 512 ^ k = q - p" if "index_at k q = ?i"
      using that \<open>index_at k q = ?i \<longleftrightarrow> q div 512 ^ k = p div 512 ^ k\<close> pp minus_mult_div_eq_mod [of q "512 ^ k"] by simp
  qed
  moreover have none: "xlat k m t q = None" if "index_at k q = ?i" for q
    using that old free by (simp add: xlat_leaf leaf_xlat_def)
  ultimately have x: "xlat k ?m t q = spread st (512 ^ k) (xlat k m t) q"
    if "q div 512 ^ Suc k = p div 512 ^ Suc k" for q
    using that v'(2) by (auto simp: spread_def p_def)
  have "moved st (512 ^ k) 0 (advance_pages n st)"
  proof -
    have "unat (map_pa st) + 4096 * unat n \<le> unat (map_pa st) + 4096 * nat (num_remaining_pages st)"
      unfolding n using pa(3) by (intro add_left_mono mult_le_mono2)
    also have "\<dots> \<le> 2 ^ 48" using R by (simp add: ready_def)
    also have "(2 :: nat) ^ 48 < 2 ^ 64" by simp
    finally show ?thesis using R n moved_advance [of st n] by (simp add: ready_def)
  qed
  moreover have "xlat k m t q = None" if "q \<in> {p..<p + 512 ^ k}" for q
  proof -
    have "q div 512 ^ k = p div 512 ^ k" by (rule same_block [of p q "512 ^ k"]) (use that pa(1) in auto)
    then show ?thesis by (intro none) (simp add: index_at_def)
  qed
  ultimately show ?thesis
    unfolding mapped_def p_def [symmetric] T using R ok' x same_tables_mono [OF same] by (simp add: ready_def)
qed

section \<open>A fresh table below the entry\<close>

lemma fresh_table:
  assumes ok: "tree_ok (Suc k) m t" "tables (Suc k) m t \<inter> pool a = {}" and i: "i < 512"
    and free: "\<not> bit (entry m t i) 0"
    and c: "c \<in> pool a" "page_address 12 c" "\<forall>i<512. entry m1 c i = 0" "same_tables {c} m m1"
    and v: "is_table (Suc k) v" "child v = c"
  defines "m2 \<equiv> store64 m1 (ptde_at t (of_nat i)) v"
  shows "tree_ok (Suc k) m2 t" "tables (Suc k) m2 t = insert c (tables (Suc k) m t)"
    "xlat (Suc k) m2 t = xlat (Suc k) m t" "entry m2 t i = v" "same_tables {t, c} m m2"
proof -
  note pt = tree_ok_page [OF ok(1)]
  have ct: "c \<noteq> t" "t \<notin> {c}" using c(1) ok(2) tables_self [of t "Suc k" m] by blast+
  have e1: "entry m1 t j = entry m t j" if "j < 512" for j
    using same_tablesD [OF c(4) pt ct(2) that] .
  have e: "entry m2 t j = (if j = i then v else entry m t j)" if "j < 512" for j
    unfolding m2_def using that i by (simp add: entry_store [OF pt pt] e1)
  show iv: "entry m2 t i = v" using e [OF i] by simp
  have zero: "entry m2 c j = 0" if "j < 512" for j
    unfolding m2_def using that i c(3) ct(1) by (simp add: entry_store [OF pt c(2)])
  note Z = zero_table [OF c(2) zero]
  show same: "same_tables {t, c} m m2"
    unfolding m2_def by (rule same_tables_trans [OF c(4) same_tables_store [OF pt i]]) auto
  have apart: "tables (Suc k - 1) m (child (entry m t j)) \<inter> {c} = {}"
    if "j < 512" "j \<noteq> i" "is_table (Suc k) (entry m t j)" for j
    using child_tables [OF that(1,3)] c(1) ok(2) by auto
  note upd = tree_update [OF ok(1) i same ct(2) _ apart, unfolded iv]
  show "tree_ok (Suc k) m2 t" by (rule upd(1)) (use v Z in \<open>simp_all add: e\<close>)
  have old: "\<not> is_table (Suc k) (entry m t i)" using free by (simp add: is_table_def)
  have "tables (Suc k) m2 t = insert t ((\<Union>j\<in>{j. j < 512 \<and> j \<noteq> i \<and> is_table (Suc k) (entry m t j)}.
      tables k m (child (entry m t j))) \<union> {c})"
    by (subst upd(2)) (use v Z in \<open>simp_all add: e\<close>)
  moreover have "{j. j < 512 \<and> j \<noteq> i \<and> is_table (Suc k) (entry m t j)} = {j. j < 512 \<and> is_table (Suc k) (entry m t j)}"
    using old by auto
  ultimately show "tables (Suc k) m2 t = insert c (tables (Suc k) m t)"
    by (subst (2) tables_eq) auto
  have "xlat (Suc k) m t q = None" if "index_at (Suc k) q = i" for q
    using that old free by (simp add: xlat_leaf leaf_xlat_def)
  moreover have "xlat (Suc k) m2 t q = (if index_at (Suc k) q = i then None else xlat (Suc k) m t q)" for q
    by (subst upd(3)) (use v Z in \<open>simp_all add: e\<close>)
  ultimately show "xlat (Suc k) m2 t = xlat (Suc k) m t" by (auto simp: fun_eq_iff)
qed

lemma entry_fresh:
  fixes m a st k t
  defines "p \<equiv> vpn (map_va st)"
  defines "i \<equiv> index_at (Suc k) p"
  assumes ok: "tree_ok (Suc k) m t" "tables (Suc k) m t \<inter> pool a = {}" and free: "\<not> bit (entry m t i) 0"
    and c: "c \<in> pool a" "pool a1 = pool a - {c}" "page_address 12 c" "\<forall>i<512. entry m1 c i = 0" "same_tables {c} m m1"
    and v: "is_table (Suc k) v" "child v = c"
    and m2: "m2 = store64 m1 (ptde_at t (of_nat i)) v"
    and run: "runs k c d m2 a1 (count_pagetable st) r" and d: "0 < d" "p mod 512 ^ Suc k + d \<le> 512 ^ Suc k"
  shows "runs (Suc k) t d m a st r"
proof -
  have i: "i < 512" by (simp add: i_def)
  note F = fresh_table [OF ok i free c(1,3-5) v, folded m2]
  have p': "vpn (map_va (count_pagetable st)) = p" by (simp add: count_pagetable_def p_def)
  have up: "runs (Suc k) t d m2 a1 (count_pagetable st) r"
    by (rule entry_under) (use F ok(2) c(2) v run d in \<open>auto simp: p' i_def [symmetric]\<close>)
  have card: "card (pool a) = Suc (card (pool a1))"
    using c(1) unfolding c(2) by (intro card.remove) simp_all
  show ?thesis
  proof (cases r)
    case (Inl e)
    then have "stuck k c d m2 a1 (count_pagetable st)" "stuck (Suc k) t d m2 a1 (count_pagetable st)"
      using run up by simp_all
    moreover have "\<not> (\<exists>q\<in>{p..<p + d}. xlat k m2 c q \<noteq> None)"
    proof -
      have "c \<noteq> t" using c(1) ok(2) tables_self [of t "Suc k" m] by blast
      then have "entry m2 c j = 0" if "j < 512" for j
        unfolding m2 using that i c(4) by (simp add: entry_store [OF tree_ok_page [OF ok(1)] c(3)])
      then show ?thesis using zero_table(3) [OF c(3)] by simp
    qed
    ultimately have "card (pool a1) < tables_needed k p d" unfolding stuck_def p' by blast
    then have "stuck (Suc k) t d m a st"
      unfolding stuck_def p_def [symmetric] tables_needed_Suc [OF d] card by simp
    with Inl show ?thesis by simp
  next
    case (Inr w)
    then obtain m' a' st' where r: "r = Inr ((m', a'), st')" by (cases w) auto
    note K = run [unfolded r runs_Inr mapped_def p'] and U = up [unfolded r runs_Inr mapped_def p']
    have sub: "pool a' \<subseteq> pool a1" using U by blast
    have taken: "pool a - pool a' = insert c (pool a1 - pool a')" using c(1,2) sub by auto
    have cd: "card (pool a - pool a') = Suc (card (pool a1 - pool a'))"
      unfolding taken using c(2) by (simp add: card_insert_if)
    have "mapped (Suc k) t d m a st m' a' st'"
      unfolding mapped_def p_def [symmetric]
    proof (intro conjI allI impI ballI)
      show "pool a' \<subseteq> pool a" using sub c(2) by blast
      show "tables (Suc k) m' t = tables (Suc k) m t \<union> (pool a - pool a')" using U F(2) unfolding taken by blast
      show "same_tables (tables (Suc k) m' t) m m'"
        by (rule same_tables_trans [OF F(5)]) (use U F(2) in auto)
      show "moved st d (card (pool a - pool a')) st'" unfolding cd using U by (intro moved_counted) blast
      show "card (pool a - pool a') \<le> tables_needed (Suc k) p d"
        unfolding cd tables_needed_Suc [OF d] using K by simp
      show "xlat (Suc k) m' t q = spread st d (xlat (Suc k) m t) q"
        if "q div 512 ^ Suc (Suc k) = p div 512 ^ Suc (Suc k)" for q
        using U that unfolding F(3) spread_count by metis
      show "xlat (Suc k) m t q = None" if "\<not> IS_MASK_SET (map_flags st) MAP_SKIP_IF_MAPPED" "q \<in> {p..<p + d}" for q
        using U that unfolding F(3) by (simp add: count_pagetable_def)
    qed (use U in blast)+
    with r show ?thesis by simp
  qed
qed

end

section \<open>How far a body and a loop get\<close>

text \<open>The pages from \<open>p\<close> on that an entry at level \<open>k\<close> covers, if at most \<open>r\<close> are wanted.\<close>

definition reach :: "nat \<Rightarrow> nat \<Rightarrow> nat \<Rightarrow> nat" where
  "reach k p r = min r (512 ^ k - p mod 512 ^ k)"

lemma reach_bounds:
  "reach k p r \<le> r" "p mod 512 ^ k + reach k p r \<le> 512 ^ k" "0 < r \<Longrightarrow> 0 < reach k p r"
proof -
  have "p mod 512 ^ k < 512 ^ k" by simp
  then show "reach k p r \<le> r" "p mod 512 ^ k + reach k p r \<le> 512 ^ k" "0 < r \<Longrightarrow> 0 < reach k p r"
    unfolding reach_def by linarith+
qed

lemma mod_Suc_block: "p mod 512 ^ Suc k = 512 ^ k * index_at k p + p mod 512 ^ k"
  by (simp only: power_Suc2 mod_mult2_eq index_at_def)

lemma reach_mono: "reach k p r \<le> reach (Suc k) p r"
proof -
  have "512 ^ k * index_at k p \<le> 512 ^ k * 511" using index_at_less [of k p] by (intro mult_le_mono2) linarith
  then have "512 ^ k - p mod 512 ^ k \<le> 512 ^ Suc k - p mod 512 ^ Suc k"
    unfolding mod_Suc_block unfolding power_Suc by linarith
  then show ?thesis unfolding reach_def by simp
qed

lemma reach_short:
  assumes "reach k p r < r"
  shows "reach k p r = 512 ^ k - p mod 512 ^ k" "512 ^ k dvd p + reach k p r"
proof -
  show *: "reach k p r = 512 ^ k - p mod 512 ^ k" using assms unfolding reach_def by linarith
  have "p mod 512 ^ k < 512 ^ k" by simp
  then have "p + reach k p r = 512 ^ k * Suc (p div 512 ^ k)"
    unfolding * mult_Suc_right using mult_div_mod_eq [of "512 ^ k" p] by linarith
  then show "512 ^ k dvd p + reach k p r" by simp
qed

lemma reach_last:
  assumes "reach k p r < r" "index_at k p = 511"
  shows "reach (Suc k) p r = reach k p r"
proof -
  have "512 ^ Suc k - p mod 512 ^ Suc k = 512 ^ k - p mod 512 ^ k"
    unfolding mod_Suc_block assms(2) unfolding power_Suc by simp
  then show ?thesis using assms(1) unfolding reach_def by simp
qed

lemma reach_next:
  assumes "reach k p r < r" "index_at k p < 511"
  defines "d \<equiv> reach k p r"
  shows "(p + d) mod 512 ^ Suc k = p mod 512 ^ Suc k + d" "p mod 512 ^ Suc k + d < 512 ^ Suc k"
    "reach (Suc k) p r = d + reach (Suc k) (p + d) (r - d)"
proof -
  have d: "d = 512 ^ k - p mod 512 ^ k" "d < r" using reach_short(1) assms(1) by (simp_all add: d_def)
  have pm: "p mod 512 ^ k < 512 ^ k" by simp
  have "512 ^ k * Suc (index_at k p) \<le> 512 ^ k * 511" using assms(2) by (intro mult_le_mono2) simp
  then show lt: "p mod 512 ^ Suc k + d < 512 ^ Suc k"
    unfolding mod_Suc_block d mult_Suc_right unfolding power_Suc using pm by linarith
  then show m: "(p + d) mod 512 ^ Suc k = p mod 512 ^ Suc k + d"
    by (metis mod_add_left_eq mod_less)
  show "reach (Suc k) p r = d + reach (Suc k) (p + d) (r - d)"
    unfolding reach_def [of "Suc k"] m using lt d(2) by linarith
qed

lemma block_below_vpns:
  fixes p d k :: nat
  assumes "k \<le> 3" "p < 2 ^ 36" "p mod 512 ^ Suc k + d < 512 ^ Suc k"
  shows "p + d < 2 ^ 36"
proof -
  let ?N = "512 ^ Suc k :: nat"
  have eq: "?N = 2 ^ (9 * Suc k)" by (simp only: power_mult) simp
  have "9 * Suc k \<le> 36" using assms(1) by simp
  then have split: "(2 :: nat) ^ 36 = ?N * 2 ^ (36 - 9 * Suc k)"
    unfolding eq power_add [symmetric] by simp
  then have "p < 2 ^ (36 - 9 * Suc k) * ?N" using assms(2) by (simp only: mult.commute)
  then have "p div ?N < 2 ^ (36 - 9 * Suc k)" by (rule less_mult_imp_div_less)
  then have "?N * Suc (p div ?N) \<le> 2 ^ 36" unfolding split by (intro mult_le_mono2) simp
  moreover have "p + d < ?N * Suc (p div ?N)"
    unfolding mult_Suc_right using mult_div_mod_eq [of ?N p] assms(3) by linarith
  ultimately show ?thesis by linarith
qed

lemma tables_needed_mono: "0 < d \<Longrightarrow> d \<le> d' \<Longrightarrow> tables_needed k p d \<le> tables_needed k p d'"
  unfolding tables_needed_def entries_over_def
  by (intro sum_mono add_right_mono diff_le_mono div_le_mono) simp

context table_source
begin

lemma stuck_mono: "stuck k t d m a st \<Longrightarrow> 0 < d \<Longrightarrow> d \<le> d' \<Longrightarrow> stuck k t d' m a st"
  using tables_needed_mono [of d d' k "vpn (map_va st)"] unfolding stuck_def by fastforce

text \<open>The state after a run is one to run from again, as long as pages are left.\<close>

lemma mapped_ready:
  assumes "ready k t m a st" "mapped k t d m a st m' a' st'" "0 < num_remaining_pages st'"
  shows "ready k t m' a' st'"
proof -
  have mv: "moved st d (card (pool a - pool a')) st'" using assms(2) by (simp add: mapped_def)
  then have "num_remaining_pages st' = num_remaining_pages st - int d" "unat (map_pa st') = unat (map_pa st) + 4096 * d"
    by (simp_all add: moved_def)
  moreover from this(1) have "nat (num_remaining_pages st) = nat (num_remaining_pages st') + d" using assms(3) by simp
  ultimately show ?thesis
    using assms mv by (auto simp: ready_def mapped_def moved_def)
qed

lemma loop_runs:
  assumes loop: "\<And>w st. loop w st =
      (if 0 < num_remaining_pages st then
         rbind (body w st) (\<lambda>(w', st').
           if num_remaining_pages st' \<le> 0 \<or> stops \<and> index_at k (vpn (map_va st)) = 511 then Inr (w', st')
           else loop w' st')
       else Inr (w, st))"
    and body: "\<And>m a st. ready k t m a st \<Longrightarrow>
      runs k t (reach k (vpn (map_va st)) (nat (num_remaining_pages st))) m a st (body (m, a) st)"
    and k: "k \<le> 3" and R: "ready k t m a st"
    and whole: "stops \<or> vpn (map_va st) mod 512 ^ Suc k + nat (num_remaining_pages st) \<le> 512 ^ Suc k"
  shows "runs k t (reach (Suc k) (vpn (map_va st)) (nat (num_remaining_pages st))) m a st (loop (m, a) st)"
  using R whole
proof (induction "nat (num_remaining_pages st)" arbitrary: m a st rule: less_induct)
  case less
  let ?p = "vpn (map_va st)" and ?r = "nat (num_remaining_pages st)"
  let ?d = "reach k ?p ?r"
  have r: "0 < ?r" "0 < num_remaining_pages st" using less.prems(1) by (simp_all add: ready_def)
  note d = reach_bounds [where k = k and p = ?p and r = ?r]
  have B: "runs k t ?d m a st (body (m, a) st)" using less.prems(1) by (rule body)
  show ?case
  proof (cases "body (m, a) st")
    case (Inl e)
    then have "stuck k t (reach (Suc k) ?p ?r) m a st"
      using B d(3) [OF r(1)] reach_mono by (auto simp only: runs_Inl intro: stuck_mono)
    moreover have "loop (m, a) st = Inl e" using Inl r(2) by (simp add: loop [of "(m, a)" st])
    ultimately show ?thesis by (simp only: runs_Inl)
  next
    case (Inr w)
    then obtain m' a' st' where b: "body (m, a) st = Inr ((m', a'), st')" by (cases w) auto
    then have M: "mapped k t ?d m a st m' a' st'" using B by simp
    then have mv: "moved st ?d (card (pool a - pool a')) st'" by (simp add: mapped_def)
    then have "num_remaining_pages st' = num_remaining_pages st - int ?d" and v36: "vpn (map_va st') = (?p + ?d) mod 2 ^ 36"
      by (simp_all only: moved_def)
    then have r': "nat (num_remaining_pages st') = ?r - ?d" "num_remaining_pages st' \<le> 0 \<longleftrightarrow> ?d = ?r"
      using d(1) r by linarith+
    have step: "loop (m, a) st =
        (if ?d = ?r \<or> stops \<and> index_at k ?p = 511 then Inr ((m', a'), st') else loop (m', a') st')"
      using r(2) by (simp only: loop [of "(m, a)" st] b rbind_simps r'(2) if_True prod.case)
    consider (over) "?d = ?r" | (end_of_table) "?d < ?r" "stops" "index_at k ?p = 511"
      | (more) "?d < ?r" "\<not> (stops \<and> index_at k ?p = 511)" using d(1) by linarith
    then show ?thesis
    proof cases
      case over
      then have "reach (Suc k) ?p ?r = ?d" using reach_mono [of k ?p ?r] reach_bounds(1) [where k = "Suc k" and p = ?p and r = ?r] by simp
      with over M step show ?thesis by (simp only: runs_Inr simp_thms if_True)
    next
      case end_of_table
      with M step reach_last [OF end_of_table(1,3)] show ?thesis by (simp only: runs_Inr simp_thms if_True)
    next
      case more
      have idx: "index_at k ?p < 511"
      proof (rule ccontr)
        assume "\<not> index_at k ?p < 511"
        then have i: "index_at k ?p = 511" using index_at_less [of k ?p] by linarith
        with more less.prems(2) have "?p mod 512 ^ Suc k + ?r \<le> 512 ^ Suc k" by simp
        then have "?r \<le> reach (Suc k) ?p ?r" unfolding reach_def by simp
        with more(1) reach_last [OF more(1) i] show False by simp
      qed
      note nx = reach_next [OF more(1) idx]
      have v: "vpn (map_va st') = ?p + ?d"
        using v36 block_below_vpns [OF k vpn_less nx(2)] by simp
      have lt: "nat (num_remaining_pages st') < ?r" "0 < num_remaining_pages st'"
        unfolding r'(1) using r'(2) more(1) d(3) [OF r(1)] by linarith+
      have IH: "runs k t (reach (Suc k) (?p + ?d) (?r - ?d)) m' a' st' (loop (m', a') st')"
      proof -
        have "stops \<or> vpn (map_va st') mod 512 ^ Suc k + nat (num_remaining_pages st') \<le> 512 ^ Suc k"
          unfolding v r'(1) nx(1) using less.prems(2) d(1) by linarith
        from less.hyps [OF lt(1) mapped_ready [OF less.prems(1) M lt(2)] this]
        show ?thesis unfolding v r'(1) .
      qed
      have D: "reach (Suc k) ?p ?r = ?d + reach (Suc k) (?p + ?d) (?r - ?d)" by (rule nx(3))
      have pos: "0 < reach (Suc k) (?p + ?d) (?r - ?d)" using more(1) by (intro reach_bounds(3)) simp
      have fits: "?p mod 512 ^ Suc k + (?d + reach (Suc k) (?p + ?d) (?r - ?d)) \<le> 512 ^ Suc k"
        unfolding D [symmetric] by (rule reach_bounds(2))
      note side = v reach_short(2) [OF more(1)] d(3) [OF r(1)] pos fits
      have "loop (m, a) st = loop (m', a') st'" using step more by (metis less_irrefl)
      moreover have "runs k t (?d + reach (Suc k) (?p + ?d) (?r - ?d)) m a st (loop (m', a') st')"
      proof (cases "loop (m', a') st'")
        case (Inl e)
        then show ?thesis using IH stuck_trans [OF M _ side] by (simp only: runs_Inl)
      next
        case (Inr w)
        then obtain m2 a2 st2 where "loop (m', a') st' = Inr ((m2, a2), st2)" by (cases w) auto
        then show ?thesis using IH mapped_trans [OF M _ side] by (simp only: runs_Inr)
      qed
      ultimately show ?thesis by (simp only: D)
    qed
  qed
qed

section \<open>The body of a level above the lowest\<close>

text \<open>The check after the table below an entry has been filled never fires.\<close>

lemma under_same:
  assumes "runs k c (reach (Suc k) (vpn (map_va st)) (nat (num_remaining_pages st))) m a st res"
    and R: "ready k c m a st" and k: "k \<le> 3"
  shows "rbind res (\<lambda>(w', st').
      if 0 < num_remaining_pages st' \<and> \<not> IS_ALIGNED (map_va st') (BIT_MASK (12 + 9 * Suc k)) then Inl x
      else Inr (w', st')) = res"
proof (cases "res")
  case (Inr w)
  then obtain m' a' st' where s: "res = Inr ((m', a'), st')" by (cases w) auto
  let ?p = "vpn (map_va st)" and ?r = "nat (num_remaining_pages st)"
  let ?d = "reach (Suc k) ?p ?r"
  have "mapped k c ?d m a st m' a' st'" using assms(1) by (simp only: s runs_Inr)
  then have mv: "moved st ?d (card (pool a - pool a')) st'" by (simp only: mapped_def)
  have "IS_ALIGNED (map_va st') (BIT_MASK (12 + 9 * Suc k))" if "0 < num_remaining_pages st'"
  proof -
    have "num_remaining_pages st' = num_remaining_pages st - int ?d" using mv by (simp only: moved_def)
    then have "?d < ?r" using that by linarith
    then have dvd: "512 ^ Suc k dvd ?p + ?d" by (rule reach_short(2))
    have "(512 :: nat) ^ Suc k = 2 ^ (9 * Suc k)" by (simp only: power_mult) simp
    moreover have "9 * Suc k \<le> 36" using k by simp
    ultimately have "512 ^ Suc k dvd (2 :: nat) ^ 36" by (simp only: le_imp_power_dvd)
    then have "512 ^ Suc k dvd (?p + ?d) mod 2 ^ 36" using dvd by (simp only: dvd_mod)
    then have "512 ^ Suc k dvd vpn (map_va st')" using mv by (simp only: moved_def)
    moreover have "4096 dvd unat (map_va st')" using mv by (simp only: moved_def)
    ultimately show ?thesis using k by (subst aligned_vpn) simp_all
  qed
  with s show ?thesis by simp
qed simp

lemma table_body_runs:
  fixes m a st k t
  defines "p \<equiv> vpn (map_va st)"
  defines "i \<equiv> index_at (Suc k) p"
  defines "e \<equiv> entry m t i" and "d \<equiv> reach (Suc k) p (nat (num_remaining_pages st))"
  assumes sub: "\<And>c m a st. ready k c m a st \<Longrightarrow>
      runs k c (reach (Suc k) (vpn (map_va st)) (nat (num_remaining_pages st))) m a st (sub c (m, a) st)"
    and go: "\<And>c w st. go c w st = rbind (sub c w st) (\<lambda>(w', st').
      if 0 < num_remaining_pages st' \<and> \<not> IS_ALIGNED (map_va st') (BIT_MASK (12 + 9 * Suc k)) then Inl x
      else Inr (w', st'))"
    and f: "f \<in> {alloc_pud al, alloc_pmd al, alloc_ptd al}" and k: "k \<le> 2"
    and R: "ready (Suc k) t m a st"
    and fits: "fits \<Longrightarrow> (Suc k = 1 \<or> Suc k = 2) \<and> 512 ^ Suc k dvd p \<and>
      page_address (12 + 9 * Suc k) (map_pa st) \<and> 512 ^ Suc k \<le> nat (num_remaining_pages st) \<and>
      unat n = 512 ^ Suc k \<and> page = (map_pa st AND NOT (mask (12 + 9 * Suc k))) OR
        (PAGE_FLAG_PSE OR map_flags_to_page_flags (map_flags st))"
    and r: "r = (if \<not> bit e 0 \<and> fits
        then Inr ((store64 m (ptde_at t (of_nat i)) page, a), advance_pages n st)
        else if bit e 0 \<and> huge (Suc k) e then Inl y
        else if \<not> bit e 0 then rbind (f (m, a)) (\<lambda>(c, w).
          go c (store64 (fst w) (ptde_at t (of_nat i)) ((c AND NOT PAGE_MASK) OR PAGE_FLAG_DEFAULT), snd w)
            (count_pagetable st))
        else go (child e) (m, a) st)"
  shows "runs (Suc k) t d m a st r"
proof -
  have rem: "0 < nat (num_remaining_pages st)" using R by (simp add: ready_def)
  have ok: "ok a" "tree_ok (Suc k) m t" "tables (Suc k) m t \<inter> pool a = {}" using R by (simp_all add: ready_def)
  have d: "0 < d" "p mod 512 ^ Suc k + d \<le> 512 ^ Suc k"
    unfolding d_def by (rule reach_bounds(3) [OF rem]) (rule reach_bounds(2))
  have i: "i < 512" by (simp add: i_def)
  consider (page) "\<not> bit e 0" "fits" | (overlap) "bit e 0" "huge (Suc k) e"
    | (fresh) "\<not> bit e 0" "\<not> fits" | (table) "bit e 0" "\<not> huge (Suc k) e" by blast
  then show ?thesis
  proof cases
    case page
    note F = fits [OF page(2)]
    then have "d = 512 ^ Suc k" unfolding d_def reach_def by simp
    moreover have "mapped (Suc k) t (512 ^ Suc k) m a st (store64 m (ptde_at t (of_nat i)) page) a (advance_pages n st)"
      unfolding i_def p_def by (rule entry_page) (use R F page in \<open>simp_all add: e_def i_def p_def\<close>)
    ultimately show ?thesis using page r by simp
  next
    case overlap
    then have "xlat (Suc k) m t p \<noteq> None"
      by (subst xlat_leaf) (simp_all add: is_table_def leaf_xlat_def e_def i_def)
    moreover have "p \<in> {p..<p + d}" using d(1) by simp
    ultimately have "stuck (Suc k) t d m a st" unfolding stuck_def p_def [symmetric] by blast
    with overlap r show ?thesis by simp
  next
    case table
    then have tab: "is_table (Suc k) e" by (simp add: is_table_def)
    have "tree_ok k m (child e)" "tables k m (child e) \<inter> pool a = {}"
      using tree_ok_child(1) [OF ok(2) i] child_tables [OF i, of "Suc k" m t] tab ok(3) by (auto simp: e_def)
    then have Rc: "ready k (child e) m a st" using R by (simp add: ready_def)
    have "r = sub (child e) (m, a) st"
      using table r under_same [OF sub [OF Rc] Rc] k by (simp add: go)
    then have "runs k (child e) d m a st r" using sub [OF Rc] by (simp add: d_def p_def)
    then show ?thesis
      using ok tab d unfolding e_def i_def p_def by (intro entry_under) simp_all
  next
    case fresh
    show ?thesis
    proof (cases "f (m, a)")
      case (Inl e')
      then have "pool a = {}" using alloc_fails [OF f ok(1)] by blast
      then have "stuck (Suc k) t d m a st" unfolding stuck_def p_def [symmetric] tables_needed_Suc [OF d] by simp
      with Inl fresh r show ?thesis by simp
    next
      case (Inr w)
      then obtain c m1 a1 where fc: "f (m, a) = Inr (c, m1, a1)" by (cases w) auto
      note G = alloc_gives [OF f ok(1) fc]
      let ?v = "(c AND NOT PAGE_MASK) OR PAGE_FLAG_DEFAULT"
      let ?m = "store64 m1 (ptde_at t (of_nat i)) ?v"
      have v: "is_table (Suc k) ?v" "child ?v = c"
        using G table_entry [of c "Suc k"] by simp_all
      have c: "c \<in> pool a" "page_address 12 c" "\<forall>i<512. entry m1 c i = 0" "same_tables {c} m m1"
        using G by blast+
      note F = fresh_table [OF ok(2,3) i fresh(1) [unfolded e_def] c v]
      have "tree_ok k ?m c" "tables k ?m c \<inter> pool a1 = {}"
        using tree_ok_child(1) [OF F(1) i] child_tables [OF i, of "Suc k" ?m t] v G ok(3)
        unfolding F(2,4) by auto
      then have Rc: "ready k c ?m a1 (count_pagetable st)"
        using R G by (simp add: ready_def count_pagetable_def)
      have "r = sub c (?m, a1) (count_pagetable st)"
        using fresh fc r under_same [OF sub [OF Rc] Rc] k by (simp add: go)
      then have "runs k c d ?m a1 (count_pagetable st) r"
        using sub [OF Rc] by (simp add: d_def p_def count_pagetable_def)
      then show ?thesis
        using ok d G v fresh(1) unfolding e_def i_def p_def by (intro entry_fresh) simp_all
    qed
  qed
qed

end

section \<open>The four levels\<close>

lemma aligned_dvd_vpn: "IS_ALIGNED va (BIT_MASK (12 + 9 * k)) \<Longrightarrow> k \<le> 4 \<Longrightarrow> 512 ^ k dvd vpn va"
proof -
  assume a: "IS_ALIGNED va (BIT_MASK (12 + 9 * k))" "k \<le> 4"
  then have "2 ^ (12 + 9 * k) dvd unat va" by (simp only: IS_ALIGNED_iff)
  moreover have "(4096 :: nat) dvd 2 ^ (12 + 9 * k)" by (simp add: power_add)
  ultimately have "4096 dvd unat va" by (rule dvd_trans [rotated])
  with a show ?thesis by (simp only: aligned_vpn)
qed

lemma aligned_page_address: "IS_ALIGNED pa (BIT_MASK s) \<Longrightarrow> unat pa < 2 ^ 48 \<Longrightarrow> page_address s pa"
  by (simp only: IS_ALIGNED_iff page_address_iff)

lemma last_index_iff:
  "last_index (virt_ptde_index va) \<longleftrightarrow> index_at 0 (vpn va) = 511"
  "last_index (virt_pmde_index va) \<longleftrightarrow> index_at 1 (vpn va) = 511"
  "last_index (virt_pude_index va) \<longleftrightarrow> index_at 2 (vpn va) = 511"
  by (simp_all add: virt_index_vpn unat_index NUM_PAGE_TABLE_ENTRIES_def)

lemma present_bit:
  "pgde_present e = bit e 0" "pude_present e = bit e 0" "pmde_present e = bit e 0" "ptde_present e = bit e 0"
  "pude_1gib e = bit e 7" "pmde_2mib e = bit e 7"
  by (simp_all add: entry_reader_defs macro_simps)

lemma page_sizes_bits:
  "PAGE_SIZE_2MIB = BIT_MASK (12 + 9 * Suc 0)" "PAGE_SIZE_1GIB = BIT_MASK (12 + 9 * Suc (Suc 0))"
  "PGD_SIZE = BIT_MASK (12 + 9 * Suc (Suc (Suc 0)))"
  "PAGE_MASK = mask 12" "PAGE_MASK_2MIB = mask (12 + 9 * Suc 0)" "PAGE_MASK_1GIB = mask (12 + 9 * Suc (Suc 0))"
  by (simp_all add: page_mask_defs macro_simps)

context table_source
begin

lemma ready_page_address: "ready k t m a st \<Longrightarrow> page_address 12 (map_pa st)" "ready k t m a st \<Longrightarrow> unat (map_pa st) < 2 ^ 48"
proof -
  assume R: "ready k t m a st"
  then have "0 < num_remaining_pages st" "unat (map_pa st) + 4096 * nat (num_remaining_pages st) \<le> 2 ^ 48"
    by (simp_all only: ready_def)
  then show "unat (map_pa st) < 2 ^ 48" by linarith
  then show "page_address 12 (map_pa st)" using R by (simp add: page_address_iff ready_def)
qed

lemma ptd_entry_runs:
  assumes R: "ready 0 t m a st"
  shows "runs 0 t (reach 0 (vpn (map_va st)) (nat (num_remaining_pages st))) m a st (map_ptd_entry t (m, a) st)"
proof -
  let ?p = "vpn (map_va st)"
  let ?e = "entry m t (index_at 0 ?p)"
  have e: "load64 m (ptde_at t (virt_ptde_index (map_va st))) = ?e" by (simp add: entry_def virt_index_vpn)
  have one: "reach 0 ?p (nat (num_remaining_pages st)) = 1"
  proof -
    have "0 < num_remaining_pages st" using R by (simp only: ready_def)
    then show ?thesis unfolding reach_def by simp
  qed
  show ?thesis
  proof (cases "bit ?e 0")
    case True
    then have some: "xlat 0 m t ?p \<noteq> None" by (simp add: leaf_xlat_def)
    show ?thesis
    proof (cases "IS_MASK_SET (map_flags st) MAP_SKIP_IF_MAPPED")
      case skip: True
      have "unat (map_pa st) + 4096 * unat (1 :: u64) < 2 ^ 64" using ready_page_address(2) [OF R] by simp
      then have "moved st 1 0 (advance_pages 1 st)"
        using R moved_advance [of st 1] by (simp add: ready_def)
      moreover have "xlat 0 m t q = spread st 1 (xlat 0 m t) q" for q
        using some by (cases "q = ?p") (auto simp: spread_def simp del: xlat.simps)
      ultimately have "mapped 0 t 1 m a st m a (advance_pages 1 st)"
        using R skip by (simp add: mapped_def ready_def del: xlat.simps)
      then show ?thesis using True skip by (simp add: map_ptd_entry_def e present_bit one)
    next
      case False
      have "stuck 0 t 1 m a st" using some by (auto simp: stuck_def)
      then show ?thesis using True False by (simp add: map_ptd_entry_def e present_bit one)
    qed
  next
    case False
    have "mapped 0 t (512 ^ 0) m a st
        (store64 m (ptde_at t (of_nat (index_at 0 ?p)))
          ((map_pa st AND NOT (mask (12 + 9 * 0))) OR map_flags_to_page_flags (map_flags st))) a (advance_pages 1 st)"
      by (rule entry_page) (use R False ready_page_address [OF R] in \<open>simp_all add: ready_def Suc_le_eq\<close>)
    then show ?thesis
      using False by (simp add: map_ptd_entry_def Let_def entry_def present_bit one assign_data_def virt_index_vpn
        page_sizes_bits)
  qed
qed

lemma ptd_nothing_left: "num_remaining_pages st \<le> 0 \<Longrightarrow> map_page_range_ptd t w st = Inr (w, st)"
  by (subst map_page_range_ptd.simps) simp

lemma ptd_runs:
  assumes "ready 0 t m a st"
  shows "runs 0 t (reach (Suc 0) (vpn (map_va st)) (nat (num_remaining_pages st))) m a st
    (map_page_range_ptd t (m, a) st)"
proof (rule loop_runs [where stops = True, OF _ ptd_entry_runs _ assms])
  fix w :: "'a world" and st
  show "map_page_range_ptd t w st =
      (if 0 < num_remaining_pages st then
         rbind (map_ptd_entry t w st) (\<lambda>(w', st').
           if num_remaining_pages st' \<le> 0 \<or> True \<and> index_at 0 (vpn (map_va st)) = 511 then Inr (w', st')
           else map_page_range_ptd t w' st')
       else Inr (w, st))"
    by (subst map_page_range_ptd.simps, rule if_cong [OF refl], rule rbind_cong [OF refl])
      (auto simp: last_index_iff [unfolded One_nat_def] ptd_nothing_left)
qed simp_all

lemma page_fits:
  assumes "ready j t m a st" "k \<le> 4"
    and "IS_ALIGNED (map_va st) (BIT_MASK (12 + 9 * k)) \<and> IS_ALIGNED (map_pa st) (BIT_MASK (12 + 9 * k)) \<and>
      num_remaining_pages st \<ge> uint n" and "unat n = 512 ^ k"
  shows "512 ^ k dvd vpn (map_va st) \<and> page_address (12 + 9 * k) (map_pa st) \<and>
    512 ^ k \<le> nat (num_remaining_pages st) \<and> unat n = 512 ^ k"
proof -
  have "uint n = int (512 ^ k)" using assms(4) by (metis uint_nat)
  with assms show ?thesis
    using aligned_dvd_vpn aligned_page_address ready_page_address(2) [OF assms(1)] by (auto simp: le_nat_iff)
qed

lemmas body_defs = Let_def present_bit virt_index_vpn entry_def entry_at_eq child_def split_def
  assign_data_2mib_def assign_data_1gib_def assign_ptd_def assign_pmd_def assign_pud_def
  pmde_ptd_def pude_pmd_def pgde_pud_def

lemma pmd_entry_runs:
  assumes R: "ready 1 t m a st"
  shows "runs 1 t (reach 1 (vpn (map_va st)) (nat (num_remaining_pages st))) m a st (map_pmd_entry al t (m, a) st)"
  unfolding One_nat_def
proof (rule table_body_runs [where sub = map_page_range_ptd and f = "alloc_ptd al"
      and fits = "IS_ALIGNED (map_va st) PAGE_SIZE_2MIB \<and> IS_ALIGNED (map_pa st) PAGE_SIZE_2MIB \<and>
        num_remaining_pages st \<ge> uint NUM_PAGES_PTD" and n = NUM_PAGES_PTD
      and x = "Panic ''%lu pages unassigned under PMD for VA 0x%lx''"
      and y = "Panic ''Unable to map VA 0x%lx at PA 0x%lx as 2 MiB PMDE already maps to 0x%lx''",
      OF ptd_runs refl])
  assume "IS_ALIGNED (map_va st) PAGE_SIZE_2MIB \<and> IS_ALIGNED (map_pa st) PAGE_SIZE_2MIB \<and>
      num_remaining_pages st \<ge> uint NUM_PAGES_PTD"
  then show "(Suc 0 = 1 \<or> Suc 0 = 2) \<and> 512 ^ Suc 0 dvd vpn (map_va st) \<and>
      page_address (12 + 9 * Suc 0) (map_pa st) \<and> 512 ^ Suc 0 \<le> nat (num_remaining_pages st) \<and>
      unat NUM_PAGES_PTD = 512 ^ Suc 0 \<and>
      (map_pa st AND NOT (mask (12 + 9 * Suc 0))) OR (PAGE_FLAG_PSE OR map_flags_to_page_flags (map_flags st)) =
      (map_pa st AND NOT (mask (12 + 9 * Suc 0))) OR (PAGE_FLAG_PSE OR map_flags_to_page_flags (map_flags st))"
    using page_fits [OF R, of "Suc 0" NUM_PAGES_PTD] by (simp add: NUM_PAGES_PTD_def page_sizes_bits)
qed (use R in \<open>simp_all add: map_pmd_entry_def body_defs page_sizes_bits huge_def\<close>)

lemma pmd_runs:
  assumes "ready 1 t m a st"
  shows "runs 1 t (reach (Suc 1) (vpn (map_va st)) (nat (num_remaining_pages st))) m a st
    (map_page_range_pmd al t (m, a) st)"
  by (rule loop_runs [where stops = True, OF _ pmd_entry_runs _ assms])
    (simp_all add: map_page_range_pmd.simps [of al t] last_index_iff [unfolded One_nat_def])

lemma pud_entry_runs:
  assumes R: "ready 2 t m a st"
  shows "runs 2 t (reach 2 (vpn (map_va st)) (nat (num_remaining_pages st))) m a st (map_pud_entry al t (m, a) st)"
  unfolding numeral_2_eq_2
proof (rule table_body_runs [where sub = "map_page_range_pmd al" and f = "alloc_pmd al"
      and fits = "IS_ALIGNED (map_va st) PAGE_SIZE_1GIB \<and> IS_ALIGNED (map_pa st) PAGE_SIZE_1GIB \<and>
        num_remaining_pages st \<ge> uint NUM_PAGES_PMD" and n = NUM_PAGES_PMD
      and x = "Panic ''%lu pages unassigned under PUD for VA 0x%lx''"
      and y = "Panic ''Unable to map VA 0x%lx at PA 0x%lx as 1 GiB PUDE already maps to 0x%lx''",
      OF pmd_runs [unfolded One_nat_def] refl])
  assume "IS_ALIGNED (map_va st) PAGE_SIZE_1GIB \<and> IS_ALIGNED (map_pa st) PAGE_SIZE_1GIB \<and>
      num_remaining_pages st \<ge> uint NUM_PAGES_PMD"
  then show "(Suc (Suc 0) = 1 \<or> Suc (Suc 0) = 2) \<and> 512 ^ Suc (Suc 0) dvd vpn (map_va st) \<and>
      page_address (12 + 9 * Suc (Suc 0)) (map_pa st) \<and> 512 ^ Suc (Suc 0) \<le> nat (num_remaining_pages st) \<and>
      unat NUM_PAGES_PMD = 512 ^ Suc (Suc 0) \<and>
      (map_pa st AND NOT (mask (12 + 9 * Suc (Suc 0)))) OR (PAGE_FLAG_PSE OR map_flags_to_page_flags (map_flags st)) =
      (map_pa st AND NOT (mask (12 + 9 * Suc (Suc 0)))) OR (PAGE_FLAG_PSE OR map_flags_to_page_flags (map_flags st))"
    using page_fits [OF R, of "Suc (Suc 0)" NUM_PAGES_PMD]
    by (simp add: NUM_PAGES_PMD_def NUM_PAGES_PTD_def page_sizes_bits)
qed (use R in \<open>simp_all add: map_pud_entry_def body_defs page_sizes_bits huge_def numeral_2_eq_2\<close>)

lemma pud_runs:
  assumes "ready 2 t m a st"
  shows "runs 2 t (reach (Suc 2) (vpn (map_va st)) (nat (num_remaining_pages st))) m a st
    (map_page_range_pud al t (m, a) st)"
  by (rule loop_runs [where stops = True, OF _ pud_entry_runs _ assms])
    (simp_all add: map_page_range_pud.simps [of al t] last_index_iff [unfolded One_nat_def])

lemma pgd_entry_runs:
  assumes R: "ready 3 t m a st"
  shows "runs 3 t (reach 3 (vpn (map_va st)) (nat (num_remaining_pages st))) m a st (map_pgd_entry al t (m, a) st)"
  unfolding numeral_3_eq_3
  by (rule table_body_runs [where sub = "map_page_range_pud al" and f = "alloc_pud al" and fits = False
      and x = "Panic ''%lu pages unassigned under PGD for VA 0x%lx''", OF pud_runs [unfolded numeral_2_eq_2] refl])
    (use R in \<open>simp_all add: map_pgd_entry_def body_defs page_sizes_bits huge_def numeral_3_eq_3\<close>)

lemma pgd_runs:
  assumes "ready 3 t m a st" "vpn (map_va st) + nat (num_remaining_pages st) \<le> 2 ^ 36"
  shows "runs 3 t (nat (num_remaining_pages st)) m a st (map_pgd_entries al t (m, a) st)"
proof -
  have "vpn (map_va st) mod 512 ^ Suc 3 = vpn (map_va st)" using vpn_less [of "map_va st"] by simp
  then have fits: "vpn (map_va st) mod 512 ^ Suc 3 + nat (num_remaining_pages st) \<le> 512 ^ Suc 3"
    using assms(2) by simp
  then have "reach (Suc 3) (vpn (map_va st)) (nat (num_remaining_pages st)) = nat (num_remaining_pages st)"
    unfolding reach_def by linarith
  moreover have "runs 3 t (reach (Suc 3) (vpn (map_va st)) (nat (num_remaining_pages st))) m a st
      (map_pgd_entries al t (m, a) st)"
    by (rule loop_runs [where stops = False, OF _ pgd_entry_runs _ assms(1)])
      (use fits in \<open>simp_all add: map_pgd_entries.simps [of al t]\<close>)
  ultimately show ?thesis by simp
qed

end

section \<open>Walking\<close>

fun level_number :: "page_level_t \<Rightarrow> nat" where
  "level_number PTD = 0"
| "level_number PMD = 1"
| "level_number PUD = 2"
| "level_number PGD = 3"

lemma walk_xlat:
  "xlat 3 m pgd (vpn va) = (case walk_to_data m pgd va of Inl e \<Rightarrow> None
     | Inr (raw, level) \<Rightarrow> leaf_xlat (level_number level) raw (vpn va))"
  "walk_to_data m pgd va = Inr (raw, level) \<Longrightarrow> bit raw 0 \<and> level \<noteq> PGD \<and> (bit raw 7 \<or> level = PTD)"
  by (auto simp: walk_to_data_def Let_def xlat.simps(2) numeral_3_eq_3 numeral_2_eq_2 is_table_def huge_def
      leaf_xlat_def present_bit entry_def entry_at_eq virt_index_vpn [unfolded numeral_3_eq_3 numeral_2_eq_2 One_nat_def]
      child_def pgde_pud_def pude_pmd_def pmde_ptd_def split: if_splits)

text \<open>The level number, page base and flags that the two walking functions report.\<close>

lemma walk_reports:
  "walk_to_data m pgd va = Inr (raw, level) \<Longrightarrow>
    walk_virt_to_phys m pgd va = Inr (leaf_data (level_number level) raw) \<and>
    walk_virt_to_raw_flags m pgd va = Inr (raw AND PAGE_TABLE_FLAG_MASK)"
  using walk_xlat(2) [of m pgd va raw level]
  by (cases level) (auto simp: walk_virt_to_phys_def walk_virt_to_raw_flags_def leaf_data_def entry_reader_defs
      page_mask_defs)

end
