(* ===== verification/Early_Map.thy ===== *)
theory Early_Map
  imports Early_Init Page_Map_Correct
begin

text \<open>
  Page tables built from the early page allocator. The table allocators of
  \<^verbatim>\<open>include/early_mem.h\<close> (generated by \<^verbatim>\<open>GEN_PAGE_ALLOC\<close> and \<^verbatim>\<open>GEN_PAGE_FREE\<close>) and the structure
  \<^verbatim>\<open>early_allocators\<close> of \<^verbatim>\<open>early/mem.c\<close> are given, and shown to keep the contract
  \<open>table_source\<close> that the mapping code asks of its allocators; with that, mapping a range and
  walking the tables afterwards are shown correct for the tables early boot builds.

  \<open>mem s\<close> is the memory of the machine as the kernel addresses it. The mapping code threads it
  beside the allocator's state, so \<open>with_memory\<close> puts it into the state for a call and takes it
  out again.
\<close>

section \<open>Table allocators\<close>

definition early_alloc_pgd :: "early_state \<Rightarrow> (physaddr_t \<times> early_state) result" where
  "early_alloc_pgd s = early_pagetable_alloc s"
definition early_alloc_pud :: "early_state \<Rightarrow> (physaddr_t \<times> early_state) result" where
  "early_alloc_pud s = early_pagetable_alloc s"
definition early_alloc_pmd :: "early_state \<Rightarrow> (physaddr_t \<times> early_state) result" where
  "early_alloc_pmd s = early_pagetable_alloc s"
definition early_alloc_ptd :: "early_state \<Rightarrow> (physaddr_t \<times> early_state) result" where
  "early_alloc_ptd s = early_pagetable_alloc s"

definition early_free_pgd :: "physaddr_t \<Rightarrow> early_state \<Rightarrow> early_state result" where
  "early_free_pgd addr s = early_page_free addr s"
definition early_free_pud :: "physaddr_t \<Rightarrow> early_state \<Rightarrow> early_state result" where
  "early_free_pud addr s = early_page_free addr s"
definition early_free_pmd :: "physaddr_t \<Rightarrow> early_state \<Rightarrow> early_state result" where
  "early_free_pmd addr s = early_page_free addr s"
definition early_free_ptd :: "physaddr_t \<Rightarrow> early_state \<Rightarrow> early_state result" where
  "early_free_ptd addr s = early_page_free addr s"

definition with_memory :: "(early_state \<Rightarrow> (physaddr_t \<times> early_state) result) \<Rightarrow>
    early_state world \<Rightarrow> (physaddr_t \<times> early_state world) result" where
  "with_memory f w = rbind (f ((snd w)\<lparr>mem := fst w\<rparr>)) (\<lambda>(pa, s). Inr (pa, mem s, s))"

definition early_allocators :: "early_state page_allocators" where
  "early_allocators =
     \<lparr>alloc_pud = with_memory early_alloc_pud, alloc_pmd = with_memory early_alloc_pmd,
      alloc_ptd = with_memory early_alloc_ptd, alloc_data = with_memory early_page_alloc_zero\<rparr>"

text \<open>A call of \<^verbatim>\<open>_map_page_range\<close> with \<^verbatim>\<open>&early_allocators\<close>.\<close>

definition early_map_page_range :: "physaddr_t \<Rightarrow> virtaddr_t \<Rightarrow> physaddr_t \<Rightarrow> int \<Rightarrow> map_flags_t \<Rightarrow>
    early_state \<Rightarrow> (u64 \<times> early_state) result" where
  "early_map_page_range pgd va pa num_pages flags s =
     rbind (map_page_range pgd va pa num_pages flags early_allocators (mem s, s))
       (\<lambda>(n, m, s). Inr (n, s\<lparr>mem := m\<rparr>))"

section \<open>The allocators keep their contract\<close>

lemma entry_zero_page:
  assumes "page_address 12 t" "page_address 12 u" "i < 512"
  shows "entry (zero_page m t) u i = (if u = t then 0 else entry m u i)"
proof -
  let ?dest = "phys_to_virt_ptr t" and ?a = "ptde_at u (of_nat i)"
  have a: "?a + of_nat b - ?dest = (u + 8 * of_nat i + of_nat b) - t" for b
    by (simp add: ptde_at_def phys_to_virt_ptr_def phys_to_virt_def)
  have ui: "unat (u + 8 * of_nat i) = unat u + 8 * i"
    using unat_entry_offset [OF assms(2), of "of_nat i"] assms(3) by (simp add: unat_index)
  have lt: "unat u < 2 ^ 48" "unat t < 2 ^ 48" "4096 dvd unat u" "4096 dvd unat t"
    using assms by (simp_all add: page_address_iff)
  have size: "unat PAGE_SIZE = 4096" by (simp add: unat_page_sizes)
  show ?thesis
  proof (cases "u = t")
    case True
    have "unat (?a - ?dest) = 8 * i"
      using a [of 0] ui True assms(3) by (simp add: unat_word_ariths unat_of_nat)
    then show ?thesis
      unfolding entry_def zero_page_def using True assms(3) size by (simp add: load64_memset_zero)
  next
    case False
    then have ne: "unat u \<noteq> unat t" by (simp add: word_unat_eq_iff)
    have "4096 \<le> unat (?a + of_nat b - ?dest)" if b: "b < 8" for b
    proof -
      have "unat (u + 8 * of_nat i + of_nat b) = unat u + 8 * i + b"
        using ui b assms(3) lt(1) by (subst unat_plus_no_wrap) (simp_all add: unat_of_nat)
      moreover have "unat u + 4096 \<le> unat t \<or> unat t + 4096 \<le> unat u"
        using ne lt(3,4) by (auto elim!: dvdE)
      ultimately show ?thesis
        unfolding a using lt(1,2) b assms(3) by (auto simp: unat_diff_wrap)
    qed
    then show ?thesis
      unfolding entry_def zero_page_def using False size by (simp add: load64_memset_outside)
  qed
qed

lemma early_inv_mem [simp]:
  "early_inv (s\<lparr>mem := m\<rparr>) = early_inv s" "early_pages (s\<lparr>mem := m\<rparr>) k = early_pages s k"
  "managed_pages (s\<lparr>mem := m\<rparr>) = managed_pages s"
  by (simp_all add: early_inv_def spans_ok_def maps_ok_def map_of_kind_def early_pages_def managed_pages_def
      find_span_def)

text \<open>The invariant with the managed pages inside the 48 bits an entry can address.\<close>

definition early_ok :: "early_state \<Rightarrow> bool" where
  "early_ok s \<longleftrightarrow> early_inv s \<and> (\<forall>pa\<in>managed_pages s. unat pa < 2 ^ 48)"

text \<open>What the allocation of tables leaves alone: it only turns unused pages into tables.\<close>

definition early_span_list :: "early_state \<Rightarrow> (physaddr_t \<times> u64) list" where
  "early_span_list s = map (\<lambda>i. (es_start (span_at s i), es_num_pages (span_at s i))) [0..<span_count s]"

definition table_frame ::
    "early_state \<Rightarrow> (physaddr_t \<times> u64) list \<times> physaddr_t set \<times> physaddr_t set \<times> physaddr_t set \<times> physaddr_t set" where
  "table_frame s = (early_span_list s, managed_pages s, early_pages s EARLY_ALLOC_EPHEMERAL,
     early_pages s EARLY_ALLOC_PHYSBLOCK, early_pages s EARLY_ALLOC_PAGETABLE \<union> unused_pages s)"

lemma early_span_list_mem [simp]: "early_span_list (s\<lparr>mem := m\<rparr>) = early_span_list s"
  by (simp add: early_span_list_def)

lemma alloc_span_list:
  assumes "early_inv s" "alloc t s = Inr (pa, s')"
  shows "early_span_list s' = early_span_list s"
  using alloc_cases [OF assms(1), of t] assms(2) by cases (auto simp: early_span_list_def mark_span)

lemma pagetable_alloc_spec:
  assumes "early_ok s" "early_pagetable_alloc s = Inr (pa, s')"
  shows "early_ok s' \<and> pa \<in> unused_pages s \<and> unused_pages s' = unused_pages s - {pa} \<and>
    page_address 12 pa \<and> mem s' = zero_page (mem s) pa \<and> managed_pages s' = managed_pages s \<and>
    early_pages s' EARLY_ALLOC_PAGETABLE = insert pa (early_pages s EARLY_ALLOC_PAGETABLE) \<and>
    table_frame s' = table_frame s"
proof -
  obtain s1 where s1: "alloc EARLY_ALLOC_PAGETABLE s = Inr (pa, s1)" "s' = zero_page_early pa s1"
    using assms(2) by (auto simp: early_pagetable_alloc_def rbind_Inr_iff)
  have inv: "early_inv s" using assms(1) by (simp add: early_ok_def)
  note A = alloc_spec [OF inv s1(1)]
  have "pa \<in> managed_pages s" using A(1) by blast
  then have "page_address 12 pa" using assms(1) by (simp add: early_ok_def managed_pages_def page_address_iff)
  moreover have "early_pages s' EARLY_ALLOC_PAGETABLE \<union> unused_pages s' =
      early_pages s EARLY_ALLOC_PAGETABLE \<union> unused_pages s"
    using A(1) A(4) [of EARLY_ALLOC_PAGETABLE] A(5) s1(2) by (auto simp: zero_page_early_def sets_kind_def)
  ultimately show ?thesis
    using A s1(2) assms(1) alloc_span_list [OF inv s1(1)]
    by (simp add: zero_page_early_def early_ok_def sets_kind_def table_frame_def)
qed

lemma pagetable_alloc_fails:
  assumes "early_ok s" "early_pagetable_alloc s = Inl e"
  shows "unused_pages s = {}"
proof -
  have "\<exists>e. alloc EARLY_ALLOC_PAGETABLE s = Inl e"
    using assms(2) by (auto simp: early_pagetable_alloc_def rbind_Inl_iff split: prod.splits)
  moreover have "early_inv s" using assms(1) by (simp add: early_ok_def)
  ultimately show ?thesis using early.take_some [of s EARLY_ALLOC_PAGETABLE] by auto
qed

interpretation early_tables: table_source early_allocators "\<lambda>s. early_ok s \<and> table_frame s = K" unused_pages for K
proof unfold_locales
  fix f a m t m' a' e
  assume f: "f \<in> {alloc_pud early_allocators, alloc_pmd early_allocators, alloc_ptd early_allocators}"
    and a: "early_ok a \<and> table_frame a = K"
  from f have f: "f = with_memory early_pagetable_alloc"
    by (auto simp: early_allocators_def early_alloc_pud_def early_alloc_pmd_def early_alloc_ptd_def fun_eq_iff
      with_memory_def)
  have ok': "early_ok (a\<lparr>mem := m\<rparr>)" using a by (simp add: early_ok_def)
  have fr: "table_frame (a\<lparr>mem := m\<rparr>) = K" using a by (simp add: table_frame_def)
  show "unused_pages a = {}" if "f (m, a) = Inl e"
  proof -
    have "early_pagetable_alloc (a\<lparr>mem := m\<rparr>) = Inl e"
      using that unfolding f with_memory_def by (auto simp: rbind_Inl_iff)
    then show ?thesis using pagetable_alloc_fails [OF ok'] by simp
  qed
  assume "f (m, a) = Inr (t, m', a')"
  then have a': "early_pagetable_alloc (a\<lparr>mem := m\<rparr>) = Inr (t, a')" and m': "m' = mem a'"
    unfolding f with_memory_def by (auto simp: rbind_Inr_iff)
  note P = pagetable_alloc_spec [OF ok' a', unfolded early_inv_mem]
  have "m' = zero_page m t" using P m' by simp
  then have "(\<forall>i<512. entry m' t i = 0) \<and> same_tables {t} m m'"
    using P by (auto simp: entry_zero_page same_tables_def)
  with P fr show "(early_ok a' \<and> table_frame a' = K) \<and> t \<in> unused_pages a \<and> unused_pages a' = unused_pages a - {t} \<and> page_address 12 t \<and>
      (\<forall>i<512. entry m' t i = 0) \<and> same_tables {t} m m'"
    by blast
qed

section \<open>Mapping with the early allocators\<close>

text \<open>A PGD fit to be mapped into: a tree of tables of which the allocator owns none as free.\<close>

definition pgd_ok :: "early_state \<Rightarrow> physaddr_t \<Rightarrow> bool" where
  "pgd_ok s pgd \<longleftrightarrow> early_ok s \<and> tree_ok 3 (mem s) pgd \<and> tables 3 (mem s) pgd \<inter> unused_pages s = {}"

abbreviation translation :: "early_state \<Rightarrow> physaddr_t \<Rightarrow> nat \<Rightarrow> (nat \<times> u64) option" where
  "translation s pgd \<equiv> xlat 3 (mem s) pgd"

lemma early_new_pgd:
  assumes "early_ok s" "early_alloc_pgd s = Inr (pgd, s')"
  shows "pgd_ok s' pgd" "tables 3 (mem s') pgd = {pgd}" "translation s' pgd q = None"
    "unused_pages s' = unused_pages s - {pgd}" "managed_pages s' = managed_pages s"
proof -
  note P = pagetable_alloc_spec [OF assms(1) assms(2) [unfolded early_alloc_pgd_def]]
  have z: "entry (mem s') pgd i = 0" if "i < 512" for i using P that by (simp add: entry_zero_page)
  have pa: "page_address 12 pgd" using P by simp
  note Z = zero_table [OF pa z]
  show "tables 3 (mem s') pgd = {pgd}" by (rule Z(2))
  show "translation s' pgd q = None" by (rule Z(3))
  show "pgd_ok s' pgd" using P Z(1,2) by (auto simp: pgd_ok_def)
  show "unused_pages s' = unused_pages s - {pgd}" "managed_pages s' = managed_pages s" using P by blast+
qed

lemma early_map_spec:
  assumes ok: "pgd_ok s pgd" and n: "0 < n" and pa: "4096 dvd unat pa" "unat pa + 4096 * nat n \<le> 2 ^ 48"
    and fl: "bit (map_flags_to_page_flags flags) 0" and va: "vpn va + nat n \<le> 2 ^ 36"
  defines "vpns \<equiv> {vpn va..<vpn va + nat n}"
  shows "case early_map_page_range pgd va pa n flags s of
      Inl e \<Rightarrow> (\<exists>q\<in>vpns. translation s pgd q \<noteq> None) \<or> card (unused_pages s) < tables_needed 3 (vpn va) (nat n)
    | Inr (c, s') \<Rightarrow> pgd_ok s' pgd \<and> unused_pages s' \<subseteq> unused_pages s \<and>
        tables 3 (mem s') pgd = tables 3 (mem s) pgd \<union> (unused_pages s - unused_pages s') \<and>
        same_tables (tables 3 (mem s') pgd) (mem s) (mem s') \<and>
        c = of_nat (card (unused_pages s - unused_pages s')) \<and>
        card (unused_pages s - unused_pages s') \<le> tables_needed 3 (vpn va) (nat n) \<and>
        (\<forall>q<2 ^ 36. translation s' pgd q =
          (if q \<in> vpns \<and> translation s pgd q = None
           then Some (unat pa + 4096 * (q - vpn va), map_flags_to_page_flags flags)
           else translation s pgd q)) \<and>
        (\<not> IS_MASK_SET flags MAP_SKIP_IF_MAPPED \<longrightarrow> (\<forall>q\<in>vpns. translation s pgd q = None)) \<and>
        table_frame s' = table_frame s"
proof -
  let ?K = "table_frame s"
  let ?st = "\<lparr>map_va = va, map_pa = pa, num_remaining_pages = n, num_pagetables_allocated = 0, map_flags = flags\<rparr>"
  let ?r = "map_pgd_entries early_allocators pgd (mem s, s) ?st"
  have R: "early_tables.ready ?K 3 pgd (mem s) s ?st"
    using ok n pa fl by (simp add: early_tables.ready_def pgd_ok_def)
  have run: "early_tables.runs ?K 3 pgd (nat n) (mem s) s ?st ?r"
    using early_tables.pgd_runs [OF R] va by simp
  show ?thesis
  proof (cases ?r)
    case (Inl e)
    then have "early_tables.stuck 3 pgd (nat n) (mem s) s ?st" using run by simp
    then show ?thesis
      using Inl by (auto simp: early_map_page_range_def map_page_range_def early_tables.stuck_def vpns_def)
  next
    case (Inr w)
    then obtain m' s1 st' where r: "?r = Inr ((m', s1), st')" by (cases w) auto
    have M: "early_tables.mapped ?K 3 pgd (nat n) (mem s) s ?st m' s1 st'" using run by (simp only: r early_tables.runs_Inr)
    note M' = M [unfolded early_tables.mapped_def]
    let ?s = "s1\<lparr>mem := m'\<rparr>"
    have res: "early_map_page_range pgd va pa n flags s = Inr (num_pagetables_allocated st', ?s)"
      by (simp add: early_map_page_range_def map_page_range_def r)
    have used: "unused_pages ?s = unused_pages s1" by simp
    have count: "num_pagetables_allocated st' = of_nat (card (unused_pages s - unused_pages s1))"
      using M' by (simp add: moved_def)
    have "tables 3 m' pgd \<inter> unused_pages s1 = {}" using M' ok by (auto simp: pgd_ok_def)
    then have ok': "pgd_ok ?s pgd" using M' by (simp add: pgd_ok_def early_ok_def)
    have x: "xlat 3 m' pgd q = (if q \<in> vpns \<and> translation s pgd q = None
        then Some (unat pa + 4096 * (q - vpn va), map_flags_to_page_flags flags) else translation s pgd q)"
      if "q < 2 ^ 36" for q
    proof -
      have "q div 512 ^ Suc 3 = vpn va div 512 ^ Suc 3" using that vpn_less [of va] by simp
      then have "xlat 3 m' pgd q = spread ?st (nat n) (xlat 3 (mem s) pgd) q" using M' by simp
      then show ?thesis by (auto simp: spread_def vpns_def)
    qed
    have sm: "same_tables (tables 3 (mem s) pgd \<union> (unused_pages s - unused_pages s1)) (mem s) m'" using M' by metis
    have "table_frame s1 = table_frame s" using M' by blast
    moreover have "table_frame ?s = table_frame s1" by (simp add: table_frame_def)
    ultimately have fr: "table_frame ?s = table_frame s" by simp
    show ?thesis
      unfolding res sum.case prod.case used using M' ok' fr count x sm by (simp add: vpns_def)
  qed
qed

text \<open>Enough free pages and no page of the range mapped: the mapping goes through.\<close>

lemma early_map_succeeds:
  assumes "pgd_ok s pgd" "0 < n" "4096 dvd unat pa" "unat pa + 4096 * nat n \<le> 2 ^ 48"
    and "bit (map_flags_to_page_flags flags) 0" "vpn va + nat n \<le> 2 ^ 36"
    and "\<And>q. vpn va \<le> q \<Longrightarrow> q < vpn va + nat n \<Longrightarrow> translation s pgd q = None"
    and "tables_needed 3 (vpn va) (nat n) \<le> card (unused_pages s)"
  obtains c s' where "early_map_page_range pgd va pa n flags s = Inr (c, s')"
proof (cases "early_map_page_range pgd va pa n flags s")
  case (Inl e)
  with early_map_spec [OF assms(1-6)] assms(7,8) show ?thesis by fastforce
next
  case (Inr w)
  with that show ?thesis by (cases w) auto
qed

section \<open>The example machine with a page table\<close>

lemma small_unused_frames:
  "\<exists>s. early_ok s \<and> (\<forall>f. 0x200 \<le> f \<longrightarrow> f < 0x210 \<longrightarrow> frame f \<in> unused_pages s)"
proof -
  obtain s where s: "early_inv s" "managed_pages s = ram_pages small_ram"
      "early_pages s EARLY_ALLOC_NORMAL = frame ` fst ` set (reserved_frames 9 4)" using small_started by blast
  have "frame f \<in> unused_pages s" if f: "0x200 \<le> f" "f < 0x210" for f
  proof -
    have "frame f \<notin> frame ` fst ` set (reserved_frames 9 4)"
    proof
      assume "frame f \<in> frame ` fst ` set (reserved_frames 9 4)"
      then obtain g where eq: "frame f = frame g" and g: "g \<in> fst ` set (reserved_frames 9 4)" by (rule imageE)
      have "g < 2 ^ 30" "g \<noteq> f" using g f unfolding reserved_iff by auto
      then show False using arg_cong [where f = unat, OF eq] unat_frame [of f] unat_frame [of g] f by simp
    qed
    then have "frame f \<notin> early_pages s EARLY_ALLOC_NORMAL" by (simp only: s(3) not_False_eq_True)
    moreover have "frame f \<in> managed_pages s" unfolding s(2) using small_ram_frames [of f] f by simp
    ultimately show ?thesis by blast
  qed
  moreover have "unat pa < 2 ^ 48" if "pa \<in> managed_pages s" for pa
    using that unfolding s(2) by (auto simp: ram_pages_def small_ram_def in_covered)
  ultimately show ?thesis using s(1) unfolding early_ok_def by blast
qed

lemma small_pgd: "\<exists>s pgd. pgd_ok s pgd \<and> (\<forall>q. translation s pgd q = None) \<and> 15 \<le> card (unused_pages s)"
proof -
  define F where "F = {0x200..<0x210 :: nat}"
  have F: "f \<in> F \<longleftrightarrow> 0x200 \<le> f \<and> f < 0x210" "card F = 16" for f
    unfolding F_def by (simp_all only: card_atLeastLessThan atLeastLessThan_iff)
  obtain s where s: "early_ok s" and U: "\<And>f. 0x200 \<le> f \<Longrightarrow> f < 0x210 \<Longrightarrow> frame f \<in> unused_pages s"
    using small_unused_frames by blast
  have sub: "frame ` F \<subseteq> unused_pages s"
  proof (rule image_subsetI)
    fix f
    assume "f \<in> F"
    then show "frame f \<in> unused_pages s" using F(1) by (intro U) simp_all
  qed
  have "inj_on frame F"
  proof (rule inj_onI)
    fix f g
    assume f: "f \<in> F" and g: "g \<in> F" and eq: "frame f = frame g"
    have "f < 2 ^ 30" "g < 2 ^ 30" using f g F(1) [of f] F(1) [of g] by simp_all
    then have "f * 4096 = g * 4096" using arg_cong [where f = unat, OF eq] unat_frame [of f] unat_frame [of g] by linarith
    then show "f = g" by linarith
  qed
  then have "card (frame ` F) = 16" by (simp only: card_image F(2))
  then have c: "16 \<le> card (unused_pages s)" using card_mono [OF finite_pages sub] by linarith
  then have "unused_pages s \<noteq> {}" by (metis card.empty not_numeral_le_zero)
  then obtain pgd s' where a: "early_alloc_pgd s = Inr (pgd, s')"
    using pagetable_alloc_fails [OF s] by (cases "early_pagetable_alloc s") (auto simp: early_alloc_pgd_def)
  note N = early_new_pgd [OF s a]
  have "pgd \<in> unused_pages s"
    using pagetable_alloc_spec [OF s a [unfolded early_alloc_pgd_def]] by blast
  then have "card (unused_pages s') = card (unused_pages s) - 1" unfolding N(4) by (simp add: finite_pages)
  with N(1,3) c show ?thesis by (intro exI [of _ s'] exI [of _ pgd]) auto
qed

section \<open>Properties\<close>

text \<open>
  C2: Mapping a range of pages with the early allocators, into a page table that is a proper
  tree. If it returns, the new translation is the old one extended by the pages of the range,
  each to its physical page with the hardware flags of the mapping flags, whatever mixture of
  4 KiB, 2 MiB and 1 GiB pages was used; pages already mapped keep their mapping, and there
  were none in the range unless they were to be skipped. The tables stay a proper tree, the
  tables added are exactly the pages taken from the allocator, their number is returned, and
  it is at most one table for each PUD, PMD and PTD that covers part of the range. If
  it does not return, a page of the range was already mapped or too few pages were free.
\<close>

theorem early_map_page_range_correct:
  assumes "pgd_ok s pgd" and "0 < n" and "4096 dvd unat pa" "unat pa + 4096 * nat n \<le> 2 ^ 48"
    and "bit (map_flags_to_page_flags flags) 0" and "vpn va + nat n \<le> 2 ^ 36"
  defines "vpns \<equiv> {vpn va..<vpn va + nat n}"
  shows "case early_map_page_range pgd va pa n flags s of
      Inl e \<Rightarrow> (\<exists>q\<in>vpns. translation s pgd q \<noteq> None) \<or> card (unused_pages s) < tables_needed 3 (vpn va) (nat n)
    | Inr (c, s') \<Rightarrow> pgd_ok s' pgd \<and> unused_pages s' \<subseteq> unused_pages s \<and>
        tables 3 (mem s') pgd = tables 3 (mem s) pgd \<union> (unused_pages s - unused_pages s') \<and>
        c = of_nat (card (unused_pages s - unused_pages s')) \<and>
        card (unused_pages s - unused_pages s') \<le> tables_needed 3 (vpn va) (nat n) \<and>
        (\<forall>q<2 ^ 36. translation s' pgd q =
          (if q \<in> vpns \<and> translation s pgd q = None
           then Some (unat pa + 4096 * (q - vpn va), map_flags_to_page_flags flags)
           else translation s pgd q)) \<and>
        (\<not> IS_MASK_SET flags MAP_SKIP_IF_MAPPED \<longrightarrow> (\<forall>q\<in>vpns. translation s pgd q = None))"
  unfolding vpns_def using early_map_spec [OF assms(1-6)] by (auto split: sum.splits)

theorem early_map_page_range_correct_witness:
  "\<exists>s pgd c s'. pgd_ok s pgd \<and>
     early_map_page_range pgd 0xffff800000200000 0x200000 515 MAP_KERNEL s = Inr (c, s') \<and>
     pgd_ok s' pgd \<and> card (unused_pages s - unused_pages s') \<le> 4 \<and>
     translation s' pgd (vpn 0xffff800000201000) = Some (0x201000, map_flags_to_page_flags MAP_KERNEL)"
proof -
  obtain s pgd where s: "pgd_ok s pgd" "\<And>q. translation s pgd q = None" "15 \<le> card (unused_pages s)"
    using small_pgd by blast
  have v: "vpn 0xffff800000200000 = 0x800000200" "vpn 0xffff800000201000 = 0x800000201" by (simp_all add: vpn_def)
  have need: "tables_needed 3 0x800000200 515 = 4"
    by (simp add: tables_needed_def entries_over_def numeral_3_eq_3)
  have fl: "bit (map_flags_to_page_flags MAP_KERNEL) 0" by code_simp
  obtain c s' where r: "early_map_page_range pgd 0xffff800000200000 0x200000 515 MAP_KERNEL s = Inr (c, s')"
    by (rule early_map_succeeds [OF s(1), of 515 "0x200000" MAP_KERNEL "0xffff800000200000"])
      (use s(2,3) fl need in \<open>simp_all add: v\<close>)
  have "pgd_ok s' pgd \<and> card (unused_pages s - unused_pages s') \<le> 4 \<and>
      translation s' pgd (vpn 0xffff800000201000) = Some (0x201000, map_flags_to_page_flags MAP_KERNEL)"
    using early_map_page_range_correct [OF s(1), of 515 "0x200000" MAP_KERNEL "0xffff800000200000"] fl s(2)
    unfolding r v by (simp add: need)
  with r s(1) show ?thesis by blast
qed

text \<open>
  C3: Walking the tables. For any memory and any page table, the two walking functions return
  exactly on the addresses the translation is defined on, and halt on the others; they report
  the first byte of the 4 KiB, 2 MiB or 1 GiB page that maps the address, of which the
  translated page is so many pages away as the address is into the page, and the page's
  flags, with the PSE bit on a huge page. The offset of the address inside its page is not added.
\<close>

theorem walk_agrees_with_translation:
  "case xlat 3 m pgd (vpn va) of
     None \<Rightarrow> \<exists>e. walk_virt_to_phys m pgd va = Inl e \<and> walk_virt_to_raw_flags m pgd va = Inl e
   | Some (pa, flags) \<Rightarrow> \<exists>k base raw. k \<le> 2 \<and>
       walk_virt_to_phys m pgd va = Inr base \<and> walk_virt_to_raw_flags m pgd va = Inr raw \<and>
       pa = unat base + 4096 * (vpn va mod 512 ^ k) \<and>
       raw = (if k = 0 then flags else flags OR PAGE_FLAG_PSE)"
proof (cases "walk_to_data m pgd va")
  case (Inl e)
  then show ?thesis by (simp add: walk_xlat(1) walk_virt_to_phys_def walk_virt_to_raw_flags_def)
next
  case (Inr w)
  then obtain raw level where w: "walk_to_data m pgd va = Inr (raw, level)" by (cases w) auto
  note W = walk_xlat(2) [OF w] and R = walk_reports [OF w]
  have x: "xlat 3 m pgd (vpn va) = Some (unat (leaf_data (level_number level) raw) +
      4096 * (vpn va mod 512 ^ level_number level), leaf_flags (level_number level) raw)"
    using W by (simp add: walk_xlat(1) w leaf_xlat_def)
  have "raw AND PAGE_TABLE_FLAG_MASK =
      (if level_number level = 0 then leaf_flags (level_number level) raw
       else leaf_flags (level_number level) raw OR PAGE_FLAG_PSE)"
  proof (cases "level = PTD")
    case True
    then show ?thesis by (simp add: leaf_flags_def)
  next
    case False
    then have "bit raw 7" using W by blast
    then have "raw AND PAGE_TABLE_FLAG_MASK = ((raw AND PAGE_TABLE_FLAG_MASK) AND NOT PAGE_FLAG_PSE) OR PAGE_FLAG_PSE"
      by (intro bit_word_eqI) (auto simp: bit_and_iff bit_or_iff bit_not_iff bit_page_flags page_mask_defs macro_simps
        bit_mask_iff)
    moreover have "level_number level \<noteq> 0" using False by (cases level) simp_all
    ultimately show ?thesis by (simp add: leaf_flags_def)
  qed
  moreover have "level_number level \<le> 2" using W by (cases level) simp_all
  ultimately show ?thesis unfolding x option.case prod.case using R by blast
qed

end
