(* ===== verification/Elf.thy ===== *)
theory Elf
  imports Memory
begin

text \<open>
  ELF images in memory, \<^verbatim>\<open>include/elf.h\<close>. The packed structures are read from the bytes at
  their address; each field is a little-endian word at its offset in the structure. Only the
  constants the kernel and the boot loader compare against are given.
\<close>

definition ELF_MAGIC_NUMBER :: u32 where "ELF_MAGIC_NUMBER = 0x464c457f"
definition ELF_PT_LOAD :: u32 where "ELF_PT_LOAD = 1"
definition ELF_SHT_NOBITS :: u32 where "ELF_SHT_NOBITS = 8"
definition ELF_SHF_WRITE :: u64 where "ELF_SHF_WRITE = BIT_MASK 0"
definition ELF_SHF_EXECINSTR :: u64 where "ELF_SHF_EXECINSTR = BIT_MASK 2"

record elf_header =
  eh_magic :: u32
  ident_class :: u8
  ident_data :: u8
  ident_version :: u8
  ident_abi :: u8
  ident_abi_ver :: u8
  eh_type :: u16
  eh_machine :: u16
  eh_version :: u32
  eh_entry :: u64
  phoff :: u64
  shoff :: u64
  eh_flags :: u32
  ehsize :: u16
  phentsize :: u16
  phnum :: u16
  shentsize :: u16
  shnum :: u16
  shstrndx :: u16

record elf_program_header =
  ph_type :: u32
  ph_flags :: u32
  ph_offset :: u64
  ph_vaddr :: u64
  ph_paddr :: u64
  ph_filesz :: u64
  ph_memsz :: u64
  ph_align :: u64

record elf_section_header =
  sh_name :: u32
  sh_type :: u32
  sh_flags :: u64
  sh_addr :: u64
  sh_offset :: u64
  sh_size :: u64
  sh_link :: u32
  sh_info :: u32
  sh_addralign :: u64
  sh_entsize :: u64

definition elf_header_at :: "memory \<Rightarrow> u64 \<Rightarrow> elf_header" where
  "elf_header_at m p =
     \<lparr>eh_magic = load32 m p, ident_class = m (p + 4), ident_data = m (p + 5), ident_version = m (p + 6),
      ident_abi = m (p + 7), ident_abi_ver = m (p + 8), eh_type = load16 m (p + 16),
      eh_machine = load16 m (p + 18), eh_version = load32 m (p + 20), eh_entry = load64 m (p + 24),
      phoff = load64 m (p + 32), shoff = load64 m (p + 40), eh_flags = load32 m (p + 48),
      ehsize = load16 m (p + 52), phentsize = load16 m (p + 54), phnum = load16 m (p + 56),
      shentsize = load16 m (p + 58), shnum = load16 m (p + 60), shstrndx = load16 m (p + 62)\<rparr>"

definition elf_program_header_at :: "memory \<Rightarrow> u64 \<Rightarrow> elf_program_header" where
  "elf_program_header_at m p =
     \<lparr>ph_type = load32 m p, ph_flags = load32 m (p + 4), ph_offset = load64 m (p + 8),
      ph_vaddr = load64 m (p + 16), ph_paddr = load64 m (p + 24), ph_filesz = load64 m (p + 32),
      ph_memsz = load64 m (p + 40), ph_align = load64 m (p + 48)\<rparr>"

definition elf_section_header_at :: "memory \<Rightarrow> u64 \<Rightarrow> elf_section_header" where
  "elf_section_header_at m p =
     \<lparr>sh_name = load32 m p, sh_type = load32 m (p + 4), sh_flags = load64 m (p + 8),
      sh_addr = load64 m (p + 16), sh_offset = load64 m (p + 24), sh_size = load64 m (p + 32),
      sh_link = load32 m (p + 40), sh_info = load32 m (p + 44), sh_addralign = load64 m (p + 48),
      sh_entsize = load64 m (p + 56)\<rparr>"

end
