(* ===== verification/Spinlock.thy ===== *)
theory Spinlock
  imports Prelude
begin

text \<open>
  Spinlocks: \<^verbatim>\<open>arch/x86_64/include/spinlock.h\<close> over the atomic accesses of
  \<^verbatim>\<open>include/atomic.h\<close>. A lock is a 32-bit word, 0 when free.

  Two views are given and tied together. The first is a transition system of many processors
  that share one lock word: every atomic access of \<^verbatim>\<open>spinlock_acquire\<close> and
  \<^verbatim>\<open>spinlock_release\<close> is one step, in any interleaving, and mutual exclusion is an
  invariant of the reachable states. The second is what a processor running alone observes:
  the loop of \<^verbatim>\<open>spinlock_acquire\<close> on a word nobody else writes either takes a free lock
  at once or never returns, which the sequential components write as the fault \<open>Deadlock\<close>.
\<close>

type_synonym spinlock_t = u32

section \<open>Atomic accesses\<close>

definition atomic_load_relaxed :: "u32 \<Rightarrow> u32" where
  "atomic_load_relaxed x = x"

definition atomic_exchange_acquire :: "u32 \<Rightarrow> u32 \<Rightarrow> u32 \<times> u32" where
  "atomic_exchange_acquire x val = (x, val)"

definition atomic_store_release :: "u32 \<Rightarrow> u32 \<Rightarrow> u32" where
  "atomic_store_release x val = val"

definition empty_spinlock :: spinlock_t where
  "empty_spinlock = 0"

section \<open>A processor alone\<close>

partial_function (option) spin_while_held :: "spinlock_t \<Rightarrow> unit option" where
  "spin_while_held lk = (if atomic_load_relaxed lk \<noteq> 0 then spin_while_held lk else Some ())"

partial_function (option) acquire_loop :: "spinlock_t \<Rightarrow> spinlock_t option" where
  "acquire_loop lk =
     (let (old, new) = atomic_exchange_acquire lk 1
      in if old = 0 then Some new
         else Option.bind (spin_while_held new) (\<lambda>_. acquire_loop new))"

definition spinlock_acquire :: "spinlock_t \<Rightarrow> spinlock_t result" where
  "spinlock_acquire lk =
     (let (old, new) = atomic_exchange_acquire lk 1 in if old = 0 then Inr new else Inl Deadlock)"

definition spinlock_release :: "spinlock_t \<Rightarrow> spinlock_t" where
  "spinlock_release lk = atomic_store_release lk 0"

lemmas atomic_defs = atomic_load_relaxed_def atomic_exchange_acquire_def atomic_store_release_def

lemma spinlock_acquire_free [simp]: "spinlock_acquire 0 = Inr 1"
  by (simp add: spinlock_acquire_def atomic_defs)

lemma spinlock_acquire_Inr: "spinlock_acquire lk = Inr lk' \<longleftrightarrow> lk = 0 \<and> lk' = 1"
  by (auto simp: spinlock_acquire_def atomic_defs)

lemma spinlock_release_0 [simp]: "spinlock_release lk = 0"
  by (simp add: spinlock_release_def atomic_defs)

lemma spin_while_held_free: "spin_while_held lk = Some u \<Longrightarrow> lk = 0"
  by (erule spin_while_held.raw_induct [where P = "\<lambda>lk _. lk = 0", rotated])
    (auto simp: atomic_defs split: if_splits)

section \<open>Many processors\<close>

datatype phase = Idle | Exchanging | Spinning | Holding

record 'c machine =
  lock_word :: spinlock_t
  phase_of :: "'c \<Rightarrow> phase"

text \<open>
  One atomic access of processor \<open>c\<close>: the exchange at the head of the outer loop, a read of
  the inner loop, and the store of a release by a processor that holds the lock.
\<close>

inductive lock_step :: "'c machine \<Rightarrow> 'c machine \<Rightarrow> bool" where
  call: "phase_of s c = Idle \<Longrightarrow> lock_step s (s\<lparr>phase_of := (phase_of s)(c := Exchanging)\<rparr>)"
| exchange: "phase_of s c = Exchanging \<Longrightarrow> atomic_exchange_acquire (lock_word s) 1 = (old, new) \<Longrightarrow>
    lock_step s \<lparr>lock_word = new,
      phase_of = (phase_of s)(c := if old = 0 then Holding else Spinning)\<rparr>"
| read: "phase_of s c = Spinning \<Longrightarrow>
    lock_step s (s\<lparr>phase_of := (phase_of s)(c := if atomic_load_relaxed (lock_word s) \<noteq> 0 then Spinning
                                                else Exchanging)\<rparr>)"
| release: "phase_of s c = Holding \<Longrightarrow>
    lock_step s \<lparr>lock_word = atomic_store_release (lock_word s) 0,
      phase_of = (phase_of s)(c := Idle)\<rparr>"

inductive_cases lock_stepE: "lock_step s t"

inductive lock_reachable :: "'c machine \<Rightarrow> bool" where
  start: "lock_reachable \<lparr>lock_word = empty_spinlock, phase_of = (\<lambda>_. Idle)\<rparr>"
| step: "lock_reachable s \<Longrightarrow> lock_step s t \<Longrightarrow> lock_reachable t"

text \<open>The word is 0 when nobody holds the lock and 1 when exactly one processor does.\<close>

definition lock_inv :: "'c machine \<Rightarrow> bool" where
  "lock_inv s \<longleftrightarrow>
     lock_word s = 0 \<and> (\<forall>c. phase_of s c \<noteq> Holding) \<or>
     lock_word s = 1 \<and> (\<exists>c. phase_of s c = Holding \<and> (\<forall>d. phase_of s d = Holding \<longrightarrow> d = c))"

lemma lock_inv_step: "lock_inv s \<Longrightarrow> lock_step s t \<Longrightarrow> lock_inv t"
proof (erule lock_stepE)
  fix c
  assume "lock_inv s" and "phase_of s c = Idle" "t = s\<lparr>phase_of := (phase_of s)(c := Exchanging)\<rparr>"
  then show "lock_inv t" by (simp add: lock_inv_def) (metis phase.distinct(5) phase.distinct(9))
next
  fix c old new
  assume "lock_inv s" and "phase_of s c = Exchanging"
    "t = \<lparr>lock_word = new, phase_of = (phase_of s)(c := if old = 0 then Holding else Spinning)\<rparr>"
    and "atomic_exchange_acquire (lock_word s) 1 = (old, new)"
  then show "lock_inv t"
    by (simp add: lock_inv_def atomic_defs) (metis phase.distinct(9) phase.distinct(11) zero_neq_one)
next
  fix c
  assume "lock_inv s" and "phase_of s c = Spinning"
    "t = s\<lparr>phase_of := (phase_of s)(c := if atomic_load_relaxed (lock_word s) \<noteq> 0 then Spinning
                                       else Exchanging)\<rparr>"
  then show "lock_inv t"
    by (simp add: lock_inv_def) (metis phase.distinct(9) phase.distinct(11))
next
  fix c
  assume "lock_inv s" and "phase_of s c = Holding"
    "t = \<lparr>lock_word = atomic_store_release (lock_word s) 0, phase_of = (phase_of s)(c := Idle)\<rparr>"
  then show "lock_inv t" by (simp add: lock_inv_def atomic_defs) (metis phase.distinct(5))
qed

lemma lock_inv_reachable: "lock_reachable s \<Longrightarrow> lock_inv s"
proof (induction rule: lock_reachable.induct)
  case start
  then show ?case by (simp add: lock_inv_def empty_spinlock_def)
next
  case (step s t)
  then show ?case by (blast intro: lock_inv_step)
qed

text \<open>A waiting processor gets the lock as soon as the holder releases and the others stay put.\<close>

lemma waiting_can_acquire:
  assumes "lock_inv s" and "phase_of s c = Spinning"
  shows "\<exists>t. lock_step\<^sup>*\<^sup>* s t \<and> phase_of t c = Holding"
proof -
  have acq: "\<exists>t. lock_step\<^sup>*\<^sup>* u t \<and> phase_of t c = Holding"
    if "lock_word u = 0" "phase_of u c = Spinning" for u :: "'a machine"
  proof -
    let ?v = "u\<lparr>phase_of := (phase_of u)(c := Exchanging)\<rparr>"
    have "lock_step u ?v" using lock_step.read [OF that(2)] that(1) by (simp add: atomic_defs)
    moreover have "lock_step ?v \<lparr>lock_word = 1, phase_of = (phase_of ?v)(c := Holding)\<rparr>"
      using lock_step.exchange [of ?v c 0 1] that(1) by (simp add: atomic_defs)
    ultimately show ?thesis
      by (intro exI [of _ "\<lparr>lock_word = 1, phase_of = (phase_of ?v)(c := Holding)\<rparr>"])
        (auto intro: converse_rtranclp_into_rtranclp)
  qed
  from assms(1) consider (free) "lock_word s = 0" | (held) d where "phase_of s d = Holding"
    by (auto simp: lock_inv_def)
  then show ?thesis
  proof cases
    case free
    with acq assms(2) show ?thesis by blast
  next
    case held
    let ?u = "\<lparr>lock_word = 0, phase_of = (phase_of s)(d := Idle)\<rparr>"
    have "lock_step s ?u" using lock_step.release [OF held] by (simp add: atomic_defs)
    moreover have "phase_of ?u c = Spinning" using assms(2) held by auto
    ultimately show ?thesis using acq [of ?u] by (auto intro: converse_rtranclp_into_rtranclp)
  qed
qed

text \<open>
  C31: Mutual exclusion. In every interleaving of the atomic accesses of any number of
  processors, at most one of them holds the lock; the lock word is 1 while one does and 0
  otherwise; and a processor that is spinning can always still come to hold the lock.
\<close>

theorem spinlock_mutual_exclusion:
  assumes "lock_reachable s"
  shows "(phase_of s c = Holding \<longrightarrow> phase_of s d = Holding \<longrightarrow> c = d) \<and>
    lock_word s = (if \<exists>c. phase_of s c = Holding then 1 else 0) \<and>
    (phase_of s c = Spinning \<longrightarrow> (\<exists>t. lock_step\<^sup>*\<^sup>* s t \<and> phase_of t c = Holding))"
  using lock_inv_reachable [OF assms] waiting_can_acquire [of s c] by (auto simp: lock_inv_def)

theorem spinlock_mutual_exclusion_witness:
  "\<exists>s :: bool machine. lock_reachable s \<and> phase_of s True = Holding \<and> phase_of s False \<noteq> Holding \<and>
     lock_word s = 1"
proof -
  let ?s0 = "\<lparr>lock_word = empty_spinlock, phase_of = (\<lambda>_ :: bool. Idle)\<rparr>"
  let ?s1 = "?s0\<lparr>phase_of := (phase_of ?s0)(True := Exchanging)\<rparr>"
  let ?s2 = "\<lparr>lock_word = 1, phase_of = (phase_of ?s1)(True := Holding)\<rparr> :: bool machine"
  have "lock_step ?s0 ?s1" by (rule lock_step.call) simp
  moreover have "lock_step ?s1 ?s2"
    using lock_step.exchange [of ?s1 True 0 1] by (simp add: atomic_defs empty_spinlock_def)
  ultimately have r: "lock_reachable ?s2" by (blast intro: lock_reachable.intros)
  have "lock_word ?s2 = 1" using spinlock_mutual_exclusion [OF r, of True False] by auto
  with r show ?thesis by (intro exI [of _ ?s2]) simp
qed

text \<open>
  Alone on the lock, \<^verbatim>\<open>spinlock_acquire\<close> returns exactly when the lock is free and
  leaves it held; on a held lock the loop never ends, which is the \<open>Deadlock\<close> of the
  sequential model. A release always leaves the lock free, whether it was held or not.
\<close>

theorem spinlock_acquire_alone:
  "acquire_loop lk = (case spinlock_acquire lk of Inr lk' \<Rightarrow> Some lk' | Inl _ \<Rightarrow> None) \<and>
   (spinlock_acquire lk = Inl Deadlock \<longleftrightarrow> lk \<noteq> 0) \<and>
   spinlock_acquire (spinlock_release lk) = Inr 1"
proof (cases "lk = 0")
  case True
  then show ?thesis by (simp add: acquire_loop.simps atomic_defs)
next
  case False
  have "spin_while_held 1 = None" using spin_while_held_free [of 1] by (cases "spin_while_held 1") auto
  with False show ?thesis
    by (simp add: acquire_loop.simps [of lk] atomic_defs spinlock_acquire_def)
qed

end
