(* ===== verification/Global.thy ===== *)
theory Global
  imports Spinlock Memory
begin

text \<open>
  Kernel-wide state, \<^verbatim>\<open>include/global.h\<close> and \<^verbatim>\<open>kernel/global.c\<close>, and the log levels of
  \<^verbatim>\<open>include/log.h\<close> it holds. The static pointer \<^verbatim>\<open>global\<close> is set once, so the structure it
  points to is passed and returned. \<^verbatim>\<open>panic()\<close> of \<^verbatim>\<open>kernel/panic.c\<close> reads the stage first and
  with that takes the lock of the global state. In the components that do not see the global
  state (the allocators, for one) \<open>Panic m\<close> stands for the call of \<^verbatim>\<open>panic()\<close> with format \<open>m\<close>;
  \<open>panic m g\<close> is how that call ends when the global state is \<open>g\<close>: with the message \<open>m\<close> in the
  first two stages (\<open>panic_free\<close>), with another message in the later ones (\<open>panic_late\<close>), and
  waiting for ever when the lock is held (\<open>panic_locked\<close>).
\<close>

type_synonym log_flags_t = u32

definition KERNEL_LOG_TRACE :: log_flags_t where "KERNEL_LOG_TRACE = 0"
definition KERNEL_LOG_DEBUG :: log_flags_t where "KERNEL_LOG_DEBUG = 1"
definition KERNEL_LOG_INFO :: log_flags_t where "KERNEL_LOG_INFO = 2"
definition KERNEL_LOG_WARN :: log_flags_t where "KERNEL_LOG_WARN = 3"
definition KERNEL_LOG_ERROR :: log_flags_t where "KERNEL_LOG_ERROR = 4"
definition KERNEL_LOG_CRITICAL :: log_flags_t where "KERNEL_LOG_CRITICAL = 5"
definition KERNEL_LOG_MASK :: log_flags_t where "KERNEL_LOG_MASK = ucast (BIT_MASK_BELOW 10)"

lemmas log_level_defs = KERNEL_LOG_TRACE_def KERNEL_LOG_DEBUG_def KERNEL_LOG_INFO_def KERNEL_LOG_WARN_def
  KERNEL_LOG_ERROR_def KERNEL_LOG_CRITICAL_def

datatype kernel_stage =
    KERNEL_STAGE_1_EARLY
  | KERNEL_STAGE_2_HAS_RING_BUFFER
  | KERNEL_STAGE_3_HAS_INTERRUPT_HANDLER
  | KERNEL_STAGE_4_HAS_MULTI_CORE
  | KERNEL_STAGE_5_LOADED

record kernel_global =
  stage :: kernel_stage
  log_echo :: bool
  log_level :: log_flags_t
  global_lock :: spinlock_t

text \<open>The page \<^verbatim>\<open>ptr\<close> points at is zeroed, so the lock starts free.\<close>

definition global_init :: "kernel_global \<Rightarrow> kernel_global" where
  "global_init g = g\<lparr>stage := KERNEL_STAGE_1_EARLY, log_echo := True, log_level := KERNEL_LOG_DEBUG\<rparr>"

definition global_get_locked :: "kernel_global \<Rightarrow> kernel_global result" where
  "global_get_locked g = rbind (spinlock_acquire (global_lock g)) (\<lambda>lk. Inr (g\<lparr>global_lock := lk\<rparr>))"

definition global_release :: "kernel_global \<Rightarrow> kernel_global" where
  "global_release g = g\<lparr>global_lock := spinlock_release (global_lock g)\<rparr>"

definition global_get_stage :: "kernel_global \<Rightarrow> (kernel_stage \<times> kernel_global) result" where
  "global_get_stage g = rbind (global_get_locked g) (\<lambda>g. Inr (stage g, global_release g))"

text \<open>\<^verbatim>\<open>panic()\<close> never returns: the reason it stops is its only result.\<close>

definition panic :: "string \<Rightarrow> kernel_global \<Rightarrow> fault" where
  "panic fmt g =
     (case global_get_stage g of
        Inl e \<Rightarrow> e
      | Inr (st, _) \<Rightarrow>
          if st = KERNEL_STAGE_1_EARLY \<or> st = KERNEL_STAGE_2_HAS_RING_BUFFER then Panic fmt
          else Panic ''Panic unsupported for stage %d'')"

lemma acquire_free: "spinlock_acquire 0 = Inr 1" "lk \<noteq> 0 \<Longrightarrow> spinlock_acquire lk = Inl Deadlock"
  by (simp_all add: spinlock_acquire_def atomic_defs)

lemma panic_free: "global_lock g = 0 \<Longrightarrow> stage g = KERNEL_STAGE_1_EARLY \<or> stage g = KERNEL_STAGE_2_HAS_RING_BUFFER \<Longrightarrow>
    panic fmt g = Panic fmt"
  by (simp add: panic_def global_get_stage_def global_get_locked_def acquire_free)

lemma panic_late: "global_lock g = 0 \<Longrightarrow> stage g \<noteq> KERNEL_STAGE_1_EARLY \<Longrightarrow> stage g \<noteq> KERNEL_STAGE_2_HAS_RING_BUFFER \<Longrightarrow>
    panic fmt g = Panic ''Panic unsupported for stage %d''"
  by (simp add: panic_def global_get_stage_def global_get_locked_def acquire_free)

lemma panic_locked: "global_lock g \<noteq> 0 \<Longrightarrow> panic fmt g = Deadlock"
  by (simp add: panic_def global_get_stage_def global_get_locked_def acquire_free)

end
