(* ===== verification/Phys.thy ===== *)
theory Phys
  imports Page Linked_List Spinlock
begin

text \<open>
  The physical (buddy) allocator: \<^verbatim>\<open>include/mm.h\<close> and \<^verbatim>\<open>mm/phys.c\<close>. This theory holds the
  state and the operations; \<open>Phys_Layout\<close> and \<open>Phys_Invariant\<close> hold the invariant,
  \<open>Phys_Free\<close> and \<open>Phys_Alloc\<close> the proofs about freeing and allocating.

  A pointer to a \<^verbatim>\<open>struct physblock\<close> is the index of the descriptor in the array at
  \<^verbatim>\<open>KERNEL_MEM_MAP_ADDRESS\<close>, which is the page frame number it describes; the address
  arithmetic of \<^verbatim>\<open>_pfn_to_physblock_raw\<close> and \<^verbatim>\<open>physblock_to_pfn\<close> is given and shown to be
  the inverse pair that makes this representation sound. The embedded list node of a
  descriptor is the node \<open>BlockNode pfn\<close> of one store of list nodes, next to the thirteen
  list heads \<open>FreeList k\<close>. A block order is a \<^verbatim>\<open>uint8_t\<close> and is a natural number here, with
  the reduction modulo 256 or 65536 written out where the code narrows a result.
  Waiting for a lock that is held is \<open>Deadlock\<close> (see \<open>Spinlock\<close>), a call of \<^verbatim>\<open>panic()\<close> is a \<open>Panic\<close>, and
  taking the block of a list head that has no block is \<open>Out_of_bounds\<close>.
\<close>

section \<open>Constants and data\<close>

definition PHYSBLOCK_UNMANAGED :: u32 where "PHYSBLOCK_UNMANAGED = 0"
definition PHYSBLOCK_FREE :: u32 where "PHYSBLOCK_FREE = 1"
definition PHYSBLOCK_TAIL :: u32 where "PHYSBLOCK_TAIL = 2"
definition PHYSBLOCK_PAGETABLE :: u32 where "PHYSBLOCK_PAGETABLE = 3"
definition PHYSBLOCK_PHYSBLOCK :: u32 where "PHYSBLOCK_PHYSBLOCK = 4"
definition PHYSBLOCK_KERNEL :: u32 where "PHYSBLOCK_KERNEL = 5"
definition PHYSBLOCK_USER :: u32 where "PHYSBLOCK_USER = 6"
definition PHYSBLOCK_TYPE_MASK :: u32 where "PHYSBLOCK_TYPE_MASK = ucast (BIT_MASK_BELOW 10)"
definition PHYSBLOCK_MOVABLE :: u32 where "PHYSBLOCK_MOVABLE = push_bit 10 1"
definition PHYSBLOCK_PINNED :: u32 where "PHYSBLOCK_PINNED = push_bit 11 1"

definition ALLOC_KERNEL :: u32 where "ALLOC_KERNEL = 1"
definition ALLOC_USER :: u32 where "ALLOC_USER = 2"
definition ALLOC_PAGETABLE :: u32 where "ALLOC_PAGETABLE = 3"
definition ALLOC_PHYSBLOCK :: u32 where "ALLOC_PHYSBLOCK = 4"
definition ALLOC_TYPE_MASK :: u32 where "ALLOC_TYPE_MASK = ucast (BIT_MASK_BELOW 10)"
definition ALLOC_MOVABLE :: u32 where "ALLOC_MOVABLE = push_bit 10 1"
definition ALLOC_PINNED :: u32 where "ALLOC_PINNED = push_bit 11 1"

lemmas physblock_type_defs = PHYSBLOCK_UNMANAGED_def PHYSBLOCK_FREE_def PHYSBLOCK_TAIL_def
  PHYSBLOCK_PAGETABLE_def PHYSBLOCK_PHYSBLOCK_def PHYSBLOCK_KERNEL_def PHYSBLOCK_USER_def
  PHYSBLOCK_TYPE_MASK_def PHYSBLOCK_MOVABLE_def PHYSBLOCK_PINNED_def

lemmas alloc_flag_defs = ALLOC_KERNEL_def ALLOC_USER_def ALLOC_PAGETABLE_def ALLOC_PHYSBLOCK_def
  ALLOC_TYPE_MASK_def ALLOC_MOVABLE_def ALLOC_PINNED_def

definition MAX_ORDER :: nat where "MAX_ORDER = 12"
definition KERNEL_MEM_MAP_ADDRESS :: u64 where "KERNEL_MEM_MAP_ADDRESS = 0xffffc00040000000"

text \<open>\<^verbatim>\<open>sizeof(struct physblock)\<close>: 2 + 1 (+ 1) + 4 + 16 + 4 + 4 bytes.\<close>

definition sizeof_physblock :: u64 where "sizeof_physblock = 32"

record physblock =
  head_offset :: u16
  blk_order :: nat
  blk_type :: u32
  refcount :: u32
  blk_lock :: spinlock_t

datatype node_ptr = FreeList nat | BlockNode pfn_t

record phys_alloc_stats =
  num_4k_pages :: u64
  num_free_4k_pages :: u64
  num_pagetable_pages :: u64
  num_physblock_pages :: u64
  order_free :: "nat \<Rightarrow> u64"

record phys_alloc_span =
  start_pfn :: pfn_t
  num_pages :: u64

record phys_alloc_state =
  blocks :: "pfn_t \<Rightarrow> physblock"
  nodes :: "node_ptr store"
  stats :: phys_alloc_stats
  state_lock :: spinlock_t
  spans :: "phys_alloc_span list"

definition upd_block :: "pfn_t \<Rightarrow> (physblock \<Rightarrow> physblock) \<Rightarrow> phys_alloc_state \<Rightarrow> phys_alloc_state" where
  "upd_block p f s = s\<lparr>blocks := (blocks s)(p := f (blocks s p))\<rparr>"

definition upd_stats :: "(phys_alloc_stats \<Rightarrow> phys_alloc_stats) \<Rightarrow> phys_alloc_state \<Rightarrow> phys_alloc_state" where
  "upd_stats f s = s\<lparr>stats := f (stats s)\<rparr>"

definition upd_nodes :: "(node_ptr store \<Rightarrow> node_ptr store) \<Rightarrow> phys_alloc_state \<Rightarrow> phys_alloc_state" where
  "upd_nodes f s = s\<lparr>nodes := f (nodes s)\<rparr>"

definition add_order_free :: "nat \<Rightarrow> u64 \<Rightarrow> phys_alloc_stats \<Rightarrow> phys_alloc_stats" where
  "add_order_free k n st = st\<lparr>order_free := (order_free st)(k := order_free st k + n)\<rparr>"

definition block_acquire :: "phys_alloc_state \<Rightarrow> pfn_t \<Rightarrow> phys_alloc_state result" where
  "block_acquire s p = rbind (spinlock_acquire (blk_lock (blocks s p)))
     (\<lambda>lk. Inr (upd_block p (blk_lock_update (\<lambda>_. lk)) s))"

definition block_release :: "pfn_t \<Rightarrow> phys_alloc_state \<Rightarrow> phys_alloc_state" where
  "block_release p s = upd_block p (blk_lock_update spinlock_release) s"

definition state_acquire :: "phys_alloc_state \<Rightarrow> phys_alloc_state result" where
  "state_acquire s = rbind (spinlock_acquire (state_lock s)) (\<lambda>lk. Inr (s\<lparr>state_lock := lk\<rparr>))"

definition state_release :: "phys_alloc_state \<Rightarrow> phys_alloc_state" where
  "state_release s = s\<lparr>state_lock := spinlock_release (state_lock s)\<rparr>"

section \<open>include/mm.h\<close>

definition pfn_to_physblock_raw :: "pfn_t \<Rightarrow> u64" where
  "pfn_to_physblock_raw pfn = KERNEL_MEM_MAP_ADDRESS + pfn * sizeof_physblock"

definition physblock_to_pfn :: "u64 \<Rightarrow> pfn_t" where
  "physblock_to_pfn block = (let bytes = block - KERNEL_MEM_MAP_ADDRESS in bytes div sizeof_physblock)"

definition physblock_to_phys :: "u64 \<Rightarrow> physaddr_t" where
  "physblock_to_phys block = pfn_to_phys (physblock_to_pfn block)"

definition pfn_to_physblock_raw_lock :: "phys_alloc_state \<Rightarrow> pfn_t \<Rightarrow> (pfn_t \<times> phys_alloc_state) result" where
  "pfn_to_physblock_raw_lock s pfn = rbind (block_acquire s pfn) (\<lambda>s. Inr (pfn, s))"

definition physblock_tail_to_head ::
  "phys_alloc_state \<Rightarrow> pfn_t \<Rightarrow> pfn_t \<Rightarrow> (pfn_t \<times> phys_alloc_state) result" where
  "physblock_tail_to_head s block pfn =
     (let offset = (ucast (head_offset (blocks s block)) :: u8);
          s = block_release block s
      in pfn_to_physblock_raw_lock s (pfn - ucast offset))"

definition pfn_to_physblock_lock :: "phys_alloc_state \<Rightarrow> pfn_t \<Rightarrow> (pfn_t \<times> phys_alloc_state) result" where
  "pfn_to_physblock_lock s pfn =
     rbind (pfn_to_physblock_raw_lock s pfn) (\<lambda>(block, s).
       if head_offset (blocks s block) = 0 then Inr (block, s)
       else physblock_tail_to_head s block pfn)"

definition phys_to_physblock_lock :: "phys_alloc_state \<Rightarrow> physaddr_t \<Rightarrow> (pfn_t \<times> phys_alloc_state) result" where
  "phys_to_physblock_lock s pa = pfn_to_physblock_lock s (phys_to_pfn pa)"

definition pfn_to_buddy_pfn :: "pfn_t \<Rightarrow> nat \<Rightarrow> pfn_t" where
  "pfn_to_buddy_pfn pfn order = pfn XOR push_bit order 1"

section \<open>mm/phys.c\<close>

definition zero_stats :: phys_alloc_stats where
  "zero_stats = \<lparr>num_4k_pages = 0, num_free_4k_pages = 0, num_pagetable_pages = 0,
     num_physblock_pages = 0, order_free = (\<lambda>_. 0)\<rparr>"

text \<open>
  \<^verbatim>\<open>phys_alloc_init_state\<close>: the state lives in a zeroed page; \<open>early_spans\<close> are the start
  address and page count of the early allocator's spans.
\<close>

definition phys_alloc_init_state ::
  "(pfn_t \<Rightarrow> physblock) \<Rightarrow> node_ptr store \<Rightarrow> (physaddr_t \<times> u64) list \<Rightarrow> phys_alloc_state" where
  "phys_alloc_init_state mem_map h early_spans =
     \<lparr>blocks = mem_map,
      nodes = fold (\<lambda>i h. list_init h (FreeList i)) [0..<MAX_ORDER + 1] h,
      stats = zero_stats,
      state_lock = empty_spinlock,
      spans = map (\<lambda>(start, n). \<lparr>start_pfn = phys_to_pfn start, num_pages = n\<rparr>) early_spans\<rparr>"

definition phys_get_alloc_state_lock :: "phys_alloc_state \<Rightarrow> phys_alloc_state result" where
  "phys_get_alloc_state_lock s = state_acquire s"

fun span_index :: "phys_alloc_span list \<Rightarrow> pfn_t \<Rightarrow> int \<Rightarrow> int" where
  "span_index [] pfn i = - 1"
| "span_index (sp # sps) pfn i =
     (if pfn \<ge> start_pfn sp \<and> pfn < start_pfn sp + num_pages sp then i else span_index sps pfn (i + 1))"

definition pfn_to_span_locked :: "phys_alloc_state \<Rightarrow> pfn_t \<Rightarrow> int" where
  "pfn_to_span_locked s pfn = span_index (spans s) pfn 0"

definition physblock_to_buddy_lock ::
  "phys_alloc_state \<Rightarrow> pfn_t \<Rightarrow> (pfn_t option \<times> phys_alloc_state) result" where
  "physblock_to_buddy_lock s block =
     (let pfn = block;
          buddy_pfn = pfn_to_buddy_pfn pfn (blk_order (blocks s block));
          span = pfn_to_span_locked s pfn;
          buddy_span = pfn_to_span_locked s buddy_pfn
      in if span = - 1 \<or> span \<noteq> buddy_span then Inr (None, s)
         else rbind (pfn_to_physblock_lock s buddy_pfn) (\<lambda>(b, s). Inr (Some b, s)))"

definition set_tail_physblocks :: "pfn_t \<Rightarrow> nat \<Rightarrow> phys_alloc_state \<Rightarrow> phys_alloc_state" where
  "set_tail_physblocks start order s =
     fold (\<lambda>i. upd_block (start + of_nat i)
              (\<lambda>b. b\<lparr>blk_type := PHYSBLOCK_TAIL, head_offset := of_nat i, blk_order := 0,
                     blk_lock := spinlock_release (blk_lock b)\<rparr>))
       [1..<2 ^ order mod 65536] s"

definition join_physblocks_locked ::
  "pfn_t \<Rightarrow> pfn_t \<Rightarrow> nat \<Rightarrow> phys_alloc_state \<Rightarrow> phys_alloc_state" where
  "join_physblocks_locked head tail order s =
     (let s = upd_block head (blk_order_update (\<lambda>_. order)) s;
          s = upd_nodes (\<lambda>h. list_detach h (BlockNode head)) s;
          s = upd_nodes (\<lambda>h. list_detach h (BlockNode tail)) s;
          s = upd_nodes (\<lambda>h. list_push_back h (FreeList order) (BlockNode head)) s;
          s = set_tail_physblocks head order s
      in upd_stats (add_order_free order 1 \<circ> add_order_free (order - 1) (- 2)) s)"

function compact_free_blocks_from ::
  "phys_alloc_state \<Rightarrow> pfn_t \<Rightarrow> nat \<Rightarrow> (pfn_t \<times> phys_alloc_state) result" where
  "compact_free_blocks_from s block order =
     (if order \<le> MAX_ORDER - 1 then
        rbind (physblock_to_buddy_lock s block) (\<lambda>(buddy, s).
          case buddy of
            None \<Rightarrow> Inr (block, s)
          | Some buddy \<Rightarrow>
              if blk_type (blocks s buddy) AND PHYSBLOCK_TYPE_MASK \<noteq> PHYSBLOCK_FREE \<or>
                 blk_order (blocks s buddy) \<noteq> order
              then Inr (block, block_release buddy s)
              else if buddy < block
              then compact_free_blocks_from (join_physblocks_locked buddy block (order + 1) s)
                     buddy (order + 1)
              else compact_free_blocks_from (join_physblocks_locked block buddy (order + 1) s)
                     block (order + 1))
      else Inr (block, s))"
  by pat_completeness auto

termination by (relation "measure (\<lambda>(s, block, order). MAX_ORDER - order)") (auto simp: MAX_ORDER_def)

declare compact_free_blocks_from.simps [simp del]

definition compact_free_blocks_locked ::
  "phys_alloc_state \<Rightarrow> pfn_t \<Rightarrow> (pfn_t \<times> phys_alloc_state) result" where
  "compact_free_blocks_locked s block = compact_free_blocks_from s block (blk_order (blocks s block))"

text \<open>The part of \<^verbatim>\<open>free_physblock_locked\<close> before the label \<^verbatim>\<open>compact\<close>, for a block in use.\<close>

definition release_to_free_list :: "pfn_t \<Rightarrow> nat \<Rightarrow> phys_alloc_state \<Rightarrow> phys_alloc_state" where
  "release_to_free_list block order s =
     (let t = blk_type (blocks s block) AND PHYSBLOCK_TYPE_MASK;
          s = upd_stats (\<lambda>st.
            if t = PHYSBLOCK_PAGETABLE then st\<lparr>num_pagetable_pages := num_pagetable_pages st - 1\<rparr>
            else if t = PHYSBLOCK_PHYSBLOCK then st\<lparr>num_physblock_pages := num_physblock_pages st - 1\<rparr>
            else st) s;
          s = upd_block block (blk_type_update (\<lambda>_. PHYSBLOCK_FREE)) s;
          s = upd_nodes (\<lambda>h. list_push_back h (FreeList order) (BlockNode block)) s
      in upd_stats (add_order_free order 1 \<circ>
           num_free_4k_pages_update (\<lambda>n. n + push_bit order 1)) s)"

definition free_physblock_locked :: "phys_alloc_state \<Rightarrow> pfn_t \<Rightarrow> phys_alloc_state result" where
  "free_physblock_locked s block =
     (if refcount (blocks s block) = 0 then Inr (block_release block s)
      else if refcount (blocks s block) > 1
      then Inr (block_release block (upd_block block (refcount_update (\<lambda>r. r - 1)) s))
      else
        let s = upd_block block (refcount_update (\<lambda>_. 0)) s;
            order = blk_order (blocks s block)
        in rbind (state_acquire s) (\<lambda>s.
             let s = (if blk_type (blocks s block) AND PHYSBLOCK_TYPE_MASK = PHYSBLOCK_FREE then s
                      else release_to_free_list block order s)
             in rbind (compact_free_blocks_locked s block) (\<lambda>(block, s).
                  Inr (block_release block (state_release s)))))"

definition phys_alloc_init_page :: "pfn_t \<Rightarrow> phys_alloc_state \<Rightarrow> phys_alloc_state result" where
  "phys_alloc_init_page pfn s =
     rbind (pfn_to_physblock_lock s pfn) (\<lambda>(block, s).
       let t = blk_type (blocks s block) AND PHYSBLOCK_TYPE_MASK in
       if t = PHYSBLOCK_UNMANAGED
       then free_physblock_locked (upd_block block (refcount_update (\<lambda>_. 1)) s) block
       else Inr (block_release block (upd_stats (\<lambda>st.
              if t = PHYSBLOCK_PAGETABLE then st\<lparr>num_pagetable_pages := num_pagetable_pages st + 1\<rparr>
              else if t = PHYSBLOCK_PHYSBLOCK then st\<lparr>num_physblock_pages := num_physblock_pages st + 1\<rparr>
              else st) s)))"

definition phys_alloc_init_span :: "phys_alloc_span \<Rightarrow> phys_alloc_state \<Rightarrow> phys_alloc_state result" where
  "phys_alloc_init_span span s =
     rfold (\<lambda>i. phys_alloc_init_page (start_pfn span + of_nat i)) [0..<unat (num_pages span)]
       (upd_stats (num_4k_pages_update (\<lambda>n. n + num_pages span)) s)"

definition phys_alloc_init :: "phys_alloc_state \<Rightarrow> phys_alloc_state result" where
  "phys_alloc_init s = rfold phys_alloc_init_span (spans s) s"

definition phys_free_pfn :: "phys_alloc_state \<Rightarrow> pfn_t \<Rightarrow> phys_alloc_state result" where
  "phys_free_pfn s pfn = rbind (pfn_to_physblock_lock s pfn) (\<lambda>(block, s). free_physblock_locked s block)"

definition phys_free :: "phys_alloc_state \<Rightarrow> physaddr_t \<Rightarrow> phys_alloc_state result" where
  "phys_free s pa = phys_free_pfn s (phys_to_pfn pa)"

definition split_block_locked :: "pfn_t \<Rightarrow> phys_alloc_state \<Rightarrow> phys_alloc_state" where
  "split_block_locked block s =
     (let new_order = (blk_order (blocks s block) + 255) mod 256;
          pfn = block;
          buddy = pfn_to_buddy_pfn pfn new_order;
          s = upd_block block (blk_order_update (\<lambda>_. new_order)) s;
          s = upd_block buddy (blk_order_update (\<lambda>_. new_order)) s;
          s = upd_block buddy (blk_type_update (\<lambda>_. PHYSBLOCK_FREE)) s;
          s = upd_block buddy (head_offset_update (\<lambda>_. 0)) s;
          s = set_tail_physblocks buddy new_order s;
          s = upd_nodes (\<lambda>h. list_detach h (BlockNode block)) s;
          s = upd_nodes (\<lambda>h. list_push_back h (FreeList new_order) (BlockNode block)) s;
          s = upd_nodes (\<lambda>h. list_push_back h (FreeList new_order) (BlockNode buddy)) s;
          s = upd_stats (add_order_free new_order 2 \<circ> add_order_free (new_order + 1) (- 1)) s
      in block_release block s)"

fun first_nonempty_order :: "phys_alloc_state \<Rightarrow> nat \<Rightarrow> nat \<Rightarrow> nat" where
  "first_nonempty_order s order 0 = order"
| "first_nonempty_order s order (Suc n) =
     (if \<not> list_empty (nodes s) (FreeList order) then order else first_nonempty_order s (order + 1) n)"

text \<open>\<^verbatim>\<open>list_first_element\<close> of a free list: the descriptor that contains the first node.\<close>

definition first_block :: "phys_alloc_state \<Rightarrow> nat \<Rightarrow> pfn_t result" where
  "first_block s order =
     (case list_first (nodes s) (FreeList order) of BlockNode p \<Rightarrow> Inr p | FreeList _ \<Rightarrow> Inl Out_of_bounds)"

text \<open>
  The splitting loop; \<^verbatim>\<open>order++; continue\<close> followed by the loop's own \<^verbatim>\<open>order--\<close> tries the
  same order again, so nothing in the code bounds the number of rounds.
\<close>

partial_function (option) split_blocks_loop ::
  "phys_alloc_state \<Rightarrow> nat \<Rightarrow> nat \<Rightarrow> phys_alloc_state result option" where
  "split_blocks_loop s target_order order =
     (if order \<ge> target_order + 1 then
        (case first_block s order of
           Inl e \<Rightarrow> Some (Inl e)
         | Inr block \<Rightarrow>
             (case block_acquire s block of
                Inl e \<Rightarrow> Some (Inl e)
              | Inr s \<Rightarrow>
                  if blk_type (blocks s block) \<noteq> PHYSBLOCK_FREE \<or> blk_order (blocks s block) \<noteq> order
                  then split_blocks_loop (block_release block s) target_order order
                  else split_blocks_loop (split_block_locked block s) target_order (order - 1)))
      else Some (Inr s))"

definition split_higher_order_blocks :: "phys_alloc_state \<Rightarrow> nat \<Rightarrow> phys_alloc_state result option" where
  "split_higher_order_blocks s target_order =
     (let order = first_nonempty_order s (target_order + 1) (MAX_ORDER - target_order)
      in if order > MAX_ORDER then Some (Inl (Panic ''Out of memory (fragmentation)''))
         else split_blocks_loop s target_order order)"

definition alloc_flags_to_physblock_type :: "u32 \<Rightarrow> u32 result" where
  "alloc_flags_to_physblock_type flags =
     (let k = flags AND ALLOC_TYPE_MASK;
          type = (if k = ALLOC_KERNEL then Inr PHYSBLOCK_KERNEL
                  else if k = ALLOC_USER then Inr PHYSBLOCK_USER
                  else if k = ALLOC_PAGETABLE then Inr PHYSBLOCK_PAGETABLE
                  else if k = ALLOC_PHYSBLOCK then Inr PHYSBLOCK_PHYSBLOCK
                  else Inl (Panic ''Unrecognised alloc flag''))
      in rbind type (\<lambda>type.
           let type = (if flags AND ALLOC_MOVABLE = ALLOC_MOVABLE then type OR PHYSBLOCK_MOVABLE else type);
               type = (if flags AND ALLOC_PINNED = ALLOC_PINNED then type OR PHYSBLOCK_PINNED else type)
           in Inr type))"

text \<open>
  The last part of \<^verbatim>\<open>phys_alloc_block\<close>, from \<^verbatim>\<open>list_detach\<close> to the return, for a block
  found free and of the right order.
\<close>

definition take_block :: "nat \<Rightarrow> u32 \<Rightarrow> pfn_t \<Rightarrow> phys_alloc_state \<Rightarrow> (pfn_t \<times> phys_alloc_state) result" where
  "take_block order flags block s =
     (let s = upd_nodes (\<lambda>h. list_detach h (BlockNode block)) s
      in rbind (alloc_flags_to_physblock_type flags) (\<lambda>type.
           let s = upd_block block (blk_type_update (\<lambda>_. type)) s;
               s = upd_block block (refcount_update (\<lambda>r. r + 1)) s;
               k = flags AND ALLOC_TYPE_MASK;
               s = upd_stats ((\<lambda>st.
                     if k = ALLOC_PAGETABLE then st\<lparr>num_pagetable_pages := num_pagetable_pages st + 1\<rparr>
                     else if k = ALLOC_PHYSBLOCK then st\<lparr>num_physblock_pages := num_physblock_pages st + 1\<rparr>
                     else st) \<circ>
                   add_order_free order (- 1) \<circ>
                   num_free_4k_pages_update (\<lambda>n. n - push_bit order 1)) s
           in Inr (block, state_release (block_release block s))))"

partial_function (option) phys_alloc_block ::
  "phys_alloc_state \<Rightarrow> nat \<Rightarrow> u32 \<Rightarrow> (pfn_t \<times> phys_alloc_state) result option" where
  "phys_alloc_block s order flags =
     (if order > MAX_ORDER then Some (Inl (Panic ''Invalid order''))
      else case state_acquire s of
        Inl e \<Rightarrow> Some (Inl e)
      | Inr s \<Rightarrow>
          if num_free_4k_pages (stats s) < push_bit order 1 then Some (Inl (Panic ''Out of memory''))
          else Option.bind (if list_empty (nodes s) (FreeList order) then split_higher_order_blocks s order
                            else Some (Inr s)) (\<lambda>r.
            case r of
              Inl e \<Rightarrow> Some (Inl e)
            | Inr s \<Rightarrow>
                (case first_block s order of
                   Inl e \<Rightarrow> Some (Inl e)
                 | Inr block \<Rightarrow>
                     (case block_acquire s block of
                        Inl e \<Rightarrow> Some (Inl e)
                      | Inr s \<Rightarrow>
                          if blk_type (blocks s block) \<noteq> PHYSBLOCK_FREE \<or> blk_order (blocks s block) \<noteq> order
                          then phys_alloc_block (state_release (block_release block s)) order flags
                          else Some (take_block order flags block s)))))"

definition phys_alloc :: "phys_alloc_state \<Rightarrow> nat \<Rightarrow> u32 \<Rightarrow> (physaddr_t \<times> phys_alloc_state) result option" where
  "phys_alloc s order flags =
     map_option (\<lambda>r. rbind r (\<lambda>(block, s). Inr (physblock_to_phys (pfn_to_physblock_raw block), s)))
       (phys_alloc_block s order flags)"

definition phys_alloc_one :: "phys_alloc_state \<Rightarrow> (physaddr_t \<times> phys_alloc_state) result option" where
  "phys_alloc_one s = phys_alloc s 0 ALLOC_KERNEL"

end
