(* ===== verification/Phys_Layout.thy ===== *)
theory Phys_Layout
  imports Phys
begin

text \<open>
  The invariant of the buddy allocator's descriptors. \<open>extent p k\<close> is the set of page
  frames of the block of order \<open>k\<close> at \<open>p\<close>; \<open>layout_on\<close> says that the descriptors of a set
  of frames partition it into aligned blocks inside one span each, with every frame but the
  first of a block marked as its tail. It is closed under union and difference, so an
  operation that rearranges the descriptors of one region is judged on that region alone:
  joining two buddies and splitting a block are two instances.
\<close>

section \<open>Extents\<close>

definition extent :: "pfn_t \<Rightarrow> nat \<Rightarrow> pfn_t set" where
  "extent p k = {q. q AND NOT (mask k) = p}"

lemma bit_u64_lt: "bit (x :: u64) n \<Longrightarrow> n < 64"
  using bit_imp_le_length [of x n] by simp

lemma extent_bits: "q \<in> extent p k \<longleftrightarrow> (\<forall>n. bit p n \<longleftrightarrow> k \<le> n \<and> bit q n)"
proof
  assume "q \<in> extent p k"
  then have p: "p = q AND NOT (mask k)" by (simp add: extent_def)
  show "\<forall>n. bit p n \<longleftrightarrow> k \<le> n \<and> bit q n"
  proof
    fix n
    show "bit p n \<longleftrightarrow> k \<le> n \<and> bit q n"
      unfolding p using bit_u64_lt [of q n] by (auto simp: bit_and_iff bit_not_iff bit_mask_iff)
  qed
next
  assume a: "\<forall>n. bit p n \<longleftrightarrow> k \<le> n \<and> bit q n"
  have "q AND NOT (mask k) = p"
  proof (rule bit_word_eqI)
    fix n
    assume "n < LENGTH(64)"
    then show "bit (q AND NOT (mask k)) n = bit p n"
      using spec [OF a, of n] by (auto simp: bit_and_iff bit_not_iff bit_mask_iff)
  qed
  then show "q \<in> extent p k" by (simp add: extent_def)
qed

lemma aligned_bits: "p \<in> extent p k \<longleftrightarrow> (\<forall>n. bit p n \<longrightarrow> k \<le> n)"
  by (auto simp: extent_bits)

lemma extent_self: "q \<in> extent p k \<Longrightarrow> p \<in> extent p k"
  by (auto simp: extent_bits)

lemma extent_same: "q \<in> extent p k \<Longrightarrow> q \<in> extent p' k \<Longrightarrow> p' = p"
  by (simp add: extent_def)

lemma extent_base: "q \<in> extent (q AND NOT (mask k)) k"
  by (simp add: extent_def)

lemma extent_0 [simp]: "extent p 0 = {p}"
  by (auto simp: extent_def)

lemma extent_nested:
  assumes "q \<in> extent p j" "q \<in> extent p' k" "j \<le> k"
  shows "extent p j \<subseteq> extent p' k"
proof
  fix x
  assume "x \<in> extent p j"
  then have x: "bit p n \<longleftrightarrow> j \<le> n \<and> bit x n" for n by (simp add: extent_bits)
  have "bit p n \<longleftrightarrow> j \<le> n \<and> bit q n" "bit p' n \<longleftrightarrow> k \<le> n \<and> bit q n" for n
    using assms(1,2) by (simp_all add: extent_bits)
  with x assms(3) show "x \<in> extent p' k" unfolding extent_bits by (meson le_trans)
qed

lemma extent_offset:
  assumes "p \<in> extent p k" "k < 64"
  shows "q \<in> extent p k \<longleftrightarrow> unat (q - p) < 2 ^ k"
proof
  assume "q \<in> extent p k"
  then have "q - p = q AND mask k" by (auto simp: extent_def word_and_not_mask)
  then show "unat (q - p) < 2 ^ k" by (simp add: unat_and_mask)
next
  define d where "d = q - p"
  assume "unat (q - p) < 2 ^ k"
  then have d: "bit d n \<Longrightarrow> n < k" for n using small_bits [of d k n] by (simp add: d_def)
  have p: "bit p n \<Longrightarrow> k \<le> n" for n using assms(1) by (simp add: aligned_bits)
  have "q = p + d" by (simp add: d_def)
  also have "\<dots> = p OR d" by (rule disjunctive_add) (use d p in force)
  finally have q: "q = p OR d" .
  show "q \<in> extent p k"
    unfolding extent_bits q bit_or_iff using d p by (meson linorder_not_le)
qed

lemma extent_image:
  assumes "p \<in> extent p k" "k < 64"
  shows "extent p k = (\<lambda>i. p + of_nat i) ` {..<2 ^ k}" "inj_on (\<lambda>i. p + of_nat i) {..<2 ^ k}"
proof -
  have lt: "i < 2 ^ k \<Longrightarrow> unat (of_nat i :: u64) = i" for i
    using power_strict_increasing [OF assms(2), of "2 :: nat"] by (intro unat_of_nat_lt) simp
  show "inj_on (\<lambda>i. p + of_nat i) {..<2 ^ k}"
    by (rule inj_onI) (metis add_left_cancel lessThan_iff lt)
  show "extent p k = (\<lambda>i. p + of_nat i) ` {..<2 ^ k}"
  proof (intro set_eqI iffI)
    fix q
    assume "q \<in> extent p k"
    then show "q \<in> (\<lambda>i. p + of_nat i) ` {..<2 ^ k}"
      using extent_offset [OF assms, of q] by (intro image_eqI [of _ _ "unat (q - p)"]) simp_all
  next
    fix q
    assume "q \<in> (\<lambda>i. p + of_nat i) ` {..<2 ^ k}"
    then show "q \<in> extent p k" using extent_offset [OF assms, of q] lt by auto
  qed
qed

lemma card_extent: "p \<in> extent p k \<Longrightarrow> k < 64 \<Longrightarrow> card (extent p k) = 2 ^ k"
  using card_image [OF extent_image(2)] extent_image(1) by simp

text \<open>The two halves of a block are its buddies one order below.\<close>

lemma bit_buddy: "k < 64 \<Longrightarrow> bit (pfn_to_buddy_pfn p k) n \<longleftrightarrow> bit p n \<noteq> (n = k)"
  by (auto simp: pfn_to_buddy_pfn_def bit_simps)

lemma buddy_involution [simp]: "pfn_to_buddy_pfn (pfn_to_buddy_pfn p k) k = p"
  by (simp add: pfn_to_buddy_pfn_def xor.assoc)

lemma buddy_neq: "k < 64 \<Longrightarrow> pfn_to_buddy_pfn p k \<noteq> p"
  by (metis bit_buddy)

lemma buddy_aligned: "p \<in> extent p k \<Longrightarrow> k < 64 \<Longrightarrow> pfn_to_buddy_pfn p k \<in> extent (pfn_to_buddy_pfn p k) k"
  by (auto simp: extent_bits bit_buddy)

lemma buddy_or:
  assumes "h \<in> extent h (k + 1)" "k < 64"
  shows "pfn_to_buddy_pfn h k = h OR push_bit k 1"
  by (rule bit_word_eqI)
    (use assms(1) in \<open>auto simp: aligned_bits bit_buddy [OF assms(2)] bit_simps Suc_le_eq\<close>)

lemma extent_halves:
  assumes "h \<in> extent h (k + 1)" "k < 64"
  shows "extent h (k + 1) = extent h k \<union> extent (pfn_to_buddy_pfn h k) k"
    and "extent h k \<inter> extent (pfn_to_buddy_pfn h k) k = {}"
    and "h \<in> extent h k"
    and "unat (pfn_to_buddy_pfn h k - h) = 2 ^ k"
proof -
  let ?b = "pfn_to_buddy_pfn h k"
  have h: "bit h n \<Longrightarrow> k < n" for n using assms(1) by (simp add: aligned_bits Suc_le_eq)
  show "extent h (k + 1) = extent h k \<union> extent ?b k"
  proof (rule set_eqI)
    fix q
    have hk: "\<not> bit h k" using h [of k] by auto
    show "q \<in> extent h (k + 1) \<longleftrightarrow> q \<in> extent h k \<union> extent ?b k"
    proof (cases "bit q k")
      case True
      then have "q \<notin> extent h k" using hk extent_bits [of q h k] by blast
      moreover have "(bit h n \<longleftrightarrow> k + 1 \<le> n \<and> bit q n) \<longleftrightarrow> (bit ?b n \<longleftrightarrow> k \<le> n \<and> bit q n)" for n
        using True hk unfolding bit_buddy [OF assms(2)] by (cases "n = k") auto
      then have "q \<in> extent h (k + 1) \<longleftrightarrow> q \<in> extent ?b k" unfolding extent_bits by (rule all_cong1)
      ultimately show ?thesis by simp
    next
      case False
      have "bit ?b k" using hk by (simp add: bit_buddy [OF assms(2)])
      with False have "q \<notin> extent ?b k" using extent_bits [of q ?b k] by blast
      moreover have "(bit h n \<longleftrightarrow> k + 1 \<le> n \<and> bit q n) \<longleftrightarrow> (bit h n \<longleftrightarrow> k \<le> n \<and> bit q n)" for n
        using False by (cases "n = k") auto
      then have "q \<in> extent h (k + 1) \<longleftrightarrow> q \<in> extent h k" unfolding extent_bits by (rule all_cong1)
      ultimately show ?thesis by simp
    qed
  qed
  show "extent h k \<inter> extent ?b k = {}"
    using extent_same [of _ h k ?b] buddy_neq [OF assms(2), of h] by auto
  show "h \<in> extent h k" using h by (auto simp: aligned_bits intro: less_imp_le)
  have "?b = h + push_bit k 1"
    unfolding buddy_or [OF assms] by (rule disjunctive_add [symmetric]) (use h in \<open>auto simp: bit_simps\<close>)
  then have "?b - h = push_bit k 1" by (simp only: add_diff_cancel_left')
  then show "unat (?b - h) = 2 ^ k" using unat_push_bit_1 [where 'a = 64, of k] assms(2) by simp
qed

lemma buddy_pair:
  assumes "p \<in> extent p k" "k < 64"
  obtains (low) "p \<in> extent p (k + 1)" "p < pfn_to_buddy_pfn p k"
  | (high) h where "p = pfn_to_buddy_pfn h k" "h \<in> extent h (k + 1)" "h = pfn_to_buddy_pfn p k" "h < p"
proof -
  let ?b = "pfn_to_buddy_pfn p k"
  have gt: "x < pfn_to_buddy_pfn x k" if "x \<in> extent x (k + 1)" for x
    using buddy_or [OF that assms(2)] buddy_neq [OF assms(2), of x] le_word_or2 [of x "push_bit k 1"]
    by (simp add: order_less_le)
  have p: "bit p n \<Longrightarrow> k \<le> n" for n using assms(1) by (simp add: aligned_bits)
  show thesis
  proof (cases "bit p k")
    case True
    then have "?b \<in> extent ?b (k + 1)"
      using p by (auto simp: aligned_bits bit_buddy [OF assms(2)] Suc_le_eq order_less_le)
    with high [of ?b] gt [of ?b] show thesis by simp
  next
    case False
    then have "p \<in> extent p (k + 1)"
      using p by (auto simp: aligned_bits Suc_le_eq order_less_le)
    with low gt show thesis by blast
  qed
qed


lemma buddies_together:
  assumes "p \<in> extent p k" "k < 64"
  shows "\<exists>h. p \<in> extent h (k + 1) \<and> pfn_to_buddy_pfn p k \<in> extent h (k + 1)"
proof (rule buddy_pair [OF assms])
  assume "p \<in> extent p (k + 1)"
  with extent_halves(1) [OF this assms(2)] buddy_aligned [OF assms] show ?thesis by blast
next
  fix h
  assume h: "p = pfn_to_buddy_pfn h k" "h \<in> extent h (k + 1)" "h = pfn_to_buddy_pfn p k"
  have "p \<in> extent h (k + 1)" unfolding extent_halves(1) [OF h(2) assms(2)] 
    using assms(1) unfolding h(1) [symmetric] by simp
  moreover have "pfn_to_buddy_pfn p k \<in> extent h (k + 1)" using h(2,3) by simp
  ultimately show ?thesis by blast
qed

section \<open>The layout of descriptors\<close>

text \<open>
  \<open>bs\<close> gives the descriptor and \<open>sp\<close> the span of a page frame. The condition on a head does
  not speak of locks.
\<close>

definition tail_block :: "physblock \<Rightarrow> nat \<Rightarrow> bool" where
  "tail_block b i \<longleftrightarrow> blk_type b = PHYSBLOCK_TAIL \<and> head_offset b = of_nat i \<and> blk_order b = 0 \<and>
     refcount b = 0"

definition type_kind :: "physblock \<Rightarrow> u32" where
  "type_kind b = blk_type b AND PHYSBLOCK_TYPE_MASK"

definition head_ok :: "(pfn_t \<Rightarrow> physblock) \<Rightarrow> (pfn_t \<Rightarrow> int) \<Rightarrow> pfn_t \<Rightarrow> bool" where
  "head_ok bs sp p \<longleftrightarrow>
     head_offset (bs p) = 0 \<and> blk_order (bs p) \<le> MAX_ORDER \<and>
     p \<in> extent p (blk_order (bs p)) \<and>
     (\<forall>q\<in>extent p (blk_order (bs p)). sp q = sp p \<and> (q \<noteq> p \<longrightarrow> tail_block (bs q) (unat (q - p)))) \<and>
     type_kind (bs p) \<noteq> PHYSBLOCK_TAIL \<and>
     (type_kind (bs p) = PHYSBLOCK_FREE \<longrightarrow> blk_type (bs p) = PHYSBLOCK_FREE \<and> refcount (bs p) = 0)"

abbreviation block_extent :: "(pfn_t \<Rightarrow> physblock) \<Rightarrow> pfn_t \<Rightarrow> pfn_t set" where
  "block_extent bs p \<equiv> extent p (blk_order (bs p))"

definition layout_on :: "(pfn_t \<Rightarrow> physblock) \<Rightarrow> (pfn_t \<Rightarrow> int) \<Rightarrow> pfn_t set \<Rightarrow> bool" where
  "layout_on bs sp A \<longleftrightarrow>
     (\<forall>p\<in>A. head_offset (bs p) = 0 \<longrightarrow> head_ok bs sp p \<and> block_extent bs p \<subseteq> A) \<and>
     (\<forall>q\<in>A. \<exists>p\<in>A. head_offset (bs p) = 0 \<and> q \<in> block_extent bs p)"

lemma tail_offset_nonzero:
  assumes "tail_block b (unat (q - p))" "q \<in> extent p k" "p \<in> extent p k" "k \<le> MAX_ORDER" "q \<noteq> p"
  shows "head_offset b \<noteq> 0" "unat (head_offset b) = unat (q - p)"
proof -
  have "unat (q - p) < 2 ^ k" using extent_offset [OF assms(3), of q] assms(2,4) by (simp add: MAX_ORDER_def)
  also have "\<dots> \<le> 2 ^ 12" using assms(4) by (intro power_increasing) (simp_all add: MAX_ORDER_def)
  finally have lt: "unat (q - p) < 2 ^ 16" by simp
  then show u: "unat (head_offset b) = unat (q - p)"
    using assms(1) unat_of_nat_lt [where 'a = 16, of "unat (q - p)"] by (simp add: tail_block_def)
  have "unat (q - p) \<noteq> 0" using assms(5) by (simp add: unat_eq_zero)
  with u show "head_offset b \<noteq> 0" by (metis unat_0)
qed

lemma layout_headD:
  assumes "layout_on bs sp A" "p \<in> A" "head_offset (bs p) = 0"
  shows "head_ok bs sp p" "block_extent bs p \<subseteq> A"
  using assms by (auto simp: layout_on_def)

lemma head_okD:
  assumes "head_ok bs sp p"
  shows "blk_order (bs p) \<le> MAX_ORDER" "p \<in> block_extent bs p" "head_offset (bs p) = 0"
    "q \<in> block_extent bs p \<Longrightarrow> sp q = sp p"
    "q \<in> block_extent bs p \<Longrightarrow> q \<noteq> p \<Longrightarrow> tail_block (bs q) (unat (q - p))"
    "q \<in> block_extent bs p \<Longrightarrow> q \<noteq> p \<Longrightarrow> head_offset (bs q) \<noteq> 0"
    "q \<in> block_extent bs p \<Longrightarrow> q \<noteq> p \<Longrightarrow> unat (head_offset (bs q)) = unat (q - p)"
  using assms tail_offset_nonzero unfolding head_ok_def by blast+

lemma head_okI:
  assumes "p \<in> extent p k" "blk_order (bs p) = k" "k \<le> MAX_ORDER" "head_offset (bs p) = 0"
    and "\<And>q. q \<in> extent p k \<Longrightarrow> sp q = sp p"
    and "\<And>q. q \<in> extent p k \<Longrightarrow> q \<noteq> p \<Longrightarrow> tail_block (bs q) (unat (q - p))"
    and "type_kind (bs p) \<noteq> PHYSBLOCK_TAIL"
    and "type_kind (bs p) = PHYSBLOCK_FREE \<Longrightarrow> blk_type (bs p) = PHYSBLOCK_FREE \<and> refcount (bs p) = 0"
  shows "head_ok bs sp p"
  unfolding head_ok_def assms(2) using assms by blast

lemma layout_cover:
  assumes "layout_on bs sp A" "q \<in> A"
  obtains p where "p \<in> A" "head_ok bs sp p" "q \<in> block_extent bs p" "block_extent bs p \<subseteq> A"
  using assms unfolding layout_on_def by blast

text \<open>Blocks do not overlap.\<close>

lemma heads_unique:
  assumes "head_ok bs sp p" "head_ok bs sp p'" "q \<in> block_extent bs p" "q \<in> block_extent bs p'"
  shows "p = p'"
proof (rule ccontr)
  assume ne: "p \<noteq> p'"
  consider "q = p" | "q = p'" | "q \<noteq> p" "q \<noteq> p'" by blast
  then show False
  proof cases
    case 1
    with head_okD(6) [OF assms(2,4)] ne head_okD(3) [OF assms(1)] show False by simp
  next
    case 2
    with head_okD(6) [OF assms(1,3)] ne head_okD(3) [OF assms(2)] show False by simp
  next
    case 3
    with head_okD(7) [OF assms(1,3)] head_okD(7) [OF assms(2,4)] have "unat (q - p) = unat (q - p')"
      by simp
    then have "q - p = q - p'" by (simp only: word_unat_eq_iff)
    with ne show False by simp
  qed
qed

lemma layout_empty [simp]: "layout_on bs sp {}"
  by (simp add: layout_on_def)

lemma layout_union: "layout_on bs sp A \<Longrightarrow> layout_on bs sp B \<Longrightarrow> layout_on bs sp (A \<union> B)"
  unfolding layout_on_def by blast

lemma layout_block: "head_ok bs sp p \<Longrightarrow> layout_on bs sp (block_extent bs p)"
  unfolding layout_on_def using head_okD by (metis order_refl)

lemma layout_diff:
  assumes "layout_on bs sp A" "layout_on bs sp E" "E \<subseteq> A"
  shows "layout_on bs sp (A - E)"
proof -
  have out: "block_extent bs p \<inter> E = {}" if p: "p \<in> A - E" "head_offset (bs p) = 0" for p
  proof (rule ccontr)
    assume "block_extent bs p \<inter> E \<noteq> {}"
    then obtain q where q: "q \<in> block_extent bs p" "q \<in> E" by blast
    obtain p' where p': "p' \<in> E" "head_ok bs sp p'" "q \<in> block_extent bs p'"
      using layout_cover [OF assms(2) q(2)] by blast
    have "head_ok bs sp p" using layout_headD(1) [OF assms(1)] p by blast
    from heads_unique [OF this p'(2) q(1) p'(3)] p'(1) p(1) show False by blast
  qed
  have cover: "\<exists>p\<in>A - E. head_offset (bs p) = 0 \<and> q \<in> block_extent bs p" if q: "q \<in> A - E" for q
  proof -
    obtain p where p: "p \<in> A" "head_ok bs sp p" "q \<in> block_extent bs p"
      using layout_cover [OF assms(1)] q by blast
    have "p \<notin> E" using layout_headD(2) [OF assms(2), of p] head_okD(3) [OF p(2)] p(3) q by blast
    with p head_okD(3) [OF p(2)] show ?thesis by blast
  qed
  show ?thesis
    unfolding layout_on_def using out cover layout_headD [OF assms(1)] by blast
qed

lemma head_ok_cong:
  assumes "\<And>q. q \<in> A \<Longrightarrow> blk_lock_update (\<lambda>_. 0) (bs' q) = blk_lock_update (\<lambda>_. 0) (bs q)"
    and "p \<in> A" "block_extent bs p \<subseteq> A"
  shows "head_ok bs' sp p \<longleftrightarrow> head_ok bs sp p"
proof -
  have f: "head_offset (bs' q) = head_offset (bs q)" "blk_order (bs' q) = blk_order (bs q)"
    "blk_type (bs' q) = blk_type (bs q)" "refcount (bs' q) = refcount (bs q)" if "q \<in> A" for q
    using assms(1) [OF that] by (cases "bs q"; cases "bs' q"; simp)+
  then have "tail_block (bs' q) i = tail_block (bs q) i" if "q \<in> A" for q i
    using that by (simp add: tail_block_def)
  with f [OF assms(2)] assms(3) show ?thesis by (auto simp: head_ok_def type_kind_def)
qed

lemma layout_cong:
  assumes "\<And>q. q \<in> A \<Longrightarrow> blk_lock_update (\<lambda>_. 0) (bs' q) = blk_lock_update (\<lambda>_. 0) (bs q)"
    and "layout_on bs sp A"
  shows "layout_on bs' sp A"
proof -
  have f: "head_offset (bs' q) = head_offset (bs q)" "blk_order (bs' q) = blk_order (bs q)" if "q \<in> A" for q
    using assms(1) [OF that] by (cases "bs q"; cases "bs' q"; simp)+
  have "head_ok bs' sp p" if "p \<in> A" "head_offset (bs p) = 0" for p
    using head_ok_cong [where bs = bs and bs' = bs', OF assms(1)] layout_headD [OF assms(2) that] that(1) by blast
  with f assms(2) show ?thesis unfolding layout_on_def by (metis (no_types, lifting))
qed

text \<open>What a change of the descriptors of one region must establish.\<close>

lemma layout_replace:
  assumes "layout_on bs sp A" "layout_on bs sp E" "E \<subseteq> A" "layout_on bs' sp E"
    and "\<And>q. q \<in> A - E \<Longrightarrow> blk_lock_update (\<lambda>_. 0) (bs' q) = blk_lock_update (\<lambda>_. 0) (bs q)"
  shows "layout_on bs' sp A"
proof -
  have "layout_on bs' sp (A - E)" using layout_cong [OF assms(5) layout_diff [OF assms(1-3)]] by blast
  then have "layout_on bs' sp (A - E \<union> E)" using assms(4) by (rule layout_union)
  with assms(3) show ?thesis by (simp add: Un_absorb2)
qed

text \<open>The buddy of a head is a head, of no larger order.\<close>

lemma buddy_is_head:
  assumes "layout_on bs sp A" "p \<in> A" "head_offset (bs p) = 0" "blk_order (bs p) = k"
    and "pfn_to_buddy_pfn p k \<in> A"
  shows "head_offset (bs (pfn_to_buddy_pfn p k)) = 0"
proof (rule ccontr)
  let ?b = "pfn_to_buddy_pfn p k"
  assume tail: "head_offset (bs ?b) \<noteq> 0"
  note hp = layout_headD(1) [OF assms(1-3)]
  have k: "k \<le> 12" "k < 64" "p \<in> extent p k"
    using head_okD(1,2) [OF hp] assms(4) by (simp_all add: MAX_ORDER_def)
  obtain p' where p': "p' \<in> A" "head_ok bs sp p'" "?b \<in> block_extent bs p'"
    using layout_cover [OF assms(1,5)] by blast
  let ?k = "blk_order (bs p')"
  have ne: "?b \<noteq> p'" using tail head_okD(3) [OF p'(2)] by auto
  have "k < ?k"
  proof (rule ccontr)
    assume "\<not> k < ?k"
    then have "?b \<in> extent ?b ?k" using buddy_aligned [OF k(3,2)] by (auto simp: aligned_bits)
    from extent_same [OF this p'(3)] ne show False by simp
  qed
  then have "k + 1 \<le> ?k" by simp
  obtain h where h: "p \<in> extent h (k + 1)" "?b \<in> extent h (k + 1)"
    using buddies_together [OF k(3,2)] by blast
  have "p \<in> block_extent bs p'" using extent_nested [OF h(2) p'(3) \<open>k + 1 \<le> ?k\<close>] h(1) by blast
  from heads_unique [OF hp p'(2) _ this] head_okD(2) [OF hp] have "p = p'" by blast
  with \<open>k < ?k\<close> assms(4) show False by simp
qed

end
