(* ===== verification/Phys_Invariant.thy ===== *)
theory Phys_Invariant
  imports Phys_Layout
begin

text \<open>
  The invariant of the buddy allocator. \<open>phys_core\<close> ties the descriptors (\<open>layout_on\<close>), the
  thirteen free lists and the statistics together, with the set of descriptors whose lock is
  held; \<open>phys_inv\<close> is the invariant between calls, with every lock free. Joining two buddies
  and taking or giving back a lock are shown to keep it and to leave the free page frames and
  the blocks in use as they were.
\<close>

section \<open>Projections of the updates\<close>

lemma upd_simps [simp]:
  "blocks (upd_block p f s) = (blocks s)(p := f (blocks s p))"
  "nodes (upd_block p f s) = nodes s" "stats (upd_block p f s) = stats s"
  "state_lock (upd_block p f s) = state_lock s" "spans (upd_block p f s) = spans s"
  "blocks (upd_stats g s) = blocks s" "nodes (upd_stats g s) = nodes s"
  "stats (upd_stats g s) = g (stats s)" "state_lock (upd_stats g s) = state_lock s"
  "spans (upd_stats g s) = spans s"
  "blocks (upd_nodes e s) = blocks s" "nodes (upd_nodes e s) = e (nodes s)"
  "stats (upd_nodes e s) = stats s" "state_lock (upd_nodes e s) = state_lock s"
  "spans (upd_nodes e s) = spans s"
  by (simp_all add: upd_block_def upd_stats_def upd_nodes_def)

lemma release_simps [simp]:
  "blocks (block_release p s) = (blocks s)(p := (blocks s p)\<lparr>blk_lock := 0\<rparr>)"
  "nodes (block_release p s) = nodes s" "stats (block_release p s) = stats s"
  "state_lock (block_release p s) = state_lock s" "spans (block_release p s) = spans s"
  "blocks (state_release s) = blocks s" "nodes (state_release s) = nodes s"
  "stats (state_release s) = stats s" "state_lock (state_release s) = 0"
  "spans (state_release s) = spans s"
  by (simp_all add: block_release_def state_release_def upd_block_def fun_eq_iff)

lemma span_frame: "spans s' = spans s \<Longrightarrow> pfn_to_span_locked s' = pfn_to_span_locked s"
  by (simp add: pfn_to_span_locked_def fun_eq_iff)

lemma span_simps [simp]:
  "pfn_to_span_locked (upd_block p f s) = pfn_to_span_locked s"
  "pfn_to_span_locked (upd_stats g s) = pfn_to_span_locked s"
  "pfn_to_span_locked (upd_nodes e s) = pfn_to_span_locked s"
  "pfn_to_span_locked (block_release p s) = pfn_to_span_locked s"
  "pfn_to_span_locked (state_release s) = pfn_to_span_locked s"
  "pfn_to_span_locked (s\<lparr>blocks := bs\<rparr>) = pfn_to_span_locked s"
  "pfn_to_span_locked (s\<lparr>state_lock := lk\<rparr>) = pfn_to_span_locked s"
  by (simp_all add: pfn_to_span_locked_def fun_eq_iff)

lemma block_acquire_free:
  "blk_lock (blocks s p) = 0 \<Longrightarrow>
    block_acquire s p = Inr (s\<lparr>blocks := (blocks s)(p := (blocks s p)\<lparr>blk_lock := 1\<rparr>)\<rparr>)"
  by (simp add: block_acquire_def upd_block_def)

definition tailed :: "nat \<Rightarrow> physblock \<Rightarrow> physblock" where
  "tailed i b = b\<lparr>blk_type := PHYSBLOCK_TAIL, head_offset := of_nat i, blk_order := 0, blk_lock := 0\<rparr>"

lemma set_tail_upto:
  assumes "n \<le> 2 ^ 16"
  shows "fold (\<lambda>i. upd_block (p + of_nat i) (tailed i)) [1..<n] s =
    s\<lparr>blocks := (\<lambda>q. if 0 < unat (q - p) \<and> unat (q - p) < n then tailed (unat (q - p)) (blocks s q)
      else blocks s q)\<rparr>"
  using assms
proof (induction n)
  case 0
  then show ?case by simp
next
  case (Suc n)
  show ?case
  proof (cases "n = 0")
    case True
    then have "(\<lambda>q. if 0 < unat (q - p) \<and> unat (q - p) < Suc n then tailed (unat (q - p)) (blocks s q)
      else blocks s q) = blocks s" by (intro ext) auto
    with True show ?thesis by simp
  next
    case False
    have q: "q = p + of_nat n \<longleftrightarrow> unat (q - p) = n" for q
      using offset_eq_iff [of n q p] Suc.prems by simp
    show ?thesis
      using False Suc.IH Suc.prems
      by (auto simp: upd_block_def q fun_eq_iff less_Suc_eq intro!: arg_cong [where f = "\<lambda>f. s\<lparr>blocks := f\<rparr>"])
  qed
qed

lemma set_tail_eq:
  assumes "k \<le> MAX_ORDER" "p \<in> extent p k"
  shows "set_tail_physblocks p k s =
    s\<lparr>blocks := (\<lambda>q. if q \<in> extent p k \<and> q \<noteq> p then tailed (unat (q - p)) (blocks s q) else blocks s q)\<rparr>"
proof -
  have k: "k < 64" "(2 :: nat) ^ k \<le> 2 ^ 12"
    using assms(1) power_increasing [of k 12 "2 :: nat"] by (auto simp: MAX_ORDER_def)
  have "q \<in> extent p k \<and> q \<noteq> p \<longleftrightarrow> 0 < unat (q - p) \<and> unat (q - p) < 2 ^ k" for q
    using extent_offset [OF assms(2) k(1), of q] by (auto simp: unat_gt_0)
  then show ?thesis
    unfolding set_tail_physblocks_def using set_tail_upto [of "2 ^ k" p s] k(2)
    by (simp add: tailed_def [abs_def])
qed

section \<open>The invariant\<close>

abbreviation managed :: "phys_alloc_state \<Rightarrow> pfn_t set" where
  "managed s \<equiv> {p. pfn_to_span_locked s p \<noteq> - 1}"

definition is_head :: "phys_alloc_state \<Rightarrow> pfn_t \<Rightarrow> bool" where
  "is_head s p \<longleftrightarrow> p \<in> managed s \<and> head_offset (blocks s p) = 0"

definition free_head :: "phys_alloc_state \<Rightarrow> pfn_t \<Rightarrow> bool" where
  "free_head s p \<longleftrightarrow> is_head s p \<and> blk_type (blocks s p) = PHYSBLOCK_FREE"

abbreviation order_of :: "phys_alloc_state \<Rightarrow> pfn_t \<Rightarrow> nat" where
  "order_of s p \<equiv> blk_order (blocks s p)"

definition lists_ok :: "phys_alloc_state \<Rightarrow> (nat \<Rightarrow> node_ptr list) \<Rightarrow> bool" where
  "lists_ok s xss \<longleftrightarrow> dl.family (nodes s) {..MAX_ORDER} FreeList xss \<and>
     (\<forall>k\<le>MAX_ORDER. set (xss k) = BlockNode ` {p. free_head s p \<and> order_of s p = k})"

definition weight :: "(nat \<Rightarrow> node_ptr list) \<Rightarrow> nat" where
  "weight xss = (\<Sum>k\<le>MAX_ORDER. 2 ^ k * length (xss k))"

definition stats_ok :: "phys_alloc_state \<Rightarrow> (nat \<Rightarrow> node_ptr list) \<Rightarrow> bool" where
  "stats_ok s xss \<longleftrightarrow> num_free_4k_pages (stats s) = of_nat (weight xss) \<and>
     (\<forall>k\<le>MAX_ORDER. order_free (stats s) k = of_nat (length (xss k)))"

definition locks_ok :: "phys_alloc_state \<Rightarrow> pfn_t set \<Rightarrow> bool" where
  "locks_ok s L \<longleftrightarrow> (\<forall>p\<in>managed s. blk_lock (blocks s p) = (if p \<in> L then 1 else 0))"

abbreviation layout_ok :: "phys_alloc_state \<Rightarrow> bool" where
  "layout_ok s \<equiv> layout_on (blocks s) (pfn_to_span_locked s) (managed s)"

definition phys_core :: "phys_alloc_state \<Rightarrow> pfn_t set \<Rightarrow> (nat \<Rightarrow> node_ptr list) \<Rightarrow> bool" where
  "phys_core s L xss \<longleftrightarrow> layout_ok s \<and> lists_ok s xss \<and> stats_ok s xss \<and> locks_ok s L"

text \<open>What a caller can see: the free page frames, and the blocks in use.\<close>

definition free_pages :: "phys_alloc_state \<Rightarrow> pfn_t set" where
  "free_pages s = (\<Union>p\<in>{p. free_head s p}. extent p (order_of s p))"

definition in_use :: "phys_alloc_state \<Rightarrow> pfn_t \<rightharpoonup> nat \<times> u32 \<times> u32" where
  "in_use s p = (if is_head s p \<and> \<not> free_head s p
     then Some (order_of s p, blk_type (blocks s p), refcount (blocks s p)) else None)"

text \<open>No two free buddies of the same order below the maximum, except with \<open>x\<close>.\<close>

definition mergeable :: "phys_alloc_state \<Rightarrow> pfn_t \<Rightarrow> bool" where
  "mergeable s p \<longleftrightarrow> (let b = pfn_to_buddy_pfn p (order_of s p) in
     free_head s p \<and> order_of s p < MAX_ORDER \<and> pfn_to_span_locked s b = pfn_to_span_locked s p \<and>
     free_head s b \<and> order_of s b = order_of s p)"

definition coalesced_but :: "pfn_t set \<Rightarrow> phys_alloc_state \<Rightarrow> bool" where
  "coalesced_but X s \<longleftrightarrow> (\<forall>p. mergeable s p \<longrightarrow> p \<in> X \<or> pfn_to_buddy_pfn p (order_of s p) \<in> X)"

abbreviation coalesced :: "phys_alloc_state \<Rightarrow> bool" where
  "coalesced \<equiv> coalesced_but {}"

definition phys_inv :: "phys_alloc_state \<Rightarrow> bool" where
  "phys_inv s \<longleftrightarrow> state_lock s = 0 \<and> coalesced s \<and> (\<exists>xss. phys_core s {} xss)"

section \<open>Consequences\<close>

lemma type_mask_values [simp]:
  "PHYSBLOCK_UNMANAGED AND PHYSBLOCK_TYPE_MASK = PHYSBLOCK_UNMANAGED"
  "PHYSBLOCK_FREE AND PHYSBLOCK_TYPE_MASK = PHYSBLOCK_FREE"
  "PHYSBLOCK_TAIL AND PHYSBLOCK_TYPE_MASK = PHYSBLOCK_TAIL"
  "PHYSBLOCK_FREE \<noteq> PHYSBLOCK_TAIL" "PHYSBLOCK_FREE \<noteq> PHYSBLOCK_UNMANAGED"
  "PHYSBLOCK_UNMANAGED \<noteq> PHYSBLOCK_TAIL" "PHYSBLOCK_TAIL \<noteq> PHYSBLOCK_FREE"
  "PHYSBLOCK_UNMANAGED \<noteq> PHYSBLOCK_FREE"
  by code_simp+

lemma type_kind_FREE: "blk_type b = PHYSBLOCK_FREE \<Longrightarrow> type_kind b = PHYSBLOCK_FREE"
  by (simp add: type_kind_def)

lemma free_block_refcounts:
  assumes "head_ok bs sp x" "blk_type (bs x) = PHYSBLOCK_FREE" "q \<in> block_extent bs x"
  shows "refcount (bs q) = 0"
  using assms head_okD(5) [OF assms(1,3)] type_kind_FREE [OF assms(2)]
  by (cases "q = x") (auto simp: head_ok_def tail_block_def)

lemma is_head_ok: "layout_ok s \<Longrightarrow> is_head s p \<Longrightarrow> head_ok (blocks s) (pfn_to_span_locked s) p"
  using layout_headD(1) by (auto simp: is_head_def)

lemma is_head_extent: "layout_ok s \<Longrightarrow> is_head s p \<Longrightarrow> extent p (order_of s p) \<subseteq> managed s"
  using layout_headD(2) by (auto simp: is_head_def)

lemma heads_disjoint:
  "layout_ok s \<Longrightarrow> is_head s p \<Longrightarrow> is_head s p' \<Longrightarrow> q \<in> extent p (order_of s p) \<Longrightarrow>
    q \<in> extent p' (order_of s p') \<Longrightarrow> p = p'"
  using heads_unique [OF is_head_ok is_head_ok] by blast

lemma family_ring: "lists_ok s xss \<Longrightarrow> k \<le> MAX_ORDER \<Longrightarrow> ring (nodes s) (FreeList k) (xss k)"
  by (simp add: lists_ok_def dl.family_def)

lemma family_distinct: "lists_ok s xss \<Longrightarrow> k \<le> MAX_ORDER \<Longrightarrow> distinct (xss k)"
  using dl.repr_distinct [OF family_ring] by auto

lemma weight_upd:
  assumes "k \<le> MAX_ORDER"
  shows "weight (xss(k := ys)) + 2 ^ k * length (xss k) = weight xss + 2 ^ k * length ys"
proof -
  have "weight zss = 2 ^ k * length (zss k) + (\<Sum>j\<in>{..MAX_ORDER} - {k}. 2 ^ j * length (zss j))"
    for zss :: "nat \<Rightarrow> node_ptr list"
    unfolding weight_def using assms by (subst sum.remove [of _ k]) auto
  from this [of xss] this [of "xss(k := ys)"] show ?thesis by simp
qed


section \<open>Joining two buddies\<close>

text \<open>\<open>h\<close> and its buddy of order \<open>k\<close> are free blocks of that order in one span; \<open>h\<close> is the lower.\<close>

definition free_pair :: "phys_alloc_state \<Rightarrow> pfn_t \<Rightarrow> nat \<Rightarrow> bool" where
  "free_pair s h k \<longleftrightarrow> (let b = pfn_to_buddy_pfn h k in
     k < MAX_ORDER \<and> h \<in> extent h (k + 1) \<and> free_head s h \<and> free_head s b \<and>
     order_of s h = k \<and> order_of s b = k \<and> pfn_to_span_locked s b = pfn_to_span_locked s h)"

lemma join_eq:
  assumes "k < MAX_ORDER" "h \<in> extent h (k + 1)"
  shows "blocks (join_physblocks_locked h b (k + 1) s) =
      (\<lambda>q. if q = h then (blocks s h)\<lparr>blk_order := k + 1\<rparr>
           else if q \<in> extent h (k + 1) then tailed (unat (q - h)) (blocks s q) else blocks s q)"
    "nodes (join_physblocks_locked h b (k + 1) s) =
      list_push_back (list_detach (list_detach (nodes s) (BlockNode h)) (BlockNode b))
        (FreeList (k + 1)) (BlockNode h)"
    "stats (join_physblocks_locked h b (k + 1) s) =
      add_order_free (k + 1) 1 (add_order_free k (- 2) (stats s))"
    "spans (join_physblocks_locked h b (k + 1) s) = spans s"
    "state_lock (join_physblocks_locked h b (k + 1) s) = state_lock s"
  using assms set_tail_eq [of "k + 1" h]
  by (simp_all add: join_physblocks_locked_def Let_def fun_eq_iff)

lemma join_layout:
  assumes "layout_ok s" "free_pair s h k"
  defines "s' \<equiv> join_physblocks_locked h (pfn_to_buddy_pfn h k) (k + 1) s"
  shows "layout_ok s'"
    and "free_head s' p \<longleftrightarrow> free_head s p \<and> p \<noteq> pfn_to_buddy_pfn h k"
    and "is_head s' p \<longleftrightarrow> is_head s p \<and> p \<noteq> pfn_to_buddy_pfn h k"
    and "p \<notin> extent h (k + 1) \<Longrightarrow> blocks s' p = blocks s p"
    and "pfn_to_span_locked s' = pfn_to_span_locked s"
proof -
  let ?b = "pfn_to_buddy_pfn h k" and ?E = "extent h (k + 1)"
  note d = assms(2) [unfolded free_pair_def Let_def]
  have k: "k < 64" "k < MAX_ORDER" using d by (auto simp: MAX_ORDER_def)
  have h: "h \<in> ?E" "is_head s h" "is_head s ?b" "order_of s h = k" "order_of s ?b = k"
    "pfn_to_span_locked s ?b = pfn_to_span_locked s h"
    using d by (auto simp: free_head_def)
  note halves = extent_halves [OF h(1) k(1)]
  note bs = join_eq(1) [OF k(2) h(1), of ?b s, folded s'_def]
  show sp: "pfn_to_span_locked s' = pfn_to_span_locked s"
    unfolding s'_def by (rule span_frame [OF join_eq(4) [OF k(2) h(1)]])
  have hok: "head_ok (blocks s) (pfn_to_span_locked s) h" "head_ok (blocks s) (pfn_to_span_locked s) ?b"
    using is_head_ok [OF assms(1)] h by blast+
  have zero: "refcount (blocks s q) = 0" if "q \<in> ?E" for q
    using free_block_refcounts [OF hok(1), of q] free_block_refcounts [OF hok(2), of q] that
    unfolding halves(1) h(4,5) using d by (auto simp: free_head_def)
  have spE: "pfn_to_span_locked s q = pfn_to_span_locked s h" if "q \<in> ?E" for q
    using that head_okD(4) [OF hok(1), of q] head_okD(4) [OF hok(2), of q]
    unfolding halves(1) h(4-6) by blast
  have tails: "tail_block (blocks s' q) (unat (q - h))" if "q \<in> ?E" "q \<noteq> h" for q
    using that zero [OF that(1)] by (simp add: bs tail_block_def tailed_def)
  have hok': "head_ok (blocks s') (pfn_to_span_locked s) h"
    using hok(1) k(2) h(1) by (intro head_okI [where k = "k + 1"] spE tails) (auto simp: bs head_ok_def type_kind_def)
  have ord: "order_of s' h = k + 1" by (simp add: bs)
  have E: "layout_on (blocks s) (pfn_to_span_locked s) ?E"
    using layout_union [OF layout_block [OF hok(1)] layout_block [OF hok(2)]] unfolding h(4,5) halves(1) .
  have "layout_on (blocks s') (pfn_to_span_locked s) (managed s)"
  proof (rule layout_replace [OF assms(1) E])
    show "?E \<subseteq> managed s"
      using is_head_extent [OF assms(1) h(2)] is_head_extent [OF assms(1) h(3)]
      unfolding halves(1) h(4,5) by (rule Un_least)
    show "layout_on (blocks s') (pfn_to_span_locked s) ?E"
      using layout_block [OF hok'] unfolding ord .
    show "blk_lock_update (\<lambda>_. 0) (blocks s' q) = blk_lock_update (\<lambda>_. 0) (blocks s q)"
      if "q \<in> managed s - ?E" for q using that h(1) by (auto simp: bs)
  qed
  then show "layout_ok s'" by (simp add: sp)
  show "p \<notin> ?E \<Longrightarrow> blocks s' p = blocks s p" using h(1) by (auto simp: bs)
  have bE: "?b \<in> ?E" "?b \<noteq> h" using halves(1) buddy_aligned [OF halves(3) k(1)] buddy_neq [OF k(1)] by auto
  have tl: "head_offset (blocks s' p) \<noteq> 0" if "p \<in> ?E" "p \<noteq> h" for p
    using head_okD(6) [OF hok', of p] that by (simp add: bs)
  have old: "head_offset (blocks s p) \<noteq> 0" if "p \<in> ?E" "p \<noteq> h" "p \<noteq> ?b" for p
    using head_okD(6) [OF hok(1), of p] head_okD(6) [OF hok(2), of p] that halves(1) h by auto
  have hd: "is_head s' p \<longleftrightarrow> is_head s p \<and> p \<noteq> ?b" for p
    using tl [of p] old [of p] bE by (cases "p \<in> ?E"; cases "p = h") (auto simp: is_head_def sp bs)
  then show "is_head s' p \<longleftrightarrow> is_head s p \<and> p \<noteq> ?b" .
  have "blk_type (blocks s' p) = blk_type (blocks s p)" if "is_head s' p" for p
    using that tl [of p] by (auto simp: is_head_def bs)
  with hd show "free_head s' p \<longleftrightarrow> free_head s p \<and> p \<noteq> ?b" by (auto simp: free_head_def)
qed


lemma join_heads:
  assumes "layout_ok s" "free_pair s h k"
  defines "s' \<equiv> join_physblocks_locked h (pfn_to_buddy_pfn h k) (k + 1) s"
  assumes "is_head s' p"
  shows "order_of s' p = (if p = h then k + 1 else order_of s p)"
    "blk_type (blocks s' p) = blk_type (blocks s p)"
    "refcount (blocks s' p) = refcount (blocks s p)"
    "p \<noteq> h \<Longrightarrow> p \<notin> extent h (k + 1)"
proof -
  have k: "k < MAX_ORDER" "h \<in> extent h (k + 1)" "is_head s h" "h \<noteq> pfn_to_buddy_pfn h k"
    using assms(2) buddy_neq [of k h] by (auto simp: free_pair_def free_head_def Let_def MAX_ORDER_def)
  note bs = join_eq(1) [OF k(1,2), of "pfn_to_buddy_pfn h k" s, folded s'_def]
  have ord: "order_of s' h = k + 1" by (simp add: bs)
  have lay: "layout_ok s'" and "is_head s' h"
    using join_layout(1,3) [OF assms(1,2), folded s'_def] k(3,4) by blast+
  then show out: "p \<notin> extent h (k + 1)" if "p \<noteq> h"
    using heads_disjoint [OF lay assms(4), of h p] head_okD(2) [OF is_head_ok [OF lay assms(4)]] that ord
    by metis
  show "order_of s' p = (if p = h then k + 1 else order_of s p)"
    "blk_type (blocks s' p) = blk_type (blocks s p)" "refcount (blocks s' p) = refcount (blocks s p)"
    using out by (auto simp: bs)
qed

lemma join_result:
  assumes "layout_ok s" "free_pair s h k"
  defines "s' \<equiv> join_physblocks_locked h (pfn_to_buddy_pfn h k) (k + 1) s"
  shows "free_head s' h" "order_of s' h = k + 1"
proof -
  have "free_head s h" "h \<noteq> pfn_to_buddy_pfn h k"
    using assms(2) buddy_neq [of k h] by (auto simp: free_pair_def Let_def MAX_ORDER_def)
  then show fh: "free_head s' h" using join_layout(2) [OF assms(1,2), of h] by (simp add: s'_def)
  then show "order_of s' h = k + 1"
    using join_heads(1) [OF assms(1,2), of h] by (simp add: free_head_def s'_def)
qed

lemma free_list_mem:
  "lists_ok s xss \<Longrightarrow> j \<le> MAX_ORDER \<Longrightarrow> BlockNode p \<in> set (xss j) \<longleftrightarrow> free_head s p \<and> order_of s p = j"
  by (auto simp: lists_ok_def)

lemma free_list_no_heads: "lists_ok s xss \<Longrightarrow> j \<le> MAX_ORDER \<Longrightarrow> FreeList i \<notin> set (xss j)"
  by (auto simp: lists_ok_def)

lemma lists_okI:
  assumes "dl.family (nodes s) {..MAX_ORDER} FreeList xss"
    and "\<And>j i. j \<le> MAX_ORDER \<Longrightarrow> FreeList i \<notin> set (xss j)"
    and "\<And>j p. j \<le> MAX_ORDER \<Longrightarrow> BlockNode p \<in> set (xss j) \<longleftrightarrow> free_head s p \<and> order_of s p = j"
  shows "lists_ok s xss"
proof -
  have "x \<in> set (xss j) \<longleftrightarrow> x \<in> BlockNode ` {p. free_head s p \<and> order_of s p = j}"
    if "j \<le> MAX_ORDER" for j x
    using assms(2,3) that by (cases x) auto
  with assms(1) show ?thesis by (auto simp: lists_ok_def)
qed

definition join_lists :: "pfn_t \<Rightarrow> pfn_t \<Rightarrow> nat \<Rightarrow> (nat \<Rightarrow> node_ptr list) \<Rightarrow> nat \<Rightarrow> node_ptr list" where
  "join_lists h b k xss =
     (xss(k := remove1 (BlockNode b) (remove1 (BlockNode h) (xss k))))(k + 1 := xss (k + 1) @ [BlockNode h])"

lemma join_lists_ok:
  assumes "layout_ok s" "lists_ok s xss" "free_pair s h k"
  shows "lists_ok (join_physblocks_locked h (pfn_to_buddy_pfn h k) (k + 1) s)
    (join_lists h (pfn_to_buddy_pfn h k) k xss)"
proof -
  let ?b = "pfn_to_buddy_pfn h k"
  let ?s = "join_physblocks_locked h ?b (k + 1) s"
  have k: "k < MAX_ORDER" "h \<in> extent h (k + 1)" "?b \<noteq> h" and f: "free_head s h" "free_head s ?b"
    "order_of s h = k" "order_of s ?b = k"
    using assms(3) buddy_neq [of k h] by (auto simp: free_pair_def Let_def MAX_ORDER_def)
  have mem: "BlockNode p \<in> set (xss j) \<longleftrightarrow> free_head s p \<and> order_of s p = j" if "j \<le> MAX_ORDER" for p j
    using free_list_mem [OF assms(2) that] .
  have dist: "distinct (xss k)" using family_distinct [OF assms(2)] k(1) by simp
  have fam: "dl.family (nodes s) {..MAX_ORDER} FreeList xss" using assms(2) by (simp add: lists_ok_def)
  note f1 = dl.family_detach [OF fam, of k "BlockNode h"]
  note f2 = dl.family_detach [OF f1, of k "BlockNode ?b"]
  have f2': "dl.family (list_detach (list_detach (nodes s) (BlockNode h)) (BlockNode ?b)) {..MAX_ORDER}
      FreeList (xss(k := remove1 (BlockNode ?b) (remove1 (BlockNode h) (xss k))))"
    using f2 k f mem [of k] dist by (simp add: set_remove1_eq)
  have sets: "set (join_lists h ?b k xss j) =
      (if j = k then set (xss k) - {BlockNode h, BlockNode ?b}
       else if j = k + 1 then insert (BlockNode h) (set (xss j)) else set (xss j))" for j
    using dist by (auto simp: join_lists_def set_remove1_eq)
  have nodes: "nodes ?s = list_push_back (list_detach (list_detach (nodes s) (BlockNode h)) (BlockNode ?b))
        (FreeList (k + 1)) (BlockNode h)" by (rule join_eq(2) [OF k(1,2)])
  have "dl.family (nodes ?s) {..MAX_ORDER} FreeList (join_lists h ?b k xss)"
    unfolding nodes join_lists_def using dl.family_push [OF f2', of "k + 1" "BlockNode h"] k f mem dist
    by (simp add: set_remove1_eq)
  then show ?thesis
  proof (rule lists_okI)
    show "FreeList i \<notin> set (join_lists h ?b k xss j)" if "j \<le> MAX_ORDER" for i j
      using free_list_no_heads [OF assms(2) that] unfolding sets by auto
    show "BlockNode p \<in> set (join_lists h ?b k xss j) \<longleftrightarrow> free_head ?s p \<and> order_of ?s p = j"
      if "j \<le> MAX_ORDER" for p j
      using mem [OF that, of p] k(3) f join_layout(2) [OF assms(1,3), of p]
        join_heads(1) [OF assms(1,3), of p] unfolding sets free_head_def
      by (cases "p = h"; cases "p = ?b") (simp_all, auto)
  qed
qed


lemma join_lists_lengths:
  assumes "BlockNode h \<in> set (xss k)" "BlockNode b \<in> set (xss k)" "h \<noteq> b"
  shows "length (xss k) = length (join_lists h b k xss k) + 2"
    "length (join_lists h b k xss (k + 1)) = length (xss (k + 1)) + 1"
    "j \<noteq> k \<Longrightarrow> j \<noteq> k + 1 \<Longrightarrow> join_lists h b k xss j = xss j"
proof -
  have "0 < length (xss k)" using assms(1) by (cases "xss k") auto
  moreover have "BlockNode b \<in> set (remove1 (BlockNode h) (xss k))" using assms by simp
  moreover from this have "0 < length (remove1 (BlockNode h) (xss k))"
    by (metis length_pos_if_in_set)
  ultimately show "length (xss k) = length (join_lists h b k xss k) + 2"
    using assms by (simp add: join_lists_def length_remove1 del: length_greater_0_conv)
qed (simp_all add: join_lists_def)

lemma weight_join:
  assumes "k < MAX_ORDER" "BlockNode h \<in> set (xss k)" "BlockNode b \<in> set (xss k)" "h \<noteq> b"
  shows "weight (join_lists h b k xss) = weight xss"
proof -
  let ?ys = "xss(k := remove1 (BlockNode b) (remove1 (BlockNode h) (xss k)))"
  obtain n where n: "length (xss k) = n + 2" "length (join_lists h b k xss k) = n"
    using join_lists_lengths(1) [where xss = xss and k = k, OF assms(2-4)] by blast
  have "weight ?ys + 2 ^ k * (n + 2) = weight xss + 2 ^ k * n"
    using weight_upd [of k xss "remove1 (BlockNode b) (remove1 (BlockNode h) (xss k))"] assms(1) n
    by (simp add: join_lists_def)
  moreover have "weight (join_lists h b k xss) + 2 ^ (k + 1) * length (xss (k + 1)) =
      weight ?ys + 2 ^ (k + 1) * (length (xss (k + 1)) + 1)"
    using weight_upd [of "k + 1" ?ys "xss (k + 1) @ [BlockNode h]"] assms(1) by (simp add: join_lists_def)
  ultimately show ?thesis by (simp add: algebra_simps)
qed

lemma join_core:
  assumes "phys_core s L xss" "free_pair s h k"
  defines "b \<equiv> pfn_to_buddy_pfn h k"
  shows "phys_core (join_physblocks_locked h b (k + 1) s) (L - (extent h (k + 1) - {h})) (join_lists h b k xss)"
proof -
  let ?s = "join_physblocks_locked h b (k + 1) s"
  have c: "layout_ok s" "lists_ok s xss" "stats_ok s xss" "locks_ok s L"
    using assms(1) by (auto simp: phys_core_def)
  have k: "k < MAX_ORDER" "h \<in> extent h (k + 1)" "h \<noteq> b"
    and m: "BlockNode h \<in> set (xss k)" "BlockNode b \<in> set (xss k)"
    using assms(2) buddy_neq [of k h] free_list_mem [OF c(2), of k]
    by (auto simp: free_pair_def Let_def MAX_ORDER_def b_def)
  note len = join_lists_lengths [where xss = xss and k = k, OF m k(3)]
  have st: "stats ?s = add_order_free (k + 1) 1 (add_order_free k (- 2) (stats s))"
    by (rule join_eq(3) [OF k(1,2)])
  have "order_free (stats ?s) j = of_nat (length (join_lists h b k xss j))" if "j \<le> MAX_ORDER" for j
    using c(3) that k(1) len(1,2) len(3) [of j] unfolding st
    by (auto simp: stats_ok_def add_order_free_def)
  then have "stats_ok ?s (join_lists h b k xss)"
    using c(3) weight_join [where xss = xss and k = k, OF k(1) m k(3)] unfolding stats_ok_def st by (simp add: add_order_free_def)
  moreover have "locks_ok ?s (L - (extent h (k + 1) - {h}))"
    using c(4) k(2) join_layout(5) [OF c(1) assms(2)]
    unfolding locks_ok_def b_def join_eq(1) [OF k(1,2)] by (auto simp: tailed_def)
  ultimately show ?thesis
    using join_layout(1) [OF c(1) assms(2)] join_lists_ok [OF c(1,2) assms(2)]
    by (simp add: phys_core_def b_def)
qed

lemma join_views:
  assumes "layout_ok s" "free_pair s h k"
  defines "s' \<equiv> join_physblocks_locked h (pfn_to_buddy_pfn h k) (k + 1) s"
  shows "free_pages s' = free_pages s" "in_use s' = in_use s"
proof -
  let ?b = "pfn_to_buddy_pfn h k"
  have k: "k < MAX_ORDER" "k < 64" "h \<in> extent h (k + 1)" "?b \<noteq> h" "free_head s h" "free_head s ?b"
    and o: "order_of s h = k" "order_of s ?b = k"
    using assms(2) buddy_neq [of k h] by (auto simp: free_pair_def Let_def MAX_ORDER_def)
  note fh = join_layout(2) [OF assms(1,2), folded s'_def] and ih = join_layout(3) [OF assms(1,2), folded s'_def]
  have hd: "order_of s' p = (if p = h then k + 1 else order_of s p)" "blk_type (blocks s' p) = blk_type (blocks s p)"
    "refcount (blocks s' p) = refcount (blocks s p)" if "is_head s' p" for p
    using join_heads [OF assms(1,2), folded s'_def] that by blast+
  have "q \<in> free_pages s' \<longleftrightarrow> q \<in> free_pages s" for q
  proof
    assume "q \<in> free_pages s'"
    then obtain p where p: "free_head s' p" "q \<in> extent p (order_of s' p)" by (auto simp: free_pages_def)
    then have "is_head s' p" by (simp add: free_head_def)
    from hd(1) [OF this] p fh [of p] show "q \<in> free_pages s"
      using extent_halves(1) [OF k(3,2)] k(5,6) o
      by (cases "p = h") (force simp: free_pages_def)+
  next
    assume "q \<in> free_pages s"
    then obtain p where p: "free_head s p" "q \<in> extent p (order_of s p)" by (auto simp: free_pages_def)
    show "q \<in> free_pages s'"
    proof (cases "p = h \<or> p = ?b")
      case True
      then have "q \<in> extent h k \<union> extent ?b k" using p(2) o by (metis Un_iff)
      then have "q \<in> extent h (k + 1)" using extent_halves(1) [OF k(3,2)] by metis
      moreover have "free_head s' h" using fh k(4,5) by auto
      ultimately show ?thesis using hd(1) [of h] by (auto simp: free_pages_def free_head_def)
    next
      case False
      then have "free_head s' p" using fh p(1) by simp
      with False p(2) hd(1) [of p] show ?thesis by (auto simp: free_pages_def free_head_def)
    qed
  qed
  then show "free_pages s' = free_pages s" by blast
  show "in_use s' = in_use s"
  proof
    fix p
    have "p \<noteq> ?b \<and> p \<noteq> h" if "\<not> free_head s p" using that k by auto
    then show "in_use s' p = in_use s p"
      using hd [of p] ih [of p] fh [of p] by (auto simp: in_use_def)
  qed
qed


section \<open>Taking and giving back locks\<close>

text \<open>States that differ at most in block locks and in the allocator's lock.\<close>

definition relocked :: "phys_alloc_state \<Rightarrow> phys_alloc_state \<Rightarrow> bool" where
  "relocked s s' \<longleftrightarrow> (\<forall>q. blk_lock_update (\<lambda>_. 0) (blocks s' q) = blk_lock_update (\<lambda>_. 0) (blocks s q)) \<and>
     nodes s' = nodes s \<and> stats s' = stats s \<and> spans s' = spans s"

lemma relocked_fields:
  assumes "relocked s s'"
  shows "head_offset (blocks s' q) = head_offset (blocks s q)" "order_of s' q = order_of s q"
    "blk_type (blocks s' q) = blk_type (blocks s q)" "refcount (blocks s' q) = refcount (blocks s q)"
    "nodes s' = nodes s" "stats s' = stats s" "pfn_to_span_locked s' = pfn_to_span_locked s"
    "spans s' = spans s"
proof -
  have "blk_lock_update (\<lambda>_. 0) (blocks s' q) = blk_lock_update (\<lambda>_. 0) (blocks s q)"
    using assms by (simp add: relocked_def)
  then show "head_offset (blocks s' q) = head_offset (blocks s q)" "order_of s' q = order_of s q"
    "blk_type (blocks s' q) = blk_type (blocks s q)" "refcount (blocks s' q) = refcount (blocks s q)"
    by (cases "blocks s q"; cases "blocks s' q"; simp)+
qed (use assms in \<open>auto simp: relocked_def intro: span_frame\<close>)

lemma relocked_views:
  assumes "relocked s s'"
  shows "is_head s' p = is_head s p" "free_head s' p = free_head s p"
    "free_pages s' = free_pages s" "in_use s' = in_use s"
    "mergeable s' p = mergeable s p" "coalesced_but X s' = coalesced_but X s"
proof -
  note f = relocked_fields [OF assms]
  show hd: "is_head s' p = is_head s p" for p by (simp add: is_head_def f)
  show fh: "free_head s' p = free_head s p" for p by (simp add: free_head_def hd f)
  show "free_pages s' = free_pages s" by (simp add: free_pages_def fh f)
  show "in_use s' = in_use s" by (simp add: in_use_def fun_eq_iff fh hd f)
  show m: "mergeable s' p = mergeable s p" for p by (simp add: mergeable_def fh f)
  show "coalesced_but X s' = coalesced_but X s" by (simp add: coalesced_but_def m f)
qed

lemma relocked_core:
  assumes "relocked s s'" "phys_core s L xss" "locks_ok s' L'"
  shows "phys_core s' L' xss"
proof -
  note f = relocked_fields [OF assms(1)] and v = relocked_views [OF assms(1)]
  have c: "layout_ok s" "lists_ok s xss" "stats_ok s xss" using assms(2) by (auto simp: phys_core_def)
  have "layout_on (blocks s') (pfn_to_span_locked s) (managed s)"
    by (rule layout_cong [OF _ c(1)]) (use assms(1) in \<open>auto simp: relocked_def\<close>)
  moreover have "lists_ok s' xss" using c(2) by (simp add: lists_ok_def f v)
  moreover have "stats_ok s' xss" using c(3) by (simp add: stats_ok_def f)
  ultimately show ?thesis using assms(3) by (simp add: phys_core_def f(7))
qed

definition lock_block :: "pfn_t \<Rightarrow> phys_alloc_state \<Rightarrow> phys_alloc_state" where
  "lock_block p s = s\<lparr>blocks := (blocks s)(p := (blocks s p)\<lparr>blk_lock := 1\<rparr>)\<rparr>"

lemma lock_block_simps [simp]:
  "state_lock (lock_block p s) = state_lock s" "spans (lock_block p s) = spans s"
  by (simp_all add: lock_block_def)

lemma relocked_steps:
  "relocked s (lock_block p s)" "relocked s (block_release p s)" "relocked s (state_release s)"
  "relocked s (s\<lparr>state_lock := lk\<rparr>)"
  by (auto simp: relocked_def lock_block_def)

lemma locked_core:
  assumes "phys_core s L xss"
  shows "phys_core (lock_block p s) (insert p L) xss"
    "phys_core (block_release p s) (L - {p}) xss"
    "phys_core (state_release s) L xss" "phys_core (s\<lparr>state_lock := lk\<rparr>) L xss"
proof -
  have l: "locks_ok s L" using assms by (simp add: phys_core_def)
  show "phys_core (lock_block p s) (insert p L) xss"
    by (rule relocked_core [OF relocked_steps(1) assms]) (use l in \<open>auto simp: locks_ok_def lock_block_def\<close>)
  show "phys_core (block_release p s) (L - {p}) xss"
    by (rule relocked_core [OF relocked_steps(2) assms]) (use l in \<open>auto simp: locks_ok_def\<close>)
  show "phys_core (state_release s) L xss"
    by (rule relocked_core [OF relocked_steps(3) assms]) (use l in \<open>auto simp: locks_ok_def\<close>)
  show "phys_core (s\<lparr>state_lock := lk\<rparr>) L xss"
    by (rule relocked_core [OF relocked_steps(4) assms]) (use l in \<open>auto simp: locks_ok_def\<close>)
qed

lemma acquire_block:
  assumes "phys_core s L xss" "p \<in> managed s" "p \<notin> L"
  shows "block_acquire s p = Inr (lock_block p s)"
    "pfn_to_physblock_raw_lock s p = Inr (p, lock_block p s)"
proof -
  have "blk_lock (blocks s p) = 0" using assms unfolding phys_core_def locks_ok_def by metis
  then show "block_acquire s p = Inr (lock_block p s)" by (simp add: block_acquire_free lock_block_def)
  then show "pfn_to_physblock_raw_lock s p = Inr (p, lock_block p s)"
    by (simp add: pfn_to_physblock_raw_lock_def)
qed

lemma acquire_head:
  assumes "phys_core s L xss" "is_head s p" "p \<notin> L"
  shows "pfn_to_physblock_lock s p = Inr (p, lock_block p s)"
proof -
  have "p \<in> managed s" "head_offset (blocks s p) = 0" using assms(2) by (simp_all add: is_head_def)
  with acquire_block(2) [OF assms(1) _ assms(3)] show ?thesis
    by (simp add: pfn_to_physblock_lock_def lock_block_def)
qed


section \<open>Changing the type or the count of a block\<close>

lemma update_head:
  assumes "layout_ok s" "is_head s p"
    and "blocks s' = (blocks s)(p := b)" "spans s' = spans s"
    and "head_offset b = 0" "blk_order b = order_of s p" "type_kind b \<noteq> PHYSBLOCK_TAIL"
    and "type_kind b = PHYSBLOCK_FREE \<Longrightarrow> blk_type b = PHYSBLOCK_FREE \<and> refcount b = 0"
  shows "layout_ok s'" "is_head s' q \<longleftrightarrow> is_head s q" "order_of s' q = order_of s q"
    "free_head s' q \<longleftrightarrow> (if q = p then blk_type b = PHYSBLOCK_FREE else free_head s q)"
    "in_use s' = (in_use s)(p := if blk_type b = PHYSBLOCK_FREE then None
       else Some (order_of s p, blk_type b, refcount b))"
proof -
  have sp: "pfn_to_span_locked s' = pfn_to_span_locked s" using assms(4) by (rule span_frame)
  note hok = is_head_ok [OF assms(1,2)]
  show ord: "order_of s' q = order_of s q" for q using assms(3,6) by simp
  have "head_ok (blocks s') (pfn_to_span_locked s) p"
    using head_okD(1,2,5) [OF hok] assms(3,5-8)
    by (intro head_okI [where k = "order_of s p"] head_okD(4) [OF hok]) simp_all
  from layout_block [OF this] have E: "layout_on (blocks s') (pfn_to_span_locked s) (extent p (order_of s p))"
    unfolding ord .
  have "layout_on (blocks s') (pfn_to_span_locked s) (managed s)"
    by (rule layout_replace [OF assms(1) layout_block [OF hok] is_head_extent [OF assms(1,2)] E])
      (use head_okD(2) [OF hok] assms(3) in auto)
  then show "layout_ok s'" by (simp add: sp)
  show hd: "is_head s' q \<longleftrightarrow> is_head s q" for q
    using assms(2,3,5) by (auto simp: is_head_def sp)
  show fh: "free_head s' q \<longleftrightarrow> (if q = p then blk_type b = PHYSBLOCK_FREE else free_head s q)" for q
    using hd assms(2,3) by (simp add: free_head_def)
  show "in_use s' = (in_use s)(p := if blk_type b = PHYSBLOCK_FREE then None
       else Some (order_of s p, blk_type b, refcount b))"
    by (rule ext) (use assms(2,3,6) in \<open>simp add: in_use_def hd fh ord\<close>)
qed

text \<open>Changing a block that is and stays in use touches neither the lists nor the free pages.\<close>

lemma update_used:
  assumes "phys_core s L xss" "is_head s p" "\<not> free_head s p"
    and "blocks s' = (blocks s)(p := b)" "spans s' = spans s" "nodes s' = nodes s" "stats s' = stats s"
    and "head_offset b = 0" "blk_order b = order_of s p" "type_kind b \<notin> {PHYSBLOCK_TAIL, PHYSBLOCK_FREE}"
    and "blk_lock b = blk_lock (blocks s p)"
  shows "phys_core s' L xss" "free_pages s' = free_pages s" "coalesced_but X s' = coalesced_but X s"
    "in_use s' = (in_use s)(p \<mapsto> (order_of s p, blk_type b, refcount b))"
proof -
  have c: "layout_ok s" "lists_ok s xss" "stats_ok s xss" "locks_ok s L" using assms(1) by (auto simp: phys_core_def)
  have nf: "blk_type b \<noteq> PHYSBLOCK_FREE" using assms(10) type_kind_FREE [of b] by auto
  have sp: "pfn_to_span_locked s' = pfn_to_span_locked s" using assms(5) by (rule span_frame)
  note u = update_head [OF c(1) assms(2,4,5,8,9)]
  have k: "type_kind b \<noteq> PHYSBLOCK_TAIL" "type_kind b = PHYSBLOCK_FREE \<Longrightarrow> blk_type b = PHYSBLOCK_FREE \<and> refcount b = 0"
    using assms(10) by auto
  have fh: "free_head s' q \<longleftrightarrow> free_head s q" for q using u(4) [OF k] nf assms(3) by auto
  have "lists_ok s' xss" using c(2) assms(6) by (simp add: lists_ok_def fh u(3) [OF k])
  moreover have "stats_ok s' xss" using c(3) assms(7) by (simp add: stats_ok_def)
  moreover have "locks_ok s' L" using c(4) assms(4,11) by (simp add: locks_ok_def sp)
  ultimately show "phys_core s' L xss" using u(1) [OF k] by (simp add: phys_core_def)
  show "free_pages s' = free_pages s" by (simp add: free_pages_def fh u(3) [OF k])
  show "coalesced_but X s' = coalesced_but X s" by (simp add: coalesced_but_def mergeable_def fh u(3) [OF k] sp)
  show "in_use s' = (in_use s)(p \<mapsto> (order_of s p, blk_type b, refcount b))" using u(5) [OF k] nf by simp
qed


section \<open>The initial state\<close>

text \<open>Descriptors as early boot leaves them: single pages, none of them free or a tail yet.\<close>

definition fresh_block :: "physblock \<Rightarrow> bool" where
  "fresh_block b \<longleftrightarrow> head_offset b = 0 \<and> blk_order b = 0 \<and> blk_lock b = 0 \<and>
     type_kind b \<noteq> PHYSBLOCK_TAIL \<and> type_kind b \<noteq> PHYSBLOCK_FREE"

lemma init_rings:
  "k < n \<Longrightarrow> ring (fold (\<lambda>i h. list_init h (FreeList i)) [0..<n] h) (FreeList k) []"
proof (induction n)
  case 0
  then show ?case by simp
next
  case (Suc n)
  let ?h = "fold (\<lambda>i h. list_init h (FreeList i)) [0..<n] h"
  show ?case
  proof (cases "k = n")
    case True
    then show ?thesis by (simp add: ring_init)
  next
    case False
    then have "ring ?h (FreeList k) []" using Suc by simp
    moreover have "list_init ?h (FreeList n) (FreeList k) = ?h (FreeList k)"
      using False by (simp add: list_init_def list_node_init_other)
    ultimately show ?thesis using ring_cong [of "FreeList k" "[]" "list_init ?h (FreeList n)" ?h] by simp
  qed
qed

lemma nothing_free_inv:
  fixes mem_map h es
  defines "s \<equiv> phys_alloc_init_state mem_map h es"
  assumes "layout_ok s" "\<And>p. \<not> free_head s p" "\<And>p. p \<in> managed s \<Longrightarrow> blk_lock (mem_map p) = 0"
  shows "phys_inv s" "free_pages s = {}"
proof -
  have "nodes s = fold (\<lambda>i h. list_init h (FreeList i)) [0..<MAX_ORDER + 1] h"
    by (simp add: s_def phys_alloc_init_state_def)
  then have "lists_ok s (\<lambda>_. [])"
    using init_rings [of _ "MAX_ORDER + 1" h] by (intro lists_okI) (simp_all add: assms(3) dl.family_def)
  moreover have "stats_ok s (\<lambda>_. [])"
    by (simp add: stats_ok_def weight_def s_def phys_alloc_init_state_def zero_stats_def)
  moreover have "locks_ok s {}" using assms(4) by (simp add: locks_ok_def s_def phys_alloc_init_state_def)
  moreover have "coalesced s" by (simp add: coalesced_but_def mergeable_def assms(3))
  moreover have "state_lock s = 0" by (simp add: s_def phys_alloc_init_state_def empty_spinlock_def)
  ultimately show "phys_inv s" using assms(2) by (auto simp: phys_inv_def phys_core_def)
  show "free_pages s = {}" by (simp add: free_pages_def assms(3))
qed

lemma init_state_inv:
  assumes "\<And>p. p \<in> managed (phys_alloc_init_state mem_map h es) \<Longrightarrow> fresh_block (mem_map p)"
  defines "s \<equiv> phys_alloc_init_state mem_map h es"
  shows "phys_inv s" "free_pages s = {}" "is_head s p \<longleftrightarrow> p \<in> managed s"
    "in_use s p = (if p \<in> managed s then Some (0, blk_type (mem_map p), refcount (mem_map p)) else None)"
proof -
  have f: "fresh_block (blocks s p)" "blocks s p = mem_map p" if "p \<in> managed s" for p
    using assms(1) that by (simp_all add: s_def phys_alloc_init_state_def)
  have nf: "\<not> free_head s p" for p
    using f [of p] type_kind_FREE [of "blocks s p"] by (auto simp: free_head_def is_head_def fresh_block_def)
  have "head_ok (blocks s) (pfn_to_span_locked s) p" if "p \<in> managed s" for p
    using f(1) [OF that] by (intro head_okI [where k = 0]) (simp_all add: fresh_block_def)
  then have "layout_ok s" unfolding layout_on_def using f(1) by (auto simp: fresh_block_def)
  moreover have "blk_lock (mem_map p) = 0" if "p \<in> managed s" for p
    using f [OF that] by (simp add: fresh_block_def)
  ultimately show "phys_inv s" "free_pages s = {}"
    using nothing_free_inv [of mem_map h es] nf by (simp_all add: s_def)
  show hd: "is_head s p \<longleftrightarrow> p \<in> managed s" using f(1) [of p] by (auto simp: is_head_def fresh_block_def)
  show "in_use s p = (if p \<in> managed s then Some (0, blk_type (mem_map p), refcount (mem_map p)) else None)"
    using f [of p] by (simp add: in_use_def hd nf fresh_block_def)
qed

end
