(* ===== verification/Phys_Free.thy ===== *)
theory Phys_Free
  imports Phys_Invariant
begin

text \<open>
  Freeing blocks: compaction, \<^verbatim>\<open>free_physblock_locked\<close>, \<^verbatim>\<open>phys_free_pfn\<close> and the
  initialisation that hands every unmanaged page of the spans to the allocator. Every call
  keeps the invariant, ends with all locks free, and leaves no two free buddies unmerged.
\<close>

section \<open>Compaction\<close>

lemma mergeable_sym:
  assumes "mergeable s p"
  shows "mergeable s (pfn_to_buddy_pfn p (order_of s p))"
  using assms by (simp add: mergeable_def Let_def)

lemma coalesced_exit:
  assumes "coalesced_but {p} s" "\<not> mergeable s p"
  shows "coalesced s"
  unfolding coalesced_but_def
proof (intro allI impI)
  fix x
  assume x: "mergeable s x"
  with assms(1) have "x = p \<or> pfn_to_buddy_pfn x (order_of s x) = p" by (auto simp: coalesced_but_def)
  with x mergeable_sym [OF x] assms(2) show "x \<in> {} \<or> pfn_to_buddy_pfn x (order_of s x) \<in> {}" by auto
qed

lemma coalesced_join:
  assumes "layout_ok s" "free_pair s h k" "coalesced_but {p} s" "p \<in> {h, pfn_to_buddy_pfn h k}"
  defines "s' \<equiv> join_physblocks_locked h (pfn_to_buddy_pfn h k) (k + 1) s"
  shows "coalesced_but {h} s'"
  unfolding coalesced_but_def
proof (intro allI impI, rule ccontr)
  fix x
  let ?y = "pfn_to_buddy_pfn x (order_of s' x)"
  assume x: "mergeable s' x" and no: "\<not> (x \<in> {h} \<or> ?y \<in> {h})"
  note hd = join_heads(1) [OF assms(1,2), folded s'_def] and fh = join_layout(2) [OF assms(1,2), folded s'_def]
  have m: "free_head s' x" "free_head s' ?y" "order_of s' ?y = order_of s' x" "order_of s' x < MAX_ORDER"
    "pfn_to_span_locked s ?y = pfn_to_span_locked s x"
    using x join_layout(5) [OF assms(1,2), folded s'_def] by (auto simp: mergeable_def Let_def)
  then have "is_head s' x" "is_head s' ?y" by (simp_all add: free_head_def)
  with hd no have o: "order_of s' x = order_of s x" "order_of s' ?y = order_of s ?y" by auto
  have "mergeable s x" using m fh o by (simp add: mergeable_def Let_def)
  with assms(3) have "x = p \<or> ?y = p" using o by (auto simp: coalesced_but_def)
  with assms(4) no fh m(1,2) show False by auto
qed


definition other_stats :: "phys_alloc_state \<Rightarrow> u64 \<times> u64 \<times> u64" where
  "other_stats s = (num_4k_pages (stats s), num_pagetable_pages (stats s), num_physblock_pages (stats s))"

text \<open>What compaction does not change.\<close>

definition same_views :: "phys_alloc_state \<Rightarrow> phys_alloc_state \<Rightarrow> bool" where
  "same_views s s' \<longleftrightarrow> free_pages s' = free_pages s \<and> in_use s' = in_use s \<and>
     other_stats s' = other_stats s \<and> num_free_4k_pages (stats s') = num_free_4k_pages (stats s) \<and>
     state_lock s' = state_lock s \<and> spans s' = spans s"

lemma same_views_trans: "same_views s t \<Longrightarrow> same_views t u \<Longrightarrow> same_views s u"
  by (simp add: same_views_def)

lemma same_views_relocked: "relocked s s' \<Longrightarrow> state_lock s' = state_lock s \<Longrightarrow> same_views s s'"
  by (simp add: same_views_def relocked_views relocked_fields other_stats_def)

lemma same_views_join:
  assumes "layout_ok s" "free_pair s h k"
  shows "same_views s (join_physblocks_locked h (pfn_to_buddy_pfn h k) (k + 1) s)"
proof -
  have k: "k < MAX_ORDER" "h \<in> extent h (k + 1)" using assms(2) by (auto simp: free_pair_def Let_def)
  show ?thesis
    unfolding same_views_def join_views [OF assms] other_stats_def join_eq(3-5) [OF k]
    by (simp add: add_order_free_def)
qed

text \<open>One round of the loop: either it stops, or the block and its buddy become one.\<close>

lemma buddy_lock_cases:
  assumes "phys_core s {p} xss" "free_head s p" "order_of s p = k"
  defines "b \<equiv> pfn_to_buddy_pfn p k"
  shows "(physblock_to_buddy_lock s p = Inr (None, s) \<and> pfn_to_span_locked s b \<noteq> pfn_to_span_locked s p) \<or>
    (physblock_to_buddy_lock s p = Inr (Some b, lock_block b s) \<and> is_head s b \<and> b \<noteq> p \<and>
      pfn_to_span_locked s b = pfn_to_span_locked s p)"
proof -
  have lay: "layout_ok s" using assms(1) by (simp add: phys_core_def)
  have p: "p \<in> managed s" "head_offset (blocks s p) = 0" using assms(2) by (simp_all add: free_head_def is_head_def)
  have k: "k < 64"
    using head_okD(1) [OF is_head_ok [OF lay, of p]] assms(2,3) by (simp add: free_head_def MAX_ORDER_def)
  have ne: "b \<noteq> p" using buddy_neq [OF k] by (simp add: b_def)
  show ?thesis
  proof (cases "pfn_to_span_locked s b = pfn_to_span_locked s p")
    case True
    then have "b \<in> managed s" using p(1) by simp
    then have hd: "is_head s b"
      using buddy_is_head [OF lay p assms(3)] by (simp add: is_head_def b_def)
    with acquire_head [OF assms(1) hd] ne True p(1) assms(3) show ?thesis
      by (simp add: physblock_to_buddy_lock_def Let_def b_def)
  next
    case False
    then show ?thesis using assms(3) by (simp add: physblock_to_buddy_lock_def Let_def b_def)
  qed
qed

lemma free_pair_lower:
  assumes "layout_ok s" "free_head s p" "order_of s p = k" "k < MAX_ORDER"
    and "free_head s (pfn_to_buddy_pfn p k)" "order_of s (pfn_to_buddy_pfn p k) = k"
    and "pfn_to_span_locked s (pfn_to_buddy_pfn p k) = pfn_to_span_locked s p"
  shows "if pfn_to_buddy_pfn p k < p then free_pair s (pfn_to_buddy_pfn p k) k else free_pair s p k"
proof -
  have k: "k < 64" using assms(4) by (simp add: MAX_ORDER_def)
  have "p \<in> extent p k" using head_okD(2) [OF is_head_ok [OF assms(1)], of p] assms(2,3) by (simp add: free_head_def)
  then show ?thesis
  proof (rule buddy_pair [OF _ k])
    assume "p \<in> extent p (k + 1)" "p < pfn_to_buddy_pfn p k"
    with assms show ?thesis by (auto simp: free_pair_def Let_def)
  next
    fix h
    assume "h \<in> extent h (k + 1)" "h = pfn_to_buddy_pfn p k" "h < p"
    with assms show ?thesis by (simp add: free_pair_def Let_def)
  qed
qed

lemma join_locked:
  assumes "phys_core s {p, b} xss" "free_pair s h k" "{p, b} = {h, pfn_to_buddy_pfn h k}"
  shows "\<exists>xss'. phys_core (join_physblocks_locked h (pfn_to_buddy_pfn h k) (k + 1) s) {h} xss'"
proof -
  have k: "k < 64" "h \<in> extent h (k + 1)" using assms(2) by (auto simp: free_pair_def Let_def MAX_ORDER_def)
  have "pfn_to_buddy_pfn h k \<in> extent h (k + 1)"
    unfolding extent_halves(1) [OF k(2,1)] using buddy_aligned [OF extent_halves(3) [OF k(2,1)] k(1)] by simp
  then have "{p, b} - (extent h (k + 1) - {h}) = {h}" unfolding assms(3) using k(2) by auto
  with join_core [OF assms(1,2)] show ?thesis by metis
qed

lemma compact_joins:
  assumes "phys_core s {p} xss" "free_head s p" "order_of s p = k" "coalesced_but {p} s" "mergeable s p"
  shows "\<exists>h t xss'. compact_free_blocks_from s p k = compact_free_blocks_from t h (k + 1) \<and>
    phys_core t {h} xss' \<and> free_head t h \<and> order_of t h = k + 1 \<and> coalesced_but {h} t \<and> same_views s t"
proof -
  define b where "b = pfn_to_buddy_pfn p k"
  define s1 where "s1 = lock_block b s"
  define h where "h = (if b < p then b else p)"
  define t where "t = join_physblocks_locked h (pfn_to_buddy_pfn h k) (k + 1) s1"
  have m: "k < MAX_ORDER" "free_head s b" "order_of s b = k" "pfn_to_span_locked s b = pfn_to_span_locked s p"
    using assms(3,5) by (auto simp: mergeable_def Let_def b_def)
  have le: "k \<le> MAX_ORDER - 1" using m(1) by simp
  have bud: "pfn_to_buddy_pfn h k = (if b < p then p else b)" by (simp add: h_def b_def)
  have rl: "relocked s s1" unfolding s1_def by (rule relocked_steps(1))
  note f = relocked_fields [OF rl] and v = relocked_views [OF rl]
  have core1: "phys_core s1 {p, b} xss"
    using locked_core(1) [OF assms(1), of b] by (simp add: insert_commute s1_def)
  then have lay1: "layout_ok s1" by (simp add: phys_core_def)
  have "if b < p then free_pair s1 b k else free_pair s1 p k"
    unfolding b_def by (rule free_pair_lower [OF lay1]) (use m assms(2,3) in \<open>simp_all add: f v flip: b_def\<close>)
  then have pair: "free_pair s1 h k" by (simp add: h_def)
  have pq: "{p, b} = {h, pfn_to_buddy_pfn h k}" unfolding bud by (auto simp: h_def)
  have lk: "physblock_to_buddy_lock s p = Inr (Some b, s1)"
    using buddy_lock_cases [OF assms(1-3)] m(4) by (simp add: b_def s1_def)
  have "compact_free_blocks_from s p k = compact_free_blocks_from t h (k + 1)"
    using m lk le unfolding t_def bud compact_free_blocks_from.simps [of s p k]
    by (simp add: f h_def free_head_def)
  moreover obtain xss' where "phys_core t {h} xss'" using join_locked [OF core1 pair pq] by (auto simp: t_def)
  moreover have "coalesced_but {h} t"
    unfolding t_def using assms(4) v(6) pq by (intro coalesced_join [OF lay1 pair, of p]) auto
  moreover have "same_views s t"
    unfolding t_def using same_views_relocked [OF rl] same_views_join [OF lay1 pair]
    by (auto simp: s1_def intro: same_views_trans)
  ultimately show ?thesis using join_result [OF lay1 pair, folded t_def] by blast
qed

lemma compact_stops:
  assumes "phys_core s {p} xss" "free_head s p" "order_of s p = k" "\<not> mergeable s p"
  shows "\<exists>t. compact_free_blocks_from s p k = Inr (p, t) \<and> relocked s t \<and> state_lock t = state_lock s \<and>
    phys_core t {p} xss"
proof -
  let ?b = "pfn_to_buddy_pfn p k"
  note step = compact_free_blocks_from.simps [of s p k]
  have here: ?thesis if "compact_free_blocks_from s p k = Inr (p, s)"
    using that assms(1) by (auto simp: relocked_def)
  show ?thesis
  proof (cases "k < MAX_ORDER")
    case False
    then show ?thesis by (intro here) (simp add: step MAX_ORDER_def)
  next
    case k: True
    from buddy_lock_cases [OF assms(1-3)] consider
        (none) "physblock_to_buddy_lock s p = Inr (None, s)"
      | (some) "physblock_to_buddy_lock s p = Inr (Some ?b, lock_block ?b s)" "is_head s ?b" "?b \<noteq> p"
          "pfn_to_span_locked s ?b = pfn_to_span_locked s p" by blast
    then show ?thesis
    proof cases
      case none
      with k show ?thesis by (intro here) (simp add: step)
    next
      case some
      let ?t = "block_release ?b (lock_block ?b s)"
      have lay: "layout_ok s" using assms(1) by (simp add: phys_core_def)
      have "\<not> (free_head s ?b \<and> order_of s ?b = k)"
        using assms(2-4) some(4) k by (simp add: mergeable_def Let_def)
      then have "\<not> (type_kind (blocks s ?b) = PHYSBLOCK_FREE \<and> order_of s ?b = k)"
        using is_head_ok [OF lay some(2)] some(2) by (auto simp: free_head_def head_ok_def)
      then have "compact_free_blocks_from s p k = Inr (p, ?t)"
        using some k by (auto simp: step type_kind_def relocked_fields [OF relocked_steps(1)])
      moreover have "relocked s ?t" by (auto simp: relocked_def lock_block_def)
      moreover have "phys_core ?t {p} xss"
        using locked_core(2) [OF locked_core(1) [OF assms(1)], of ?b ?b] some(3) by (simp add: insert_Diff_if)
      ultimately show ?thesis by auto
    qed
  qed
qed

lemma compact_correct:
  assumes "phys_core s {p} xss" "free_head s p" "order_of s p = k" "coalesced_but {p} s"
  shows "\<exists>h s' xss'. compact_free_blocks_from s p k = Inr (h, s') \<and> phys_core s' {h} xss' \<and>
    same_views s s' \<and> coalesced s' \<and> free_head s' h"
  using assms
proof (induction "MAX_ORDER - k" arbitrary: s p k xss rule: less_induct)
  case less
  show ?case
  proof (cases "mergeable s p")
    case True
    then have k: "k < MAX_ORDER" using less.prems(3) by (simp add: mergeable_def Let_def)
    obtain h t xss' where t: "compact_free_blocks_from s p k = compact_free_blocks_from t h (k + 1)"
      "phys_core t {h} xss'" "free_head t h" "order_of t h = k + 1" "coalesced_but {h} t" "same_views s t"
      using compact_joins [OF less.prems True] by blast
    have "MAX_ORDER - (k + 1) < MAX_ORDER - k" using k by simp
    from less.hyps [OF this t(2-5)] obtain h' s' xss'' where r:
      "compact_free_blocks_from t h (k + 1) = Inr (h', s')" "phys_core s' {h'} xss''"
      "same_views t s'" "coalesced s'" "free_head s' h'" by blast
    show ?thesis unfolding t(1) r(1) using r(2,4,5) same_views_trans [OF t(6) r(3)] by blast
  next
    case False
    obtain t where t: "compact_free_blocks_from s p k = Inr (p, t)" "relocked s t"
      "state_lock t = state_lock s" "phys_core t {p} xss"
      using compact_stops [OF less.prems(1-3) False] by blast
    have "coalesced t" "free_head t p"
      using coalesced_exit [OF less.prems(4) False] less.prems(2) relocked_views(2,6) [OF t(2)] by simp_all
    then show ?thesis unfolding t(1) using t(4) same_views_relocked [OF t(2,3)] by blast
  qed
qed


section \<open>Freeing a block\<close>

lemma release_eq:
  "blocks (release_to_free_list p k s) = (blocks s)(p := (blocks s p)\<lparr>blk_type := PHYSBLOCK_FREE\<rparr>)"
  "nodes (release_to_free_list p k s) = list_push_back (nodes s) (FreeList k) (BlockNode p)"
  "spans (release_to_free_list p k s) = spans s"
  "state_lock (release_to_free_list p k s) = state_lock s"
  "num_free_4k_pages (stats (release_to_free_list p k s)) = num_free_4k_pages (stats s) + push_bit k 1"
  "order_free (stats (release_to_free_list p k s)) =
    (order_free (stats s))(k := order_free (stats s) k + 1)"
  by (simp_all add: release_to_free_list_def Let_def add_order_free_def)

definition freed_stats :: "u32 \<Rightarrow> u64 \<times> u64 \<times> u64 \<Rightarrow> u64 \<times> u64 \<times> u64" where
  "freed_stats t = (\<lambda>(n, pt, pb). (n, if t = PHYSBLOCK_PAGETABLE then pt - 1 else pt,
     if t = PHYSBLOCK_PHYSBLOCK then pb - 1 else pb))"

lemma release_other_stats:
  "other_stats (release_to_free_list p k s) = freed_stats (type_kind (blocks s p)) (other_stats s)"
proof -
  have "PHYSBLOCK_PAGETABLE \<noteq> PHYSBLOCK_PHYSBLOCK" by code_simp
  then show ?thesis
    by (auto simp: release_to_free_list_def Let_def add_order_free_def freed_stats_def other_stats_def
      type_kind_def)
qed

lemma release_core:
  assumes "phys_core s L xss" "is_head s p" "\<not> free_head s p" "refcount (blocks s p) = 0"
  defines "k \<equiv> order_of s p"
  defines "s' \<equiv> release_to_free_list p k s"
  shows "phys_core s' L (xss(k := xss k @ [BlockNode p]))" "free_head s' p" "order_of s' q = order_of s q"
    "free_pages s' = free_pages s \<union> extent p k" "in_use s' = (in_use s)(p := None)"
    "coalesced s \<Longrightarrow> coalesced_but {p} s'"
proof -
  have c: "layout_ok s" "lists_ok s xss" "stats_ok s xss" "locks_ok s L" using assms(1) by (auto simp: phys_core_def)
  have hok: "head_ok (blocks s) (pfn_to_span_locked s) p" using is_head_ok [OF c(1) assms(2)] .
  have k: "k \<le> MAX_ORDER" using head_okD(1) [OF hok] by (simp add: k_def)
  have e: "blocks s' = (blocks s)(p := (blocks s p)\<lparr>blk_type := PHYSBLOCK_FREE\<rparr>)" "spans s' = spans s"
    by (simp_all add: s'_def release_eq)
  have sp: "pfn_to_span_locked s' = pfn_to_span_locked s" using e(2) by (rule span_frame)
  have h: "head_offset ((blocks s p)\<lparr>blk_type := PHYSBLOCK_FREE\<rparr>) = 0"
    "blk_order ((blocks s p)\<lparr>blk_type := PHYSBLOCK_FREE\<rparr>) = order_of s p"
    "type_kind ((blocks s p)\<lparr>blk_type := PHYSBLOCK_FREE\<rparr>) \<noteq> PHYSBLOCK_TAIL"
    "refcount ((blocks s p)\<lparr>blk_type := PHYSBLOCK_FREE\<rparr>) = 0"
    using assms(2,4) by (simp_all add: is_head_def type_kind_def)
  note u = update_head [OF c(1) assms(2) e h(1-3)]
  have fh: "free_head s' q \<longleftrightarrow> q = p \<or> free_head s q" for q using u(4) h(4) by simp
  show ord: "order_of s' q = order_of s q" for q using u(3) h(4) by simp
  show "free_head s' p" by (simp add: fh)
  show "in_use s' = (in_use s)(p := None)" using u(5) h(4) by simp
  show "free_pages s' = free_pages s \<union> extent p k"
    by (auto simp: free_pages_def fh ord k_def)
  have new: "BlockNode p \<notin> set (xss j)" if "j \<le> MAX_ORDER" for j
    using free_list_mem [OF c(2) that] assms(3) by simp
  have "dl.family (nodes s') {..MAX_ORDER} FreeList (xss(k := xss k @ [BlockNode p]))"
    unfolding s'_def release_eq(2) using c(2) k new by (intro dl.family_push) (auto simp: lists_ok_def)
  then have "lists_ok s' (xss(k := xss k @ [BlockNode p]))"
  proof (rule lists_okI)
    show "FreeList i \<notin> set ((xss(k := xss k @ [BlockNode p])) j)" if "j \<le> MAX_ORDER" for i j
      using free_list_no_heads [OF c(2) that] by auto
    show "BlockNode q \<in> set ((xss(k := xss k @ [BlockNode p])) j) \<longleftrightarrow> free_head s' q \<and> order_of s' q = j"
      if "j \<le> MAX_ORDER" for q j
      using free_list_mem [OF c(2) that, of q] free_list_mem [OF c(2) k, of q] assms(3)
      unfolding fh ord by (cases "j = k"; cases "q = p") (simp_all add: k_def)
  qed
  moreover have "stats_ok s' (xss(k := xss k @ [BlockNode p]))"
    using c(3) k weight_upd [OF k, of xss "xss k @ [BlockNode p]"]
    by (simp add: stats_ok_def s'_def release_eq push_bit_eq_mult algebra_simps)
  moreover have "locks_ok s' L" using c(4) by (simp add: locks_ok_def sp e(1))
  ultimately show "phys_core s' L (xss(k := xss k @ [BlockNode p]))" using u(1) h(4) by (simp add: phys_core_def)
  show "coalesced_but {p} s'" if "coalesced s"
    using that by (auto simp: coalesced_but_def mergeable_def Let_def fh ord sp)
qed


lemma core_used_cases:
  assumes "phys_core s L xss" "is_head s p" "refcount (blocks s p) \<noteq> 0"
  shows "\<not> free_head s p" "type_kind (blocks s p) \<notin> {PHYSBLOCK_TAIL, PHYSBLOCK_FREE}"
proof -
  have "head_ok (blocks s) (pfn_to_span_locked s) p"
    using is_head_ok [OF _ assms(2)] assms(1) by (simp add: phys_core_def)
  then show "type_kind (blocks s p) \<notin> {PHYSBLOCK_TAIL, PHYSBLOCK_FREE}"
    using assms(3) by (auto simp: head_ok_def)
  then show "\<not> free_head s p" using type_kind_FREE [of "blocks s p"] by (auto simp: free_head_def)
qed

lemma free_last_reference:
  assumes "phys_core s {p} xss" "is_head s p" "coalesced s" "state_lock s = 0" "refcount (blocks s p) = 1"
  shows "\<exists>s'. free_physblock_locked s p = Inr s' \<and> phys_inv s' \<and>
    free_pages s' = free_pages s \<union> extent p (order_of s p) \<and> in_use s' = (in_use s)(p := None) \<and>
    other_stats s' = freed_stats (type_kind (blocks s p)) (other_stats s) \<and> spans s' = spans s"
proof -
  let ?k = "order_of s p"
  define s1 where "s1 = upd_block p (refcount_update (\<lambda>_. 0)) s"
  define s2 where "s2 = s1\<lparr>state_lock := 1\<rparr>"
  define s3 where "s3 = release_to_free_list p ?k s2"
  have u: "\<not> free_head s p" "type_kind (blocks s p) \<notin> {PHYSBLOCK_TAIL, PHYSBLOCK_FREE}"
    using core_used_cases [OF assms(1,2)] assms(5) by simp_all
  have tk: "type_kind ((blocks s p)\<lparr>refcount := r\<rparr>) = type_kind (blocks s p)" for r by (simp add: type_kind_def)
  have b1: "blocks s1 = (blocks s)(p := (blocks s p)\<lparr>refcount := 0\<rparr>)" by (simp add: s1_def)
  note up = update_used [OF assms(1,2) u(1) b1]
  have s1: "phys_core s1 {p} xss" "free_pages s1 = free_pages s" "coalesced s1"
    "in_use s1 = (in_use s)(p \<mapsto> (?k, blk_type (blocks s p), 0))"
    using up assms(2,3) u(2) by (simp_all add: s1_def tk is_head_def)
  note rl = relocked_steps(4) [of s1 1, folded s2_def]
  note f = relocked_fields [OF rl] and v = relocked_views [OF rl]
  have hd: "is_head s1 p" using assms(2) by (simp add: is_head_def s1_def)
  have tk2: "type_kind (blocks s2 p) = type_kind (blocks s p)" by (simp add: type_kind_def f b1)
  have s2: "phys_core s2 {p} xss" using locked_core(4) [OF s1(1)] by (simp add: s2_def)
  have o2: "order_of s2 p = ?k" "refcount (blocks s2 p) = 0" by (simp_all add: f b1)
  have nf2: "\<not> free_head s2 p"
    using u(2) tk2 type_kind_FREE [of "blocks s2 p"] by (auto simp: free_head_def)
  have hd2: "is_head s2 p" using hd by (simp add: v)
  note rel = release_core [OF s2 hd2 nf2 o2(2), unfolded o2(1), folded s3_def]
  have co3: "coalesced_but {p} s3" using rel(6) s1(3) v(6) by simp
  obtain h s4 xss' where s4: "compact_free_blocks_from s3 p ?k = Inr (h, s4)" "phys_core s4 {h} xss'"
    "same_views s3 s4" "coalesced s4" "free_head s4 h"
    using compact_correct [OF rel(1,2) rel(3) co3] o2(1) by auto
  define s5 where "s5 = block_release h (state_release s4)"
  have "relocked s4 s5" by (auto simp: relocked_def s5_def)
  note v5 = relocked_views [OF this] and f5 = relocked_fields [OF this]
  have "phys_core s5 {} xss'" using locked_core(2) [OF locked_core(3) [OF s4(2)], of h] by (simp add: s5_def)
  then have inv: "phys_inv s5" using s4(4) v5 by (auto simp: phys_inv_def s5_def)
  have "free_physblock_locked s p = Inr s5"
    using assms(4,5) u(2) s4(1) o2(1) rel(3) [of p] tk2
    by (simp add: free_physblock_locked_def Let_def state_acquire_def compact_free_blocks_locked_def
      type_kind_def s5_def s3_def s2_def s1_def)
  moreover have "free_pages s5 = free_pages s \<union> extent p ?k"
    using s4(3) rel(4) s1(2) by (simp add: same_views_def v5 v)
  moreover have "in_use s5 = (in_use s)(p := None)"
    using s4(3) rel(5) s1(4) by (simp add: same_views_def v5 v)
  moreover have "other_stats s5 = freed_stats (type_kind (blocks s p)) (other_stats s)" "spans s5 = spans s"
    using s4(3) release_other_stats [of p ?k s2]
    by (simp_all add: same_views_def other_stats_def f5 tk tk2 s3_def s2_def s1_def release_eq)
  ultimately show ?thesis using inv by blast
qed


lemma free_shared:
  assumes "phys_core s {p} xss" "is_head s p" "coalesced s" "state_lock s = 0" "1 < refcount (blocks s p)"
  shows "\<exists>s'. free_physblock_locked s p = Inr s' \<and> phys_inv s' \<and> free_pages s' = free_pages s \<and>
    in_use s' = (in_use s)(p \<mapsto> (order_of s p, blk_type (blocks s p), refcount (blocks s p) - 1)) \<and>
    stats s' = stats s \<and> spans s' = spans s"
proof -
  define s1 where "s1 = upd_block p (refcount_update (\<lambda>r. r - 1)) s"
  have nz: "refcount (blocks s p) \<noteq> 0" using assms(5) by auto
  note u = core_used_cases [OF assms(1,2) nz]
  have b1: "blocks s1 = (blocks s)(p := (blocks s p)\<lparr>refcount := refcount (blocks s p) - 1\<rparr>)"
    by (simp add: s1_def fun_eq_iff)
  note up = update_used [OF assms(1,2) u(1) b1]
  have s1: "phys_core s1 {p} xss" "free_pages s1 = free_pages s" "coalesced s1"
    "in_use s1 = (in_use s)(p \<mapsto> (order_of s p, blk_type (blocks s p), refcount (blocks s p) - 1))"
    using up assms(2,3) u(2) by (simp_all add: s1_def type_kind_def is_head_def)
  let ?t = "block_release p s1"
  note v = relocked_views [OF relocked_steps(2) [of s1 p]]
  have "phys_core ?t {} xss" using locked_core(2) [OF s1(1), of p] by simp
  then have "phys_inv ?t" using s1(3) v(6) assms(4) by (auto simp: phys_inv_def s1_def)
  moreover have "free_physblock_locked s p = Inr ?t"
    using assms(5) nz by (simp add: free_physblock_locked_def s1_def)
  ultimately show ?thesis using s1 v by (simp add: s1_def)
qed

text \<open>The descriptor a page frame number leads to, and the frames it does not work for.\<close>

lemma relock_same:
  assumes "phys_core s {} xss" "p \<in> managed s"
  shows "block_release p (lock_block p s) = s"
proof -
  have "blk_lock (blocks s p) = 0" using assms unfolding phys_core_def locks_ok_def by simp
  then have "blk_lock_update (spinlock_release \<circ> (\<lambda>_. 1)) (blocks s p) = blocks s p"
    by (cases "blocks s p") simp
  then show ?thesis by (simp add: block_release_def upd_block_def lock_block_def)
qed

lemma acquire_tail:
  assumes "phys_core s {} xss" "is_head s p" "q \<in> extent p (order_of s p)" "q \<noteq> p"
  defines "r \<equiv> q - of_nat (unat (q - p) mod 256)"
  shows "pfn_to_physblock_lock s q = Inr (r, lock_block r s)" "r \<in> extent p (order_of s p)"
    "r = p \<longleftrightarrow> unat (q - p) < 256"
proof -
  have lay: "layout_ok s" using assms(1) by (simp add: phys_core_def)
  note hok = is_head_ok [OF lay assms(2)]
  let ?d = "unat (q - p)" and ?k = "order_of s p"
  have k: "?k < 64" "p \<in> extent p ?k" using head_okD(1,2) [OF hok] by (simp_all add: MAX_ORDER_def)
  have d: "?d < 2 ^ ?k" using extent_offset [OF k(2,1), of q] assms(3) by simp
  have m: "unat (of_nat (?d mod 256) :: u64) = ?d mod 256"
    by (rule unat_of_nat_lt) (use mod_less_divisor [of 256 ?d] in \<open>simp\<close>)
  have "r - p = (q - p) - of_nat (?d mod 256)" by (simp add: r_def)
  moreover have "of_nat (?d mod 256) \<le> q - p" unfolding word_le_nat_alt m by simp
  ultimately have rp: "unat (r - p) = ?d - ?d mod 256" by (simp only: unat_sub m)
  then show r: "r \<in> extent p ?k" using extent_offset [OF k(2,1), of r] d by simp
  show "r = p \<longleftrightarrow> ?d < 256"
  proof -
    have "r = p \<longleftrightarrow> unat (r - p) = 0" by (simp add: unat_eq_zero)
    also have "\<dots> \<longleftrightarrow> ?d = ?d mod 256" unfolding rp using mod_less_eq_dividend [of ?d 256] by linarith
    also have "\<dots> \<longleftrightarrow> ?d < 256" by (metis mod_less mod_less_divisor zero_less_numeral)
    finally show ?thesis .
  qed
  have man: "q \<in> managed s" "r \<in> managed s" using is_head_extent [OF lay assms(2)] assms(3) r by blast+
  have off: "head_offset (blocks s q) \<noteq> 0" "unat (head_offset (blocks s q)) = ?d"
    using head_okD(6,7) [OF hok assms(3,4)] by simp_all
  have cast: "(ucast (ucast (head_offset (blocks s q)) :: u8) :: u64) = of_nat (?d mod 256)"
    unfolding word_unat_eq_iff m using unat_lt_u64 [of "q - p"] by (simp add: unat_mod unsigned_ucast_eq off(2) take_bit_eq_mod)
  have "pfn_to_physblock_lock s q = pfn_to_physblock_raw_lock (block_release q (lock_block q s)) r"
    using acquire_block(2) [OF assms(1) man(1)] off(1)
    by (simp add: pfn_to_physblock_lock_def physblock_tail_to_head_def Let_def lock_block_def r_def flip: cast)
  also have "\<dots> = Inr (r, lock_block r s)"
    unfolding relock_same [OF assms(1) man(1)] using acquire_block(2) [OF assms(1) man(2)] by simp
  finally show "pfn_to_physblock_lock s q = Inr (r, lock_block r s)" .
qed


lemma acquire_near:
  assumes "phys_core s {} xss" "is_head s p" "q \<in> extent p (order_of s p)" "unat (q - p) < 256"
  shows "pfn_to_physblock_lock s q = Inr (p, lock_block p s)"
proof (cases "q = p")
  case True
  then show ?thesis using acquire_head [OF assms(1,2)] by simp
next
  case False
  have "q - of_nat (unat (q - p) mod 256) = p" using assms(4) by simp
  with acquire_tail(1) [OF assms(1-3) False] show ?thesis by simp
qed

text \<open>Freeing through any page frame of a block, with the descriptor found and locked.\<close>

lemma phys_free_cases:
  assumes "phys_inv s" "is_head s p" "q \<in> extent p (order_of s p)" "unat (q - p) < 256"
  obtains s' where "phys_free_pfn s q = Inr s'" "phys_inv s'" "spans s' = spans s"
    "refcount (blocks s p) = 0 \<Longrightarrow> s' = s"
    "1 < refcount (blocks s p) \<Longrightarrow> free_pages s' = free_pages s \<and>
       in_use s' = (in_use s)(p \<mapsto> (order_of s p, blk_type (blocks s p), refcount (blocks s p) - 1)) \<and>
       stats s' = stats s"
    "refcount (blocks s p) = 1 \<Longrightarrow> free_pages s' = free_pages s \<union> extent p (order_of s p) \<and>
       in_use s' = (in_use s)(p := None) \<and>
       other_stats s' = freed_stats (type_kind (blocks s p)) (other_stats s)"
proof -
  obtain xss where core: "phys_core s {} xss" and co: "coalesced s" and lk: "state_lock s = 0"
    using assms(1) by (auto simp: phys_inv_def)
  let ?s = "lock_block p s" and ?r = "refcount (blocks s p)"
  note f = relocked_fields [OF relocked_steps(1) [of s p]] and v = relocked_views [OF relocked_steps(1) [of s p]]
  have core1: "phys_core ?s {p} xss" using locked_core(1) [OF core, of p] by simp
  have pre: "is_head ?s p" "coalesced ?s" "state_lock ?s = 0" using assms(2) co lk v by simp_all
  have tk: "type_kind (blocks ?s p) = type_kind (blocks s p)" by (simp add: type_kind_def f)
  have os: "other_stats ?s = other_stats s" by (simp add: other_stats_def f)
  have eq: "phys_free_pfn s q = free_physblock_locked ?s p"
    using acquire_near [OF core assms(2-4)] by (simp add: phys_free_pfn_def)
  consider "?r = 0" | "?r = 1" | "1 < ?r" by (metis linorder_neqE word_less_1)
  then show thesis
  proof cases
    case 1
    have "p \<in> managed s" using assms(2) by (simp add: is_head_def)
    then have "free_physblock_locked ?s p = Inr s"
      using 1 relock_same [OF core] by (simp add: free_physblock_locked_def f)
    with 1 eq assms(1) that [of s] show thesis by simp
  next
    case 2
    obtain s' where "free_physblock_locked ?s p = Inr s'" "phys_inv s'" "spans s' = spans s"
      "free_pages s' = free_pages s \<union> extent p (order_of s p)" "in_use s' = (in_use s)(p := None)"
      "other_stats s' = freed_stats (type_kind (blocks s p)) (other_stats s)"
      using free_last_reference [OF core1 pre] 2 by (auto simp: f v tk os)
    with 2 eq that [of s'] show thesis by simp
  next
    case 3
    obtain s' where "free_physblock_locked ?s p = Inr s'" "phys_inv s'" "spans s' = spans s"
      "free_pages s' = free_pages s" "stats s' = stats s"
      "in_use s' = (in_use s)(p \<mapsto> (order_of s p, blk_type (blocks s p), refcount (blocks s p) - 1))"
      using free_shared [OF core1 pre] 3 by (auto simp: f v)
    moreover have "?r \<noteq> 0" "?r \<noteq> 1" using 3 by auto
    ultimately show thesis using eq that [of s'] by simp
  qed
qed

lemma free_far_tail:
  assumes "phys_inv s" "is_head s p" "q \<in> extent p (order_of s p)" "256 \<le> unat (q - p)"
  shows "phys_free_pfn s q = Inr s"
proof -
  obtain xss where core: "phys_core s {} xss" using assms(1) by (auto simp: phys_inv_def)
  then have lay: "layout_ok s" by (simp add: phys_core_def)
  define r where "r = q - of_nat (unat (q - p) mod 256)"
  have "q \<noteq> p" using assms(4) by auto
  note at = acquire_tail [OF core assms(2,3) this, folded r_def]
  have "r \<noteq> p" using at(3) assms(4) by simp
  then have "refcount (blocks s r) = 0"
    using head_okD(5) [OF is_head_ok [OF lay assms(2)] at(2)] by (simp add: tail_block_def)
  then have "free_physblock_locked (lock_block r s) r = Inr (block_release r (lock_block r s))"
    by (simp add: free_physblock_locked_def lock_block_def)
  moreover have "r \<in> managed s" using is_head_extent [OF lay assms(2)] at(2) by blast
  ultimately show ?thesis using at(1) relock_same [OF core] by (simp add: phys_free_pfn_def)
qed


section \<open>Initialisation\<close>

lemma stats_only:
  assumes "num_free_4k_pages (g (stats s)) = num_free_4k_pages (stats s)"
    and "order_free (g (stats s)) = order_free (stats s)"
  shows "phys_core (upd_stats g s) L xss = phys_core s L xss" "coalesced_but X (upd_stats g s) = coalesced_but X s"
    "free_pages (upd_stats g s) = free_pages s" "in_use (upd_stats g s) = in_use s"
proof -
  have h: "is_head (upd_stats g s) p = is_head s p" "free_head (upd_stats g s) p = free_head s p" for p
    by (simp_all add: is_head_def free_head_def)
  show "phys_core (upd_stats g s) L xss = phys_core s L xss"
    using assms by (simp add: phys_core_def lists_ok_def stats_ok_def locks_ok_def h)
  show "coalesced_but X (upd_stats g s) = coalesced_but X s" by (simp add: coalesced_but_def mergeable_def h)
  show "free_pages (upd_stats g s) = free_pages s" by (simp add: free_pages_def h)
  show "in_use (upd_stats g s) = in_use s" by (simp add: in_use_def fun_eq_iff h)
qed

lemma stats_only_inv:
  "num_free_4k_pages (g (stats s)) = num_free_4k_pages (stats s) \<Longrightarrow>
   order_free (g (stats s)) = order_free (stats s) \<Longrightarrow> phys_inv (upd_stats g s) = phys_inv s"
  by (simp add: phys_inv_def stats_only)

text \<open>
  The state after the frames in \<open>P\<close> have been visited, over the descriptors \<open>mm\<close> that
  initialisation starts from: the unmanaged ones among them are free, all others are as
  they were.
\<close>

definition init_inv :: "(pfn_t \<Rightarrow> physblock) \<Rightarrow> phys_alloc_span list \<Rightarrow> pfn_t set \<Rightarrow> phys_alloc_state \<Rightarrow> bool" where
  "init_inv mm sps P t \<longleftrightarrow> phys_inv t \<and> spans t = sps \<and>
     free_pages t = {q \<in> P. type_kind (mm q) = PHYSBLOCK_UNMANAGED} \<and>
     in_use t = (\<lambda>p. if p \<in> managed t \<and> \<not> (p \<in> P \<and> type_kind (mm p) = PHYSBLOCK_UNMANAGED)
       then Some (0, blk_type (mm p), refcount (mm p)) else None)"

lemma in_useD:
  assumes "in_use s p = Some (k, t, r)"
  shows "is_head s p" "\<not> free_head s p" "order_of s p = k" "blk_type (blocks s p) = t" "refcount (blocks s p) = r"
  using assms by (auto simp: in_use_def split: if_splits)

lemma init_page_step:
  assumes "init_inv mm sps P t" "q \<in> managed t" "q \<notin> P"
  shows "\<exists>t'. phys_alloc_init_page q t = Inr t' \<and> init_inv mm sps (insert q P) t'"
proof -
  obtain xss where core: "phys_core t {} xss" and co: "coalesced t" and lk: "state_lock t = 0"
    using assms(1) by (auto simp: init_inv_def phys_inv_def)
  have iu: "in_use t q = Some (0, blk_type (mm q), refcount (mm q))" using assms by (simp add: init_inv_def)
  note q = in_useD [OF iu]
  let ?t = "lock_block q t"
  note f = relocked_fields [OF relocked_steps(1) [of t q]] and v = relocked_views [OF relocked_steps(1) [of t q]]
  have core1: "phys_core ?t {q} xss" using locked_core(1) [OF core, of q] by simp
  have tk: "type_kind (blocks ?t q) = type_kind (mm q)" by (simp add: type_kind_def f q)
  have acq: "pfn_to_physblock_lock t q = Inr (q, ?t)" using acquire_head [OF core q(1)] by simp
  show ?thesis
  proof (cases "type_kind (mm q) = PHYSBLOCK_UNMANAGED")
    case True
    define t1 where "t1 = upd_block q (refcount_update (\<lambda>_. 1)) ?t"
    have b1: "blocks t1 = (blocks ?t)(q := (blocks ?t q)\<lparr>refcount := 1\<rparr>)" by (simp add: t1_def)
    have nf: "\<not> free_head ?t q" "is_head ?t q" using q v by simp_all
    note up = update_used [OF core1 nf(2,1) b1]
    have tk1: "type_kind ((blocks ?t q)\<lparr>refcount := 1\<rparr>) = PHYSBLOCK_UNMANAGED"
      using tk True by (simp add: type_kind_def)
    have t1: "phys_core t1 {q} xss" "free_pages t1 = free_pages t" "coalesced t1"
      "in_use t1 = (in_use t)(q \<mapsto> (0, blk_type (mm q), 1))"
      using up co nf(2) v by (simp_all add: t1_def tk1 is_head_def f q)
    have pre: "is_head t1 q" "state_lock t1 = 0" "refcount (blocks t1 q) = 1" "order_of t1 q = 0"
      using nf(2) lk by (simp_all add: t1_def is_head_def f q)
    obtain t' where t': "free_physblock_locked t1 q = Inr t'" "phys_inv t'" "spans t' = spans t"
      "free_pages t' = insert q (free_pages t)" "in_use t' = (in_use t)(q := None)"
      using free_last_reference [OF t1(1) pre(1) t1(3) pre(2,3)] t1 pre(4) by (auto simp: t1_def)
    have "phys_alloc_init_page q t = Inr t'"
      using acq tk True t'(1) by (simp add: phys_alloc_init_page_def Let_def type_kind_def t1_def)
    moreover have "init_inv mm sps (insert q P) t'"
      using assms(1) t' True span_frame [OF t'(3)] by (auto simp: init_inv_def)
    ultimately show ?thesis by blast
  next
    case False
    define g :: "phys_alloc_stats \<Rightarrow> phys_alloc_stats" where "g = (\<lambda>st. if type_kind (mm q) = PHYSBLOCK_PAGETABLE
        then st\<lparr>num_pagetable_pages := num_pagetable_pages st + 1\<rparr>
        else if type_kind (mm q) = PHYSBLOCK_PHYSBLOCK
        then st\<lparr>num_physblock_pages := num_physblock_pages st + 1\<rparr> else st)"
    have g: "num_free_4k_pages (g st) = num_free_4k_pages st" "order_free (g st) = order_free st" for st
      by (simp_all add: g_def)
    have eq: "phys_alloc_init_page q t = Inr (block_release q (upd_stats g ?t))"
      using acq tk False by (simp add: phys_alloc_init_page_def Let_def type_kind_def g_def)
    have "block_release q (upd_stats g ?t) = upd_stats g (block_release q ?t)"
      by (simp add: upd_stats_def block_release_def upd_block_def)
    also have "\<dots> = upd_stats g t" using relock_same [OF core assms(2)] by simp
    finally have r: "block_release q (upd_stats g ?t) = upd_stats g t" .
    have "init_inv mm sps (insert q P) (upd_stats g t)"
      using assms(1) False by (auto simp: init_inv_def stats_only stats_only_inv g fun_eq_iff)
    then show ?thesis using eq r by simp
  qed
qed


text \<open>The page frames of a span, and spans that neither wrap nor overlap.\<close>

definition span_frames :: "phys_alloc_span \<Rightarrow> pfn_t list" where
  "span_frames sp = map (\<lambda>i. start_pfn sp + of_nat i) [0..<unat (num_pages sp)]"

definition spans_wf :: "phys_alloc_span list \<Rightarrow> bool" where
  "spans_wf sps \<longleftrightarrow> distinct (concat (map span_frames sps)) \<and>
     (\<forall>sp\<in>set sps. unat (start_pfn sp) + unat (num_pages sp) < 2 ^ 64)"

lemma set_span_frames:
  assumes "unat (start_pfn sp) + unat (num_pages sp) < 2 ^ 64"
  shows "p \<in> set (span_frames sp) \<longleftrightarrow> start_pfn sp \<le> p \<and> p < start_pfn sp + num_pages sp"
proof -
  have e: "unat (start_pfn sp + num_pages sp) = unat (start_pfn sp) + unat (num_pages sp)"
    using assms by (simp add: unat_plus_no_wrap)
  have u: "unat (start_pfn sp + of_nat i) = unat (start_pfn sp) + i" if "i < unat (num_pages sp)" for i
    using that assms by (subst unat_plus_no_wrap) (simp_all add: unat_of_nat_lt)
  show ?thesis
  proof
    assume "p \<in> set (span_frames sp)"
    then show "start_pfn sp \<le> p \<and> p < start_pfn sp + num_pages sp"
      using u by (auto simp: span_frames_def word_le_nat_alt word_less_nat_alt e)
  next
    assume a: "start_pfn sp \<le> p \<and> p < start_pfn sp + num_pages sp"
    then have "unat (p - start_pfn sp) < unat (num_pages sp)"
      by (auto simp: word_le_nat_alt word_less_nat_alt e unat_sub)
    then show "p \<in> set (span_frames sp)"
      unfolding span_frames_def by (auto intro!: image_eqI [of _ _ "unat (p - start_pfn sp)"])
  qed
qed

lemma span_index_managed:
  "0 \<le> i \<Longrightarrow> span_index sps p i \<noteq> - 1 \<longleftrightarrow>
    (\<exists>sp\<in>set sps. start_pfn sp \<le> p \<and> p < start_pfn sp + num_pages sp)"
  by (induction sps arbitrary: i) auto

lemma managed_frames:
  assumes "spans_wf (spans s)"
  shows "managed s = set (concat (map span_frames (spans s)))"
  using assms set_span_frames by (auto simp: pfn_to_span_locked_def span_index_managed spans_wf_def)

lemma init_pages:
  assumes "init_inv mm sps P t" "set fs \<subseteq> managed t" "distinct fs" "set fs \<inter> P = {}"
  shows "\<exists>t'. rfold phys_alloc_init_page fs t = Inr t' \<and> init_inv mm sps (P \<union> set fs) t'"
  using assms
proof (induction fs arbitrary: P t)
  case Nil
  then show ?case by simp
next
  case (Cons f fs)
  obtain t1 where t1: "phys_alloc_init_page f t = Inr t1" "init_inv mm sps (insert f P) t1"
    using init_page_step [OF Cons.prems(1), of f] Cons.prems(2,4) by auto
  have "spans t1 = spans t" using t1(2) Cons.prems(1) by (simp add: init_inv_def)
  then have "set fs \<subseteq> managed t1" using Cons.prems(2) span_frame [of t1 t] by auto
  then obtain t' where "rfold phys_alloc_init_page fs t1 = Inr t'" "init_inv mm sps (insert f P \<union> set fs) t'"
    using Cons.IH [OF t1(2)] Cons.prems(3,4) by auto
  with t1(1) show ?case by simp
qed

lemma init_span:
  assumes "init_inv mm sps P t" "set (span_frames sp) \<subseteq> managed t" "distinct (span_frames sp)"
    "set (span_frames sp) \<inter> P = {}"
  shows "\<exists>t'. phys_alloc_init_span sp t = Inr t' \<and> init_inv mm sps (P \<union> set (span_frames sp)) t'"
proof -
  let ?t = "upd_stats (num_4k_pages_update (\<lambda>n. n + num_pages sp)) t"
  have "init_inv mm sps P ?t" using assms(1) by (simp add: init_inv_def stats_only stats_only_inv)
  then show ?thesis
    using init_pages [of mm sps P ?t "span_frames sp"] assms
    by (simp add: phys_alloc_init_span_def span_frames_def rfold_map)
qed

lemma init_spans:
  assumes "init_inv mm sps P t" "set (concat (map span_frames ss)) \<subseteq> managed t"
    "distinct (concat (map span_frames ss))" "set (concat (map span_frames ss)) \<inter> P = {}"
  shows "\<exists>t'. rfold phys_alloc_init_span ss t = Inr t' \<and>
    init_inv mm sps (P \<union> set (concat (map span_frames ss))) t'"
  using assms
proof (induction ss arbitrary: P t)
  case Nil
  then show ?case by simp
next
  case (Cons sp ss)
  obtain t1 where t1: "phys_alloc_init_span sp t = Inr t1" "init_inv mm sps (P \<union> set (span_frames sp)) t1"
    using init_span [OF Cons.prems(1), of sp] Cons.prems(2-4) by auto
  have "spans t1 = spans t" using t1(2) Cons.prems(1) by (simp add: init_inv_def)
  then have "set (concat (map span_frames ss)) \<subseteq> managed t1" using Cons.prems(2) span_frame [of t1 t] by auto
  moreover have "set (concat (map span_frames ss)) \<inter> (P \<union> set (span_frames sp)) = {}"
    using Cons.prems(3,4) by (simp add: Int_Un_distrib Int_Un_distrib2 Int_commute)
  ultimately obtain t' where "rfold phys_alloc_init_span ss t1 = Inr t'"
    "init_inv mm sps (P \<union> set (span_frames sp) \<union> set (concat (map span_frames ss))) t'"
    using Cons.IH [OF t1(2)] Cons.prems(3,4) by auto
  with t1(1) show ?case by (auto simp: Un_assoc)
qed


lemma init_correct:
  fixes mem_map h es
  defines "s \<equiv> phys_alloc_init_state mem_map h es"
  assumes "spans_wf (spans s)" and "\<And>p. p \<in> managed s \<Longrightarrow> fresh_block (mem_map p)"
  shows "\<exists>s'. phys_alloc_init s = Inr s' \<and> phys_inv s' \<and> spans s' = spans s \<and>
    free_pages s' = {p \<in> managed s. type_kind (mem_map p) = PHYSBLOCK_UNMANAGED} \<and>
    in_use s' = (\<lambda>p. if p \<in> managed s \<and> type_kind (mem_map p) \<noteq> PHYSBLOCK_UNMANAGED
      then Some (0, blk_type (mem_map p), refcount (mem_map p)) else None)"
proof -
  note i = init_state_inv [of mem_map h es, folded s_def, OF assms(3)]
  note m = managed_frames [OF assms(2)]
  have "init_inv mem_map (spans s) {} s" using i by (auto simp: init_inv_def)
  moreover have "distinct (concat (map span_frames (spans s)))" using assms(2) by (simp add: spans_wf_def)
  ultimately obtain s' where s': "phys_alloc_init s = Inr s'" "init_inv mem_map (spans s) (managed s) s'"
    using init_spans [of mem_map "spans s" "{}" s "spans s"] m by (auto simp: phys_alloc_init_def)
  then have "managed s' = managed s" using span_frame [of s' s] by (simp add: init_inv_def)
  with s' show ?thesis by (auto simp: init_inv_def)
qed

section \<open>Example states\<close>

text \<open>Four pages from frame 16, the second of them in use by the kernel.\<close>

definition small_map :: "pfn_t \<Rightarrow> physblock" where
  "small_map p = \<lparr>head_offset = 0, blk_order = 0,
     blk_type = (if p = 17 then PHYSBLOCK_KERNEL else PHYSBLOCK_UNMANAGED),
     refcount = (if p = 17 then 1 else 0), blk_lock = 0\<rparr>"

definition empty_nodes :: "node_ptr store" where
  "empty_nodes = (\<lambda>p. \<lparr>prev_node = p, next_node = p\<rparr>)"

definition small_state :: phys_alloc_state where
  "small_state = phys_alloc_init_state small_map empty_nodes [(0x10000, 4)]"

lemma fresh_small: "fresh_block (small_map p)"
proof -
  have "PHYSBLOCK_KERNEL AND PHYSBLOCK_TYPE_MASK \<notin> {PHYSBLOCK_TAIL, PHYSBLOCK_FREE}"
    "PHYSBLOCK_UNMANAGED AND PHYSBLOCK_TYPE_MASK \<notin> {PHYSBLOCK_TAIL, PHYSBLOCK_FREE}"
    by code_simp+
  then show ?thesis by (simp add: fresh_block_def small_map_def type_kind_def)
qed

lemma small_spans: "spans small_state = [\<lparr>start_pfn = 16, num_pages = 4\<rparr>]"
proof -
  have "phys_to_pfn 0x10000 = 16" by code_simp
  then show ?thesis by (simp add: small_state_def phys_alloc_init_state_def)
qed

lemma small_frames: "span_frames \<lparr>start_pfn = 16, num_pages = 4\<rparr> = [16, 17, 18, 19]"
  by (simp add: span_frames_def upt_rec)

lemma small_managed: "managed small_state = {16, 17, 18, 19}"
proof -
  have "spans_wf (spans small_state)" unfolding small_spans spans_wf_def by (simp add: small_frames)
  from managed_frames [OF this] show ?thesis unfolding small_spans by (simp add: small_frames)
qed

lemma small_inv:
  "phys_inv small_state" "free_pages small_state = {}" "is_head small_state p \<longleftrightarrow> p \<in> {16, 17, 18, 19}"
  "in_use small_state 17 = Some (0, PHYSBLOCK_KERNEL, 1)"
proof -
  note i = init_state_inv [of small_map empty_nodes "[(0x10000, 4)]", OF fresh_small, folded small_state_def]
  show "phys_inv small_state" "free_pages small_state = {}" by (rule i(1,2))+
  show "is_head small_state p \<longleftrightarrow> p \<in> {16, 17, 18, 19}" unfolding i(3) small_managed ..
  show "in_use small_state 17 = Some (0, PHYSBLOCK_KERNEL, 1)"
    unfolding i(4) small_managed by (simp add: small_map_def)
qed

lemma small_kinds: "type_kind (small_map p) = PHYSBLOCK_UNMANAGED \<longleftrightarrow> p \<noteq> 17"
proof -
  have "PHYSBLOCK_KERNEL AND PHYSBLOCK_TYPE_MASK \<noteq> PHYSBLOCK_UNMANAGED" by code_simp
  then show ?thesis by (simp add: type_kind_def small_map_def)
qed

lemma small_wf: "spans_wf (spans (phys_alloc_init_state small_map empty_nodes [(0x10000, 4)]))"
  unfolding small_state_def [symmetric] small_spans spans_wf_def by (simp add: small_frames)

lemma small_initialised:
  "\<exists>s. phys_alloc_init small_state = Inr s \<and> phys_inv s \<and> free_pages s = {16, 18, 19} \<and>
    in_use s = [17 \<mapsto> (0, PHYSBLOCK_KERNEL, 1)]"
proof -
  have p: "p \<in> managed small_state \<longleftrightarrow> p = 16 \<or> p = 17 \<or> p = 18 \<or> p = 19" for p
    unfolding small_managed by simp
  have "{p \<in> managed small_state. type_kind (small_map p) = PHYSBLOCK_UNMANAGED} = {16, 18, 19}"
    unfolding small_kinds small_managed by auto
  moreover have "(\<lambda>p. if p \<in> managed small_state \<and> type_kind (small_map p) \<noteq> PHYSBLOCK_UNMANAGED
      then Some (0, blk_type (small_map p), refcount (small_map p)) else None) =
      [17 \<mapsto> (0 :: nat, PHYSBLOCK_KERNEL, 1)]"
    unfolding small_kinds small_managed by (auto simp: small_map_def fun_eq_iff)
  ultimately show ?thesis
    using init_correct [OF small_wf fresh_small] unfolding small_state_def [symmetric] by metis
qed

text \<open>512 pages from frame 0 in one block of order 9.\<close>

definition large_map :: "pfn_t \<Rightarrow> physblock" where
  "large_map p = (if p = 0 then \<lparr>head_offset = 0, blk_order = 9, blk_type = PHYSBLOCK_KERNEL, refcount = 1, blk_lock = 0\<rparr>
     else \<lparr>head_offset = of_nat (unat p), blk_order = 0, blk_type = PHYSBLOCK_TAIL, refcount = 0, blk_lock = 0\<rparr>)"

definition large_state :: phys_alloc_state where
  "large_state = phys_alloc_init_state large_map empty_nodes [(0, 512)]"

lemma large_managed: "managed large_state = extent 0 9"
proof -
  have p0: "phys_to_pfn 0 = 0" by code_simp
  have a: "(0 :: pfn_t) \<in> extent 0 9" by (simp add: aligned_bits)
  have "q \<in> extent 0 9 \<longleftrightarrow> q < 512" for q
    using extent_offset [OF a, of q] by (simp add: word_less_nat_alt)
  then show ?thesis
    by (auto simp: large_state_def phys_alloc_init_state_def pfn_to_span_locked_def p0)
qed

lemma large_inv: "phys_inv large_state" "is_head large_state 0" "order_of large_state 0 = 9"
proof -
  let ?s = large_state
  have b: "blocks ?s = large_map" by (simp add: large_state_def phys_alloc_init_state_def)
  have sp: "pfn_to_span_locked ?s q = 0" if "q \<in> extent 0 9" for q
    using that large_managed
    by (auto simp: large_state_def phys_alloc_init_state_def pfn_to_span_locked_def split: if_splits)
  have kind: "type_kind (large_map 0) = PHYSBLOCK_KERNEL" "PHYSBLOCK_KERNEL \<notin> {PHYSBLOCK_TAIL, PHYSBLOCK_FREE}"
    by code_simp+
  have z: "(0 :: pfn_t) \<in> extent 0 9" by (simp add: aligned_bits)
  have ord: "order_of ?s 0 = 9" by (simp add: b large_map_def)
  have hok: "head_ok (blocks ?s) (pfn_to_span_locked ?s) 0"
    using kind sp z unfolding b
    by (intro head_okI [where k = 9]) (simp_all add: large_map_def tail_block_def MAX_ORDER_def)
  from layout_block [OF hok] have lay: "layout_ok ?s" unfolding ord large_managed .
  have "\<not> free_head ?s p" for p
    using kind type_kind_FREE [of "large_map 0"] by (auto simp: free_head_def b large_map_def split: if_splits)
  then show "phys_inv ?s"
    using nothing_free_inv [of large_map empty_nodes "[(0, 512)]"] lay
    by (simp add: large_state_def large_map_def)
  have "0 \<in> managed ?s" unfolding large_managed by (rule z)
  then show "is_head ?s 0" by (simp add: is_head_def b large_map_def)
  show "order_of ?s 0 = 9" by (rule ord)
qed

section \<open>Properties\<close>

text \<open>
  C9: Freeing. Let a page frame lie among the first 256 of a block. Freeing it returns
  without a fault, keeps the invariant (layout, free lists, statistics, locks, no two free
  buddies left unmerged), and has exactly this effect: a block without references is left
  alone; one with several loses one reference; the last reference returns the whole block,
  and nothing else, to the free pages, with the statistics of its type adjusted.
\<close>

theorem phys_free_correct:
  assumes "phys_inv s" "is_head s p" "q \<in> extent p (order_of s p)" "unat (q - p) < 256"
  shows "\<exists>s'. phys_free_pfn s q = Inr s' \<and> phys_inv s' \<and> spans s' = spans s \<and>
    (refcount (blocks s p) = 0 \<longrightarrow> s' = s) \<and>
    (1 < refcount (blocks s p) \<longrightarrow> free_pages s' = free_pages s \<and>
       in_use s' = (in_use s)(p \<mapsto> (order_of s p, blk_type (blocks s p), refcount (blocks s p) - 1)) \<and>
       stats s' = stats s) \<and>
    (refcount (blocks s p) = 1 \<longrightarrow> free_pages s' = free_pages s \<union> extent p (order_of s p) \<and>
       in_use s' = (in_use s)(p := None) \<and>
       other_stats s' = freed_stats (type_kind (blocks s p)) (other_stats s))"
  by (rule phys_free_cases [OF assms]) blast

theorem phys_free_correct_witness:
  "\<exists>s'. phys_free_pfn small_state 17 = Inr s' \<and> phys_inv s' \<and> free_pages s' = {17} \<and> in_use s' 17 = None"
proof -
  have "is_head small_state 17" using small_inv(3) by simp
  moreover note u = in_useD [OF small_inv(4)]
  ultimately show ?thesis
    using phys_free_correct [OF small_inv(1), of 17 17] by (auto simp: small_inv(2) u(3,5))
qed

text \<open>
  C33: The 16-bit offset of a tail is narrowed to 8 bits on the way to its head, so a page
  frame at offset 256 or more of a block does not lead to the head: freeing through it
  returns normally and changes nothing, however many references the block has.
\<close>

theorem phys_free_far_tail_ignored:
  assumes "phys_inv s" "is_head s p" "q \<in> extent p (order_of s p)" "256 \<le> unat (q - p)"
  shows "phys_free_pfn s q = Inr s"
  by (rule free_far_tail [OF assms])

theorem phys_free_far_tail_ignored_witness:
  "refcount (blocks large_state 0) = 1 \<and> phys_free_pfn large_state 300 = Inr large_state"
proof -
  have a: "(0 :: pfn_t) \<in> extent 0 9" by (simp add: aligned_bits)
  have "300 \<in> extent 0 (order_of large_state 0)"
    unfolding large_inv(3) using extent_offset [OF a, of 300] by simp
  from phys_free_far_tail_ignored [OF large_inv(1,2) this]
  have "phys_free_pfn large_state 300 = Inr large_state" by simp
  moreover have "refcount (blocks large_state 0) = 1"
    by (simp add: large_state_def phys_alloc_init_state_def large_map_def)
  ultimately show ?thesis by simp
qed

text \<open>
  C10: Initialisation. From descriptors that are single pages, none free, and spans that
  neither wrap nor overlap, it returns without a fault in a state that satisfies the
  invariant: exactly the unmanaged pages of the spans are free, merged as far as they go,
  and every other page is in use as early boot recorded it.
\<close>

theorem phys_alloc_init_correct:
  fixes mem_map h es
  defines "s \<equiv> phys_alloc_init_state mem_map h es"
  assumes "spans_wf (spans s)" and "\<And>p. p \<in> managed s \<Longrightarrow> fresh_block (mem_map p)"
  shows "\<exists>s'. phys_alloc_init s = Inr s' \<and> phys_inv s' \<and> spans s' = spans s \<and>
    free_pages s' = {p \<in> managed s. type_kind (mem_map p) = PHYSBLOCK_UNMANAGED} \<and>
    in_use s' = (\<lambda>p. if p \<in> managed s \<and> type_kind (mem_map p) \<noteq> PHYSBLOCK_UNMANAGED
      then Some (0, blk_type (mem_map p), refcount (mem_map p)) else None)"
  unfolding s_def using init_correct [OF assms(2,3) [unfolded s_def]] .

theorem phys_alloc_init_correct_witness:
  "\<exists>s'. phys_alloc_init small_state = Inr s' \<and> phys_inv s' \<and> free_pages s' = {16, 18, 19}"
proof -
  have "{p \<in> managed small_state. type_kind (small_map p) = PHYSBLOCK_UNMANAGED} = {16, 18, 19}"
    unfolding small_kinds small_managed by auto
  with phys_alloc_init_correct [OF small_wf fresh_small] show ?thesis
    unfolding small_state_def [symmetric] by metis
qed

end
