(* ===== verification/Phys_Alloc.thy ===== *)
theory Phys_Alloc
  imports Phys_Free
begin

text \<open>
  Allocating blocks: \<^verbatim>\<open>split_block_locked\<close>, \<^verbatim>\<open>split_higher_order_blocks\<close> and
  \<^verbatim>\<open>phys_alloc_block\<close>. The two retry loops of the code are shown to end: between two
  calls no descriptor changes behind the allocator's back, so every block found on a free
  list is what the list says it is. The statistics count the free page frames exactly.
\<close>

section \<open>Splitting a block\<close>

text \<open>\<open>p\<close> is a free block of order \<open>k + 1\<close>.\<close>

definition splittable :: "phys_alloc_state \<Rightarrow> pfn_t \<Rightarrow> nat \<Rightarrow> bool" where
  "splittable s p k \<longleftrightarrow> k < MAX_ORDER \<and> free_head s p \<and> order_of s p = k + 1"

lemma split_eq:
  assumes "k < MAX_ORDER" "p \<in> extent p (k + 1)" "order_of s p = k + 1"
  defines "b \<equiv> pfn_to_buddy_pfn p k"
  shows "blocks (split_block_locked p s) =
      (\<lambda>q. if q = p then (blocks s p)\<lparr>blk_order := k, blk_lock := 0\<rparr>
           else if q = b then (blocks s b)\<lparr>blk_order := k, blk_type := PHYSBLOCK_FREE, head_offset := 0\<rparr>
           else if q \<in> extent b k then tailed (unat (q - b)) (blocks s q) else blocks s q)"
    "nodes (split_block_locked p s) =
      list_push_back (list_push_back (list_detach (nodes s) (BlockNode p)) (FreeList k) (BlockNode p))
        (FreeList k) (BlockNode b)"
    "stats (split_block_locked p s) = add_order_free k 2 (add_order_free (k + 1) (- 1) (stats s))"
    "spans (split_block_locked p s) = spans s"
    "state_lock (split_block_locked p s) = state_lock s"
proof -
  have k: "k < 64" "(k + 1 + 255) mod 256 = k" "k \<le> MAX_ORDER" using assms(1) by (auto simp: MAX_ORDER_def)
  note halves = extent_halves [OF assms(2) k(1), folded b_def]
  have b: "b \<in> extent b k" "b \<noteq> p" "p \<notin> extent b k"
    using buddy_aligned [OF halves(3) k(1)] buddy_neq [OF k(1), of p] halves(2,3) by (auto simp: b_def)
  note st = set_tail_eq [OF k(3) b(1)]
  show "blocks (split_block_locked p s) =
      (\<lambda>q. if q = p then (blocks s p)\<lparr>blk_order := k, blk_lock := 0\<rparr>
           else if q = b then (blocks s b)\<lparr>blk_order := k, blk_type := PHYSBLOCK_FREE, head_offset := 0\<rparr>
           else if q \<in> extent b k then tailed (unat (q - b)) (blocks s q) else blocks s q)"
    using b k(2) unfolding split_block_locked_def Let_def assms(3) b_def [symmetric] st
    by (simp add: st fun_eq_iff flip: b_def)
  show "nodes (split_block_locked p s) =
      list_push_back (list_push_back (list_detach (nodes s) (BlockNode p)) (FreeList k) (BlockNode p))
        (FreeList k) (BlockNode b)"
    "stats (split_block_locked p s) = add_order_free k 2 (add_order_free (k + 1) (- 1) (stats s))"
    "spans (split_block_locked p s) = spans s" "state_lock (split_block_locked p s) = state_lock s"
    using k(2) by (simp_all add: split_block_locked_def Let_def assms(3) st flip: b_def)
qed

lemma split_layout:
  assumes "layout_ok s" "splittable s p k"
  defines "s' \<equiv> split_block_locked p s" and "b \<equiv> pfn_to_buddy_pfn p k"
  shows "layout_ok s'" "is_head s' q \<longleftrightarrow> is_head s q \<or> q = b" "free_head s' q \<longleftrightarrow> free_head s q \<or> q = b"
    "is_head s' q \<Longrightarrow> order_of s' q = (if q = p \<or> q = b then k else order_of s q)"
    "is_head s q \<Longrightarrow> blk_type (blocks s' q) = blk_type (blocks s q) \<and> refcount (blocks s' q) = refcount (blocks s q)"
    "pfn_to_span_locked s' = pfn_to_span_locked s" "\<not> is_head s b"
proof -
  have a: "k < MAX_ORDER" "free_head s p" "order_of s p = k + 1" "is_head s p"
    using assms(2) by (auto simp: splittable_def free_head_def)
  note hok = is_head_ok [OF assms(1) a(4)]
  have k: "k < 64" "p \<in> extent p (k + 1)" using head_okD(2) [OF hok] a(1,3) by (auto simp: MAX_ORDER_def)
  note halves = extent_halves [OF k(2,1), folded b_def]
  note bs = split_eq(1) [OF a(1) k(2) a(3), folded s'_def b_def]
  have b: "b \<in> extent b k" "b \<noteq> p" "p \<notin> extent b k" "b \<notin> extent p k"
    using buddy_aligned [OF halves(3) k(1)] buddy_neq [OF k(1), of p] halves(2,3) by (auto simp: b_def)
  show sp: "pfn_to_span_locked s' = pfn_to_span_locked s"
    unfolding s'_def by (rule span_frame [OF split_eq(4) [OF a(1) k(2) a(3)]])
  have old: "pfn_to_span_locked s q = pfn_to_span_locked s p" "q \<noteq> p \<Longrightarrow> tail_block (blocks s q) (unat (q - p))"
    "q \<noteq> p \<Longrightarrow> head_offset (blocks s q) \<noteq> 0" "refcount (blocks s q) = 0" if "q \<in> extent p (k + 1)" for q
    using head_okD(4-6) [OF hok] free_block_refcounts [OF hok] that a(2,3) by (auto simp: free_head_def)
  have inE: "q \<in> extent p (k + 1) \<longleftrightarrow> q \<in> extent p k \<or> q \<in> extent b k" for q using halves(1) by simp
  have bE: "b \<in> extent p (k + 1)" using inE b(1) by simp
  have tk: "type_kind (blocks s p) = PHYSBLOCK_FREE" "blk_type (blocks s p) = PHYSBLOCK_FREE"
    using a(2) type_kind_FREE by (auto simp: free_head_def)
  have hp: "head_ok (blocks s') (pfn_to_span_locked s) p"
  proof (rule head_okI [where k = k, OF halves(3)])
    show "tail_block (blocks s' q) (unat (q - p))" if "q \<in> extent p k" "q \<noteq> p" for q
      using old(2) [of q] that inE [of q] b halves(2) by (auto simp: bs)
    show "pfn_to_span_locked s q = pfn_to_span_locked s p" if "q \<in> extent p k" for q
      using old(1) [of q] that inE by simp
  qed (use a(1,4) tk old(4) [OF k(2)] in \<open>simp_all add: bs is_head_def type_kind_def\<close>)
  have hb: "head_ok (blocks s') (pfn_to_span_locked s) b"
  proof (rule head_okI [where k = k, OF b(1)])
    show "tail_block (blocks s' q) (unat (q - b))" if "q \<in> extent b k" "q \<noteq> b" for q
      using old(4) [of q] that inE [of q] b by (auto simp: bs tail_block_def tailed_def)
    show "pfn_to_span_locked s q = pfn_to_span_locked s b" if "q \<in> extent b k" for q
      using old(1) [of q] old(1) [OF bE] that inE [of q] by simp
  qed (use a(1) b(2) old(4) [OF bE] in \<open>simp_all add: bs type_kind_def\<close>)
  have ord: "order_of s' p = k" "order_of s' b = k" using b by (simp_all add: bs)
  have E': "layout_on (blocks s') (pfn_to_span_locked s) (extent p (k + 1))"
    using layout_union [OF layout_block [OF hp] layout_block [OF hb]] unfolding ord halves(1) .
  have "layout_on (blocks s') (pfn_to_span_locked s) (managed s)"
  proof (rule layout_replace [OF assms(1) layout_block [OF hok] is_head_extent [OF assms(1) a(4)]])
    show "layout_on (blocks s') (pfn_to_span_locked s) (extent p (order_of s p))" unfolding a(3) by (rule E')
    show "blk_lock_update (\<lambda>_. 0) (blocks s' q) = blk_lock_update (\<lambda>_. 0) (blocks s q)"
      if "q \<in> managed s - extent p (order_of s p)" for q
      using that inE [of q] halves(3) b(1) unfolding a(3) by (auto simp: bs)
  qed
  then show "layout_ok s'" by (simp add: sp)
  have bm: "b \<in> managed s" using is_head_extent [OF assms(1) a(4)] bE unfolding a(3) by blast
  show nb: "\<not> is_head s b" using old(3) [OF bE] b(2) by (simp add: is_head_def)
  have tl: "q \<in> extent b k \<Longrightarrow> q \<noteq> b \<Longrightarrow> head_offset (blocks s' q) \<noteq> 0" for q
    using head_okD(6) [OF hb, of q] unfolding ord .
  have nh: "q \<in> extent b k \<Longrightarrow> \<not> is_head s q" for q
    using old(3) [of q] inE [of q] b(3) by (auto simp: is_head_def)
  show hd: "is_head s' q \<longleftrightarrow> is_head s q \<or> q = b" for q
  proof (cases "q \<in> extent b k")
    case True
    then show ?thesis
      using tl [of q] nh [of q] bm head_okD(3) [OF hb] by (cases "q = b") (auto simp: is_head_def sp)
  next
    case False
    then show ?thesis using b a(4) by (auto simp: is_head_def sp bs)
  qed
  show "order_of s' q = (if q = p \<or> q = b then k else order_of s q)" if "is_head s' q"
    using that hd [of q] nh [of q] b by (auto simp: bs)
  show "blk_type (blocks s' q) = blk_type (blocks s q) \<and> refcount (blocks s' q) = refcount (blocks s q)" if "is_head s q" for q
    using that nh [of q] nb b by (auto simp: bs)
  show "free_head s' q \<longleftrightarrow> free_head s q \<or> q = b"
    using hd [of q] nh [of q] nb b by (auto simp: free_head_def bs)
qed


definition split_lists :: "pfn_t \<Rightarrow> pfn_t \<Rightarrow> nat \<Rightarrow> (nat \<Rightarrow> node_ptr list) \<Rightarrow> nat \<Rightarrow> node_ptr list" where
  "split_lists p b k xss =
     (xss(k + 1 := remove1 (BlockNode p) (xss (k + 1))))(k := xss k @ [BlockNode p, BlockNode b])"

lemma split_lists_ok:
  assumes "layout_ok s" "lists_ok s xss" "splittable s p k"
  defines "b \<equiv> pfn_to_buddy_pfn p k"
  shows "lists_ok (split_block_locked p s) (split_lists p b k xss)"
proof -
  let ?s = "split_block_locked p s"
  have a: "k < MAX_ORDER" "k \<le> MAX_ORDER" "k + 1 \<le> MAX_ORDER" "free_head s p" "order_of s p = k + 1" "is_head s p"
    using assms(3) by (auto simp: splittable_def free_head_def)
  have pe: "p \<in> extent p (k + 1)" using head_okD(2) [OF is_head_ok [OF assms(1) a(6)]] a(5) by simp
  note sl = split_layout [OF assms(1,3), folded b_def]
  have bp: "b \<noteq> p" using sl(7) a(6) by auto
  have mem: "BlockNode q \<in> set (xss j) \<longleftrightarrow> free_head s q \<and> order_of s q = j" if "j \<le> MAX_ORDER" for q j
    by (rule free_list_mem [OF assms(2) that])
  have nb: "BlockNode b \<notin> set (xss j)" if "j \<le> MAX_ORDER" for j
    using mem [OF that] sl(7) by (auto simp: free_head_def)
  have dist: "distinct (xss (k + 1))" using family_distinct [OF assms(2) a(3)] .
  have sets: "set (split_lists p b k xss j) =
      (if j = k then set (xss k) \<union> {BlockNode p, BlockNode b}
       else if j = k + 1 then set (xss j) - {BlockNode p} else set (xss j))" for j
    using dist by (auto simp: split_lists_def set_remove1_eq)
  have fam: "dl.family (nodes s) {..MAX_ORDER} FreeList xss" using assms(2) by (simp add: lists_ok_def)
  have f1: "dl.family (list_detach (nodes s) (BlockNode p)) {..MAX_ORDER} FreeList
      (xss(k + 1 := remove1 (BlockNode p) (xss (k + 1))))"
    by (rule dl.family_detach [OF fam]) (use a mem [of "k + 1"] in simp_all)
  have f2: "dl.family (list_push_back (list_detach (nodes s) (BlockNode p)) (FreeList k) (BlockNode p))
      {..MAX_ORDER} FreeList
      (xss(k + 1 := remove1 (BlockNode p) (xss (k + 1)), k := xss k @ [BlockNode p]))"
    using dl.family_push [OF f1, of k "BlockNode p"] a mem [of _ p] dist by (simp add: set_remove1_eq)
  have "dl.family (nodes ?s) {..MAX_ORDER} FreeList (split_lists p b k xss)"
    unfolding split_eq(2) [OF a(1) pe a(5), folded b_def] split_lists_def
    using dl.family_push [OF f2, of k "BlockNode b"] a nb bp notin_set_remove1 [OF nb [OF a(3)]]
    by simp
  then show ?thesis
  proof (rule lists_okI)
    show "FreeList i \<notin> set (split_lists p b k xss j)" if "j \<le> MAX_ORDER" for i j
      using free_list_no_heads [OF assms(2) that] free_list_no_heads [OF assms(2) a(2)] unfolding sets by auto
    show "BlockNode q \<in> set (split_lists p b k xss j) \<longleftrightarrow> free_head ?s q \<and> order_of ?s q = j"
      if "j \<le> MAX_ORDER" for q j
      using mem [OF that, of q] mem [OF a(2), of q] bp a(4,5) sl(3) [of q] sl(4) [of q] sl(7)
      unfolding sets free_head_def
      by (cases "q = p"; cases "q = b"; cases "is_head ?s q") (simp_all, auto simp: sl(2) is_head_def)
  qed
qed

lemma weight_split:
  assumes "k < MAX_ORDER" "BlockNode p \<in> set (xss (k + 1))"
  shows "weight (split_lists p b k xss) = weight xss"
    "length (xss (k + 1)) = length (split_lists p b k xss (k + 1)) + 1"
    "length (split_lists p b k xss k) = length (xss k) + 2"
    "j \<noteq> k \<Longrightarrow> j \<noteq> k + 1 \<Longrightarrow> split_lists p b k xss j = xss j"
proof -
  let ?ys = "xss(k + 1 := remove1 (BlockNode p) (xss (k + 1)))"
  have "0 < length (xss (k + 1))" using assms(2) by (metis length_pos_if_in_set)
  then show len: "length (xss (k + 1)) = length (split_lists p b k xss (k + 1)) + 1"
    using assms(2) by (simp add: split_lists_def length_remove1)
  then obtain n where n: "length (xss (k + 1)) = n + 1" "length (remove1 (BlockNode p) (xss (k + 1))) = n"
    by (simp add: split_lists_def)
  have "weight ?ys + 2 ^ (k + 1) * (n + 1) = weight xss + 2 ^ (k + 1) * n"
    using weight_upd [of "k + 1" xss "remove1 (BlockNode p) (xss (k + 1))"] assms(1) n by simp
  moreover have "weight (split_lists p b k xss) + 2 ^ k * length (xss k) = weight ?ys + 2 ^ k * (length (xss k) + 2)"
    using weight_upd [of k ?ys "xss k @ [BlockNode p, BlockNode b]"] assms(1) by (simp add: split_lists_def)
  ultimately show "weight (split_lists p b k xss) = weight xss" by (simp add: algebra_simps)
  show "length (split_lists p b k xss k) = length (xss k) + 2" by (simp add: split_lists_def)
  show "j \<noteq> k \<Longrightarrow> j \<noteq> k + 1 \<Longrightarrow> split_lists p b k xss j = xss j" by (simp add: split_lists_def)
qed

lemma splittable_facts:
  assumes "layout_ok s" "splittable s p k"
  shows "k < MAX_ORDER" "k + 1 \<le> MAX_ORDER" "free_head s p" "order_of s p = k + 1" "is_head s p"
    "k < 64" "p \<in> extent p (k + 1)" "pfn_to_buddy_pfn p k \<noteq> p"
proof -
  show a: "k < MAX_ORDER" "k + 1 \<le> MAX_ORDER" "free_head s p" "order_of s p = k + 1" "is_head s p"
    using assms(2) by (auto simp: splittable_def free_head_def)
  then show "k < 64" "p \<in> extent p (k + 1)"
    using head_okD(2) [OF is_head_ok [OF assms(1)], of p] by (simp_all add: MAX_ORDER_def)
  show "pfn_to_buddy_pfn p k \<noteq> p" using split_layout(7) [OF assms] a(5) by auto
qed

lemma split_core:
  assumes "phys_core s {p} xss" "splittable s p k"
  shows "phys_core (split_block_locked p s) {} (split_lists p (pfn_to_buddy_pfn p k) k xss)"
proof -
  let ?s = "split_block_locked p s" and ?b = "pfn_to_buddy_pfn p k"
  have c: "layout_ok s" "lists_ok s xss" "stats_ok s xss" "locks_ok s {p}"
    using assms(1) by (auto simp: phys_core_def)
  note a = splittable_facts [OF c(1) assms(2)]
  note sl = split_layout [OF c(1) assms(2)] and e = split_eq [OF a(1,7,4)]
  have m: "BlockNode p \<in> set (xss (k + 1))" using free_list_mem [OF c(2) a(2)] a(3,4) by simp
  note w = weight_split [where xss = xss and k = k, OF a(1) m]
  have "order_free (stats ?s) j = of_nat (length (split_lists p ?b k xss j))" if "j \<le> MAX_ORDER" for j
    using c(3) that a(2) w(2) [of ?b] w(3) [of ?b] w(4) [of j ?b] unfolding e(3)
    by (auto simp: stats_ok_def add_order_free_def)
  then have "stats_ok ?s (split_lists p ?b k xss)"
    using c(3) w(1) unfolding stats_ok_def e(3) by (simp add: add_order_free_def)
  moreover have "locks_ok ?s {}"
    using c(4) a(8) unfolding locks_ok_def sl(6) e(1) by (auto simp: tailed_def)
  moreover note split_lists_ok [OF c(1,2) assms(2)]
  ultimately show ?thesis using sl(1) by (simp add: phys_core_def)
qed

lemma split_heads:
  assumes "layout_ok s" "splittable s p k"
  defines "s' \<equiv> split_block_locked p s" and "b \<equiv> pfn_to_buddy_pfn p k"
  shows "free_head s' p" "order_of s' p = k" "free_head s' b" "order_of s' b = k"
    "q \<noteq> p \<Longrightarrow> q \<noteq> b \<Longrightarrow> free_head s' q = free_head s q"
    "q \<noteq> p \<Longrightarrow> q \<noteq> b \<Longrightarrow> is_head s' q = is_head s q"
    "q \<noteq> p \<Longrightarrow> is_head s q \<Longrightarrow> order_of s' q = order_of s q"
proof -
  note a = splittable_facts [OF assms(1,2)]
  note sl = split_layout [OF assms(1,2), folded s'_def b_def]
  show f: "free_head s' p" "free_head s' b" using sl(3) a(3) by simp_all
  then show "order_of s' p = k" "order_of s' b = k" using sl(4) by (simp_all add: free_head_def)
  show "free_head s' q = free_head s q" "is_head s' q = is_head s q" if "q \<noteq> p" "q \<noteq> b"
    using sl(2,3) that by auto
  show "order_of s' q = order_of s q" if "q \<noteq> p" "is_head s q"
    using sl(2,4,7) that by auto
qed

lemma split_views:
  assumes "layout_ok s" "splittable s p k"
  shows "same_views s (split_block_locked p s)"
proof -
  let ?s = "split_block_locked p s" and ?b = "pfn_to_buddy_pfn p k"
  note a = splittable_facts [OF assms]
  note sl = split_layout [OF assms] and e = split_eq [OF a(1,7,4)] and h = split_heads [OF assms]
  have "{q. free_head ?s q} = ({q. free_head s q} - {p}) \<union> {p, ?b}" using sl(3) a(3) by auto
  moreover have "order_of ?s q = order_of s q" if "q \<in> {q. free_head s q} - {p}" for q
    using that h(7) [of q] by (auto simp: free_head_def)
  ultimately have "free_pages ?s = (\<Union>q\<in>{q. free_head s q} - {p}. extent q (order_of s q)) \<union>
      (extent p k \<union> extent ?b k)"
    unfolding free_pages_def using h(2,4) by auto
  also have "\<dots> = free_pages s"
    unfolding free_pages_def using a(3,4) extent_halves(1) [OF a(7,6)] by auto
  finally have "free_pages ?s = free_pages s" .
  moreover have "in_use ?s = in_use s"
  proof
    fix q
    show "in_use ?s q = in_use s q"
      using h(5-7) [of q] sl(5) [of q] sl(7) a(3) h(1,3)
      by (cases "q = p"; cases "q = ?b") (auto simp: in_use_def)
  qed
  ultimately show ?thesis
    unfolding same_views_def other_stats_def e(3-5) by (simp add: add_order_free_def)
qed

lemma split_coalesced:
  assumes "layout_ok s" "splittable s p k" "coalesced_but {p} s"
  shows "coalesced_but {p} (split_block_locked p s)"
  unfolding coalesced_but_def
proof (intro allI impI, rule ccontr)
  fix x
  let ?s = "split_block_locked p s" and ?b = "pfn_to_buddy_pfn p k"
  let ?y = "pfn_to_buddy_pfn x (order_of ?s x)"
  assume x: "mergeable ?s x" and no: "\<not> (x \<in> {p} \<or> ?y \<in> {p})"
  note h = split_heads [OF assms(1,2)]
  have m: "free_head ?s x" "free_head ?s ?y" "order_of ?s ?y = order_of ?s x" "order_of ?s x < MAX_ORDER"
    "pfn_to_span_locked s ?y = pfn_to_span_locked s x"
    using x split_layout(6) [OF assms(1,2)] by (auto simp: mergeable_def Let_def)
  have xb: "x \<noteq> ?b" using no h(4) by auto
  have yb: "?y \<noteq> ?b"
  proof
    assume y: "?y = ?b"
    then have "order_of ?s x = k" using m(3) h(4) by simp
    with y have "x = pfn_to_buddy_pfn ?b k" by (metis buddy_involution)
    then show False using no by simp
  qed
  have o: "free_head s x" "free_head s ?y" "order_of ?s x = order_of s x" "order_of ?s ?y = order_of s ?y"
    using h(5-7) [of x] h(5-7) [of ?y] no xb yb m(1,2) by (auto simp: free_head_def)
  then have "mergeable s x" using m by (simp add: mergeable_def Let_def)
  with assms(3) no o(3) show False by (auto simp: coalesced_but_def)
qed

section \<open>The splitting loop\<close>

lemma first_block_hd:
  assumes "lists_ok s xss" "k \<le> MAX_ORDER" "xss k = BlockNode p # xs"
  shows "first_block s k = Inr p"
proof -
  have "ring (nodes s) (FreeList k) (BlockNode p # xs)" using family_ring [OF assms(1,2)] assms(3) by simp
  then show ?thesis by (simp add: first_block_def ring_first)
qed

lemma list_hd_free:
  assumes "lists_ok s xss" "k \<le> MAX_ORDER" "xss k \<noteq> []"
  obtains p xs where "xss k = BlockNode p # xs" "free_head s p" "order_of s p = k"
proof -
  obtain x xs where x: "xss k = x # xs" using assms(3) by (cases "xss k") auto
  then have "x \<in> set (xss k)" by simp
  then obtain p where p: "x = BlockNode p" using assms(1,2) by (auto simp: lists_ok_def)
  with x free_list_mem [OF assms(1,2), of p] that show thesis by auto
qed

lemma split_loop_correct:
  assumes "phys_core s {} xss" "t \<le> order" "order \<le> MAX_ORDER"
    and "\<And>j. t \<le> j \<Longrightarrow> j < order \<Longrightarrow> xss j = []" "xss order = BlockNode p # xs" "coalesced_but {p} s"
  shows "\<exists>s' xss' ys. split_blocks_loop s t order = Some (Inr s') \<and> phys_core s' {} xss' \<and>
    xss' t = BlockNode p # ys \<and> coalesced_but {p} s' \<and> same_views s s'"
  using assms
proof (induction "order - t" arbitrary: s xss order xs rule: less_induct)
  case less
  note core = less.prems(1)
  have c: "layout_ok s" "lists_ok s xss" using core by (auto simp: phys_core_def)
  show ?case
  proof (cases "order = t")
    case True
    then have "split_blocks_loop s t order = Some (Inr s)" by (simp add: split_blocks_loop.simps)
    then show ?thesis using less.prems True by (auto simp: same_views_def)
  next
    case False
    then obtain k where k: "order = k + 1" "t \<le> k" using less.prems(2) by (metis Suc_eq_plus1 le_SucE not0_implies_Suc le_zero_eq)
    have p: "free_head s p" "order_of s p = order"
      using free_list_mem [OF c(2) less.prems(3), of p] less.prems(5) by auto
    have pm: "p \<in> managed s" using p(1) by (simp add: free_head_def is_head_def)
    define s1 where "s1 = lock_block p s"
    note rl = relocked_steps(1) [of s p, folded s1_def]
    note f = relocked_fields [OF rl] and v = relocked_views [OF rl]
    have core1: "phys_core s1 {p} xss" using locked_core(1) [OF core, of p] by (simp add: s1_def)
    have sp: "splittable s1 p k" using p k less.prems(3) by (simp add: splittable_def f v)
    let ?s2 = "split_block_locked p s1" and ?b = "pfn_to_buddy_pfn p k"
    let ?xs2 = "split_lists p ?b k xss"
    have lay1: "layout_ok s1" using core1 by (simp add: phys_core_def)
    have core2: "phys_core ?s2 {} ?xs2" by (rule split_core [OF core1 sp])
    have co2: "coalesced_but {p} ?s2" by (rule split_coalesced [OF lay1 sp]) (use less.prems(6) v in simp)
    have "split_blocks_loop s t order = split_blocks_loop ?s2 t k"
      using first_block_hd [OF c(2) less.prems(3,5)] acquire_block(1) [OF core pm] p k(2)
      unfolding k(1) by (subst split_blocks_loop.simps) (simp add: f free_head_def flip: s1_def)
    moreover have hd2: "?xs2 k = BlockNode p # [BlockNode ?b]"
      using less.prems(4) [of k] k by (simp add: split_lists_def)
    have emp: "\<And>j. t \<le> j \<Longrightarrow> j < k \<Longrightarrow> ?xs2 j = []"
      using less.prems(4) k by (simp add: split_lists_def)
    have "k - t < order - t" "k \<le> MAX_ORDER" using k less.prems(3) by simp_all
    from less.hyps [OF this(1) core2 k(2) this(2) emp hd2 co2] obtain s' xss' ys where
      r: "split_blocks_loop ?s2 t k = Some (Inr s')" "phys_core s' {} xss'" "xss' t = BlockNode p # ys"
      "coalesced_but {p} s'" "same_views ?s2 s'" by blast
    moreover have "same_views s s1" using same_views_relocked [OF rl] by (simp add: s1_def)
    from same_views_trans [OF same_views_trans [OF this split_views [OF lay1 sp]] r(5)] have "same_views s s'" .
    ultimately show ?thesis using r(2-4) by auto
  qed
qed

lemma first_nonempty_correct:
  assumes "lists_ok s xss" "o1 + n \<le> MAX_ORDER + 1"
  defines "r \<equiv> first_nonempty_order s o1 n"
  shows "o1 \<le> r" "r \<le> o1 + n" "\<And>j. o1 \<le> j \<Longrightarrow> j < r \<Longrightarrow> xss j = []" "r < o1 + n \<Longrightarrow> xss r \<noteq> []"
proof -
  have "o1 \<le> r \<and> r \<le> o1 + n \<and> (\<forall>j. o1 \<le> j \<longrightarrow> j < r \<longrightarrow> xss j = []) \<and> (r < o1 + n \<longrightarrow> xss r \<noteq> [])"
    using assms(2) unfolding r_def
  proof (induction n arbitrary: o1)
    case 0
    then show ?case by simp
  next
    case (Suc n)
    have e: "list_empty (nodes s) (FreeList o1) \<longleftrightarrow> xss o1 = []"
      using ring_empty_iff [OF family_ring [OF assms(1)], of o1] Suc.prems by simp
    show ?case using Suc.IH [of "o1 + 1"] Suc.prems e by (auto simp: Suc_le_eq le_eq_less_or_eq [of o1])
  qed
  then show "o1 \<le> r" "r \<le> o1 + n" "\<And>j. o1 \<le> j \<Longrightarrow> j < r \<Longrightarrow> xss j = []" "r < o1 + n \<Longrightarrow> xss r \<noteq> []"
    by blast+
qed


section \<open>The statistics count the free page frames\<close>

lemma max_not_managed: "- 1 \<notin> managed s"
proof -
  have "\<not> (- 1 :: pfn_t) < x" for x by (simp add: not_less)
  then have "span_index sps (- 1) i = - 1" for sps i by (induction sps arbitrary: i) simp_all
  then show ?thesis by (simp add: pfn_to_span_locked_def)
qed

lemma weight_card:
  assumes "layout_ok s" "lists_ok s xss"
  shows "weight xss = card (free_pages s)"
proof -
  let ?F = "\<lambda>k. {p. free_head s p \<and> order_of s p = k}"
  have ord: "order_of s p \<le> MAX_ORDER" "p \<in> extent p (order_of s p)" if "free_head s p" for p
    using head_okD(1,2) [OF is_head_ok [OF assms(1)], of p] that by (auto simp: free_head_def)
  have cd: "card (extent p (order_of s p)) = 2 ^ order_of s p" if "free_head s p" for p
    using card_extent [OF ord(2) [OF that]] ord(1) [OF that] by (simp add: MAX_ORDER_def)
  have len: "length (xss k) = card (?F k)" if "k \<le> MAX_ORDER" for k
  proof -
    have "length (xss k) = card (set (xss k))" using distinct_card [OF family_distinct [OF assms(2) that]] by simp
    also have "set (xss k) = BlockNode ` ?F k" using assms(2) that by (simp add: lists_ok_def)
    also have "card \<dots> = card (?F k)" by (rule card_image) (simp add: inj_on_def)
    finally show ?thesis .
  qed
  have "card (free_pages s) = (\<Sum>p\<in>{p. free_head s p}. card (extent p (order_of s p)))"
    unfolding free_pages_def
  proof (rule card_UN_disjoint)
    show "\<forall>p\<in>{p. free_head s p}. \<forall>q\<in>{p. free_head s p}. p \<noteq> q \<longrightarrow>
        extent p (order_of s p) \<inter> extent q (order_of s q) = {}"
      using heads_disjoint [OF assms(1)] by (auto simp: free_head_def)
  qed simp_all
  also have "\<dots> = (\<Sum>p\<in>{p. free_head s p}. 2 ^ order_of s p)"
    using cd by (intro sum.cong) auto
  also have "\<dots> = (\<Sum>k\<le>MAX_ORDER. \<Sum>p\<in>{p \<in> {p. free_head s p}. order_of s p = k}. 2 ^ order_of s p)"
    using ord(1) by (intro sum.group [symmetric]) auto
  also have "\<dots> = (\<Sum>k\<le>MAX_ORDER. 2 ^ k * card (?F k))" by (intro sum.cong) (simp_all add: mult.commute)
  finally show ?thesis using len by (simp add: weight_def)
qed

lemma free_pages_managed: "layout_ok s \<Longrightarrow> free_pages s \<subseteq> managed s"
  using is_head_extent [of s] unfolding free_pages_def free_head_def by (intro UN_least) blast

lemma num_free_card:
  assumes "phys_core s L xss"
  shows "unat (num_free_4k_pages (stats s)) = card (free_pages s)" "card (free_pages s) = weight xss"
proof -
  have c: "layout_ok s" "lists_ok s xss" "stats_ok s xss" using assms by (auto simp: phys_core_def)
  show w: "card (free_pages s) = weight xss" using weight_card [OF c(1,2)] by simp
  have "free_pages s \<subseteq> UNIV - {- 1}"
    using free_pages_managed [OF c(1)] max_not_managed [of s] by (metis (no_types, lifting) Diff_empty subset_Diff_insert subset_UNIV in_mono)
  then have "card (free_pages s) \<le> card (UNIV - {- 1 :: pfn_t})" by (rule card_mono [rotated]) simp
  also have "\<dots> = 2 ^ 64 - 1" by (subst card_Diff_singleton) (simp_all add: card_word)
  finally have "weight xss < 2 ^ 64" unfolding w by simp
  then show "unat (num_free_4k_pages (stats s)) = card (free_pages s)"
    using c(3) w by (simp add: stats_ok_def unat_of_nat_lt)
qed


section \<open>Taking a block\<close>

text \<open>The type of a block allocated with \<open>flags\<close>; unknown kinds of allocation panic.\<close>

definition known_flags :: "u32 \<Rightarrow> bool" where
  "known_flags flags \<longleftrightarrow>
     flags AND ALLOC_TYPE_MASK \<in> {ALLOC_KERNEL, ALLOC_USER, ALLOC_PAGETABLE, ALLOC_PHYSBLOCK}"

lemma alloc_type_ok:
  assumes "alloc_flags_to_physblock_type flags = Inr t"
  shows "t AND PHYSBLOCK_TYPE_MASK \<notin> {PHYSBLOCK_TAIL, PHYSBLOCK_FREE}"
proof -
  have m: "(x OR PHYSBLOCK_MOVABLE) AND PHYSBLOCK_TYPE_MASK = x AND PHYSBLOCK_TYPE_MASK"
    "(x OR PHYSBLOCK_PINNED) AND PHYSBLOCK_TYPE_MASK = x AND PHYSBLOCK_TYPE_MASK" for x
  proof -
    have z: "PHYSBLOCK_MOVABLE AND PHYSBLOCK_TYPE_MASK = 0" "PHYSBLOCK_PINNED AND PHYSBLOCK_TYPE_MASK = 0"
      by code_simp+
    show "(x OR PHYSBLOCK_MOVABLE) AND PHYSBLOCK_TYPE_MASK = x AND PHYSBLOCK_TYPE_MASK"
      "(x OR PHYSBLOCK_PINNED) AND PHYSBLOCK_TYPE_MASK = x AND PHYSBLOCK_TYPE_MASK"
      by (simp_all add: bit.conj_disj_distrib2 z)
  qed
  have k: "PHYSBLOCK_KERNEL AND PHYSBLOCK_TYPE_MASK \<notin> {PHYSBLOCK_TAIL, PHYSBLOCK_FREE}"
    "PHYSBLOCK_USER AND PHYSBLOCK_TYPE_MASK \<notin> {PHYSBLOCK_TAIL, PHYSBLOCK_FREE}"
    "PHYSBLOCK_PAGETABLE AND PHYSBLOCK_TYPE_MASK \<notin> {PHYSBLOCK_TAIL, PHYSBLOCK_FREE}"
    "PHYSBLOCK_PHYSBLOCK AND PHYSBLOCK_TYPE_MASK \<notin> {PHYSBLOCK_TAIL, PHYSBLOCK_FREE}"
    by code_simp+
  show ?thesis
    using assms k by (auto simp: alloc_flags_to_physblock_type_def Let_def m rbind_Inr_iff split: if_splits)
qed

lemma known_flags_type: "known_flags flags \<Longrightarrow> \<exists>t. alloc_flags_to_physblock_type flags = Inr t"
  by (auto simp: known_flags_def alloc_flags_to_physblock_type_def Let_def)

lemma take_block_correct:
  assumes "phys_core s {p} xss" "free_head s p" "order_of s p = k" "coalesced_but {p} s"
    and "alloc_flags_to_physblock_type flags = Inr t"
  shows "\<exists>s'. take_block k flags p s = Inr (p, s') \<and> phys_inv s' \<and>
    free_pages s' = free_pages s - extent p k \<and> in_use s' = (in_use s)(p \<mapsto> (k, t, 1)) \<and> spans s' = spans s"
proof -
  have c: "layout_ok s" "lists_ok s xss" "stats_ok s xss" "locks_ok s {p}"
    using assms(1) by (auto simp: phys_core_def)
  have hd: "is_head s p" using assms(2) by (simp add: free_head_def)
  note hok = is_head_ok [OF c(1) hd]
  have k: "k \<le> MAX_ORDER" "p \<in> extent p k" using head_okD(1,2) [OF hok] assms(3) by simp_all
  have rc: "refcount (blocks s p) = 0"
    using free_block_refcounts [OF hok _ head_okD(2) [OF hok]] assms(2) by (simp add: free_head_def)
  define s' where "s' = snd (projr (take_block k flags p s))"
  have eq: "take_block k flags p s = Inr (p, s')"
    by (simp add: s'_def take_block_def Let_def assms(5))
  let ?b = "(blocks s p)\<lparr>blk_type := t, refcount := 1, blk_lock := 0\<rparr>"
  have e: "blocks s' = (blocks s)(p := ?b)" "spans s' = spans s" "state_lock s' = 0"
    "nodes s' = list_detach (nodes s) (BlockNode p)"
    "num_free_4k_pages (stats s') = num_free_4k_pages (stats s) - push_bit k 1"
    "order_free (stats s') = (order_free (stats s))(k := order_free (stats s) k - 1)"
    by (simp_all add: s'_def take_block_def Let_def assms(5) rc fun_eq_iff add_order_free_def)
  have t: "type_kind ?b \<noteq> PHYSBLOCK_TAIL" "type_kind ?b \<noteq> PHYSBLOCK_FREE" "blk_type ?b \<noteq> PHYSBLOCK_FREE"
    using alloc_type_ok [OF assms(5)] type_kind_FREE [of ?b] by (auto simp: type_kind_def)
  note u = update_head [OF c(1) hd e(1,2) _ _ t(1)]
  have pre: "head_offset ?b = 0" "blk_order ?b = order_of s p"
    "type_kind ?b = PHYSBLOCK_FREE \<Longrightarrow> blk_type ?b = PHYSBLOCK_FREE \<and> refcount ?b = 0"
    using hd t(2) by (simp_all add: is_head_def)
  have sp: "pfn_to_span_locked s' = pfn_to_span_locked s" using e(2) by (rule span_frame)
  have fh: "free_head s' q \<longleftrightarrow> free_head s q \<and> q \<noteq> p" for q using u(4) [OF pre] t(3) by auto
  have ord: "order_of s' q = order_of s q" for q using u(3) [OF pre] by simp
  have m: "BlockNode p \<in> set (xss k)" using free_list_mem [OF c(2) k(1)] assms(2,3) by simp
  let ?ys = "xss(k := remove1 (BlockNode p) (xss k))"
  have sets: "set (?ys j) = (if j = k then set (xss k) - {BlockNode p} else set (xss j))" for j
    using family_distinct [OF c(2) k(1)] by (simp add: set_remove1_eq)
  have "dl.family (nodes s') {..MAX_ORDER} FreeList ?ys"
    unfolding e(4) using c(2) k(1) m by (intro dl.family_detach) (auto simp: lists_ok_def)
  then have "lists_ok s' ?ys"
  proof (rule lists_okI)
    show "FreeList i \<notin> set (?ys j)" if "j \<le> MAX_ORDER" for i j
      using free_list_no_heads [OF c(2) that] unfolding sets by auto
    show "BlockNode q \<in> set (?ys j) \<longleftrightarrow> free_head s' q \<and> order_of s' q = j" if "j \<le> MAX_ORDER" for q j
      using free_list_mem [OF c(2) that, of q] assms(3) unfolding sets fh ord by auto
  qed
  moreover have "stats_ok s' ?ys"
  proof -
    obtain n where n: "length (xss k) = n + 1" "length (?ys k) = n"
      using m length_pos_if_in_set [OF m] by (cases "length (xss k)") (auto simp: length_remove1)
    have w: "weight ?ys + 2 ^ k = weight xss"
      using weight_upd [OF k(1), of xss "remove1 (BlockNode p) (xss k)"] n by simp
    then have "of_nat (weight xss) - push_bit k 1 = (of_nat (weight ?ys) :: u64)"
      by (simp add: push_bit_eq_mult flip: w)
    then show ?thesis using c(3) k(1) n by (auto simp: stats_ok_def e(5,6))
  qed
  moreover have "locks_ok s' {}" using c(4) by (auto simp: locks_ok_def sp e(1))
  ultimately have core: "phys_core s' {} ?ys" using u(1) [OF pre] by (simp add: phys_core_def)
  have "coalesced s'"
    unfolding coalesced_but_def
  proof (intro allI impI)
    fix x
    assume x: "mergeable s' x"
    then have "mergeable s x" by (auto simp: mergeable_def Let_def fh ord sp)
    then have "x = p \<or> pfn_to_buddy_pfn x (order_of s x) = p" using assms(4) by (auto simp: coalesced_but_def)
    then show "x \<in> {} \<or> pfn_to_buddy_pfn x (order_of s' x) \<in> {}"
      using x by (auto simp: mergeable_def Let_def fh ord)
  qed
  then have "phys_inv s'" using core e(3) by (auto simp: phys_inv_def)
  moreover have "free_pages s' = free_pages s - extent p k"
  proof -
    have "extent q (order_of s q) \<inter> extent p k = {}" if "free_head s q" "q \<noteq> p" for q
      using heads_disjoint [OF c(1) _ hd, of q] that assms(3) by (auto simp: free_head_def)
    then show ?thesis unfolding free_pages_def fh ord using assms(2,3) by blast
  qed
  moreover have "in_use s' = (in_use s)(p \<mapsto> (k, t, 1))" using u(5) [OF pre] t(3) assms(3) by simp
  ultimately show ?thesis using eq e(2) by blast
qed


section \<open>Allocating\<close>

lemma enough_free:
  assumes "phys_core s L xss" "free_head s q" "k \<le> order_of s q"
  shows "\<not> num_free_4k_pages (stats s) < push_bit k 1"
proof -
  have lay: "layout_ok s" using assms(1) by (simp add: phys_core_def)
  note hok = is_head_ok [OF lay, of q]
  have o: "order_of s q < 64" "order_of s q \<le> 12" "q \<in> extent q (order_of s q)"
    using head_okD(1,2) [OF hok] assms(2) by (auto simp: free_head_def MAX_ORDER_def)
  have "(2 :: nat) ^ k \<le> 2 ^ order_of s q" using assms(3) by (intro power_increasing) simp_all
  also have "\<dots> = card (extent q (order_of s q))" using card_extent [OF o(3,1)] by simp
  also have "\<dots> \<le> card (free_pages s)" using assms(2) by (intro card_mono) (auto simp: free_pages_def)
  finally have "2 ^ k \<le> unat (num_free_4k_pages (stats s))" using num_free_card(1) [OF assms(1)] by simp
  moreover have "unat (push_bit k 1 :: u64) = 2 ^ k" using o assms(3) by (intro unat_push_bit_1) simp
  ultimately show ?thesis by (simp add: word_less_nat_alt)
qed

text \<open>The list the block comes from: the requested one, or the result of splitting a larger block.\<close>

lemma block_supply:
  assumes "phys_core s {} xss" "coalesced s" "k \<le> MAX_ORDER" "free_head s q" "k \<le> order_of s q"
  shows "\<exists>s' xss' p ys. (if list_empty (nodes s) (FreeList k) then split_higher_order_blocks s k
      else Some (Inr s)) = Some (Inr s') \<and> phys_core s' {} xss' \<and> xss' k = BlockNode p # ys \<and>
    coalesced_but {p} s' \<and> same_views s s'"
proof -
  have c: "layout_ok s" "lists_ok s xss" using assms(1) by (auto simp: phys_core_def)
  have co: "coalesced_but {p} s" for p using assms(2) by (auto simp: coalesced_but_def)
  have e: "list_empty (nodes s) (FreeList k) \<longleftrightarrow> xss k = []"
    using ring_empty_iff [OF family_ring [OF c(2) assms(3)]] .
  show ?thesis
  proof (cases "xss k = []")
    case False
    then obtain p ys where "xss k = BlockNode p # ys" using list_hd_free [OF c(2) assms(3)] by blast
    with False e assms(1) co show ?thesis by (auto simp: same_views_def)
  next
    case True
    have q: "order_of s q \<le> MAX_ORDER" "BlockNode q \<in> set (xss (order_of s q))"
      using head_okD(1) [OF is_head_ok [OF c(1)], of q] free_list_mem [OF c(2)] assms(4) by (auto simp: free_head_def)
    have "k < order_of s q" using assms(5) q(2) True by (cases "k = order_of s q") auto
    define r where "r = first_nonempty_order s (k + 1) (MAX_ORDER - k)"
    have "k + 1 + (MAX_ORDER - k) = MAX_ORDER + 1" using assms(3) by simp
    note fn = first_nonempty_correct [OF c(2), of "k + 1" "MAX_ORDER - k", folded r_def, unfolded this, OF order_refl]
    have r: "r \<le> MAX_ORDER"
    proof (rule ccontr)
      assume "\<not> r \<le> MAX_ORDER"
      with fn(3) [of "order_of s q"] q \<open>k < order_of s q\<close> show False by simp
    qed
    then have "xss r \<noteq> []" using fn(4) by simp
    then obtain p xs where p: "xss r = BlockNode p # xs" using list_hd_free [OF c(2) r] by blast
    have emp: "\<And>j. k \<le> j \<Longrightarrow> j < r \<Longrightarrow> xss j = []"
      using fn(3) True by (metis Suc_eq_plus1 Suc_leI le_neq_implies_less)
    have "k \<le> r" using fn(1) by simp
    from split_loop_correct [OF assms(1) this r emp p co] obtain s' xss' ys where
      "split_blocks_loop s k r = Some (Inr s')" "phys_core s' {} xss'" "xss' k = BlockNode p # ys"
      "coalesced_but {p} s'" "same_views s s'" by blast
    moreover from this(1) True r have "(if list_empty (nodes s) (FreeList k) then split_higher_order_blocks s k
      else Some (Inr s)) = Some (Inr s')"
      unfolding split_higher_order_blocks_def Let_def r_def [symmetric] by (simp add: e)
    ultimately show ?thesis by blast
  qed
qed

text \<open>With a large enough free block, the allocation comes down to taking one of the right order.\<close>

lemma alloc_takes:
  assumes "phys_inv s" "k \<le> MAX_ORDER" "free_head s q" "k \<le> order_of s q"
  shows "\<exists>p s2 xss2. phys_alloc_block s k flags = Some (take_block k flags p s2) \<and> phys_core s2 {p} xss2 \<and>
    free_head s2 p \<and> order_of s2 p = k \<and> coalesced_but {p} s2 \<and> free_pages s2 = free_pages s \<and>
    in_use s2 = in_use s \<and> spans s2 = spans s"
proof -
  obtain xss where core: "phys_core s {} xss" and co: "coalesced s" and lk: "state_lock s = 0"
    using assms(1) by (auto simp: phys_inv_def)
  define s1 where "s1 = s\<lparr>state_lock := 1\<rparr>"
  note rl = relocked_steps(4) [of s 1, folded s1_def]
  note f = relocked_fields [OF rl] and v = relocked_views [OF rl]
  have core1: "phys_core s1 {} xss" using locked_core(4) [OF core] by (simp add: s1_def)
  have acq: "state_acquire s = Inr s1" using lk by (simp add: state_acquire_def s1_def)
  have enough: "\<not> num_free_4k_pages (stats s1) < push_bit k 1"
    using enough_free [OF core assms(3,4)] by (simp add: f)
  obtain s2 xss2 p ys where s2: "(if list_empty (nodes s1) (FreeList k) then split_higher_order_blocks s1 k
      else Some (Inr s1)) = Some (Inr s2)" "phys_core s2 {} xss2" "xss2 k = BlockNode p # ys"
    "coalesced_but {p} s2" "same_views s1 s2"
    using block_supply [OF core1 _ assms(2), of q] co assms(3,4) by (auto simp: f v)
  have ls: "lists_ok s2 xss2" using s2(2) by (simp add: phys_core_def)
  have p: "free_head s2 p" "order_of s2 p = k" using free_list_mem [OF ls assms(2), of p] s2(3) by auto
  then have pm: "p \<in> managed s2" by (simp add: free_head_def is_head_def)
  note rl2 = relocked_steps(1) [of s2 p]
  note f2 = relocked_fields [OF rl2] and v2 = relocked_views [OF rl2]
  have "phys_alloc_block s k flags = Some (take_block k flags p (lock_block p s2))"
    using acq enough s2(1) first_block_hd [OF ls assms(2) s2(3)] acquire_block(1) [OF s2(2) pm] assms(2) p
    by (subst phys_alloc_block.simps) (simp add: f2 free_head_def)
  moreover have "phys_core (lock_block p s2) {p} xss2" using locked_core(1) [OF s2(2), of p] by simp
  moreover have "free_pages s2 = free_pages s" "in_use s2 = in_use s" "spans s2 = spans s"
    using s2(5) v f by (simp_all add: same_views_def)
  ultimately show ?thesis
    using p s2(4) v2 f2 by (intro exI [of _ p] exI [of _ "lock_block p s2"] exI [of _ xss2]) simp
qed

lemma alloc_success:
  assumes "phys_inv s" "k \<le> MAX_ORDER" "alloc_flags_to_physblock_type flags = Inr t"
    and "free_head s q" "k \<le> order_of s q"
  shows "\<exists>p s'. phys_alloc_block s k flags = Some (Inr (p, s')) \<and> phys_inv s' \<and> p \<in> extent p k \<and>
    extent p k \<subseteq> free_pages s \<and> free_pages s' = free_pages s - extent p k \<and>
    in_use s' = (in_use s)(p \<mapsto> (k, t, 1)) \<and> spans s' = spans s"
proof -
  obtain p s2 xss2 where s2: "phys_alloc_block s k flags = Some (take_block k flags p s2)"
    "phys_core s2 {p} xss2" "free_head s2 p" "order_of s2 p = k" "coalesced_but {p} s2"
    "free_pages s2 = free_pages s" "in_use s2 = in_use s" "spans s2 = spans s"
    using alloc_takes [OF assms(1,2,4,5)] by blast
  have "layout_ok s2" using s2(2) by (simp add: phys_core_def)
  then have "p \<in> extent p k" using head_okD(2) [OF is_head_ok, of s2 p] s2(3,4) by (simp add: free_head_def)
  moreover have "extent p k \<subseteq> free_pages s2" using s2(3,4) by (auto simp: free_pages_def)
  ultimately show ?thesis using take_block_correct [OF s2(2-5) assms(3)] s2(1,6-8) by auto
qed

lemma alloc_unknown_flags:
  assumes "phys_inv s" "k \<le> MAX_ORDER" "\<not> known_flags flags" "free_head s q" "k \<le> order_of s q"
  shows "phys_alloc_block s k flags = Some (Inl (Panic ''Unrecognised alloc flag''))"
proof -
  have "alloc_flags_to_physblock_type flags = Inl (Panic ''Unrecognised alloc flag'')"
    using assms(3) by (auto simp: known_flags_def alloc_flags_to_physblock_type_def Let_def)
  then have "take_block k flags p s2 = Inl (Panic ''Unrecognised alloc flag'')" for p s2
    by (simp add: take_block_def Let_def)
  with alloc_takes [OF assms(1,2,4,5)] show ?thesis by metis
qed

lemma alloc_exhausted:
  assumes "phys_inv s" "k \<le> MAX_ORDER" "\<And>q. free_head s q \<Longrightarrow> order_of s q < k"
  shows "\<exists>msg. phys_alloc_block s k flags = Some (Inl (Panic msg))"
proof -
  obtain xss where core: "phys_core s {} xss" and lk: "state_lock s = 0"
    using assms(1) by (auto simp: phys_inv_def)
  define s1 where "s1 = s\<lparr>state_lock := 1\<rparr>"
  note rl = relocked_steps(4) [of s 1, folded s1_def]
  have core1: "phys_core s1 {} xss" using locked_core(4) [OF core] by (simp add: s1_def)
  then have ls: "lists_ok s1 xss" by (simp add: phys_core_def)
  have acq: "state_acquire s = Inr s1" using lk by (simp add: state_acquire_def s1_def)
  have emp: "xss j = []" if j: "k \<le> j" "j \<le> MAX_ORDER" for j
  proof (rule ccontr)
    assume "xss j \<noteq> []"
    then obtain p xs where "free_head s1 p" "order_of s1 p = j" using list_hd_free [OF ls j(2)] by blast
    with assms(3) [of p] j(1) show False by (simp add: relocked_views [OF rl] relocked_fields [OF rl])
  qed
  have "list_empty (nodes s1) (FreeList k)" using ring_empty_iff [OF family_ring [OF ls assms(2)]] emp assms(2) by simp
  moreover have "first_nonempty_order s1 (k + 1) (MAX_ORDER - k) > MAX_ORDER"
    using first_nonempty_correct(1,4) [OF ls, of "k + 1" "MAX_ORDER - k"] assms(2)
      emp [of "first_nonempty_order s1 (k + 1) (MAX_ORDER - k)"] by (rule_tac ccontr) simp
  ultimately show ?thesis
    using acq assms(2) by (subst phys_alloc_block.simps) (auto simp: split_higher_order_blocks_def Let_def)
qed


lemma alloc_returns:
  assumes "phys_inv s" "phys_alloc_block s k flags = Some (Inr (p, s'))"
  obtains q t where "k \<le> MAX_ORDER" "alloc_flags_to_physblock_type flags = Inr t" "free_head s q" "k \<le> order_of s q"
proof -
  have k: "k \<le> MAX_ORDER"
    using assms(2) by (cases "k \<le> MAX_ORDER") (auto simp: phys_alloc_block.simps [of s k])
  obtain q where q: "free_head s q" "k \<le> order_of s q"
    using alloc_exhausted [OF assms(1) k, of flags] assms(2) by (metis Inl_Inr_False not_less option.inject)
  have "known_flags flags" using alloc_unknown_flags [OF assms(1) k _ q, of flags] assms(2) by fastforce
  with known_flags_type k q that show thesis by blast
qed

section \<open>What a client of the allocator relies on\<close>

text \<open>
  A pool of page frames: the frames available, and the blocks held with their order, type
  and reference count. Clients need no more than these laws.
\<close>

locale page_pool =
  fixes inv :: "'s \<Rightarrow> bool"
    and avail :: "'s \<Rightarrow> pfn_t set"
    and held :: "'s \<Rightarrow> pfn_t \<rightharpoonup> nat \<times> u32 \<times> u32"
    and alloc :: "'s \<Rightarrow> nat \<Rightarrow> u32 \<Rightarrow> (pfn_t \<times> 's) result option"
    and free1 :: "'s \<Rightarrow> pfn_t \<Rightarrow> 's result"
  assumes alloc_law: "inv s \<Longrightarrow> alloc s k flags = Some (Inr (p, s')) \<Longrightarrow>
      inv s' \<and> p \<in> extent p k \<and> extent p k \<subseteq> avail s \<and> avail s' = avail s - extent p k \<and>
      (\<exists>t. held s' = (held s)(p \<mapsto> (k, t, 1)))"
    and free_law: "inv s \<Longrightarrow> held s p = Some (k, t, 1) \<Longrightarrow>
      \<exists>s'. free1 s p = Inr s' \<and> inv s' \<and> avail s' = avail s \<union> extent p k \<and> held s' = (held s)(p := None)"
    and held_law: "inv s \<Longrightarrow> held s p = Some (k, t, r) \<Longrightarrow> p \<in> extent p k \<and> extent p k \<inter> avail s = {}"
begin

lemma not_held_before:
  assumes "inv s" "alloc s k flags = Some (Inr (p, s'))"
  shows "held s p = None"
proof (rule ccontr)
  assume "held s p \<noteq> None"
  then obtain a b c where "held s p = Some (a, b, c)" by auto
  with held_law [OF assms(1)] have "p \<in> extent p a" "extent p a \<inter> avail s = {}" by blast+
  moreover have "p \<in> avail s" using alloc_law [OF assms] by auto
  ultimately show False by auto
qed

lemma alloc_free_restores:
  assumes "inv s" "alloc s k flags = Some (Inr (p, s'))"
  shows "\<exists>s''. free1 s' p = Inr s'' \<and> inv s'' \<and> avail s'' = avail s \<and> held s'' = held s"
proof -
  obtain t where a: "inv s'" "extent p k \<subseteq> avail s" "avail s' = avail s - extent p k" "held s' = (held s)(p \<mapsto> (k, t, 1))"
    using alloc_law [OF assms] by blast
  obtain s'' where "free1 s' p = Inr s''" "inv s''" "avail s'' = avail s' \<union> extent p k" "held s'' = (held s')(p := None)"
    using free_law [OF a(1), of p k t] a(4) by auto
  with a not_held_before [OF assms] show ?thesis by (auto simp: fun_upd_idem)
qed

lemma successive_disjoint:
  assumes "inv s" "alloc s k flags = Some (Inr (p, s'))" "alloc s' j flags' = Some (Inr (q, s''))"
  shows "extent p k \<inter> extent q j = {}"
proof -
  have "extent q j \<subseteq> avail s'" using alloc_law [OF _ assms(3)] alloc_law [OF assms(1,2)] by blast
  moreover have "avail s' \<inter> extent p k = {}" using alloc_law [OF assms(1,2)] by blast
  ultimately show ?thesis by blast
qed

end

lemma in_use_extent:
  assumes "phys_inv s" "in_use s p = Some (k, t, r)"
  shows "p \<in> extent p k \<and> extent p k \<inter> free_pages s = {}"
proof -
  obtain xss where "phys_core s {} xss" using assms(1) by (auto simp: phys_inv_def)
  then have lay: "layout_ok s" by (simp add: phys_core_def)
  note u = in_useD [OF assms(2)]
  have "p \<in> extent p k" using head_okD(2) [OF is_head_ok [OF lay u(1)]] u(3) by simp
  moreover have "x \<notin> free_pages s" if x: "x \<in> extent p k" for x
  proof
    assume "x \<in> free_pages s"
    then obtain q where "free_head s q" "x \<in> extent q (order_of s q)" by (auto simp: free_pages_def)
    with heads_disjoint [OF lay u(1), of q x] x u(2,3) show False by (auto simp: free_head_def)
  qed
  ultimately show ?thesis by blast
qed

interpretation buddy: page_pool phys_inv free_pages in_use phys_alloc_block phys_free_pfn
proof unfold_locales
  show "phys_inv s' \<and> p \<in> extent p k \<and> extent p k \<subseteq> free_pages s \<and> free_pages s' = free_pages s - extent p k \<and>
      (\<exists>t. in_use s' = (in_use s)(p \<mapsto> (k, t, 1)))"
    if i: "phys_inv s" and a: "phys_alloc_block s k flags = Some (Inr (p, s'))" for s k flags p s'
  proof -
    obtain q t where q: "k \<le> MAX_ORDER" "alloc_flags_to_physblock_type flags = Inr t" "free_head s q" "k \<le> order_of s q"
      using alloc_returns [OF i a] by blast
    from alloc_success [OF i q] a show ?thesis by auto
  qed
  show "\<exists>s'. phys_free_pfn s p = Inr s' \<and> phys_inv s' \<and> free_pages s' = free_pages s \<union> extent p k \<and>
      in_use s' = (in_use s)(p := None)"
    if i: "phys_inv s" and h: "in_use s p = Some (k, t, 1)" for s p k t
    by (rule phys_free_cases [OF i in_useD(1) [OF h], of p])
      (use in_useD(3,5) [OF h] in_use_extent [OF i h] in auto)
  show "p \<in> extent p k \<and> extent p k \<inter> free_pages s = {}"
    if "phys_inv s" "in_use s p = Some (k, t, r)" for s p k t r using in_use_extent [OF that] .
qed

section \<open>The states the allocator reaches\<close>

text \<open>
  The life of the allocator: it is initialised, and then blocks are allocated and page frames
  of its spans are freed, in any order, frames that are not in use included.
\<close>

inductive phys_reachable :: "phys_alloc_state \<Rightarrow> phys_alloc_state \<Rightarrow> bool" for s0 where
  initialised: "phys_alloc_init s0 = Inr s \<Longrightarrow> phys_reachable s0 s"
| allocated: "phys_reachable s0 s \<Longrightarrow> phys_alloc_block s k flags = Some (Inr (p, s')) \<Longrightarrow> phys_reachable s0 s'"
| freed: "phys_reachable s0 s \<Longrightarrow> q \<in> managed s \<Longrightarrow> phys_free_pfn s q = Inr s' \<Longrightarrow> phys_reachable s0 s'"

lemma inv_unique_block:
  assumes "phys_inv s" "q \<in> managed s"
  shows "\<exists>!p. is_head s p \<and> q \<in> extent p (order_of s p)"
proof -
  obtain xss where "phys_core s {} xss" using assms(1) by (auto simp: phys_inv_def)
  then have lay: "layout_ok s" by (simp add: phys_core_def)
  obtain p where p: "p \<in> managed s" "head_ok (blocks s) (pfn_to_span_locked s) p" "q \<in> extent p (order_of s p)"
    using layout_cover [OF lay assms(2)] by blast
  then have "is_head s p" using head_okD(3) [OF p(2)] by (simp add: is_head_def)
  then show ?thesis using p(3) heads_disjoint [OF lay] by (intro ex1I [of _ p]) auto
qed

lemma inv_counters:
  assumes "phys_inv s"
  shows "unat (num_free_4k_pages (stats s)) = card (free_pages s) \<and>
    (\<forall>k\<le>MAX_ORDER. order_free (stats s) k = of_nat (card {p. free_head s p \<and> order_of s p = k}))"
proof -
  obtain xss where core: "phys_core s {} xss" using assms(1) by (auto simp: phys_inv_def)
  then have c: "lists_ok s xss" "stats_ok s xss" by (auto simp: phys_core_def)
  have "order_free (stats s) k = of_nat (card {p. free_head s p \<and> order_of s p = k})" if k: "k \<le> MAX_ORDER" for k
  proof -
    have "length (xss k) = card (set (xss k))" using distinct_card [OF family_distinct [OF c(1) k]] by simp
    also have "set (xss k) = BlockNode ` {p. free_head s p \<and> order_of s p = k}"
      using c(1) k by (simp add: lists_ok_def)
    also have "card \<dots> = card {p. free_head s p \<and> order_of s p = k}" by (rule card_image) (simp add: inj_on_def)
    finally show ?thesis using c(2) k by (simp add: stats_ok_def)
  qed
  then show ?thesis using num_free_card(1) [OF core] by simp
qed

lemma free_keeps_inv:
  assumes "phys_inv s" "q \<in> managed s" "phys_free_pfn s q = Inr s'"
  shows "phys_inv s' \<and> spans s' = spans s"
proof -
  obtain p where p: "is_head s p" "q \<in> extent p (order_of s p)" using inv_unique_block [OF assms(1,2)] by blast
  show ?thesis
  proof (cases "unat (q - p) < 256")
    case True
    then show ?thesis by (rule phys_free_cases [OF assms(1) p]) (use assms(3) in simp)
  next
    case False
    then show ?thesis using free_far_tail [OF assms(1) p] assms by simp
  qed
qed

lemma alloc_keeps_inv:
  assumes "phys_inv s" "phys_alloc_block s k flags = Some (Inr (p, s'))"
  shows "phys_inv s' \<and> spans s' = spans s"
proof -
  obtain q t where q: "k \<le> MAX_ORDER" "alloc_flags_to_physblock_type flags = Inr t" "free_head s q" "k \<le> order_of s q"
    using alloc_returns [OF assms] by blast
  from alloc_success [OF assms(1) q] assms(2) show ?thesis by auto
qed

lemma reachable_inv:
  fixes mem_map h es
  defines "s0 \<equiv> phys_alloc_init_state mem_map h es"
  assumes "phys_reachable s0 s"
    and "spans_wf (spans s0)" and "\<And>p. p \<in> managed s0 \<Longrightarrow> fresh_block (mem_map p)"
  shows "phys_inv s \<and> spans s = spans s0"
  using assms(2)
proof induction
  case (initialised s)
  then show ?case using init_correct [OF assms(3,4) [unfolded s0_def]] by (auto simp: s0_def)
next
  case (allocated s k flags p s')
  then show ?case using alloc_keeps_inv [of s] by metis
next
  case (freed s q s')
  then show ?case using free_keeps_inv [of s] by metis
qed

section \<open>Properties\<close>

text \<open>
  C7: Allocation. When some free block has the requested order or more, the allocator
  returns a block of exactly that order: it is aligned, was wholly free, and is afterwards
  in use with the type of the flags and one reference; the free pages lose it and nothing
  else, every other block in use is untouched, and the invariant holds with all locks free.
  When there is no such block it panics. In particular neither retry loop runs forever.
\<close>

theorem phys_alloc_correct:
  assumes "phys_inv s" "k \<le> MAX_ORDER" "alloc_flags_to_physblock_type flags = Inr t"
  shows "if \<exists>q. free_head s q \<and> k \<le> order_of s q
    then \<exists>p s'. phys_alloc_block s k flags = Some (Inr (p, s')) \<and> phys_inv s' \<and> p \<in> extent p k \<and>
      extent p k \<subseteq> free_pages s \<and> free_pages s' = free_pages s - extent p k \<and>
      in_use s' = (in_use s)(p \<mapsto> (k, t, 1)) \<and> spans s' = spans s
    else \<exists>msg. phys_alloc_block s k flags = Some (Inl (Panic msg))"
  using alloc_success [OF assms] alloc_exhausted [OF assms(1,2)] by (auto simp: not_le)


lemma small_flags: "alloc_flags_to_physblock_type ALLOC_KERNEL = Inr PHYSBLOCK_KERNEL"
  by code_simp

theorem phys_alloc_correct_witness:
  "\<exists>s p s'. phys_inv s \<and> free_pages s = {16, 18, 19} \<and>
    phys_alloc_block s 0 ALLOC_KERNEL = Some (Inr (p, s')) \<and> phys_inv s' \<and> p \<in> {16, 18, 19} \<and>
    free_pages s' = {16, 18, 19} - {p}"
proof -
  obtain s where s: "phys_inv s" "free_pages s = {16, 18, 19}" using small_initialised by blast
  then have "16 \<in> free_pages s" by simp
  then have "\<exists>q. free_head s q \<and> 0 \<le> order_of s q" by (auto simp: free_pages_def)
  with phys_alloc_correct [OF s(1) _ small_flags, of 0] s show ?thesis by auto
qed

text \<open>
  C8: Giving back what was allocated restores the allocator, also when the allocation took
  the last free block: freeing the block just returned makes exactly the free pages and the
  blocks in use what they were before. Whatever is allocated next, while the block is held,
  does not overlap it.
\<close>

theorem alloc_then_free_restores:
  assumes "phys_inv s" "phys_alloc_block s k flags = Some (Inr (p, s'))"
  shows "(\<exists>s1. phys_free_pfn s' p = Inr s1 \<and> phys_inv s1 \<and> free_pages s1 = free_pages s \<and> in_use s1 = in_use s) \<and>
    (\<forall>j flags' q s''. phys_alloc_block s' j flags' = Some (Inr (q, s'')) \<longrightarrow> extent p k \<inter> extent q j = {})"
  using buddy.alloc_free_restores [OF assms] buddy.successive_disjoint [OF assms] by blast

theorem alloc_then_free_restores_witness:
  "\<exists>s p s' s1. phys_alloc_block s 0 ALLOC_KERNEL = Some (Inr (p, s')) \<and> phys_free_pfn s' p = Inr s1 \<and>
    free_pages s1 = {16, 18, 19}"
proof -
  obtain s where s: "phys_inv s" "free_pages s = {16, 18, 19}" using small_initialised by blast
  obtain q where q: "free_head s q" using s(2) by (auto simp: free_pages_def)
  obtain p s' where a: "phys_alloc_block s 0 ALLOC_KERNEL = Some (Inr (p, s'))"
    using alloc_success [OF s(1) _ small_flags q, of 0] by auto
  from alloc_then_free_restores [OF s(1) a] a s(2) show ?thesis by metis
qed

text \<open>
  Errors. An order above the maximum panics before any state is touched, an
  unknown kind of allocation panics, and the kinds that do not panic are exactly the four
  the header names.
\<close>

theorem phys_alloc_errors:
  assumes "MAX_ORDER < big" and "phys_inv s" "k \<le> MAX_ORDER" "free_head s q" "k \<le> order_of s q" "\<not> known_flags bad"
  shows "phys_alloc_block any big flags = Some (Inl (Panic ''Invalid order'')) \<and>
    phys_alloc_block s k bad = Some (Inl (Panic ''Unrecognised alloc flag'')) \<and>
    ((\<exists>t. alloc_flags_to_physblock_type flags = Inr t) \<longleftrightarrow> known_flags flags)"
proof -
  have "\<not> known_flags flags \<Longrightarrow> \<nexists>t. alloc_flags_to_physblock_type flags = Inr t"
    by (auto simp: known_flags_def alloc_flags_to_physblock_type_def Let_def)
  then show ?thesis
    using assms(1) alloc_unknown_flags [OF assms(2,3,6,4,5)] known_flags_type [of flags]
    by (auto simp: phys_alloc_block.simps [of any])
qed

theorem phys_alloc_errors_witness:
  "\<exists>s. free_pages s = {16, 18, 19} \<and> phys_alloc_block s 13 ALLOC_KERNEL = Some (Inl (Panic ''Invalid order'')) \<and>
    phys_alloc_block s 0 0 = Some (Inl (Panic ''Unrecognised alloc flag''))"
proof -
  obtain s where s: "phys_inv s" "free_pages s = {16, 18, 19}" using small_initialised by blast
  then have "16 \<in> free_pages s" by simp
  then obtain q where q: "free_head s q" by (auto simp: free_pages_def)
  have "\<not> known_flags 0" by code_simp
  from phys_alloc_errors [of 13 s 0 q 0, OF _ s(1) _ q _ this] s(2) show ?thesis
    by (intro exI [of _ s]) (simp add: MAX_ORDER_def)
qed

text \<open>
  C28: The statistics are exact in every state the allocator reaches: after
  \<^verbatim>\<open>phys_alloc_init()\<close> and any sequence of successful allocations and of frees of frames of
  the spans, \<^verbatim>\<open>num_free_4k_pages\<close> is the number of free page frames, the counter of each
  order is the number of free blocks of that order, the frames managed are still those of
  the spans, and each of them belongs to exactly one block.
\<close>

theorem phys_stats_exact:
  fixes mem_map h es
  defines "s0 \<equiv> phys_alloc_init_state mem_map h es"
  assumes "spans_wf (spans s0)" and "\<And>p. p \<in> managed s0 \<Longrightarrow> fresh_block (mem_map p)"
    and "phys_reachable s0 s"
  shows "unat (num_free_4k_pages (stats s)) = card (free_pages s) \<and>
    (\<forall>k\<le>MAX_ORDER. order_free (stats s) k = of_nat (card {p. free_head s p \<and> order_of s p = k})) \<and>
    managed s = managed s0 \<and>
    (\<forall>q\<in>managed s0. \<exists>!p. is_head s p \<and> q \<in> extent p (order_of s p))"
proof -
  have i: "phys_inv s" and sp: "spans s = spans s0"
    using reachable_inv [OF assms(4) [unfolded s0_def] assms(2,3) [unfolded s0_def]] by (simp_all add: s0_def)
  have m: "managed s = managed s0" by (simp only: span_frame [OF sp])
  have "\<forall>q\<in>managed s0. \<exists>!p. is_head s p \<and> q \<in> extent p (order_of s p)"
    using inv_unique_block [OF i] unfolding m by (intro ballI)
  with inv_counters [OF i] m show ?thesis by blast
qed

theorem phys_stats_exact_witness:
  "\<exists>s0 s1 p s. phys_alloc_init s0 = Inr s1 \<and> phys_alloc_block s1 0 ALLOC_KERNEL = Some (Inr (p, s)) \<and>
     phys_reachable s0 s \<and> unat (num_free_4k_pages (stats s)) = 2"
proof -
  have "{p \<in> managed small_state. type_kind (small_map p) = PHYSBLOCK_UNMANAGED} = {16, 18, 19}"
    unfolding small_kinds small_managed by auto
  with init_correct [OF small_wf fresh_small]
  obtain s1 where s1: "phys_alloc_init small_state = Inr s1" "phys_inv s1" "free_pages s1 = {16, 18, 19}"
    unfolding small_state_def [symmetric] by metis
  obtain q where q: "free_head s1 q" using s1(3) by (auto simp: free_pages_def)
  obtain p s where a: "phys_alloc_block s1 0 ALLOC_KERNEL = Some (Inr (p, s))"
      "extent p 0 \<subseteq> free_pages s1" "free_pages s = free_pages s1 - extent p 0"
    using alloc_success [OF s1(2) _ small_flags q, of 0] by auto
  have e: "extent p 0 = {p}" by simp
  have "p \<in> {16, 18, 19}" using a(2) s1(3) e by auto
  then have "card (free_pages s) = 2" unfolding a(3) s1(3) e by auto
  moreover have r: "phys_reachable small_state s" using s1(1) a(1) by (blast intro: phys_reachable.intros)
  moreover have "unat (num_free_4k_pages (stats s)) = card (free_pages s)"
    using phys_stats_exact [OF small_wf fresh_small r [unfolded small_state_def]] by blast
  ultimately show ?thesis using s1(1) a(1) by metis
qed

text \<open>
  Descriptors and page frame numbers. The descriptor address of a frame number below
  \<open>2 ^ 40\<close> leads back to that number and to its physical address, and descriptor addresses
  are ordered as the frame numbers are, so comparing descriptor pointers compares frames.
\<close>

theorem physblock_address_roundtrip:
  assumes "unat p < 2 ^ 40" "unat q < 2 ^ 40"
  shows "physblock_to_pfn (pfn_to_physblock_raw p) = p \<and>
    unat (physblock_to_phys (pfn_to_physblock_raw p)) = unat p * 4096 \<and>
    (pfn_to_physblock_raw p < pfn_to_physblock_raw q \<longleftrightarrow> p < q)"
proof -
  have m: "unat (x * sizeof_physblock) = unat x * 32" if "unat x < 2 ^ 40" for x :: u64
    using that by (simp add: sizeof_physblock_def unat_word_ariths)
  have a: "unat (pfn_to_physblock_raw x) = unat KERNEL_MEM_MAP_ADDRESS + unat x * 32" if "unat x < 2 ^ 40" for x
    unfolding pfn_to_physblock_raw_def using m [OF that] that
    by (subst unat_plus_no_wrap) (simp_all add: KERNEL_MEM_MAP_ADDRESS_def)
  have r: "physblock_to_pfn (pfn_to_physblock_raw p) = p"
    using m [OF assms(1)]
    by (simp add: word_unat_eq_iff physblock_to_pfn_def pfn_to_physblock_raw_def Let_def unat_div)
      (simp add: sizeof_physblock_def)
  have "unat (pfn_to_phys p) = unat p * 4096"
    using assms(1) unat_shift_add [of 12 0 p] by (simp add: pfn_to_phys_def)
  then show ?thesis
    using r a [OF assms(1)] a [OF assms(2)] by (simp add: physblock_to_phys_def word_less_nat_alt)
qed

theorem physblock_address_roundtrip_witness:
  "physblock_to_pfn (pfn_to_physblock_raw 0x12345) = 0x12345 \<and> pfn_to_physblock_raw 5 < pfn_to_physblock_raw 7"
  using physblock_address_roundtrip [of "0x12345" 7] physblock_address_roundtrip [of 5 7] by simp

end
