(* ===== verification/Video.thy ===== *)
theory Video
  imports Early_Alloc
begin

text \<open>
  The early video console, \<^verbatim>\<open>early/video.c\<close>: text is put into a buffer of 26 rows of 80
  cells of two bytes, the last row hidden, and copied to video memory at every newline. The
  two static variables are the record \<open>video_state\<close>; buffer and video memory are bytes of
  memory at their addresses. \<^verbatim>\<open>int\<close> variables are integers: the column is reset by every
  newline, so only a line of \<open>2 ^ 31\<close> characters would overflow it. The string of
  \<^verbatim>\<open>early_video_puts\<close> is the list of its bytes, \<open>None\<close> for a null pointer.

  The lemmas show that the row stays within the buffer and that nothing outside the buffer
  and the video memory is ever written.
\<close>

definition ROWS :: int where "ROWS = 25"
definition COLS :: int where "COLS = 80"
definition MEMORY_SIZE :: int where "MEMORY_SIZE = 2 * ROWS * COLS"
definition BUFFER_SIZE :: int where "BUFFER_SIZE = MEMORY_SIZE + 2 * COLS"

definition X86_VIDEO_MEMORY_ADDRESS_PHYS :: u64 where "X86_VIDEO_MEMORY_ADDRESS_PHYS = 0xb8000"
definition EARLY_VIDEO_MEMORY_ADDRESS :: u64 where
  "EARLY_VIDEO_MEMORY_ADDRESS = KERNEL_DIRECT_MAP_BASE + X86_VIDEO_MEMORY_ADDRESS_PHYS"
definition EARLY_VIDEO_BUFFER_ADDRESS :: u64 where
  "EARLY_VIDEO_BUFFER_ADDRESS = KERNEL_DIRECT_MAP_BASE + X86_EARLY_VIDEO_BUFFER_ADDRESS_PHYS"

lemmas video_size_defs = ROWS_def COLS_def MEMORY_SIZE_def BUFFER_SIZE_def

record video_state =
  curr_row :: int
  curr_col :: int

type_synonym video = "memory \<times> video_state"

definition get_buf :: "video_state \<Rightarrow> u64" where
  "get_buf v = EARLY_VIDEO_BUFFER_ADDRESS + of_int (2 * (curr_row v * COLS + curr_col v mod COLS))"

definition video_putc :: "u8 \<Rightarrow> video \<Rightarrow> video" where
  "video_putc chr = (\<lambda>(m, v).
     let put = (\<lambda>c. m(get_buf v := c, get_buf v + 1 := 15));
         m = (if curr_col v = COLS - 2 then put 0x2e
              else if curr_col v > COLS - 2 then m
              else put chr)
     in (m, v\<lparr>curr_col := curr_col v + 1\<rparr>))"

definition scroll_down :: "memory \<Rightarrow> memory" where
  "scroll_down m =
     (let target = EARLY_VIDEO_BUFFER_ADDRESS;
          src = target + of_int (2 * COLS);
          m = memcpy m target src (of_int MEMORY_SIZE)
      in memset m (target + of_int MEMORY_SIZE) 0 (of_int (2 * COLS)))"

definition video_flush :: "memory \<Rightarrow> memory" where
  "video_flush m =
     fold (\<lambda>i m. m(EARLY_VIDEO_MEMORY_ADDRESS + of_nat i := m (EARLY_VIDEO_BUFFER_ADDRESS + of_nat i)))
       [0..<nat MEMORY_SIZE] m"

definition newline :: "video \<Rightarrow> video" where
  "newline = (\<lambda>(m, v).
     let (m, v) = (if curr_row v = ROWS then (scroll_down m, v) else (m, v\<lparr>curr_row := curr_row v + 1\<rparr>))
     in (video_flush m, v\<lparr>curr_col := 0\<rparr>))"

definition puttab :: "video \<Rightarrow> video" where
  "puttab w = fold (\<lambda>_. video_putc 0x20) [0..<8 :: nat] w"

definition early_video_init :: "memory \<Rightarrow> memory" where
  "early_video_init m = memset m EARLY_VIDEO_BUFFER_ADDRESS 0 (of_int BUFFER_SIZE)"

definition video_put :: "u8 \<Rightarrow> video \<Rightarrow> video" where
  "video_put chr w = (if chr = 0x0a then newline w else if chr = 0x09 then puttab w else video_putc chr w)"

definition early_video_puts :: "u8 list option \<Rightarrow> video \<Rightarrow> video" where
  "early_video_puts str w = (case str of None \<Rightarrow> w | Some chars \<Rightarrow> fold video_put chars w)"

definition early_video_size :: u64 where
  "early_video_size = of_int MEMORY_SIZE"

section \<open>What is written\<close>

definition video_bytes :: "u64 set" where
  "video_bytes = {a. unat (a - EARLY_VIDEO_BUFFER_ADDRESS) < 4160} \<union> {a. unat (a - EARLY_VIDEO_MEMORY_ADDRESS) < 4000}"

definition video_ok :: "video_state \<Rightarrow> bool" where
  "video_ok v \<longleftrightarrow> 0 \<le> curr_row v \<and> curr_row v \<le> ROWS \<and> 0 \<le> curr_col v"

definition touches :: "u64 set \<Rightarrow> memory \<Rightarrow> memory \<Rightarrow> bool" where
  "touches A m m' \<longleftrightarrow> (\<forall>a. a \<notin> A \<longrightarrow> m' a = m a)"

lemma touches_refl [simp]: "touches A m m"
  by (simp add: touches_def)

lemma touches_trans: "touches A m m' \<Longrightarrow> touches A m' m'' \<Longrightarrow> touches A m m''"
  by (simp add: touches_def)

lemma get_buf_offset:
  assumes "video_ok v"
  shows "unat (get_buf v - EARLY_VIDEO_BUFFER_ADDRESS) < 4159" "unat (get_buf v + 1 - EARLY_VIDEO_BUFFER_ADDRESS) < 4160"
proof -
  define k where "k = curr_col v mod COLS"
  let ?i = "2 * (curr_row v * COLS + k)"
  have "0 \<le> k" "k < 80" "0 \<le> curr_row v" "curr_row v \<le> 25"
    using assms by (simp_all add: k_def video_ok_def video_size_defs)
  then have i: "0 \<le> ?i" "?i < 4159" by (simp_all add: COLS_def)
  then have u: "unat (of_int ?i :: u64) = nat ?i" by (intro unat_of_int_small) (simp_all add: less_trans [of _ 4159])
  have e: "get_buf v - EARLY_VIDEO_BUFFER_ADDRESS = of_int ?i" "get_buf v + 1 - EARLY_VIDEO_BUFFER_ADDRESS = of_int ?i + 1"
    by (simp_all add: get_buf_def k_def)
  show "unat (get_buf v - EARLY_VIDEO_BUFFER_ADDRESS) < 4159" unfolding e(1) u using i by linarith
  show "unat (get_buf v + 1 - EARLY_VIDEO_BUFFER_ADDRESS) < 4160"
    unfolding e(2) using u i by (subst unat_plus_no_wrap) simp_all
qed

lemma putc_touches:
  assumes "video_ok v" "video_putc c (m, v) = (m', v')"
  shows "touches video_bytes m m'" "video_ok v'" "curr_row v' = curr_row v" "curr_col v' = curr_col v + 1"
  using assms get_buf_offset [OF assms(1)]
  by (auto simp: video_putc_def Let_def touches_def video_bytes_def video_ok_def split: if_splits)

text \<open>The buffer and the video memory do not overlap, so flushing copies the visible rows.\<close>

lemma flush_copies:
  "video_flush m a = (if unat (a - EARLY_VIDEO_MEMORY_ADDRESS) < 4000
     then m (EARLY_VIDEO_BUFFER_ADDRESS + (a - EARLY_VIDEO_MEMORY_ADDRESS)) else m a)"
proof -
  have d: "EARLY_VIDEO_MEMORY_ADDRESS - EARLY_VIDEO_BUFFER_ADDRESS = 0xb1000"
    by (simp add: EARLY_VIDEO_MEMORY_ADDRESS_def EARLY_VIDEO_BUFFER_ADDRESS_def
      X86_VIDEO_MEMORY_ADDRESS_PHYS_def X86_EARLY_VIDEO_BUFFER_ADDRESS_PHYS_def)
  have "video_flush m = memcpy m EARLY_VIDEO_MEMORY_ADDRESS EARLY_VIDEO_BUFFER_ADDRESS 4000"
    by (simp add: video_flush_def memcpy_def video_size_defs)
  then show ?thesis
    using memcpy_forward [of EARLY_VIDEO_MEMORY_ADDRESS EARLY_VIDEO_BUFFER_ADDRESS 4000 m a] by (simp add: d)
qed

lemma scroll_moves:
  "scroll_down m a =
    (let i = unat (a - EARLY_VIDEO_BUFFER_ADDRESS) in
     if i < 4000 then m (a + 160) else if i < 4160 then 0 else m a)"
proof -
  let ?b = EARLY_VIDEO_BUFFER_ADDRESS
  have d: "unat (?b - (?b + 160)) = 2 ^ 64 - 160" by simp
  have hidden: "unat (a - (?b + 4000)) < 160 \<longleftrightarrow> 4000 \<le> unat (a - ?b) \<and> unat (a - ?b) < 4160"
  proof -
    have "unat (d - 4000) < 160 \<longleftrightarrow> 4000 \<le> unat d \<and> unat d < 4160" for d :: u64
      using unat_lt_u64 [of d] by (auto simp: unat_diff_wrap)
    from this [of "a - ?b"] show ?thesis by (simp add: diff_diff_eq)
  qed
  have "scroll_down m a = (if unat (a - (?b + 4000)) < 160 then 0 else memcpy m ?b (?b + 160) 4000 a)"
    by (simp add: scroll_down_def Let_def video_size_defs memset_byte)
  also have "memcpy m ?b (?b + 160) 4000 a = (if unat (a - ?b) < 4000 then m (?b + 160 + (a - ?b)) else m a)"
    by (subst memcpy_forward) (use d in simp_all)
  finally show ?thesis using hidden by (auto simp: Let_def add.commute)
qed

lemma newline_touches:
  assumes "video_ok v" "newline (m, v) = (m', v')"
  shows "touches video_bytes m m'" "video_ok v'" "curr_col v' = 0"
    "curr_row v' = (if curr_row v = ROWS then ROWS else curr_row v + 1)"
  using assms
  by (auto simp: newline_def Let_def touches_def video_bytes_def flush_copies scroll_moves video_ok_def ROWS_def
      split: if_splits)

lemma put_touches:
  assumes "video_ok v" "video_put c (m, v) = (m', v')"
  shows "touches video_bytes m m' \<and> video_ok v'"
proof -
  have tab: "touches video_bytes m (fst (fold (\<lambda>_. video_putc 0x20) xs (m, v))) \<and>
      video_ok (snd (fold (\<lambda>_. video_putc 0x20) xs (m, v)))" for xs :: "nat list"
  proof (induction xs rule: rev_induct)
    case (snoc x xs)
    then show ?case
      using putc_touches(1,2) [of "snd (fold (\<lambda>_. video_putc 0x20) xs (m, v))" "0x20"
          "fst (fold (\<lambda>_. video_putc 0x20) xs (m, v))"]
      by (auto simp: prod_eq_iff intro: touches_trans)
  qed (simp add: assms(1))
  show ?thesis
    using assms newline_touches [OF assms(1)] putc_touches [OF assms(1)] tab [of "[0..<8]"]
    by (auto simp: video_put_def puttab_def split: if_splits)
qed

lemma puts_touches:
  "video_ok v \<Longrightarrow> early_video_puts str (m, v) = (m', v') \<Longrightarrow> touches video_bytes m m' \<and> video_ok v'"
proof -
  have "video_ok v \<Longrightarrow> fold video_put cs (m, v) = (m', v') \<Longrightarrow> touches video_bytes m m' \<and> video_ok v'" for cs m v
  proof (induction cs arbitrary: m v)
    case (Cons c cs)
    obtain m1 v1 where p: "video_put c (m, v) = (m1, v1)" by fastforce
    then show ?case
      using put_touches [OF Cons.prems(1) p] Cons.IH [of v1 m1] Cons.prems(2) by (auto intro: touches_trans)
  qed simp
  then show "video_ok v \<Longrightarrow> early_video_puts str (m, v) = (m', v') \<Longrightarrow> touches video_bytes m m' \<and> video_ok v'"
    by (auto simp: early_video_puts_def split: option.splits)
qed

end
