(* ===== verification/Early_Boot.thy ===== *)
theory Early_Boot
  imports Early_Map Elf Global Phys_Alloc Video
begin

text \<open>
  The rest of \<^verbatim>\<open>early/mem.c\<close>: from the page tables the boot loader left to the kernel's own,
  from the early page allocator to the descriptors of the physical allocator, and
  \<^verbatim>\<open>early_mem_init()\<close>, which runs all of it.

  \<open>boot_state\<close> puts the states of the components together: the early allocators with the
  machine's memory, the physical allocator, the global state, the variable \<^verbatim>\<open>kernel_root_pgd\<close>
  and the register CR3. Memory is addressed as the kernel does it: the direct mapping and the
  mapping of the kernel image are different addresses here although they show the same
  frames, which the code never uses: the frames of the image are reserved before any page is
  handed out, so nothing is written to them through the direct mapping. The descriptors of the
  physical allocator are the array the physical allocator's model has, so
  zeroing a page of descriptors resets those in it.

  This theory holds the definitions; what they do is shown in the theories on the hand-over of
  memory, which import it.
\<close>

record boot_state =
  early_part :: early_state
  phys_part :: phys_alloc_state
  global_part :: kernel_global
  kernel_root_pgd :: physaddr_t
  cr3 :: physaddr_t

definition APIC_IO_BASE_ADDDRESS :: u64 where "APIC_IO_BASE_ADDDRESS = 0xffffc10040001000"
definition X86_IO_APIC_ADDRESS_PHYS :: u64 where "X86_IO_APIC_ADDRESS_PHYS = 0xfec00000"
definition EARLY_PGD_ADDRESS :: u64 where "EARLY_PGD_ADDRESS = KERNEL_DIRECT_MAP_BASE + X86_EARLY_PGD"
definition EARLY_PUD_DIRECT0_ADDRESS :: u64 where
  "EARLY_PUD_DIRECT0_ADDRESS = KERNEL_DIRECT_MAP_BASE + X86_EARLY_PUD_DIRECT0"

text \<open>The size of a \<^verbatim>\<open>uint64_t\<close> is 8; a TLB flush changes no state of the model.\<close>

definition drop_direct0 :: "memory \<Rightarrow> memory" where
  "drop_direct0 m = memset (memset m EARLY_PUD_DIRECT0_ADDRESS 0 PAGE_SIZE) EARLY_PGD_ADDRESS 0 8"

section \<open>The kernel's page tables\<close>

text \<open>
  The statement \<^verbatim>\<open>_map_page_range(..., &early_allocators);\<close>, whose result is not used; the
  count of pages is converted to \<^verbatim>\<open>int64_t\<close>.
\<close>

definition early_map :: "physaddr_t \<Rightarrow> virtaddr_t \<Rightarrow> physaddr_t \<Rightarrow> u64 \<Rightarrow> map_flags_t \<Rightarrow> early_state \<Rightarrow> early_state result" where
  "early_map pgd va pa n flags s =
     rbind (early_map_page_range pgd va pa (sint n) flags s) (\<lambda>(_, s). Inr s)"

definition map_ram_entry :: "physaddr_t \<Rightarrow> e820_entry \<Rightarrow> early_state \<Rightarrow> early_state result" where
  "map_ram_entry pgd e s =
     (if e820_type e \<noteq> E820_TYPE_RAM then Inr s
      else let pa = e820_base e; va = phys_to_virt pa; num_pages = bytes_to_pages (e820_size e)
           in early_map pgd va pa num_pages MAP_KERNEL s)"

definition early_map_direct :: "early_boot_info \<Rightarrow> physaddr_t \<Rightarrow> early_state \<Rightarrow> early_state result" where
  "early_map_direct info pgd s =
     rfold (\<lambda>i. map_ram_entry pgd (e820_entries info i)) [0..<entry_count info] s"

text \<open>One turn of the loop over the sections of the image.\<close>

definition map_elf_section :: "u64 \<Rightarrow> physaddr_t \<Rightarrow> physaddr_t \<Rightarrow> nat \<Rightarrow> early_state \<Rightarrow> early_state result" where
  "map_elf_section sect_headers elf_pa pgd i s =
     (let sect_header = elf_section_header_at (mem s) (sect_headers + 64 * of_nat i);
          va = sh_addr sect_header
      in if sh_addr sect_header = 0 then Inr s
         else rbind
           (if sh_type sect_header = ELF_SHT_NOBITS then
              let num_pages = bytes_to_pages (sh_size sect_header)
              in rbind (early_pages_alloc (c_int num_pages) s) (\<lambda>(pa, s).
                   Inr (pa, s\<lparr>mem := memcpy (mem s) (phys_to_virt_ptr pa) (sh_addr sect_header)
                                 (PAGE_SIZE * num_pages)\<rparr>))
            else Inr (elf_pa + sh_offset sect_header, s))
           (\<lambda>(pa, s).
              if \<not> IS_ALIGNED va PAGE_SIZE \<or> \<not> IS_ALIGNED pa PAGE_SIZE
              then Inl (Panic ''Misaligned kernel ELF section (%d) by %lu, VA=0x%lx, PA=0x%lx'')
              else
                let flags = MAP_KERNEL;
                    flags = (if \<not> IS_MASK_SET (sh_flags sect_header) ELF_SHF_WRITE
                             then flags OR MAP_READONLY else flags);
                    flags = (if IS_MASK_SET (sh_flags sect_header) ELF_SHF_EXECINSTR
                             then flags OR MAP_CODE else flags)
                in early_map pgd va pa (bytes_to_pages (sh_size sect_header)) flags s))"

definition early_map_kernel_elf :: "u64 \<Rightarrow> physaddr_t \<Rightarrow> physaddr_t \<Rightarrow> early_state \<Rightarrow> early_state result" where
  "early_map_kernel_elf header elf_pa pgd s =
     (if \<not> IS_ALIGNED header PAGE_SIZE then Inl (Panic ''Misaligned kernel ELF header by %lu'')
      else
        let sect_headers = header + shoff (elf_header_at (mem s) header) in
        rbind (rfold (map_elf_section sect_headers elf_pa pgd)
                 [0..<unat (shnum (elf_header_at (mem s) header))] s) (\<lambda>s.
        let flags = MAP_KERNEL OR MAP_READONLY OR MAP_SKIP_IF_MAPPED
        in rbind (early_map pgd header elf_pa 1 flags s) (\<lambda>s.
           let off = shoff (elf_header_at (mem s) header)
           in early_map pgd (header + off) (elf_pa + off) 2 flags s)))"

definition early_map_video_range :: "physaddr_t \<Rightarrow> early_state \<Rightarrow> early_state result" where
  "early_map_video_range pgd s =
     (let num_pages = bytes_to_pages early_video_size
      in early_map pgd EARLY_VIDEO_MEMORY_ADDRESS X86_VIDEO_MEMORY_ADDRESS_PHYS num_pages MAP_DEVICE s)"

definition early_map_apic_base :: "physaddr_t \<Rightarrow> early_state \<Rightarrow> early_state result" where
  "early_map_apic_base pgd s =
     rbind (early_map pgd APIC_BASE_ADDRESS (apic_base (boot_info s)) 1 MAP_DEVICE s) (\<lambda>s.
       early_map pgd APIC_IO_BASE_ADDDRESS X86_IO_APIC_ADDRESS_PHYS 1 MAP_DEVICE s)"

definition early_remap_page_tables :: "early_boot_info \<Rightarrow> boot_state \<Rightarrow> boot_state result" where
  "early_remap_page_tables info b =
     (let elf_pa = KERNEL_ELF_ADDRESS_PHYS; header = KERNEL_ELF_ADDRESS
      in rbind (early_alloc_pgd (early_part b)) (\<lambda>(pgd, s).
         rbind (early_map_direct info pgd s) (\<lambda>s.
         rbind (early_map_kernel_elf header elf_pa pgd s) (\<lambda>s.
         rbind (early_map_video_range pgd s) (\<lambda>s.
         rbind (early_map_apic_base pgd s) (\<lambda>s.
           Inr (b\<lparr>early_part := s, cr3 := pgd, kernel_root_pgd := pgd\<rparr>)))))))"

section \<open>The descriptors of the physical allocator\<close>

definition zero_physblock :: physblock where
  "zero_physblock = \<lparr>head_offset = 0, blk_order = 0, blk_type = 0, refcount = 0, blk_lock = 0\<rparr>"

text \<open>A descriptor as the 32 bytes at \<open>a\<close> hold it; the list node lies at offset 8.\<close>

definition physblock_at :: "memory \<Rightarrow> u64 \<Rightarrow> physblock" where
  "physblock_at m a = \<lparr>head_offset = load16 m a, blk_order = unat (m (a + 2)), blk_type = load32 m (a + 4),
     refcount = load32 m (a + 24), blk_lock = load32 m (a + 28)\<rparr>"

text \<open>
  Once the page at \<open>pa\<close> is mapped at \<open>va\<close>, the descriptors whose address lies in the page at \<open>va\<close>
  are what the bytes of that page hold; the bytes are those the direct mapping shows.
\<close>

definition read_descriptors :: "memory \<Rightarrow> physaddr_t \<Rightarrow> virtaddr_t \<Rightarrow> phys_alloc_state \<Rightarrow> phys_alloc_state" where
  "read_descriptors m pa va ps =
     ps\<lparr>blocks := (\<lambda>p. let a = pfn_to_physblock_raw p
        in if ALIGN a PAGE_SIZE = va then physblock_at m (phys_to_virt_ptr pa + (a - va)) else blocks ps p)\<rparr>"

definition map_physblock_page :: "virtaddr_t \<Rightarrow> boot_state \<Rightarrow> boot_state result" where
  "map_physblock_page va b =
     rbind (early_physblock_page_alloc (early_part b)) (\<lambda>(pa, s).
     rbind (early_map (kernel_root_pgd b) va pa 1 MAP_KERNEL s) (\<lambda>s.
       Inr (b\<lparr>early_part := s, phys_part := read_descriptors (mem s) pa va (phys_part b)\<rparr>)))"

text \<open>
  The loop runs from one page aligned address up to another, a page at a time, so the number of
  its turns is their distance in pages.
\<close>

definition alloc_map_physblock :: "physaddr_t \<Rightarrow> u64 \<Rightarrow> boot_state \<Rightarrow> boot_state result" where
  "alloc_map_physblock start n b =
     (let start_offset = phys_to_pfn start * sizeof_physblock;
          start_addr = KERNEL_MEM_MAP_ADDRESS + start_offset;
          end_addr = start_addr + n * sizeof_physblock;
          start_va = ALIGN start_addr PAGE_SIZE;
          end_va = ALIGN_UP end_addr PAGE_SIZE;
          turns = (if start_va < end_va then unat (drop_bit PAGE_SHIFT (end_va - start_va)) else 0)
      in rbind (rfold (\<lambda>_ (va, b). rbind (map_physblock_page va b) (\<lambda>b. Inr (virt_next_page va, b)))
                  [0..<turns] (start_va, b))
           (\<lambda>(_, b). Inr b))"

definition span_to_phys :: "early_page_alloc_span \<Rightarrow> u64 \<Rightarrow> physaddr_t" where
  "span_to_phys span i = es_start span + PAGE_SIZE * i"

definition init_physblock :: "early_state \<Rightarrow> early_page_alloc_span \<Rightarrow> nat \<Rightarrow> phys_alloc_state \<Rightarrow> phys_alloc_state result" where
  "init_physblock s span i ps =
     (let pa = span_to_phys span (of_nat i); marked = (\<lambda>bm. bitmap_is_set (bitmaps s bm) (of_nat i))
      in rbind (phys_to_physblock_lock ps pa) (\<lambda>(block, ps).
           let ps = upd_nodes (\<lambda>h. list_node_init h (BlockNode block)) ps;
               ps = (if \<not> marked (alloc_bitmap span) then ps
                     else if marked (ephemeral_bitmap span) then ps
                     else upd_block block (\<lambda>b. b\<lparr>
                       blk_type := (if marked (pagetable_bitmap span) then PHYSBLOCK_PAGETABLE
                                    else if marked (physblock_bitmap span) then PHYSBLOCK_PHYSBLOCK
                                    else PHYSBLOCK_KERNEL OR PHYSBLOCK_MOVABLE),
                       refcount := 1\<rparr>) ps)
           in Inr (block_release block ps)))"

definition init_physblock_span :: "early_state \<Rightarrow> early_page_alloc_span \<Rightarrow> phys_alloc_state \<Rightarrow> phys_alloc_state result" where
  "init_physblock_span s span ps =
     rfold (init_physblock s span) [0..<unat (es_num_pages span)] ps"

definition early_init_mem_map :: "boot_state \<Rightarrow> boot_state result" where
  "early_init_mem_map b =
     rbind (rfold (\<lambda>i b. alloc_map_physblock (es_start (span_at (early_part b) i))
                           (es_num_pages (span_at (early_part b) i)) b)
              [0..<span_count (early_part b)] b) (\<lambda>b.
     rbind (rfold (\<lambda>i. init_physblock_span (early_part b) (span_at (early_part b) i))
              [0..<span_count (early_part b)] (phys_part b)) (\<lambda>ps.
       Inr (b\<lparr>phys_part := ps\<rparr>)))"

section \<open>Initialisation\<close>

text \<open>\<^verbatim>\<open>sizeof(struct phys_alloc_state)\<close> is 360 and \<^verbatim>\<open>sizeof(struct phys_alloc_span)\<close> is 16.\<close>

definition sizeof_phys_alloc_state :: u64 where "sizeof_phys_alloc_state = 360"
definition sizeof_phys_alloc_span :: u64 where "sizeof_phys_alloc_span = 16"

definition early_init_phys_alloc_state :: "boot_state \<Rightarrow> boot_state result" where
  "early_init_phys_alloc_state b =
     (if sizeof_phys_alloc_state + sizeof_phys_alloc_span * ea_num_spans (alloc_state (early_part b)) > PAGE_SIZE
      then Inl (Panic ''Too many spans to allocate phys alloc state in 1 page'')
      else rbind (early_page_alloc_zero (early_part b)) (\<lambda>(pa, s).
        Inr (b\<lparr>early_part := s, phys_part := phys_alloc_init_state (blocks (phys_part b))
          (nodes (phys_part b)) (early_span_list s)\<rparr>)))"

definition zero_global :: kernel_global where
  "zero_global = \<lparr>stage = KERNEL_STAGE_1_EARLY, log_echo = False, log_level = 0, global_lock = 0\<rparr>"

definition early_init_kernel_global :: "boot_state \<Rightarrow> boot_state result" where
  "early_init_kernel_global b =
     rbind (early_page_alloc_zero (early_part b)) (\<lambda>(pa, s).
       Inr (b\<lparr>early_part := s, global_part := global_init zero_global\<rparr>))"

definition early_mem_init :: "boot_state \<Rightarrow> boot_state result" where
  "early_mem_init b =
     (let s = early_part b;
          s = s\<lparr>mem := drop_direct0 (mem s)\<rparr>;
          s = s\<lparr>boot_info := early_sort_e820 (boot_info s)\<rparr>;
          s = s\<lparr>boot_info := early_merge_e820 (boot_info s)\<rparr>
      in rbind (early_normalise_e820 (boot_info s)) (\<lambda>info.
         rbind (early_set_total_ram info) (\<lambda>info.
         let s = early_scratch_alloc_init (s\<lparr>boot_info := info\<rparr>)
         in rbind (early_page_alloc_init info s) (\<lambda>s.
            rbind (early_remap_page_tables info (b\<lparr>early_part := s\<rparr>)) (\<lambda>b.
            rbind (early_init_kernel_global b) (\<lambda>b.
            rbind (early_init_phys_alloc_state b) early_init_mem_map))))))"

end
