(* ===== verification/Handover.thy ===== *)
theory Handover
  imports Early_Boot
begin

text \<open>
  From the early page allocator to the physical allocator. The first part follows the second
  pass of \<^verbatim>\<open>early_init_mem_map()\<close>: over zeroed descriptors it records, page by page, what the
  early allocator's bitmaps say. The second part follows the first pass, which allocates and
  maps the pages the descriptors lie in. The third puts them in front of the initialisation of
  the physical allocator.
\<close>

section \<open>Recording the early pages\<close>

definition early_descriptor :: "early_state \<Rightarrow> physaddr_t \<Rightarrow> physblock" where
  "early_descriptor s pa =
     (if pa \<notin> early_pages s EARLY_ALLOC_NORMAL \<or> pa \<in> early_pages s EARLY_ALLOC_EPHEMERAL then zero_physblock
      else zero_physblock\<lparr>
        blk_type := (if pa \<in> early_pages s EARLY_ALLOC_PAGETABLE then PHYSBLOCK_PAGETABLE
                     else if pa \<in> early_pages s EARLY_ALLOC_PHYSBLOCK then PHYSBLOCK_PHYSBLOCK
                     else PHYSBLOCK_KERNEL OR PHYSBLOCK_MOVABLE),
        refcount := 1\<rparr>)"

lemma init_nodes_commute:
  "list_node_init (fold (\<lambda>i h. list_init h (FreeList i)) ks h) (BlockNode p) =
    fold (\<lambda>i h. list_init h (FreeList i)) ks (list_node_init h (BlockNode p))"
proof (induction ks arbitrary: h)
  case (Cons k ks)
  have "list_node_init (list_init h (FreeList k)) (BlockNode p) = list_init (list_node_init h (BlockNode p)) (FreeList k)"
    by (auto simp: list_init_def list_node_init_def set_prev_def set_next_def fun_eq_iff)
  with Cons show ?case by simp
qed simp

lemma span_to_phys_offset:
  "span_to_phys sp i = span_offset_to_pa sp i"
  by (simp add: span_to_phys_def span_offset_to_pa_def push_bit_eq_mult PAGE_SIZE_def BIT_MASK_def mult.commute)

lemma offset_marks:
  assumes "early_inv s" "i < span_count s" "j < unat (es_num_pages (span_at s i))"
  shows "bitmap_is_set (bitmaps s (ptr_of k (span_at s i))) (of_nat j) \<longleftrightarrow>
    span_offset_to_pa (span_at s i) (of_nat j) \<in> early_pages s k"
proof -
  note o = offset_pa_found [OF early_invD(1) [OF assms(1)] assms(2,3)]
  note d = maps_okD(2) [OF early_invD(2) [OF assms(1,2)], of k]
  have "j < 2 ^ 64" using assms(3) unat_lt_u64 [of "es_num_pages (span_at s i)"] by simp
  then have "unat (of_nat j :: u64) = j" by (simp add: unat_of_nat_lt)
  then show ?thesis
    using is_set_bits_of [of "of_nat j" "map_of_kind s i k"] assms(3) d o
    by (auto simp: early_pages_def map_of_kind_def)
qed

lemma init_physblock_step:
  assumes "early_inv s" "i < span_count s" "j < unat (es_num_pages (span_at s i))"
  defines "pa \<equiv> span_offset_to_pa (span_at s i) (of_nat j)"
  assumes mm: "mm (phys_to_pfn pa) \<in> {zero_physblock, early_descriptor s pa}"
  shows "init_physblock s (span_at s i) j (phys_alloc_init_state mm h es) =
    Inr (phys_alloc_init_state (mm(phys_to_pfn pa := early_descriptor s pa))
      (list_node_init h (BlockNode (phys_to_pfn pa))) es)"
proof -
  let ?p = "phys_to_pfn pa" and ?s = "phys_alloc_init_state mm h es"
  have b: "blk_lock (mm ?p) = 0" "head_offset (mm ?p) = 0"
    using mm by (auto simp: zero_physblock_def early_descriptor_def)
  then have lk: "phys_to_physblock_lock ?s pa = Inr (?p, ?s\<lparr>blocks := mm(?p := (mm ?p)\<lparr>blk_lock := 1\<rparr>)\<rparr>)"
    by (simp add: phys_to_physblock_lock_def pfn_to_physblock_lock_def pfn_to_physblock_raw_lock_def
      block_acquire_def upd_block_def phys_alloc_init_state_def)
  note mk = offset_marks [OF assms(1-3), folded pa_def]
  have marks: "bitmap_is_set (bitmaps s (alloc_bitmap (span_at s i))) (of_nat j) \<longleftrightarrow> pa \<in> early_pages s EARLY_ALLOC_NORMAL"
    "bitmap_is_set (bitmaps s (ephemeral_bitmap (span_at s i))) (of_nat j) \<longleftrightarrow> pa \<in> early_pages s EARLY_ALLOC_EPHEMERAL"
    "bitmap_is_set (bitmaps s (pagetable_bitmap (span_at s i))) (of_nat j) \<longleftrightarrow> pa \<in> early_pages s EARLY_ALLOC_PAGETABLE"
    "bitmap_is_set (bitmaps s (physblock_bitmap (span_at s i))) (of_nat j) \<longleftrightarrow> pa \<in> early_pages s EARLY_ALLOC_PHYSBLOCK"
    using mk [of EARLY_ALLOC_NORMAL] mk [of EARLY_ALLOC_EPHEMERAL] mk [of EARLY_ALLOC_PAGETABLE]
      mk [of EARLY_ALLOC_PHYSBLOCK] by simp_all
  have pa: "span_to_phys (span_at s i) (of_nat j) = pa" by (simp add: span_to_phys_offset pa_def)
  have "init_physblock s (span_at s i) j ?s =
      Inr (?s\<lparr>blocks := mm(?p := early_descriptor s pa), nodes := list_node_init (nodes ?s) (BlockNode ?p)\<rparr>)"
    using mm b unfolding init_physblock_def pa Let_def lk marks rbind_simps prod.case
    by (auto simp: upd_block_def upd_nodes_def block_release_def early_descriptor_def zero_physblock_def
      phys_alloc_init_state_def spinlock_release_def atomic_defs)
  then show ?thesis unfolding phys_alloc_init_state_def by (simp del: upt_Suc add: init_nodes_commute)
qed

text \<open>The pages of a span, in the order the loop visits them.\<close>

abbreviation page_in :: "early_state \<Rightarrow> nat \<Rightarrow> nat \<Rightarrow> physaddr_t" where
  "page_in s i j \<equiv> span_offset_to_pa (span_at s i) (of_nat j)"

definition span_pages :: "early_state \<Rightarrow> nat \<Rightarrow> physaddr_t list" where
  "span_pages s i = map (page_in s i) [0..<unat (es_num_pages (span_at s i))]"

lemma phys_to_pfn_inject:
  "4096 dvd unat pa \<Longrightarrow> 4096 dvd unat pa' \<Longrightarrow> phys_to_pfn pa = phys_to_pfn pa' \<longleftrightarrow> pa = pa'"
  by (auto simp: phys_to_pfn_def word_unat_eq_iff unat_drop_bit elim!: dvdE)

lemma set_span_pages:
  assumes "spans_ok s" "i < span_count s"
  shows "pa \<in> set (span_pages s i) \<longleftrightarrow> 4096 dvd unat pa \<and> find_span s pa = Some i"
proof
  assume "pa \<in> set (span_pages s i)"
  then show "4096 dvd unat pa \<and> find_span s pa = Some i"
    using offset_pa_found [OF assms] by (auto simp: span_pages_def)
next
  assume pa: "4096 dvd unat pa \<and> find_span s pa = Some i"
  note F = found_offset_pa [OF assms(1), of pa i]
  show "pa \<in> set (span_pages s i)"
    unfolding span_pages_def using F pa
    by (auto intro!: image_eqI [of _ _ "unat (phys_to_span_offset (span_at s i) pa)"])
qed

lemma managed_span_pages:
  assumes "spans_ok s"
  shows "managed_pages s = (\<Union>i\<in>{..<span_count s}. set (span_pages s i))"
  unfolding managed_pages_def using set_span_pages [OF assms] find_span_Some [OF assms] by auto

definition recorded :: "early_state \<Rightarrow> (physaddr_t \<times> u64) list \<Rightarrow> physaddr_t set \<Rightarrow> phys_alloc_state \<Rightarrow> bool" where
  "recorded s es D ps \<longleftrightarrow> (\<exists>mm h. ps = phys_alloc_init_state mm h es \<and>
     (\<forall>pa\<in>managed_pages s. mm (phys_to_pfn pa) \<in> {zero_physblock, early_descriptor s pa}) \<and>
     (\<forall>pa\<in>D. mm (phys_to_pfn pa) = early_descriptor s pa))"

lemma record_page:
  assumes "early_inv s" "i < span_count s" "j < unat (es_num_pages (span_at s i))" "recorded s es D ps" "D \<subseteq> managed_pages s"
  shows "\<exists>ps'. init_physblock s (span_at s i) j ps = Inr ps' \<and> recorded s es (insert (page_in s i j) D) ps' \<and>
    insert (page_in s i j) D \<subseteq> managed_pages s"
proof -
  let ?pa = "page_in s i j"
  note o = offset_pa_found [OF early_invD(1) [OF assms(1)] assms(2,3)]
  have m: "?pa \<in> managed_pages s" using o by (simp add: managed_pages_def)
  obtain mm h where ps: "ps = phys_alloc_init_state mm h es"
    "\<And>pa. pa \<in> managed_pages s \<Longrightarrow> mm (phys_to_pfn pa) \<in> {zero_physblock, early_descriptor s pa}"
    "\<And>pa. pa \<in> D \<Longrightarrow> mm (phys_to_pfn pa) = early_descriptor s pa"
    using assms(4) by (auto simp: recorded_def)
  have inj: "phys_to_pfn pa = phys_to_pfn ?pa \<longleftrightarrow> pa = ?pa" if "pa \<in> managed_pages s" for pa
    using that o(3) by (intro phys_to_pfn_inject) (auto simp: managed_pages_def)
  let ?ps = "phys_alloc_init_state (mm(phys_to_pfn ?pa := early_descriptor s ?pa)) (list_node_init h (BlockNode (phys_to_pfn ?pa))) es"
  have "init_physblock s (span_at s i) j ps = Inr ?ps"
    unfolding ps(1) by (rule init_physblock_step [OF assms(1-3)]) (rule ps(2) [OF m])
  moreover have "recorded s es (insert ?pa D) ?ps"
    unfolding recorded_def using ps(2,3) inj assms(5) m by (intro exI conjI) (rule refl, auto)
  ultimately show ?thesis using m assms(5) by blast
qed

lemma record_all:
  assumes "early_inv s" "recorded s es {} ps"
  shows "\<exists>ps'. rfold (\<lambda>i. init_physblock_span s (span_at s i)) [0..<span_count s] ps = Inr ps' \<and>
    recorded s es (managed_pages s) ps'"
proof -
  let ?P = "\<lambda>D ps. recorded s es D ps \<and> D \<subseteq> managed_pages s"
  have sp: "\<exists>ps'. init_physblock_span s (span_at s i) ps = Inr ps' \<and> ?P (D \<union> set (span_pages s i)) ps'"
    if "i \<in> set [0..<span_count s]" "?P D ps" for i D ps
  proof -
    have "\<exists>ps'. rfold (init_physblock s (span_at s i)) [0..<unat (es_num_pages (span_at s i))] ps = Inr ps' \<and>
        ?P (D \<union> (\<Union>j\<in>set [0..<unat (es_num_pages (span_at s i))]. {page_in s i j})) ps'"
      by (rule rfold_collect [where P = ?P]) (use record_page [OF assms(1)] that in \<open>simp_all\<close>)
    then show ?thesis by (simp add: init_physblock_span_def span_pages_def UNION_singleton_eq_range)
  qed
  have "\<exists>ps'. rfold (\<lambda>i. init_physblock_span s (span_at s i)) [0..<span_count s] ps = Inr ps' \<and>
      ?P ({} \<union> (\<Union>i\<in>set [0..<span_count s]. set (span_pages s i))) ps'"
    by (rule rfold_collect [where P = ?P]) (use sp assms(2) in \<open>simp_all\<close>)
  then show ?thesis
    using managed_span_pages [OF early_invD(1) [OF assms(1)]] by (simp add: atLeast0LessThan)
qed

section \<open>The spans of the physical allocator\<close>

lemma distinct_concat_map:
  assumes "distinct xs" "\<And>x. x \<in> set xs \<Longrightarrow> distinct (f x)"
    and "\<And>x y. x \<in> set xs \<Longrightarrow> y \<in> set xs \<Longrightarrow> x \<noteq> y \<Longrightarrow> set (f x) \<inter> set (f y) = {}"
  shows "distinct (concat (map f xs))"
  using assms
proof (induction xs)
  case (Cons x xs)
  have "set (f x) \<inter> set (f y) = {}" if "y \<in> set xs" for y
    using Cons.prems(1) that by (intro Cons.prems(3)) auto
  then have "set (f x) \<inter> set (concat (map f xs)) = {}" by fastforce
  then show ?case using Cons by simp
qed simp

lemma frames_of_span:
  assumes "span_ok (span_at s i)"
  shows "span_frames \<lparr>start_pfn = phys_to_pfn (es_start (span_at s i)), num_pages = es_num_pages (span_at s i)\<rparr> =
      map phys_to_pfn (span_pages s i)"
    and "unat (phys_to_pfn (es_start (span_at s i))) + unat (es_num_pages (span_at s i)) < 2 ^ 64"
proof -
  let ?a = "es_start (span_at s i)"
  obtain k where k: "unat ?a = 4096 * k" using assms by (auto simp: span_ok_def)
  have b: "4096 * k + unat (es_num_pages (span_at s i)) * 4096 < 2 ^ 64" using assms k by (simp add: span_ok_def span_end_def)
  have pfn: "unat (phys_to_pfn ?a) = k" using k by (simp add: phys_to_pfn_def unat_drop_bit)
  show "unat (phys_to_pfn ?a) + unat (es_num_pages (span_at s i)) < 2 ^ 64" using b pfn by simp
  have "phys_to_pfn ?a + of_nat j = phys_to_pfn (page_in s i j)" if j: "j < unat (es_num_pages (span_at s i))" for j
  proof -
    have "unat (phys_to_pfn ?a + of_nat j) = k + j"
      using b j pfn by (subst unat_plus_no_wrap) (simp_all add: unat_of_nat_lt)
    moreover have "unat (phys_to_pfn (page_in s i j)) = k + j"
      using unat_offset_pa [OF assms j] k by (simp add: phys_to_pfn_def unat_drop_bit)
    ultimately show ?thesis by (simp add: word_unat_eq_iff)
  qed
  then show "span_frames \<lparr>start_pfn = phys_to_pfn ?a, num_pages = es_num_pages (span_at s i)\<rparr> = map phys_to_pfn (span_pages s i)"
    by (simp add: span_frames_def span_pages_def)
qed

lemma distinct_span_pages:
  assumes "spans_ok s" "i < span_count s"
  shows "distinct (span_pages s i)"
proof -
  have "inj_on (page_in s i) {0..<unat (es_num_pages (span_at s i))}"
  proof (rule inj_onI)
    fix j k
    assume "j \<in> {0..<unat (es_num_pages (span_at s i))}" "k \<in> {0..<unat (es_num_pages (span_at s i))}"
    then have "unat (phys_to_span_offset (span_at s i) (page_in s i j)) = j"
      "unat (phys_to_span_offset (span_at s i) (page_in s i k)) = k"
      by (auto intro!: offset_pa_found(2) [OF assms])
    moreover assume "page_in s i j = page_in s i k"
    ultimately show "j = k" by metis
  qed
  then show ?thesis by (simp add: span_pages_def distinct_map)
qed

lemma early_spans_wf:
  fixes mm h
  assumes "spans_ok s"
  defines "ps \<equiv> phys_alloc_init_state mm h (early_span_list s)"
  shows "spans_wf (spans ps)" "managed ps = phys_to_pfn ` managed_pages s"
proof -
  have ok: "span_ok (span_at s i)" if "i < span_count s" for i using assms(1) that by (simp add: spans_ok_def)
  have sp: "spans ps = map (\<lambda>i. \<lparr>start_pfn = phys_to_pfn (es_start (span_at s i)), num_pages = es_num_pages (span_at s i)\<rparr>)
      [0..<span_count s]"
    by (simp add: ps_def phys_alloc_init_state_def early_span_list_def)
  have frames: "concat (map span_frames (spans ps)) = concat (map (\<lambda>i. map phys_to_pfn (span_pages s i)) [0..<span_count s])"
    unfolding sp by (intro arg_cong [where f = concat]) (simp add: frames_of_span(1) [OF ok])
  have dis: "set (span_pages s i) \<inter> set (span_pages s j) = {}" if "i < span_count s" "j < span_count s" "i \<noteq> j" for i j
    using set_span_pages [OF assms(1)] that by auto
  have "distinct (concat (map (\<lambda>i. span_pages s i) [0..<span_count s]))"
    using distinct_span_pages [OF assms(1)] dis by (intro distinct_concat_map) auto
  moreover have "inj_on phys_to_pfn (managed_pages s)"
    by (rule inj_onI) (simp add: managed_pages_def phys_to_pfn_inject)
  ultimately have "distinct (map phys_to_pfn (concat (map (\<lambda>i. span_pages s i) [0..<span_count s])))"
    using managed_span_pages [OF assms(1)] by (simp add: distinct_map atLeast0LessThan)
  then have "distinct (concat (map span_frames (spans ps)))" unfolding frames by (simp add: map_concat comp_def)
  then show wf: "spans_wf (spans ps)" using frames_of_span(2) [OF ok] by (auto simp: spans_wf_def sp)
  show "managed ps = phys_to_pfn ` managed_pages s"
    unfolding managed_frames [OF wf] frames managed_span_pages [OF assms(1)] by (auto simp: image_Union)
qed

lemma early_descriptor_fresh:
  "fresh_block (early_descriptor s pa)"
  "type_kind (early_descriptor s pa) = PHYSBLOCK_UNMANAGED \<longleftrightarrow>
    pa \<notin> early_pages s EARLY_ALLOC_NORMAL \<or> pa \<in> early_pages s EARLY_ALLOC_EPHEMERAL"
proof -
  let ?kinds = "{PHYSBLOCK_TAIL, PHYSBLOCK_FREE, PHYSBLOCK_UNMANAGED}"
  have "PHYSBLOCK_PAGETABLE AND PHYSBLOCK_TYPE_MASK \<notin> ?kinds" "PHYSBLOCK_PHYSBLOCK AND PHYSBLOCK_TYPE_MASK \<notin> ?kinds"
    "(PHYSBLOCK_KERNEL OR PHYSBLOCK_MOVABLE) AND PHYSBLOCK_TYPE_MASK \<notin> ?kinds"
    by code_simp+
  then have k: "type_kind (zero_physblock\<lparr>blk_type := t, refcount := 1\<rparr>) \<notin> ?kinds"
    if "t \<in> {PHYSBLOCK_PAGETABLE, PHYSBLOCK_PHYSBLOCK, PHYSBLOCK_KERNEL OR PHYSBLOCK_MOVABLE}" for t
    using that by (auto simp: type_kind_def)
  have z: "type_kind zero_physblock = PHYSBLOCK_UNMANAGED" "PHYSBLOCK_UNMANAGED \<notin> {PHYSBLOCK_TAIL, PHYSBLOCK_FREE}"
    by (simp add: type_kind_def zero_physblock_def PHYSBLOCK_UNMANAGED_def) code_simp
  show "fresh_block (early_descriptor s pa)"
    using k z by (auto simp: early_descriptor_def fresh_block_def zero_physblock_def)
  show "type_kind (early_descriptor s pa) = PHYSBLOCK_UNMANAGED \<longleftrightarrow>
    pa \<notin> early_pages s EARLY_ALLOC_NORMAL \<or> pa \<in> early_pages s EARLY_ALLOC_EPHEMERAL"
    using k z by (auto simp: early_descriptor_def)
qed

end
