(* ===== verification/Mem_Map.thy ===== *)
theory Mem_Map
  imports Handover
begin

text \<open>
  The first pass of \<^verbatim>\<open>early_init_mem_map()\<close>, which allocates and maps the pages the descriptors
  lie in, and the hand-over as a whole: both passes and the initialisation of the physical
  allocator after them.
\<close>

section \<open>The pages of the descriptor array\<close>

text \<open>
  A page holds 128 descriptors; \<open>mem_map_page k\<close> is the address of the \<open>k\<close>th page of the array, and
  \<open>descriptor_pages sp\<close> lists those the descriptors of a span lie in.
\<close>

definition mem_map_page :: "nat \<Rightarrow> virtaddr_t" where
  "mem_map_page k = KERNEL_MEM_MAP_ADDRESS + of_nat k * 4096"

definition descriptor_pages :: "physaddr_t \<times> u64 \<Rightarrow> nat list" where
  "descriptor_pages sp = (let p = unat (fst sp) div 4096 in [p div 128..<(p + unat (snd sp) + 127) div 128])"

definition mem_map_vpn :: "nat \<Rightarrow> nat" where
  "mem_map_vpn k = 0xc00040000 + k"

lemma unat_mem_map_page:
  "k \<le> 2 ^ 29 \<Longrightarrow> unat (mem_map_page k) = 0xffffc00040000000 + k * 4096"
  unfolding mem_map_page_def KERNEL_MEM_MAP_ADDRESS_def
  by (subst unat_plus_no_wrap) (simp_all add: unat_word_ariths unat_of_nat)

lemma vpn_mem_map_page: "k < 2 ^ 29 \<Longrightarrow> vpn (mem_map_page k) = mem_map_vpn k"
proof -
  assume k: "k < 2 ^ 29"
  have "4503582447763456 + k = (51539869696 + k) + 65535 * 68719476736" by simp
  then have "(4503582447763456 + k) mod 68719476736 = (51539869696 + k) mod 68719476736"
    by (simp only: mod_mult_self1)
  then show ?thesis using unat_mem_map_page [of k] k by (simp add: vpn_def mem_map_vpn_def)
qed

lemma next_mem_map_page: "k < 2 ^ 29 \<Longrightarrow> virt_next_page (mem_map_page k) = mem_map_page (Suc k)"
  using unat_mem_map_page [of k] unat_mem_map_page [of "Suc k"]
  by (simp add: word_unat_eq_iff virt_next_page_def unat_drop_bit push_bit_eq_mult unat_word_ariths)

lemma page_of_descriptor:
  assumes "unat p \<le> 2 ^ 36"
  shows "ALIGN (pfn_to_physblock_raw p) PAGE_SIZE = mem_map_page (unat p div 128)"
proof -
  have u: "unat (pfn_to_physblock_raw p) = 0xffffc00040000000 + unat p * 32"
    unfolding pfn_to_physblock_raw_def KERNEL_MEM_MAP_ADDRESS_def sizeof_physblock_def
    using assms by (subst unat_plus_no_wrap) (simp_all add: unat_word_ariths)
  have d: "(18446673706039115776 + x) mod 4096 = x mod 4096" for x :: nat
    using mod_mult_self1 [of x 4503582447763456 4096] by (simp add: add.commute)
  have e: "unat p * 32 - unat p * 32 mod 4096 = unat p div 128 * 4096" by (simp add: minus_mod_eq_div_mult)
  have "unat p * 32 mod 4096 \<le> unat p * 32" by (rule mod_less_eq_dividend)
  then have "unat (pfn_to_physblock_raw p) - unat (pfn_to_physblock_raw p) mod 4096 =
      18446673706039115776 + unat p div 128 * 4096"
    unfolding u d using e by linarith
  moreover have "unat p div 128 \<le> 2 ^ 29" using assms by simp
  ultimately show ?thesis
    unfolding word_unat_eq_iff PAGE_SIZE_def unat_ALIGN by (simp add: unat_mem_map_page)
qed

text \<open>A descriptor of a page that reads as zero is zero.\<close>

lemma zero_page_byte:
  assumes "\<forall>i<512. entry m pa i = 0" "unat x < 4096"
  shows "m (phys_to_virt_ptr pa + x) = 0"
proof -
  define i j where "i = unat x div 8" and "j = unat x mod 8"
  have ij: "i < 512" "j < 8" "unat x = 8 * i + j" using assms(2) by (auto simp: i_def j_def)
  have "of_nat (unat x) = x" by simp
  then have "x = 8 * of_nat i + of_nat j" unfolding ij(3) by simp
  moreover have "m (ptde_at pa (of_nat i) + of_nat j) = 0"
    using assms(1) ij by (intro load64_zero_byte) (simp_all add: entry_def)
  ultimately show ?thesis by (simp add: ptde_at_def add.assoc)
qed

lemma zero_physblock_at:
  assumes "\<And>i. i < 32 \<Longrightarrow> m (a + of_nat i) = 0"
  shows "physblock_at m a = zero_physblock"
proof -
  have "m (a + of_nat k + of_nat i) = 0" if "k + i < 32" for k i
    using assms [OF that] by (simp add: add.assoc)
  from this [of 0] this [of 2 0] this [of 4] this [of 24] this [of 28] show ?thesis
    unfolding physblock_at_def zero_physblock_def
    by (intro physblock.equality) (simp_all add: load_zero(1) [of 2] load_zero(2) [of 4])
qed

lemma read_zero_descriptors:
  assumes z: "\<forall>i<512. entry m pa i = 0" and k: "k < 2 ^ 29" and p: "unat p < 2 ^ 36"
  shows "blocks (read_descriptors m pa (mem_map_page k) ps) p = (if unat p div 128 = k then zero_physblock else blocks ps p)"
proof -
  have va: "ALIGN (pfn_to_physblock_raw p) PAGE_SIZE = mem_map_page (unat p div 128)"
    using p by (intro page_of_descriptor) simp
  have inj: "mem_map_page (unat p div 128) = mem_map_page k \<longleftrightarrow> unat p div 128 = k"
    using p k by (simp add: word_unat_eq_iff unat_mem_map_page)
  have "physblock_at m (phys_to_virt_ptr pa + (pfn_to_physblock_raw p - mem_map_page k)) = zero_physblock" if "unat p div 128 = k"
  proof (rule zero_physblock_at)
    fix i :: nat assume i: "i < 32"
    have "unat (pfn_to_physblock_raw p) = 0xffffc00040000000 + unat p * 32"
      unfolding pfn_to_physblock_raw_def KERNEL_MEM_MAP_ADDRESS_def sizeof_physblock_def
      using p by (subst unat_plus_no_wrap) (simp_all add: unat_word_ariths)
    moreover have "unat (mem_map_page k) = 0xffffc00040000000 + k * 4096" using k by (simp add: unat_mem_map_page)
    moreover have m: "unat p * 32 = k * 4096 + unat p mod 128 * 32" using that div_mult_mod_eq [of "unat p" 128] by simp
    ultimately have "unat (pfn_to_physblock_raw p - mem_map_page k) = unat p mod 128 * 32"
      by (subst unat_minus_le) (simp_all add: word_le_nat_alt)
    moreover have "unat p mod 128 * 32 \<le> 4064" using mod_less_divisor [of 128 "unat p"] by linarith
    ultimately have "unat (pfn_to_physblock_raw p - mem_map_page k + of_nat i) < 4096"
      using i by (subst unat_plus_no_wrap) (simp_all add: unat_of_nat_lt)
    from zero_page_byte [OF z this]
    show "m (phys_to_virt_ptr pa + (pfn_to_physblock_raw p - mem_map_page k) + of_nat i) = 0" by (simp add: add.assoc)
  qed
  then show ?thesis unfolding read_descriptors_def by (simp add: Let_def va inj)
qed

text \<open>The loop over addresses is one over page numbers.\<close>

lemma mem_map_loop:
  "a + t \<le> 2 ^ 29 \<Longrightarrow>
    rfold (\<lambda>_ (va, b). rbind (map_physblock_page va b) (\<lambda>b. Inr (virt_next_page va, b))) [0..<t] (mem_map_page a, b) =
    rbind (rfold (\<lambda>k. map_physblock_page (mem_map_page k)) [a..<a + t] b) (\<lambda>b. Inr (mem_map_page (a + t), b))"
proof (induction t)
  case (Suc t)
  then have "virt_next_page (mem_map_page (a + t)) = mem_map_page (Suc (a + t))" by (simp add: next_mem_map_page)
  then show ?case using Suc by (simp add: rfold_snoc rbind_assoc)
qed simp

lemma alloc_map_physblock_pages:
  assumes "unat start + unat n * 4096 \<le> 2 ^ 48" "4096 dvd unat start"
  shows "alloc_map_physblock start n b = rfold (\<lambda>k. map_physblock_page (mem_map_page k)) (descriptor_pages (start, n)) b"
proof -
  define p where "p = unat start div 4096"
  have s: "unat start = 4096 * p" using assms(2) by (simp add: p_def)
  have b: "p + unat n \<le> 2 ^ 36" using assms(1) s by simp
  let ?a = "p div 128" and ?e = "(p + unat n + 127) div 128"
  let ?start = "KERNEL_MEM_MAP_ADDRESS + phys_to_pfn start * sizeof_physblock"
  let ?stop = "?start + n * sizeof_physblock"
  have le: "?a \<le> ?e" "?e \<le> 2 ^ 29" using b by auto
  have pfn: "unat (phys_to_pfn start) = p" by (simp add: phys_to_pfn_def unat_drop_bit p_def)
  have us: "unat ?start = 0xffffc00040000000 + p * 32"
    unfolding KERNEL_MEM_MAP_ADDRESS_def sizeof_physblock_def
    using b pfn by (subst unat_plus_no_wrap) (simp_all add: unat_word_ariths)
  have ue: "unat ?stop = 0xffffc00040000000 + (p + unat n) * 32"
  proof -
    have m: "unat (n * sizeof_physblock) = unat n * 32" using b by (simp add: sizeof_physblock_def unat_word_ariths)
    show ?thesis using b by (subst unat_plus_no_wrap) (simp_all add: us m del: unat_word_ariths)
  qed
  have round_up: "(18446673706039119871 + q * 32) div 4096 * 4096 = 18446673706039115776 + (q + 127) div 128 * 4096" for q :: nat
  proof -
    have "18446673706039119871 + q * 32 = (q * 32 + 4095) + 4503582447763456 * 4096" by simp
    then have "(18446673706039119871 + q * 32) div 4096 = 4503582447763456 + (q * 32 + 4095) div 4096"
      by (simp only: div_mult_self1)
    moreover have "(q * 32 + 4095) div 4096 = (q * 32 + 4095) div 32 div 128" by (simp flip: div_mult2_eq)
    moreover have "(q * 32 + 4095) div 32 = q + 127" by simp
    ultimately show ?thesis by simp
  qed
  have vs: "ALIGN ?start PAGE_SIZE = mem_map_page ?a"
    using page_of_descriptor [of "phys_to_pfn start"] b pfn by (simp add: pfn_to_physblock_raw_def)
  have ve: "ALIGN_UP ?stop PAGE_SIZE = mem_map_page ?e"
    using le ue b round_up [of "p + unat n"] unfolding word_unat_eq_iff PAGE_SIZE_def
    by (subst unat_ALIGN_UP) (simp_all add: unat_mem_map_page)
  have lt: "mem_map_page ?a < mem_map_page ?e \<longleftrightarrow> ?a < ?e"
    using le by (simp add: word_less_nat_alt unat_mem_map_page)
  have turns: "unat (drop_bit PAGE_SHIFT (mem_map_page ?e - mem_map_page ?a)) = ?e - ?a" 
    using le by (simp add: unat_drop_bit unat_minus_le word_le_nat_alt unat_mem_map_page flip: diff_mult_distrib)
  have "?a + (?e - ?a) = ?e" using le by simp
  then show ?thesis
    unfolding alloc_map_physblock_def Let_def vs ve lt turns descriptor_pages_def fst_conv snd_conv p_def [symmetric]
    using mem_map_loop [of ?a "?e - ?a" b] le by (simp add: rbind_assoc)
qed

section \<open>Mapping the pages of the array\<close>

lemma physblock_alloc_spec:
  assumes "pgd_ok s pgd" "early_physblock_page_alloc s = Inr (pa, s')"
  shows "pgd_ok s' pgd \<and> pa \<in> unused_pages s \<and> unused_pages s' = unused_pages s - {pa} \<and>
    managed_pages s' = managed_pages s \<and> early_span_list s' = early_span_list s \<and>
    early_pages s' EARLY_ALLOC_EPHEMERAL = early_pages s EARLY_ALLOC_EPHEMERAL \<and>
    early_pages s' EARLY_ALLOC_PHYSBLOCK = insert pa (early_pages s EARLY_ALLOC_PHYSBLOCK) \<and>
    translation s' pgd = translation s pgd \<and>
    page_address 12 pa \<and> tables 3 (mem s') pgd = tables 3 (mem s) pgd \<and> (\<forall>i<512. entry (mem s') pa i = 0)"
proof -
  obtain s1 where s1: "alloc EARLY_ALLOC_PHYSBLOCK s = Inr (pa, s1)" "s' = zero_page_early pa s1"
    using assms(2) by (auto simp: early_physblock_page_alloc_def rbind_Inr_iff)
  have ok: "early_ok s" "tree_ok 3 (mem s) pgd" "tables 3 (mem s) pgd \<inter> unused_pages s = {}"
    using assms(1) by (simp_all add: pgd_ok_def)
  have inv: "early_inv s" using ok(1) by (simp add: early_ok_def)
  note A = alloc_spec [OF inv s1(1)]
  have "pa \<in> managed_pages s" using A(1) by blast
  then have pa: "page_address 12 pa" using ok(1) by (simp add: early_ok_def managed_pages_def page_address_iff)
  have "same_tables {pa} (mem s) (mem s')"
    using pa A s1(2) by (simp add: zero_page_early_def same_tables_def entry_zero_page)
  moreover have "tables 3 (mem s) pgd \<inter> {pa} = {}" using ok(3) A(1) by blast
  ultimately have T: "tables 3 (mem s') pgd = tables 3 (mem s) pgd \<and> tree_ok 3 (mem s') pgd \<and>
      xlat 3 (mem s') pgd = xlat 3 (mem s) pgd"
    using tree_unchanged ok(2) by blast
  have u: "unused_pages s' = unused_pages s - {pa}" using A(5) s1(2) by (simp add: zero_page_early_def)
  have "early_ok s'" using A(2,3) s1(2) ok(1) by (simp add: zero_page_early_def early_ok_def)
  then have "pgd_ok s' pgd" using T ok(3) u unfolding pgd_ok_def by blast
  moreover have "\<forall>i<512. entry (mem s') pa i = 0" using pa s1(2) by (simp add: zero_page_early_def entry_zero_page)
  ultimately show ?thesis
    using T A s1(2) alloc_span_list [OF inv s1(1)] u pa by (simp add: zero_page_early_def sets_kind_def)
qed

lemma map_kernel_flags: "bit (map_flags_to_page_flags MAP_KERNEL) 0" "\<not> IS_MASK_SET MAP_KERNEL MAP_SKIP_IF_MAPPED"
  by code_simp+

text \<open>
  \<open>mem_map_inv b0 K b\<close>: from \<open>b0\<close>, the pages \<open>K\<close> of the array have been mapped, each to a page the early
  allocator gave out for descriptors, with at most four pages taken for each.
\<close>

definition mem_map_inv :: "boot_state \<Rightarrow> nat set \<Rightarrow> boot_state \<Rightarrow> bool" where
  "mem_map_inv b0 K b \<longleftrightarrow>
     (let s0 = early_part b0; s = early_part b; pgd = kernel_root_pgd b0
      in K \<subseteq> {..<2 ^ 29} \<and> kernel_root_pgd b = pgd \<and> pgd_ok s pgd \<and>
         early_span_list s = early_span_list s0 \<and> managed_pages s = managed_pages s0 \<and>
         early_pages s EARLY_ALLOC_EPHEMERAL = early_pages s0 EARLY_ALLOC_EPHEMERAL \<and>
         unused_pages s \<subseteq> unused_pages s0 \<and> card (unused_pages s0) \<le> card (unused_pages s) + 4 * card K \<and>
         (\<forall>k\<in>K. \<exists>pa\<in>early_pages s EARLY_ALLOC_PHYSBLOCK.
            translation s pgd (mem_map_vpn k) = Some (unat pa, map_flags_to_page_flags MAP_KERNEL)) \<and>
         (\<forall>q<2 ^ 36. q \<notin> mem_map_vpn ` K \<longrightarrow> translation s pgd q = translation s0 pgd q) \<and>
         (\<exists>mm. phys_part b = (phys_part b0)\<lparr>blocks := mm\<rparr> \<and>
            (\<forall>p. unat p < 2 ^ 36 \<and> unat p div 128 \<in> K \<longrightarrow> mm p = zero_physblock)))"

lemma mem_map_invD:
  assumes "mem_map_inv b0 K b"
  shows "finite K" "kernel_root_pgd b = kernel_root_pgd b0" "pgd_ok (early_part b) (kernel_root_pgd b0)"
    "early_span_list (early_part b) = early_span_list (early_part b0)"
    "card (unused_pages (early_part b0)) \<le> card (unused_pages (early_part b)) + 4 * card K"
    "\<And>k. k \<in> K \<Longrightarrow> translation (early_part b) (kernel_root_pgd b0) (mem_map_vpn k) \<noteq> None"
    "\<And>q. q < 2 ^ 36 \<Longrightarrow> q \<notin> mem_map_vpn ` K \<Longrightarrow>
      translation (early_part b) (kernel_root_pgd b0) q = translation (early_part b0) (kernel_root_pgd b0) q"
    "\<And>k. k \<in> K \<Longrightarrow> k < 2 ^ 29"
proof -
  have "K \<subseteq> {..<2 ^ 29}" using assms unfolding mem_map_inv_def Let_def by (rule conjunct1)
  then show "finite K" "\<And>k. k \<in> K \<Longrightarrow> k < 2 ^ 29" using finite_subset finite_lessThan by blast+
qed (use assms in \<open>simp_all add: mem_map_inv_def Let_def, fastforce+\<close>)

lemma mem_map_vpn_less: "k < 2 ^ 29 \<Longrightarrow> mem_map_vpn k < 2 ^ 36"
  by (simp add: mem_map_vpn_def)

lemma mem_map_vpn_inject [simp]: "mem_map_vpn j = mem_map_vpn k \<longleftrightarrow> j = k"
  by (simp add: mem_map_vpn_def)

lemma tables_for_one_page: "tables_needed 3 q 1 = 3"
  by (simp add: tables_needed_def entries_over_def numeral_3_eq_3)

text \<open>One turn of the loop: what a call that returns has done, and when a call does not return.\<close>

lemma map_physblock_page_cases:
  assumes ok: "pgd_ok (early_part b) (kernel_root_pgd b)" and k: "k < 2 ^ 29"
  shows "case map_physblock_page (mem_map_page k) b of
      Inl e \<Rightarrow> translation (early_part b) (kernel_root_pgd b) (mem_map_vpn k) \<noteq> None \<or> card (unused_pages (early_part b)) < 4
    | Inr b' \<Rightarrow> \<exists>pa\<in>unused_pages (early_part b). \<exists>s.
        translation (early_part b) (kernel_root_pgd b) (mem_map_vpn k) = None \<and>
        b' = b\<lparr>early_part := s, phys_part := read_descriptors (mem s) pa (mem_map_page k) (phys_part b)\<rparr> \<and>
        (\<forall>i<512. entry (mem s) pa i = 0) \<and>
        pgd_ok s (kernel_root_pgd b) \<and> early_span_list s = early_span_list (early_part b) \<and>
        managed_pages s = managed_pages (early_part b) \<and>
        early_pages s EARLY_ALLOC_EPHEMERAL = early_pages (early_part b) EARLY_ALLOC_EPHEMERAL \<and>
        early_pages s EARLY_ALLOC_PHYSBLOCK = insert pa (early_pages (early_part b) EARLY_ALLOC_PHYSBLOCK) \<and>
        unused_pages s \<subseteq> unused_pages (early_part b) \<and>
        card (unused_pages (early_part b)) \<le> card (unused_pages s) + 4 \<and>
        (\<forall>q<2 ^ 36. translation s (kernel_root_pgd b) q =
          (if q = mem_map_vpn k then Some (unat pa, map_flags_to_page_flags MAP_KERNEL)
           else translation (early_part b) (kernel_root_pgd b) q))"
proof (cases "early_physblock_page_alloc (early_part b)")
  case (Inl e)
  have "\<exists>e. alloc EARLY_ALLOC_PHYSBLOCK (early_part b) = Inl e"
    using Inl by (auto simp: early_physblock_page_alloc_def rbind_Inl_iff split: prod.splits)
  moreover have "early_inv (early_part b)" using ok by (simp add: pgd_ok_def early_ok_def)
  ultimately have "unused_pages (early_part b) = {}"
    using early.take_some [of "early_part b" EARLY_ALLOC_PHYSBLOCK] by auto
  then have "card (unused_pages (early_part b)) < 4" by (simp only: card.empty zero_less_numeral)
  then show ?thesis by (simp add: map_physblock_page_def Inl)
next
  case (Inr w)
  then obtain pa s1 where a: "early_physblock_page_alloc (early_part b) = Inr (pa, s1)" by (cases w) auto
  let ?s = "early_part b" and ?pgd = "kernel_root_pgd b" and ?q = "mem_map_vpn k"
  note P = physblock_alloc_spec [OF ok a]
  have "pa \<in> managed_pages ?s" using P by blast
  then have "4096 dvd unat pa" "unat pa < 2 ^ 48" using ok by (auto simp: pgd_ok_def early_ok_def managed_pages_def)
  then have pa: "4096 dvd unat pa" "unat pa + 4096 * nat 1 \<le> 2 ^ 48" by (auto elim!: dvdE)
  have ok1: "pgd_ok s1 ?pgd" using P by simp
  have v: "vpn (mem_map_page k) = ?q" "?q + nat 1 \<le> 2 ^ 36"
    using vpn_mem_map_page [OF k] mem_map_vpn_less [OF k] by simp_all
  note E = early_map_spec [OF ok1 zero_less_one pa map_kernel_flags(1), of "mem_map_page k", unfolded v(1), OF v(2)]
  have c: "card (unused_pages ?s) = card (unused_pages s1) + 1"
    using card_Suc_Diff1 [of "unused_pages ?s" pa] P by (metis Suc_eq_plus1 finite_pages)
  show ?thesis
  proof (cases "early_map_page_range ?pgd (mem_map_page k) pa 1 MAP_KERNEL s1")
    case (Inl e)
    then have "(\<exists>q\<in>{?q..<?q + nat 1}. translation s1 ?pgd q \<noteq> None) \<or> card (unused_pages s1) < tables_needed 3 ?q (nat 1)"
      using E by simp
    then have "translation ?s ?pgd ?q \<noteq> None \<or> card (unused_pages s1) < 3"
      using P tables_for_one_page [of ?q] by auto
    then show ?thesis using c by (auto simp: map_physblock_page_def a early_map_def Inl)
  next
    case (Inr w)
    then obtain n s2 where m: "early_map_page_range ?pgd (mem_map_page k) pa 1 MAP_KERNEL s1 = Inr (n, s2)" by (cases w) auto
    have r: "map_physblock_page (mem_map_page k) b =
        Inr (b\<lparr>early_part := s2, phys_part := read_descriptors (mem s2) pa (mem_map_page k) (phys_part b)\<rparr>)"
      by (simp add: map_physblock_page_def a early_map_def m)
    have same: "same_tables (tables 3 (mem s2) ?pgd) (mem s1) (mem s2)"
      "tables 3 (mem s2) ?pgd = tables 3 (mem s1) ?pgd \<union> (unused_pages s1 - unused_pages s2)"
      using E unfolding m sum.case prod.case by blast+
    have "pa \<notin> tables 3 (mem s2) ?pgd" using same(2) P ok unfolding pgd_ok_def by blast
    then have z: "\<forall>i<512. entry (mem s2) pa i = 0" using same_tablesD [OF same(1)] P by simp
    have E': "pgd_ok s2 ?pgd" "unused_pages s2 \<subseteq> unused_pages s1"
      "card (unused_pages s1 - unused_pages s2) \<le> 3" "translation s1 ?pgd ?q = None" "table_frame s2 = table_frame s1"
      and x: "\<And>q. q < 2 ^ 36 \<Longrightarrow> translation s2 ?pgd q = (if q \<in> {?q..<?q + nat 1} \<and> translation s1 ?pgd q = None
        then Some (unat pa + 4096 * (q - ?q), map_flags_to_page_flags MAP_KERNEL) else translation s1 ?pgd q)"
      using E map_kernel_flags(2) tables_for_one_page [of ?q] unfolding m by simp_all
    have "card (unused_pages s1) = card (unused_pages s2) + card (unused_pages s1 - unused_pages s2)"
      using E'(2) by (simp add: card_Diff_subset finite_pages card_mono)
    then have c2: "card (unused_pages ?s) \<le> card (unused_pages s2) + 4" using E'(3) c by simp
    have q: "q \<in> {?q..<?q + nat 1} \<longleftrightarrow> q = ?q" for q by auto
    have "translation s2 ?pgd q = (if q = ?q then Some (unat pa, map_flags_to_page_flags MAP_KERNEL) else translation ?s ?pgd q)"
      if "q < 2 ^ 36" for q
      using x [OF that] E'(4) P unfolding q by auto
    moreover have "early_span_list s2 = early_span_list ?s" "managed_pages s2 = managed_pages ?s"
      "early_pages s2 EARLY_ALLOC_EPHEMERAL = early_pages ?s EARLY_ALLOC_EPHEMERAL"
      "early_pages s2 EARLY_ALLOC_PHYSBLOCK = insert pa (early_pages ?s EARLY_ALLOC_PHYSBLOCK)"
      using E'(5) P unfolding table_frame_def prod.inject by metis+
    moreover have "unused_pages s2 \<subseteq> unused_pages ?s" "pa \<in> unused_pages ?s" "translation ?s ?pgd ?q = None"
      using P E'(2,4) by auto
    ultimately show ?thesis
      unfolding r sum.case using E'(1) c2 z by (intro bexI [of _ pa] exI [of _ s2] conjI refl) blast+
  qed
qed

abbreviation unmapped :: "boot_state \<Rightarrow> nat \<Rightarrow> bool" where
  "unmapped b k \<equiv> translation (early_part b) (kernel_root_pgd b) (mem_map_vpn k) = None"

lemma mem_map_step:
  assumes I: "mem_map_inv b0 K b" and k: "k < 2 ^ 29"
  shows "case map_physblock_page (mem_map_page k) b of
      Inl e \<Rightarrow> k \<in> K \<or> \<not> unmapped b0 k \<or> card (unused_pages (early_part b0)) < 4 * (card K + 1)
    | Inr b' \<Rightarrow> k \<notin> K \<and> unmapped b0 k \<and> mem_map_inv b0 (insert k K) b'"
proof -
  note D = mem_map_invD [OF I]
  let ?pgd = "kernel_root_pgd b0" and ?s = "early_part b"
  have same: "unmapped b k \<longleftrightarrow> k \<notin> K \<and> unmapped b0 k"
    using D(6) [of k] D(7) [OF mem_map_vpn_less [OF k]] unfolding D(2) by (cases "k \<in> K") (simp_all add: image_iff)
  note C = map_physblock_page_cases [of b k, unfolded D(2), OF D(3) k]
  show ?thesis
  proof (cases "map_physblock_page (mem_map_page k) b")
    case (Inl e)
    then have "\<not> unmapped b k \<or> card (unused_pages ?s) < 4" using C D(2) by simp
    moreover have "card (unused_pages (early_part b0)) < 4 * (card K + 1)" if "card (unused_pages ?s) < 4"
      using D(5) that by simp
    ultimately show ?thesis unfolding Inl sum.case same by argo
  next
    case (Inr b')
    obtain pa s where s: "unmapped b k" "b' = b\<lparr>early_part := s, phys_part := read_descriptors (mem s) pa (mem_map_page k) (phys_part b)\<rparr>"
      "pgd_ok s ?pgd" "early_span_list s = early_span_list ?s" "managed_pages s = managed_pages ?s"
      "early_pages s EARLY_ALLOC_EPHEMERAL = early_pages ?s EARLY_ALLOC_EPHEMERAL"
      "early_pages s EARLY_ALLOC_PHYSBLOCK = insert pa (early_pages ?s EARLY_ALLOC_PHYSBLOCK)"
      "unused_pages s \<subseteq> unused_pages ?s" "card (unused_pages ?s) \<le> card (unused_pages s) + 4"
      "\<And>q. q < 2 ^ 36 \<Longrightarrow> translation s ?pgd q = (if q = mem_map_vpn k then Some (unat pa, map_flags_to_page_flags MAP_KERNEL)
           else translation ?s ?pgd q)"
      and z: "\<forall>i<512. entry (mem s) pa i = 0"
      using C D(2) unfolding Inr sum.case by metis
    have k': "k \<notin> K" "unmapped b0 k" using s(1) same by simp_all
    then have c: "card (insert k K) = card K + 1" using D(1) by simp
    obtain mm where mm: "phys_part b = (phys_part b0)\<lparr>blocks := mm\<rparr>"
      "\<forall>p. unat p < 2 ^ 36 \<and> unat p div 128 \<in> K \<longrightarrow> blocks (phys_part b) p = zero_physblock"
      using I unfolding mem_map_inv_def Let_def by auto
    have ph: "\<exists>mm. phys_part b' = (phys_part b0)\<lparr>blocks := mm\<rparr> \<and>
        (\<forall>p. unat p < 2 ^ 36 \<and> unat p div 128 \<in> insert k K \<longrightarrow> mm p = zero_physblock)"
      using mm(1) by (intro exI [of _ "blocks (phys_part b')"])
        (use mm(2) in \<open>auto simp: s(2) read_zero_descriptors [OF z k], simp add: read_descriptors_def\<close>)
    have x: "\<exists>pa\<in>early_pages s EARLY_ALLOC_PHYSBLOCK.
        translation s ?pgd (mem_map_vpn j) = Some (unat pa, map_flags_to_page_flags MAP_KERNEL)" if "j \<in> insert k K" for j
    proof (cases "j = k")
      case True
      then show ?thesis using s(7,10) mem_map_vpn_less [OF k] by auto
    next
      case False
      then have "j \<in> K" using that by simp
      moreover from this have "mem_map_vpn j < 2 ^ 36" by (intro mem_map_vpn_less D(8))
      ultimately have "translation s ?pgd (mem_map_vpn j) = translation ?s ?pgd (mem_map_vpn j)" using s(10) False by simp
      moreover obtain pb where "pb \<in> early_pages ?s EARLY_ALLOC_PHYSBLOCK"
        "translation ?s ?pgd (mem_map_vpn j) = Some (unat pb, map_flags_to_page_flags MAP_KERNEL)"
        using I \<open>j \<in> K\<close> unfolding mem_map_inv_def Let_def by blast
      ultimately show ?thesis using s(7) by auto
    qed
    have y: "translation s ?pgd q = translation (early_part b0) ?pgd q" if "q < 2 ^ 36" "q \<notin> mem_map_vpn ` insert k K" for q
      using that s(10) D(7) by simp
    have e: "early_part b' = s" by (simp add: s(2))
    note J = I [unfolded mem_map_inv_def Let_def]
    have "mem_map_inv b0 (insert k K) b'"
      unfolding mem_map_inv_def Let_def e
    proof (intro conjI)
      show "insert k K \<subseteq> {..<2 ^ 29}" using D(8) k by auto
      show "unused_pages s \<subseteq> unused_pages (early_part b0)" using J s(8) by blast
      show "card (unused_pages (early_part b0)) \<le> card (unused_pages s) + 4 * card (insert k K)"
        using D(5) s(9) c by linarith
    qed (use J s(3-6) x y ph D(2) s(2) in \<open>simp_all\<close>)
    then show ?thesis using k' Inr by simp
  qed
qed

text \<open>
  The pages \<open>ks\<close>, in this order, after the pages \<open>K\<close>: none of them mapped twice or before.
\<close>

definition mappable :: "boot_state \<Rightarrow> nat set \<Rightarrow> nat list \<Rightarrow> bool" where
  "mappable b0 K ks \<longleftrightarrow> distinct ks \<and> set ks \<inter> K = {} \<and> (\<forall>k\<in>set ks. unmapped b0 k)"

definition mapping_result :: "boot_state \<Rightarrow> nat set \<Rightarrow> nat list \<Rightarrow> boot_state result \<Rightarrow> bool" where
  "mapping_result b0 K ks r \<longleftrightarrow>
     (case r of
        Inl e \<Rightarrow> \<not> mappable b0 K ks \<or> card (unused_pages (early_part b0)) < 4 * (card K + length ks)
      | Inr b \<Rightarrow> mappable b0 K ks \<and> mem_map_inv b0 (K \<union> set ks) b)"

lemma mapping_append:
  assumes "finite K" "mapping_result b0 K ks r"
    and "\<And>b. r = Inr b \<Longrightarrow> mem_map_inv b0 (K \<union> set ks) b \<Longrightarrow> mapping_result b0 (K \<union> set ks) ks' (f b)"
  shows "mapping_result b0 K (ks @ ks') (rbind r f)"
proof (cases r)
  case (Inl e)
  then show ?thesis using assms(2) by (auto simp: mapping_result_def mappable_def)
next
  case (Inr b)
  have m: "mappable b0 K ks" "mem_map_inv b0 (K \<union> set ks) b" using assms(2) Inr by (simp_all add: mapping_result_def)
  then have c: "card (K \<union> set ks) = card K + length ks"
    using assms(1) by (simp add: card_Un_disjoint mappable_def distinct_card Int_commute)
  have "mappable b0 K (ks @ ks') \<longleftrightarrow> mappable b0 (K \<union> set ks) ks'" using m(1) by (auto simp: mappable_def)
  then show ?thesis
    using assms(3) [OF Inr m(2)] Inr c by (simp add: mapping_result_def Un_assoc add.assoc split: sum.splits)
qed

lemma mapping_one:
  assumes "mem_map_inv b0 K b" "k < 2 ^ 29"
  shows "mapping_result b0 K [k] (map_physblock_page (mem_map_page k) b)"
  using mem_map_step [OF assms] by (auto simp: mapping_result_def mappable_def split: sum.splits)

lemma mapping_none: "mem_map_inv b0 K b \<Longrightarrow> mapping_result b0 K [] (Inr b)"
  by (simp add: mapping_result_def mappable_def)

lemma mapping_pages:
  assumes "mem_map_inv b0 K b" "\<forall>k\<in>set ks. k < 2 ^ 29"
  shows "mapping_result b0 K ks (rfold (\<lambda>k. map_physblock_page (mem_map_page k)) ks b)"
  using assms
proof (induction ks arbitrary: K b)
  case Nil
  then show ?case by (simp add: mapping_none)
next
  case (Cons k ks)
  have "mapping_result b0 K ([k] @ ks)
      (rbind (map_physblock_page (mem_map_page k) b) (rfold (\<lambda>k. map_physblock_page (mem_map_page k)) ks))"
    using Cons mapping_one [OF Cons.prems(1), of k] mem_map_invD(1) [OF Cons.prems(1)] by (intro mapping_append) auto
  then show ?case by simp
qed

text \<open>All spans below 2 to the 48, as page tables can address.\<close>

definition spans_low :: "early_state \<Rightarrow> bool" where
  "spans_low s \<longleftrightarrow> (\<forall>i < span_count s. span_end (span_at s i) \<le> 2 ^ 48)"

lemma descriptor_pages_low:
  assumes "unat start + unat n * 4096 \<le> 2 ^ 48" "k \<in> set (descriptor_pages (start, n))"
  shows "k < 2 ^ 29"
proof -
  have "unat start div 4096 * 4096 \<le> unat start" by (rule div_times_less_eq_dividend)
  then have "unat start div 4096 + unat n \<le> 2 ^ 36" using assms(1) by simp
  moreover have "k < (unat start div 4096 + unat n + 127) div 128" using assms(2) by (simp add: descriptor_pages_def Let_def)
  ultimately show ?thesis by simp
qed

definition array_pages :: "early_state \<Rightarrow> nat list" where
  "array_pages s = concat (map descriptor_pages (early_span_list s))"

lemma mapping_spans:
  assumes "mem_map_inv b0 K b" "\<forall>i\<in>set is. i < span_count (early_part b0)" "spans_low (early_part b0)" "spans_ok (early_part b0)"
  defines "sp \<equiv> \<lambda>i. (es_start (span_at (early_part b0) i), es_num_pages (span_at (early_part b0) i))"
  shows "mapping_result b0 K (concat (map (\<lambda>i. descriptor_pages (sp i)) is))
    (rfold (\<lambda>i b. alloc_map_physblock (es_start (span_at (early_part b) i)) (es_num_pages (span_at (early_part b) i)) b) is b)"
  using assms(1,2)
proof (induction "is" arbitrary: K b)
  case Nil
  then show ?case by (simp add: mapping_none)
next
  case (Cons i "is")
  let ?start = "early_part b0" and ?s = "early_part b"
  have i: "i < span_count ?start" using Cons.prems(2) by simp
  have len: "span_count ?s = span_count ?start"
    using arg_cong [where f = length, OF mem_map_invD(4) [OF Cons.prems(1)]] by (simp add: early_span_list_def)
  have nth: "early_span_list ?s ! i = early_span_list ?start ! i"
    using mem_map_invD(4) [OF Cons.prems(1)] by simp
  then have e: "(es_start (span_at ?s i), es_num_pages (span_at ?s i)) = sp i"
    using i len by (simp add: early_span_list_def sp_def)
  have low: "unat (fst (sp i)) + unat (snd (sp i)) * 4096 \<le> 2 ^ 48" and al: "4096 dvd unat (fst (sp i))"
    using assms(3,4) i by (simp_all add: spans_low_def spans_ok_def span_ok_def span_end_def sp_def)
  have one: "alloc_map_physblock (es_start (span_at ?s i)) (es_num_pages (span_at ?s i)) b =
      rfold (\<lambda>k. map_physblock_page (mem_map_page k)) (descriptor_pages (sp i)) b"
    using alloc_map_physblock_pages [OF low al] e by (simp add: prod_eq_iff)
  have "mapping_result b0 K (descriptor_pages (sp i)) (rfold (\<lambda>k. map_physblock_page (mem_map_page k)) (descriptor_pages (sp i)) b)"
    using mapping_pages [OF Cons.prems(1)] descriptor_pages_low [OF low] by (simp add: sp_def)
  then show ?case
    using Cons.IH Cons.prems mem_map_invD(1) [OF Cons.prems(1)] by (simp add: one mapping_append)
qed

section \<open>Both passes\<close>

lemma first_pass:
  assumes "pgd_ok (early_part b) (kernel_root_pgd b)" "spans_low (early_part b)"
  shows "mapping_result b {} (array_pages (early_part b))
    (rfold (\<lambda>i b. alloc_map_physblock (es_start (span_at (early_part b) i)) (es_num_pages (span_at (early_part b) i)) b)
      [0..<span_count (early_part b)] b)"
proof -
  have "mem_map_inv b {} b"
    using assms(1) by (auto simp: mem_map_inv_def intro!: exI [of _ "blocks (phys_part b)"])
  moreover have "spans_ok (early_part b)" using assms(1) early_invD(1) by (simp add: pgd_ok_def early_ok_def)
  ultimately show ?thesis
    using mapping_spans [of b "{}" b "[0..<span_count (early_part b)]"] assms(2)
    by (simp add: array_pages_def early_span_list_def comp_def)
qed

lemma page_in_array:
  assumes "spans_ok s" "spans_low s" "pa \<in> managed_pages s"
  shows "unat (phys_to_pfn pa) < 2 ^ 36" "unat (phys_to_pfn pa) div 128 \<in> set (array_pages s)"
proof -
  obtain i where i: "4096 dvd unat pa" "find_span s pa = Some i" using assms(3) by (auto simp: managed_pages_def)
  have f: "i < span_count s" "unat (es_start (span_at s i)) \<le> unat pa" "unat pa < span_end (span_at s i)"
    using i(2) by (simp_all add: find_span_Some [OF assms(1)])
  have "4096 dvd unat (es_start (span_at s i))" "span_end (span_at s i) \<le> 2 ^ 48"
    using assms(1,2) f(1) by (simp_all add: spans_ok_def span_ok_def spans_low_def)
  then obtain p q where pq: "unat (es_start (span_at s i)) = 4096 * p" "unat pa = 4096 * q" using i(1) by (auto elim!: dvdE)
  have b: "p \<le> q" "q < p + unat (es_num_pages (span_at s i))" "p + unat (es_num_pages (span_at s i)) \<le> 2 ^ 36"
    using f(2,3) pq \<open>span_end (span_at s i) \<le> 2 ^ 48\<close> by (simp_all add: span_end_def)
  have u: "unat (phys_to_pfn pa) = q" using pq(2) by (simp add: phys_to_pfn_def unat_drop_bit)
  show "unat (phys_to_pfn pa) < 2 ^ 36" using b u by simp
  have "p div 128 \<le> q div 128" "q div 128 < (p + unat (es_num_pages (span_at s i)) + 127) div 128" using b by auto
  then have "q div 128 \<in> set (descriptor_pages (es_start (span_at s i), es_num_pages (span_at s i)))"
    using pq(1) by (simp add: descriptor_pages_def Let_def)
  then show "unat (phys_to_pfn pa) div 128 \<in> set (array_pages s)"
    using f(1) u by (auto simp: array_pages_def early_span_list_def)
qed

text \<open>What early boot has to keep, and the physical allocator finds in use.\<close>

definition kept_pages :: "early_state \<Rightarrow> physaddr_t set" where
  "kept_pages s = early_pages s EARLY_ALLOC_NORMAL - early_pages s EARLY_ALLOC_EPHEMERAL"

definition kept_type :: "early_state \<Rightarrow> physaddr_t \<Rightarrow> u32" where
  "kept_type s pa =
     (if pa \<in> early_pages s EARLY_ALLOC_PAGETABLE then PHYSBLOCK_PAGETABLE
      else if pa \<in> early_pages s EARLY_ALLOC_PHYSBLOCK then PHYSBLOCK_PHYSBLOCK
      else PHYSBLOCK_KERNEL OR PHYSBLOCK_MOVABLE)"

lemma kept_managed: "kept_pages s \<subseteq> managed_pages s"
  by (auto simp: kept_pages_def early_pages_def managed_pages_def)

lemma second_pass:
  assumes "early_inv s" "recorded s (early_span_list s) {} ps0"
  shows "\<exists>ps1 ps. rfold (\<lambda>i. init_physblock_span s (span_at s i)) [0..<span_count s] ps0 = Inr ps1 \<and>
    phys_alloc_init ps1 = Inr ps \<and> phys_inv ps \<and>
    free_pages ps = phys_to_pfn ` (managed_pages s - kept_pages s) \<and>
    dom (in_use ps) = phys_to_pfn ` kept_pages s \<and>
    (\<forall>pa\<in>kept_pages s. in_use ps (phys_to_pfn pa) = Some (0, kept_type s pa, 1))"
proof -
  obtain ps1 where ps1: "rfold (\<lambda>i. init_physblock_span s (span_at s i)) [0..<span_count s] ps0 = Inr ps1"
    "recorded s (early_span_list s) (managed_pages s) ps1"
    using record_all [OF assms] by blast
  obtain mm h where mm: "ps1 = phys_alloc_init_state mm h (early_span_list s)"
    "\<And>pa. pa \<in> managed_pages s \<Longrightarrow> mm (phys_to_pfn pa) = early_descriptor s pa"
    using ps1(2) by (auto simp: recorded_def)
  note W = early_spans_wf [OF early_invD(1) [OF assms(1)], of mm h]
  have fr: "fresh_block (mm p)" if "p \<in> managed (phys_alloc_init_state mm h (early_span_list s))" for p
    using that mm(2) early_descriptor_fresh(1) unfolding W(2) by auto
  obtain ps where ps: "phys_alloc_init ps1 = Inr ps" "phys_inv ps"
    "free_pages ps = {p \<in> phys_to_pfn ` managed_pages s. type_kind (mm p) = PHYSBLOCK_UNMANAGED}"
    "in_use ps = (\<lambda>p. if p \<in> phys_to_pfn ` managed_pages s \<and> type_kind (mm p) \<noteq> PHYSBLOCK_UNMANAGED
      then Some (0, blk_type (mm p), refcount (mm p)) else None)"
    using init_correct [OF W(1) fr] unfolding mm(1) [symmetric] W(2) [folded mm(1)] by blast
  have k: "type_kind (mm (phys_to_pfn pa)) = PHYSBLOCK_UNMANAGED \<longleftrightarrow> pa \<notin> kept_pages s" if "pa \<in> managed_pages s" for pa
    unfolding mm(2) [OF that] early_descriptor_fresh(2) by (auto simp: kept_pages_def)
  have "in_use ps (phys_to_pfn pa) = Some (0, kept_type s pa, 1)" if "pa \<in> kept_pages s" for pa
  proof -
    have m: "pa \<in> managed_pages s" using that kept_managed by blast
    have "in_use ps (phys_to_pfn pa) = Some (0, blk_type (early_descriptor s pa), refcount (early_descriptor s pa))"
      using m that k [OF m] mm(2) [OF m] by (simp add: ps(4))
    then show ?thesis using that by (simp add: early_descriptor_def kept_pages_def kept_type_def)
  qed
  moreover have "free_pages ps = phys_to_pfn ` (managed_pages s - kept_pages s)" using k by (auto simp: ps(3))
  moreover have "dom (in_use ps) = phys_to_pfn ` kept_pages s"
    using k kept_managed by (auto simp: ps(4) dom_def split: if_splits)
  ultimately show ?thesis using ps1(1) ps(1,2) by blast
qed

lemma memory_map_built:
  assumes "pgd_ok (early_part b) (kernel_root_pgd b)" "spans_low (early_part b)"
    and ph: "phys_part b = phys_alloc_init_state mm h (early_span_list (early_part b))"
  shows "case early_init_mem_map b of
      Inl e \<Rightarrow> \<not> mappable b {} (array_pages (early_part b)) \<or>
        card (unused_pages (early_part b)) < 4 * length (array_pages (early_part b))
    | Inr b' \<Rightarrow> mappable b {} (array_pages (early_part b)) \<and>
        (\<exists>b1. mem_map_inv b (set (array_pages (early_part b))) b1 \<and> early_part b' = early_part b1) \<and>
        (\<exists>ps. phys_alloc_init (phys_part b') = Inr ps \<and> phys_inv ps \<and>
          free_pages ps = phys_to_pfn ` (managed_pages (early_part b') - kept_pages (early_part b')) \<and>
          dom (in_use ps) = phys_to_pfn ` kept_pages (early_part b') \<and>
          (\<forall>pa\<in>kept_pages (early_part b').
             in_use ps (phys_to_pfn pa) = Some (0, kept_type (early_part b') pa, 1)))"
proof -
  let ?s = "early_part b" and ?loop = "rfold (\<lambda>i b. alloc_map_physblock (es_start (span_at (early_part b) i))
    (es_num_pages (span_at (early_part b) i)) b) [0..<span_count (early_part b)] b"
  note F = first_pass [OF assms(1,2)]
  show ?thesis
  proof (cases ?loop)
    case (Inl e)
    then show ?thesis using F by (simp add: early_init_mem_map_def mapping_result_def)
  next
    case (Inr b1)
    have m: "mappable b {} (array_pages ?s)" "mem_map_inv b (set (array_pages ?s)) b1"
      using F Inr by (simp_all add: mapping_result_def)
    let ?s1 = "early_part b1"
    have l: "early_span_list ?s1 = early_span_list ?s" "managed_pages ?s1 = managed_pages ?s" "early_inv ?s1" "spans_ok ?s"
      using m(2) assms(1) early_invD(1) by (auto simp: mem_map_inv_def Let_def pgd_ok_def early_ok_def)
    obtain mm1 where mm1: "phys_part b1 = (phys_part b)\<lparr>blocks := mm1\<rparr>"
      "\<And>p. unat p < 2 ^ 36 \<Longrightarrow> unat p div 128 \<in> set (array_pages ?s) \<Longrightarrow> mm1 p = zero_physblock"
      using m(2) unfolding mem_map_inv_def Let_def by blast
    have "phys_part b1 = phys_alloc_init_state mm1 h (early_span_list ?s1)"
      unfolding mm1(1) ph l(1) by (simp add: phys_alloc_init_state_def)
    moreover have "mm1 (phys_to_pfn pa) = zero_physblock" if "pa \<in> managed_pages ?s1" for pa
      using page_in_array [OF l(4) assms(2)] that mm1(2) unfolding l(2) by blast
    ultimately have "recorded ?s1 (early_span_list ?s1) {} (phys_part b1)" by (auto simp: recorded_def)
    from second_pass [OF l(3) this] obtain ps1 ps where
      "rfold (\<lambda>i. init_physblock_span ?s1 (span_at ?s1 i)) [0..<span_count ?s1] (phys_part b1) = Inr ps1"
      and P: "phys_alloc_init ps1 = Inr ps \<and> phys_inv ps \<and> free_pages ps = phys_to_pfn ` (managed_pages ?s1 - kept_pages ?s1) \<and>
        dom (in_use ps) = phys_to_pfn ` kept_pages ?s1 \<and>
        (\<forall>pa\<in>kept_pages ?s1. in_use ps (phys_to_pfn pa) = Some (0, kept_type ?s1 pa, 1))"
      by blast
    then have r: "early_init_mem_map b = Inr (b1\<lparr>phys_part := ps1\<rparr>)" by (simp add: early_init_mem_map_def Inr)
    show ?thesis unfolding r sum.case using m P by auto
  qed
qed

section \<open>An example: two spans of sixteen pages\<close>

definition span_from :: "physaddr_t \<Rightarrow> u64 \<Rightarrow> early_page_alloc_span" where
  "span_from a p = \<lparr>es_start = a, es_num_pages = 16, es_num_allocated_pages = 0, alloc_bitmap = p,
     ephemeral_bitmap = p + 1, pagetable_bitmap = p + 2, physblock_bitmap = p + 3\<rparr>"

definition two_spans :: "physaddr_t \<Rightarrow> physaddr_t \<Rightarrow> early_state" where
  "two_spans a b = blank_state\<lparr>
     alloc_state := zero_alloc_state\<lparr>ea_num_spans := 2, ea_spans := (\<lambda>i. if i = 0 then span_from a 0 else span_from b 4)\<rparr>,
     bitmaps := (\<lambda>_. bitmap_init \<lparr>num_bits = 0, num_words = 0, data = (\<lambda>_. 0)\<rparr> 16)\<rparr>"

lemma two_spans_fields:
  "span_count (two_spans a b) = 2" "span_at (two_spans a b) 0 = span_from a 0" "span_at (two_spans a b) (Suc 0) = span_from b 4"
  "map_of_kind (two_spans a b) i k = bitmap_init \<lparr>num_bits = 0, num_words = 0, data = (\<lambda>_. 0)\<rparr> 16"
  "early_span_list (two_spans a b) = [(a, 16), (b, 16)]"
  by (simp_all add: two_spans_def c_int_def map_of_kind_def early_span_list_def upt_rec span_from_def)

lemma two_spans_ok:
  assumes "4096 dvd unat a" "4096 dvd unat b" "unat a + 0x10000 \<le> unat b" "unat b + 0x10000 \<le> 2 ^ 48"
  shows "early_ok (two_spans a b)" "spans_low (two_spans a b)" "16 \<le> card (unused_pages (two_spans a b))"
proof -
  let ?s = "two_spans a b" and ?bm = "\<lparr>num_bits = 0, num_words = 0, data = (\<lambda>_. 0)\<rparr> :: bitmap"
  have two: "i = 0 \<or> i = 1" if "i < span_count ?s" for i using that by (auto simp: two_spans_fields)
  have ends: "span_end (span_from x p) = unat x + 0x10000" "es_start (span_from x p) = x" for x p
    by (simp_all add: span_end_def span_from_def)
  have sp: "span_at ?s i = (if i = 0 then span_from a 0 else span_from b 4)" if "i < span_count ?s" for i
    using two [OF that] two_spans_fields by auto
  have inj: "ptr_of k (span_at ?s i) = ptr_of l (span_at ?s j) \<longrightarrow> i = j \<and> k = l" if "i < span_count ?s" "j < span_count ?s" for i j k l
    using two [OF that(1)] two [OF that(2)] by (cases k; cases l; auto simp: two_spans_fields span_from_def)
  have ok: "span_ok (span_from x p)" if "x \<in> {a, b}" for x p
    using that assms by (auto simp: span_ok_def ends) (auto simp: span_from_def)
  have so: "spans_ok ?s"
  proof (unfold spans_ok_def, intro conjI allI impI)
    fix i j k l
    assume i: "i < span_count ?s"
    show "span_ok (span_at ?s i)" using ok sp [OF i] by simp
    assume j: "j < span_count ?s"
    show "{unat (es_start (span_at ?s i))..<span_end (span_at ?s i)} \<inter> {unat (es_start (span_at ?s j))..<span_end (span_at ?s j)} = {}"
      if "i \<noteq> j"
      unfolding sp [OF i] sp [OF j] using two [OF i] two [OF j] that assms(3) by (auto simp: ends)
    assume "ptr_of k (span_at ?s i) = ptr_of l (span_at ?s j)"
    then show "i = j" "k = l" using inj [OF i j] by blast+
  qed
  note B = bitmap_init_facts [of 16 ?bm]
  have mo: "maps_ok ?s i" if "i < span_count ?s" for i
    unfolding maps_ok_def two_spans_fields using B sp [OF that] by (simp add: span_from_def)
  have co: "counter k (alloc_state ?s) = 0" for k by (cases k) (simp_all add: two_spans_def zero_alloc_state_def)
  have inv: "early_inv ?s"
    unfolding early_inv_def two_spans_fields using so mo co B by (simp add: two_spans_fields)
  show low: "spans_low ?s" unfolding spans_low_def using sp assms by (auto simp: ends)
  have un: "early_pages ?s k = {}" for k using B by (auto simp: early_pages_def two_spans_fields)
  have "unat pa < 2 ^ 48" if "pa \<in> managed_pages ?s" for pa
  proof -
    obtain i where "i < span_count ?s" "unat pa < span_end (span_at ?s i)"
      using \<open>pa \<in> managed_pages ?s\<close> find_span_Some [OF so] unfolding managed_pages_def by blast
    then show ?thesis using low unfolding spans_low_def by fastforce
  qed
  then show "early_ok ?s" using inv by (simp add: early_ok_def)
  have "card (set (span_pages ?s 0)) = 16"
    using distinct_card [OF distinct_span_pages [OF so, of 0]] by (simp add: two_spans_fields span_pages_def span_from_def)
  moreover have "set (span_pages ?s 0) \<subseteq> unused_pages ?s"
    unfolding un managed_span_pages [OF so] two_spans_fields
    using UN_upper [of 0 "{..<2}" "\<lambda>i. set (span_pages ?s i)"] by simp
  ultimately show "16 \<le> card (unused_pages ?s)" using card_mono [OF finite_pages] by metis
qed

text \<open>A boot state on two spans, with an empty page table as the kernel's root.\<close>

lemma two_spans_booted:
  assumes "4096 dvd unat a" "4096 dvd unat c" "unat a + 0x10000 \<le> unat c" "unat c + 0x10000 \<le> 2 ^ 48"
  shows "\<exists>b. pgd_ok (early_part b) (kernel_root_pgd b) \<and> spans_low (early_part b) \<and>
    phys_part b = phys_alloc_init_state small_map empty_nodes [(a, 16), (c, 16)] \<and>
    early_span_list (early_part b) = [(a, 16), (c, 16)] \<and>
    (\<forall>k. unmapped b k) \<and> 15 \<le> card (unused_pages (early_part b)) \<and> managed_pages (early_part b) \<noteq> {}"
proof -
  let ?s = "two_spans a c"
  note T = two_spans_ok [OF assms]
  have ne: "unused_pages ?s \<noteq> {}" using T(3) by (metis card.empty not_numeral_le_zero)
  then obtain pgd s where al: "early_alloc_pgd ?s = Inr (pgd, s)"
    using pagetable_alloc_fails [OF T(1)] by (cases "early_pagetable_alloc ?s") (auto simp: early_alloc_pgd_def)
  note N = early_new_pgd [OF T(1) al]
  have P: "pgd \<in> unused_pages ?s" "table_frame s = table_frame ?s"
    using pagetable_alloc_spec [OF T(1) al [unfolded early_alloc_pgd_def]] by blast+
  have l: "early_span_list s = [(a, 16), (c, 16)]" using P(2) by (simp add: table_frame_def two_spans_fields)
  have "Suc (card (unused_pages s)) = card (unused_pages ?s)"
    unfolding N(4) using P(1) finite_pages by (rule card_Suc_Diff1 [rotated])
  then have u: "15 \<le> card (unused_pages s)" using T(3) by simp
  have cnt: "span_count s = 2" using arg_cong [where f = length, OF l] by (simp add: early_span_list_def)
  have "spans_low s"
    unfolding spans_low_def cnt
  proof (intro allI impI)
    fix i
    assume "i < (2 :: nat)"
    then have "early_span_list s ! i = (es_start (span_at s i), es_num_pages (span_at s i))" using cnt by (simp add: early_span_list_def)
    then show "span_end (span_at s i) \<le> 2 ^ 48"
      using \<open>i < 2\<close> assms(3,4) unfolding l span_end_def by (auto simp: less_2_cases_iff)
  qed
  moreover have "managed_pages s \<noteq> {}" using N(5) ne by blast
  ultimately show ?thesis
    using N(1,3) l u
    by (intro exI [of _ "\<lparr>early_part = s, phys_part = phys_alloc_init_state small_map empty_nodes [(a, 16), (c, 16)],
      global_part = zero_global, kernel_root_pgd = pgd, cr3 = pgd\<rparr>"]) simp
qed

section \<open>Properties\<close>

text \<open>
  C1: The hand-over of memory to the physical allocator. Given a proper page table, spans below
  2 to the 48 of which no two have descriptors in the same page, none of those pages mapped
  yet, and four free pages for each of them, \<^verbatim>\<open>early_init_mem_map()\<close> returns; every page of the
  descriptor array is then mapped to a page recorded as one of descriptors; and
  \<^verbatim>\<open>phys_alloc_init()\<close> after it returns in a state that satisfies its invariant, in which exactly
  the pages early boot does not have to keep (never allocated, or ephemeral) are free, and
  every other page is in use once, at order 0, with the type it was allocated for.
\<close>

theorem early_init_mem_map_hands_over:
  assumes "pgd_ok (early_part b) (kernel_root_pgd b)" and "spans_low (early_part b)"
    and "phys_part b = phys_alloc_init_state mm h (early_span_list (early_part b))"
  defines "pages \<equiv> array_pages (early_part b)"
  assumes "distinct pages" and "\<And>k. k \<in> set pages \<Longrightarrow> unmapped b k"
    and "4 * length pages \<le> card (unused_pages (early_part b))"
  shows "\<exists>b' ps. early_init_mem_map b = Inr b' \<and> phys_alloc_init (phys_part b') = Inr ps \<and>
    (let s = early_part b'
     in pgd_ok s (kernel_root_pgd b) \<and> managed_pages s = managed_pages (early_part b) \<and>
        (\<forall>k\<in>set pages. \<exists>pa\<in>early_pages s EARLY_ALLOC_PHYSBLOCK.
           translation s (kernel_root_pgd b) (mem_map_vpn k) = Some (unat pa, map_flags_to_page_flags MAP_KERNEL)) \<and>
        phys_inv ps \<and> free_pages ps = phys_to_pfn ` (managed_pages s - kept_pages s) \<and>
        dom (in_use ps) = phys_to_pfn ` kept_pages s \<and>
        (\<forall>pa\<in>kept_pages s. in_use ps (phys_to_pfn pa) = Some (0, kept_type s pa, 1)))"
proof (cases "early_init_mem_map b")
  case (Inl e)
  have "mappable b {} pages" using assms(5,6) by (auto simp: mappable_def pages_def)
  with Inl memory_map_built [OF assms(1-3)] assms(7) show ?thesis by (simp add: pages_def)
next
  case (Inr b')
  then obtain b1 ps where M: "mem_map_inv b (set pages) b1" "early_part b' = early_part b1"
    and ps: "phys_alloc_init (phys_part b') = Inr ps" "phys_inv ps"
      "free_pages ps = phys_to_pfn ` (managed_pages (early_part b') - kept_pages (early_part b'))"
      "dom (in_use ps) = phys_to_pfn ` kept_pages (early_part b')"
      "\<And>pa. pa \<in> kept_pages (early_part b') \<Longrightarrow> in_use ps (phys_to_pfn pa) = Some (0, kept_type (early_part b') pa, 1)"
    using memory_map_built [OF assms(1-3)] by (auto simp: pages_def)
  show ?thesis
    using Inr ps M(1) unfolding mem_map_inv_def Let_def M(2) [symmetric]
    by (intro exI [of _ b'] exI [of _ ps] conjI ballI) (assumption | blast)+
qed

theorem early_init_mem_map_hands_over_witness:
  "\<exists>b b' ps. early_span_list (early_part b) = [(0x100000, 16), (0x200000, 16)] \<and>
     early_init_mem_map b = Inr b' \<and> phys_alloc_init (phys_part b') = Inr ps \<and> phys_inv ps \<and>
     free_pages ps = phys_to_pfn ` (managed_pages (early_part b') - kept_pages (early_part b'))"
proof -
  obtain b where b: "pgd_ok (early_part b) (kernel_root_pgd b)" "spans_low (early_part b)"
    "phys_part b = phys_alloc_init_state small_map empty_nodes [(0x100000, 16), (0x200000, 16)]"
    "early_span_list (early_part b) = [(0x100000, 16), (0x200000, 16)]" "\<And>k. unmapped b k"
    "15 \<le> card (unused_pages (early_part b))"
    using two_spans_booted [of "0x100000" "0x200000"] by auto
  have pages: "array_pages (early_part b) = [2, 4]"
    by (simp add: array_pages_def b(4) descriptor_pages_def upt_rec)
  have "\<exists>b' ps. early_init_mem_map b = Inr b' \<and> phys_alloc_init (phys_part b') = Inr ps \<and> phys_inv ps \<and>
     free_pages ps = phys_to_pfn ` (managed_pages (early_part b') - kept_pages (early_part b'))"
    using early_init_mem_map_hands_over [OF b(1,2) b(3) [folded b(4)]] b(5,6) unfolding pages Let_def by fastforce
  with b(4) show ?thesis by blast
qed

text \<open>
  C35: Spans whose descriptors share a page. The pages of the descriptor array are mapped span
  by span without skipping what is mapped already, so when two spans have descriptors in the
  same page of the array, \<^verbatim>\<open>early_init_mem_map()\<close> does not return: boot halts.
\<close>

theorem early_init_mem_map_shared_page:
  assumes "pgd_ok (early_part b) (kernel_root_pgd b)" and "spans_low (early_part b)"
    and "i < j" and "j < length (early_span_list (early_part b))"
    and "k \<in> set (descriptor_pages (early_span_list (early_part b) ! i))"
    and "k \<in> set (descriptor_pages (early_span_list (early_part b) ! j))"
  shows "\<exists>e. early_init_mem_map b = Inl e"
proof -
  let ?l = "map descriptor_pages (early_span_list (early_part b))"
  have "\<not> distinct (concat ?l)"
  proof
    assume d: "distinct (concat ?l)"
    have "?l = take j ?l @ ?l ! j # drop (Suc j) ?l" using assms(4) by (intro id_take_nth_drop) simp
    from arg_cong [where f = concat, OF this] d
    have "distinct (concat (take j ?l) @ ?l ! j @ concat (drop (Suc j) ?l))" by (simp only: concat_append concat.simps)
    then have e: "set (concat (take j ?l)) \<inter> set (?l ! j) = {}" by (simp only: distinct_append set_append) blast
    have "?l ! i = take j ?l ! i" "i < length (take j ?l)" using assms(3,4) by simp_all
    then have "?l ! i \<in> set (take j ?l)" using nth_mem by metis
    moreover have "k \<in> set (?l ! i)" "k \<in> set (?l ! j)" using assms(3-6) by simp_all
    ultimately show False using e unfolding set_concat by blast
  qed
  then have "\<not> mappable b {} (array_pages (early_part b))" by (simp add: mappable_def array_pages_def)
  with first_pass [OF assms(1,2)]
  obtain e where "rfold (\<lambda>i b. alloc_map_physblock (es_start (span_at (early_part b) i)) (es_num_pages (span_at (early_part b) i)) b)
      [0..<span_count (early_part b)] b = Inl e"
    by (auto simp: mapping_result_def split: sum.splits)
  then show ?thesis by (simp add: early_init_mem_map_def)
qed

theorem early_init_mem_map_shared_page_witness:
  "\<exists>b e. early_span_list (early_part b) = [(0x100000, 16), (0x120000, 16)] \<and> early_init_mem_map b = Inl e"
proof -
  obtain b :: boot_state where b: "pgd_ok (early_part b) (kernel_root_pgd b)" "spans_low (early_part b)"
    "early_span_list (early_part b) = [(0x100000, 16), (0x120000, 16)]"
    using two_spans_booted [of "0x100000" "0x120000"] by auto
  have "\<exists>e. early_init_mem_map b = Inl e"
    using early_init_mem_map_shared_page [OF b(1,2), of 0 1 2] by (simp add: b(3) descriptor_pages_def upt_rec)
  with b(3) show ?thesis by blast
qed

end
