(* ===== verification/Format.thy ===== *)
theory Format
  imports Memory
begin

text \<open>
  Formatted output, \<^verbatim>\<open>lib/format.c\<close>. The target buffer is bytes of memory; the format and
  string arguments are the lists of their bytes before the null byte, and lie outside the
  buffer. A variadic argument is the 64-bit slot it is passed in or a string; asking for an
  argument that was not passed, or was passed as the other kind, is undefined in C and is the
  fault \<open>Missing_argument\<close> here. Numbers are built from the right in the local array \<^verbatim>\<open>val_buf\<close>
  of 21 bytes, and an access outside it is the fault \<open>Out_of_bounds\<close>. Arithmetic on \<^verbatim>\<open>int\<close>
  and \<^verbatim>\<open>int64_t\<close> wraps, as the machine does it: \<open>pad_count\<close> is a 32-bit word read as signed.

  \<open>format_text\<close> is the abstract specification, the text a format and its arguments denote.
\<close>

abbreviation ch :: "char \<Rightarrow> u8" where "ch \<equiv> of_char"

definition c_string :: "string \<Rightarrow> u8 list" where
  "c_string s = map ch s"

definition UINT64_MAX_CHARS :: int where "UINT64_MAX_CHARS = 20"

datatype va_arg =
    Slot u64
  | Text "u8 list"

definition va_arg_slot :: "va_arg list \<Rightarrow> (u64 \<times> va_arg list) result" where
  "va_arg_slot ap = (case ap of Slot v # ap \<Rightarrow> Inr (v, ap) | _ \<Rightarrow> Inl Missing_argument)"

definition va_arg_text :: "va_arg list \<Rightarrow> (u8 list \<times> va_arg list) result" where
  "va_arg_text ap = (case ap of Text s # ap \<Rightarrow> Inr (s, ap) | _ \<Rightarrow> Inl Missing_argument)"

definition digits :: "u8 list" where
  "digits = c_string ''0123456789abcdef''"

record vsnprintf_state =
  vs_buf :: u64
  vs_n :: u64
  vs_count :: u64

text \<open>\<^verbatim>\<open>base\<close> is 10 or 16, and converted to \<^verbatim>\<open>uint64_t\<close> wherever it is used.\<close>

record vsnprintf_format =
  base :: u64
  neg :: bool
  pad_char :: u8
  pad_count :: u32
  pad_left :: bool

type_synonym out = "memory \<times> vsnprintf_state"

definition vsnprintf_putc :: "u8 \<Rightarrow> out \<Rightarrow> out" where
  "vsnprintf_putc chr = (\<lambda>(m, st).
     ((if vs_count st < vs_n st - 1 then m(vs_buf st + vs_count st := chr) else m),
      st\<lparr>vs_count := vs_count st + 1\<rparr>))"

definition vsnprintf_putc_repeat :: "u8 \<Rightarrow> int \<Rightarrow> out \<Rightarrow> out" where
  "vsnprintf_putc_repeat chr n w = fold (\<lambda>_. vsnprintf_putc chr) [0..<nat n] w"

definition vsnprintf_puts :: "u8 list \<Rightarrow> out \<Rightarrow> out" where
  "vsnprintf_puts str w = fold vsnprintf_putc str w"

definition vsnprintf_puts_format :: "u8 list \<Rightarrow> vsnprintf_format \<Rightarrow> out \<Rightarrow> out" where
  "vsnprintf_puts_format str format w =
     (let w = (if pad_left format then vsnprintf_puts str w else w);
          len = (of_nat (length str) :: u64);
          w = (if sint (pad_count format) > c_int len
               then vsnprintf_putc_repeat (ch CHR '' '') (c_int (scast (pad_count format) - len)) w else w)
      in if \<not> pad_left format then vsnprintf_puts str w else w)"

text \<open>The local array and the loop that fills it from the right.\<close>

definition put_val :: "int \<Rightarrow> u8 \<Rightarrow> (int \<Rightarrow> u8) \<Rightarrow> (int \<Rightarrow> u8) result" where
  "put_val i chr val_buf =
     (if 0 \<le> i \<and> i \<le> UINT64_MAX_CHARS then Inr (val_buf(i := chr)) else Inl Out_of_bounds)"

function digits_loop :: "u64 \<Rightarrow> u64 \<Rightarrow> (int \<Rightarrow> u8) \<times> int \<Rightarrow> ((int \<Rightarrow> u8) \<times> int) result" where
  "digits_loop b val (val_buf, i) =
     (if val = 0 then Inr (val_buf, i)
      else if b < 2 then Inl Out_of_bounds
      else rbind (put_val i (digits ! unat (val mod b)) val_buf) (\<lambda>val_buf.
        digits_loop b (val div b) (val_buf, i - 1)))"
  by pat_completeness auto
termination
proof (relation "measure (\<lambda>(b, val, _). unat val)")
  fix b val :: u64 and val_buf :: "int \<Rightarrow> u8" and i :: int
  assume "val \<noteq> 0" "\<not> b < 2"
  then have "0 < unat val" "1 < unat b" by (auto simp: word_less_nat_alt unat_gt_0)
  then show "((b, val div b, x, i - 1), b, val, val_buf, i) \<in> measure (\<lambda>(b, val, _). unat val)" for x
    by (simp add: unat_div)
qed simp

definition val_text :: "(int \<Rightarrow> u8) \<Rightarrow> int \<Rightarrow> u8 list" where
  "val_text val_buf i = takeWhile (\<lambda>c. c \<noteq> 0) (map val_buf [i..UINT64_MAX_CHARS])"

definition vsnprintf_uint64 :: "u64 \<Rightarrow> vsnprintf_format \<Rightarrow> out \<Rightarrow> out result" where
  "vsnprintf_uint64 val format w =
     (let i = UINT64_MAX_CHARS - 1
      in rbind (if val = 0 then rbind (put_val (UINT64_MAX_CHARS - 1) (ch CHR ''0'') (\<lambda>_. 0)) (\<lambda>b. Inr (b, i - 1))
                else Inr (\<lambda>_. 0, i)) (\<lambda>(val_buf, i).
         rbind (digits_loop (base format) val (val_buf, i)) (\<lambda>(val_buf, i).
         rbind (put_val UINT64_MAX_CHARS 0 val_buf) (\<lambda>val_buf.
         rbind (if neg format \<and> pad_char format = ch CHR ''0''
                then Inr (val_buf, i, format\<lparr>pad_count := pad_count format - 1\<rparr>, vsnprintf_putc (ch CHR ''-'') w)
                else if neg format then rbind (put_val i (ch CHR ''-'') val_buf) (\<lambda>b. Inr (b, i - 1, format, w))
                else Inr (val_buf, i, format, w)) (\<lambda>(val_buf, i, format, w).
         let w = (if pad_left format then vsnprintf_puts (val_text val_buf (i + 1)) w else w);
             chars_output = UINT64_MAX_CHARS - i - 1;
             w = (if sint (pad_count format) > chars_output
                  then vsnprintf_putc_repeat (pad_char format) (sint (pad_count format) - chars_output) w else w)
         in Inr (if \<not> pad_left format then vsnprintf_puts (val_text val_buf (i + 1)) w else w))))))"

definition vsnprintf_int64 :: "u64 \<Rightarrow> vsnprintf_format \<Rightarrow> out \<Rightarrow> out result" where
  "vsnprintf_int64 val format w =
     (if sint val < 0 then vsnprintf_uint64 (- val) (format\<lparr>neg := True\<rparr>) w
      else vsnprintf_uint64 val format w)"

section \<open>The conversion specification\<close>

text \<open>\<^verbatim>\<open>chr = *fmt++\<close>, where the string has ended the null byte.\<close>

definition next_chr :: "u8 list \<Rightarrow> u8 \<times> u8 list" where
  "next_chr fmt = (case fmt of [] \<Rightarrow> (0, []) | c # fmt \<Rightarrow> (c, fmt))"

fun scan_pad :: "u32 \<Rightarrow> u8 \<Rightarrow> u8 list \<Rightarrow> u32 \<times> u8 \<times> u8 list" where
  "scan_pad n chr fmt =
     (if ch CHR ''0'' \<le> chr \<and> chr \<le> ch CHR ''9''
      then let n = n * 10 + ucast (chr - ch CHR ''0'')
           in case fmt of [] \<Rightarrow> (n, 0, []) | c # fmt \<Rightarrow> scan_pad n c fmt
      else (n, chr, fmt))"

definition default_format :: vsnprintf_format where
  "default_format = \<lparr>base = 10, neg = False, pad_char = ch CHR '' '', pad_count = 0, pad_left = False\<rparr>"

text \<open>Left alignment, the padding character and the size, one after the other.\<close>

definition scan_left :: "u8 \<Rightarrow> u8 list \<Rightarrow> bool \<times> u8 \<times> u8 list" where
  "scan_left chr fmt = (if chr = ch CHR ''-'' then (True, next_chr fmt) else (False, chr, fmt))"

definition scan_fill :: "bool \<Rightarrow> u8 \<Rightarrow> u8 list \<Rightarrow> u8 \<times> u8 \<times> u8 list" where
  "scan_fill left chr fmt =
     (if \<not> left \<and> (chr = ch CHR ''0'' \<or> chr = ch CHR '' '') then (chr, next_chr fmt)
      else (pad_char default_format, chr, fmt))"

definition scan_size :: "u8 \<Rightarrow> u8 list \<Rightarrow> bool \<times> u8 \<times> u8 list" where
  "scan_size chr fmt =
     (if chr = ch CHR ''l'' \<or> chr = ch CHR ''L'' then (True, next_chr fmt) else (False, chr, fmt))"

definition scan_format :: "u8 list \<Rightarrow> vsnprintf_format \<times> bool \<times> u8 \<times> u8 list" where
  "scan_format fmt =
     (let (chr, fmt) = next_chr fmt;
          (left, chr, fmt) = scan_left chr fmt;
          (fill, chr, fmt) = scan_fill left chr fmt;
          (n, chr, fmt) = scan_pad (pad_count default_format) chr fmt;
          (is64, chr, fmt) = scan_size chr fmt
      in (default_format\<lparr>pad_char := fill, pad_count := n, pad_left := left\<rparr>, is64, chr, fmt))"

definition low_int :: "u64 \<Rightarrow> u64" where "low_int v = scast (ucast v :: u32)"
definition low_uint :: "u64 \<Rightarrow> u64" where "low_uint v = ucast (ucast v :: u32)"

definition convert :: "vsnprintf_format \<Rightarrow> bool \<Rightarrow> u8 \<Rightarrow> va_arg list \<Rightarrow> out \<Rightarrow> (va_arg list \<times> out) result" where
  "convert format is64 chr ap w =
     (if chr = ch CHR ''D'' \<or> chr = ch CHR ''d'' then
        rbind (va_arg_slot ap) (\<lambda>(val, ap).
        rbind (vsnprintf_int64 (if is64 then val else low_int val) format w) (\<lambda>w. Inr (ap, w)))
      else if chr = ch CHR ''U'' \<or> chr = ch CHR ''u'' then
        rbind (va_arg_slot ap) (\<lambda>(val, ap).
        rbind (vsnprintf_uint64 (if is64 then val else low_uint val) format w) (\<lambda>w. Inr (ap, w)))
      else if chr = ch CHR ''P'' \<or> chr = ch CHR ''p'' \<or> chr = ch CHR ''X'' \<or> chr = ch CHR ''x'' then
        let is64 = (is64 \<or> chr = ch CHR ''P'' \<or> chr = ch CHR ''p'')
        in rbind (va_arg_slot ap) (\<lambda>(val, ap).
           rbind (vsnprintf_uint64 (if is64 then val else low_uint val) (format\<lparr>base := 16\<rparr>) w) (\<lambda>w. Inr (ap, w)))
      else if chr = ch CHR ''S'' \<or> chr = ch CHR ''s'' then
        rbind (va_arg_text ap) (\<lambda>(str, ap). Inr (ap, vsnprintf_puts_format str format w))
      else if chr = ch CHR ''%'' then Inr (ap, vsnprintf_putc (ch CHR ''%'') w)
      else Inr (ap, vsnprintf_puts (c_string ''%format error%'') w))"

declare digits_loop.simps [simp del] scan_pad.simps [simp del]

lemma scan_pad_length: "scan_pad n chr fmt = (n', chr', fmt') \<Longrightarrow> length fmt' \<le> length fmt"
proof (induction fmt arbitrary: n chr)
  case Nil
  then show ?case by (subst (asm) scan_pad.simps) (auto simp: Let_def split: if_splits)
next
  case (Cons c cs)
  from Cons.prems show ?case
    by (subst (asm) scan_pad.simps) (auto simp: Let_def dest!: Cons.IH split: if_splits)
qed

lemma next_chr_length: "next_chr fmt = (chr, fmt') \<Longrightarrow> length fmt' \<le> length fmt"
  by (cases fmt) (auto simp: next_chr_def)

lemma scan_length:
  "scan_left chr fmt = (left, chr', fmt') \<Longrightarrow> length fmt' \<le> length fmt"
  "scan_fill l chr fmt = (fill, chr', fmt') \<Longrightarrow> length fmt' \<le> length fmt"
  "scan_size chr fmt = (is64, chr', fmt') \<Longrightarrow> length fmt' \<le> length fmt"
  by (auto simp: scan_left_def scan_fill_def scan_size_def dest!: next_chr_length split: if_splits)

lemma scan_format_length: "scan_format fmt = (format, is64, chr, fmt') \<Longrightarrow> length fmt' \<le> length fmt"
  by (auto simp: scan_format_def Let_def dest!: scan_pad_length next_chr_length scan_length split: prod.splits)

section \<open>vsnprintf\<close>

function vsnprintf_loop :: "u8 list \<Rightarrow> va_arg list \<Rightarrow> out \<Rightarrow> out result" where
  "vsnprintf_loop [] ap w = Inr w"
| "vsnprintf_loop (chr # fmt) ap w =
     (if chr \<noteq> ch CHR ''%'' then vsnprintf_loop fmt ap (vsnprintf_putc chr w)
      else case scan_format fmt of (format, is64, chr, fmt) \<Rightarrow>
        if chr = 0 then Inr w
        else rbind (convert format is64 chr ap w) (\<lambda>(ap, w). vsnprintf_loop fmt ap w))"
  by pat_completeness auto
termination
proof (relation "measure (\<lambda>(fmt, _). length fmt)")
qed (simp_all, metis le_imp_less_Suc scan_format_length)

definition vsnprintf :: "u64 \<Rightarrow> u64 \<Rightarrow> u8 list \<Rightarrow> va_arg list \<Rightarrow> memory \<Rightarrow> (int \<times> memory) result" where
  "vsnprintf buf n fmt ap m =
     (if n = 0 then Inr (0, m)
      else rbind (vsnprintf_loop fmt ap (m, \<lparr>vs_buf = buf, vs_n = n, vs_count = 0\<rparr>)) (\<lambda>(m, st).
        let offset = (if vs_count st < vs_n st - 1 then vs_count st else vs_n st - 1)
        in Inr (c_int (vs_count st), m(buf + offset := 0))))"

definition snprintf :: "u64 \<Rightarrow> u64 \<Rightarrow> u8 list \<Rightarrow> va_arg list \<Rightarrow> memory \<Rightarrow> (int \<times> memory) result" where
  "snprintf = vsnprintf"

section \<open>bytes_to_human\<close>

definition units :: "u8 list list" where
  "units = map c_string [''bytes'', ''KiB'', ''MiB'', ''GiB'', ''TiB'']"

text \<open>The search for the unit: index, multiplier and number of units when the loop ends.\<close>

fun unit_loop :: "nat \<Rightarrow> u64 \<Rightarrow> u64 \<Rightarrow> nat \<Rightarrow> nat \<times> u64 \<times> u64" where
  "unit_loop 0 num_units unit_mult i = (0, unit_mult, num_units)"
| "unit_loop (Suc k) num_units unit_mult i =
     (if num_units < 1024 then (i, unit_mult, num_units)
      else unit_loop k (num_units div 1024) (unit_mult * 1024) (i + 1))"

definition bytes_to_human :: "u64 \<Rightarrow> u64 \<Rightarrow> u64 \<Rightarrow> memory \<Rightarrow> memory result" where
  "bytes_to_human bytes buf buf_size m =
     (let (unit_index, unit_mult, num_units) = unit_loop (length units) bytes 1 0
      in if unit_index < 3 \<or> bytes mod unit_mult = 0
         then rbind (snprintf buf buf_size (c_string ''%5lu %s'') [Slot num_units, Text (units ! unit_index)] m)
                (\<lambda>(_, m). Inr m)
         else
           let remaining = bytes - num_units * unit_mult;
               remaining = remaining * 1024;
               remaining = remaining div unit_mult;
               fract = (if remaining \<ge> 1000 then 9 else remaining div 100)
           in rbind (snprintf buf buf_size (c_string ''%3lu.%lu %s'')
                [Slot num_units, Slot fract, Text (units ! unit_index)] m) (\<lambda>(_, m). Inr m))"

end
