(* ===== verification/Format_Correct.thy ===== *)
theory Format_Correct
  imports Format
begin

text \<open>
  What formatted output writes. \<open>format_text\<close> gives the text a format string and its arguments
  denote; the code is shown to put exactly that text, cut to the buffer and terminated, and
  to change no other byte. The specification shares nothing with the code but the types: the
  characters of digits are given by their codes, and a conversion is taken apart by looking at
  the list of its bytes.
\<close>

section \<open>Specification\<close>

definition digit_char :: "nat \<Rightarrow> u8" where
  "digit_char d = (if d < 10 then of_nat (48 + d) else of_nat (87 + d))"

fun digits_nat :: "nat \<Rightarrow> nat \<Rightarrow> u8 list" where
  "digits_nat b n = (if n < b \<or> b < 2 then [digit_char n] else digits_nat b (n div b) @ [digit_char (n mod b)])"

declare digits_nat.simps [simp del]

definition padded :: "bool \<Rightarrow> u8 \<Rightarrow> int \<Rightarrow> u8 list \<Rightarrow> u8 list" where
  "padded left c width s =
     (let gap = replicate (nat (width - int (length s))) c in if left then s @ gap else gap @ s)"

definition number_text :: "vsnprintf_format \<Rightarrow> nat \<Rightarrow> u8 list" where
  "number_text f v =
     (let ds = digits_nat (unat (base f)) v
      in if neg f \<and> pad_char f = ch CHR ''0''
         then ch CHR ''-'' # padded (pad_left f) (pad_char f) (sint (pad_count f - 1)) ds
         else padded (pad_left f) (pad_char f) (sint (pad_count f)) ((if neg f then [ch CHR ''-''] else []) @ ds))"

definition signed_text :: "vsnprintf_format \<Rightarrow> int \<Rightarrow> u8 list" where
  "signed_text f v = number_text (if v < 0 then f\<lparr>neg := True\<rparr> else f) (nat \<bar>v\<bar>)"

definition convert_text :: "vsnprintf_format \<Rightarrow> bool \<Rightarrow> u8 \<Rightarrow> va_arg list \<Rightarrow> (va_arg list \<times> u8 list) result" where
  "convert_text f is64 c ap =
     (if c \<in> {ch CHR ''D'', ch CHR ''d''} then
        rbind (va_arg_slot ap) (\<lambda>(v, ap). Inr (ap, signed_text f (if is64 then sint v else c_int v)))
      else if c \<in> {ch CHR ''U'', ch CHR ''u''} then
        rbind (va_arg_slot ap) (\<lambda>(v, ap). Inr (ap, number_text f (if is64 then unat v else unat v mod 2 ^ 32)))
      else if c \<in> {ch CHR ''P'', ch CHR ''p'', ch CHR ''X'', ch CHR ''x''} then
        rbind (va_arg_slot ap) (\<lambda>(v, ap). Inr (ap, number_text (f\<lparr>base := 16\<rparr>)
          (if is64 \<or> c \<in> {ch CHR ''P'', ch CHR ''p''} then unat v else unat v mod 2 ^ 32)))
      else if c \<in> {ch CHR ''S'', ch CHR ''s''} then
        rbind (va_arg_text ap) (\<lambda>(s, ap). Inr (ap, padded (pad_left f) (ch CHR '' '') (sint (pad_count f)) s))
      else Inr (ap, if c = ch CHR ''%'' then [c] else c_string ''%format error%''))"

text \<open>
  The digits of a number read as its value, and a conversion specification read as its parts:
  left alignment, the fill character, the digits of the width (modulo \<open>2\<^sup>3\<^sup>2\<close>), the size, and the
  character of the conversion with the rest of the format; that character is 0 where the format ends.
\<close>

definition digit_value :: "u8 \<Rightarrow> nat" where
  "digit_value c = (if unat c < 58 then unat c - 48 else unat c - 87)"

definition read_digits :: "nat \<Rightarrow> u8 list \<Rightarrow> nat" where
  "read_digits b = foldl (\<lambda>v c. v * b + digit_value c) 0"

definition decimal_digit :: "u8 \<Rightarrow> bool" where
  "decimal_digit c \<longleftrightarrow> 48 \<le> unat c \<and> unat c \<le> 57"

definition starts_with :: "u8 set \<Rightarrow> u8 list \<Rightarrow> bool" where
  "starts_with C s \<longleftrightarrow> s \<noteq> [] \<and> hd s \<in> C"

definition conversion :: "u8 list \<Rightarrow> vsnprintf_format \<times> bool \<times> u8 \<times> u8 list" where
  "conversion s =
     (let left = starts_with {ch CHR ''-''} s;
          s = (if left then tl s else s);
          filled = (\<not> left \<and> starts_with {ch CHR ''0'', ch CHR '' ''} s);
          fill = (if filled then hd s else ch CHR '' '');
          s = (if filled then tl s else s);
          width = of_nat (read_digits 10 (takeWhile decimal_digit s));
          s = dropWhile decimal_digit s;
          long = starts_with {ch CHR ''l'', ch CHR ''L''} s;
          s = (if long then tl s else s)
      in (\<lparr>base = 10, neg = False, pad_char = fill, pad_count = width, pad_left = left\<rparr>, long,
          if s = [] then 0 else hd s, tl s))"

lemma conversion_length: "conversion s = (f, long, c, s') \<Longrightarrow> length s' \<le> length s"
proof -
  have t: "length (tl xs) \<le> length xs" for xs :: "u8 list" by simp
  have d: "length (dropWhile decimal_digit xs) \<le> length xs" for xs by (rule length_dropWhile_le)
  have o: "length (if b then tl xs else xs) \<le> length xs" for b and xs :: "u8 list" by simp
  assume "conversion s = (f, long, c, s')"
  then have "s' = snd (snd (snd (conversion s)))" by simp
  then show ?thesis
    unfolding conversion_def Let_def snd_conv
    by (simp only:) (rule order_trans [OF t], rule order_trans [OF o], rule order_trans [OF d], rule order_trans [OF o], rule o)
qed

function format_text :: "u8 list \<Rightarrow> va_arg list \<Rightarrow> u8 list result" where
  "format_text [] ap = Inr []"
| "format_text (c # fmt) ap =
     (if c \<noteq> ch CHR ''%'' then rbind (format_text fmt ap) (\<lambda>t. Inr (c # t))
      else case conversion fmt of (f, is64, c, fmt) \<Rightarrow>
        if c = 0 then Inr []
        else rbind (convert_text f is64 c ap) (\<lambda>(ap, t). rbind (format_text fmt ap) (\<lambda>t'. Inr (t @ t'))))"
  by pat_completeness auto
termination
proof (relation "measure (\<lambda>(fmt, _). length fmt)")
qed (simp_all, metis le_imp_less_Suc conversion_length)

section \<open>Taking a conversion apart\<close>

text \<open>The code keeps the character it looks at apart from those after it.\<close>

lemma next_chr_eq: "next_chr s = (if s = [] then 0 else hd s, tl s)"
  by (cases s) (simp_all add: next_chr_def)

lemma decimal_digit_iff: "decimal_digit c \<longleftrightarrow> 48 \<le> c \<and> c \<le> 57"
  unfolding decimal_digit_def word_le_nat_alt by simp

lemma decimal_digit_0: "\<not> decimal_digit 0"
  by (simp add: decimal_digit_def)

lemma decimal_digit_value:
  assumes "decimal_digit c"
  shows "ucast (c - 48) = (of_nat (digit_value c) :: u32)"
proof -
  have u: "unat c < 58" "48 \<le> unat c" using assms by (simp_all add: decimal_digit_def)
  then have "unat (c - 48) = unat c - 48" by (subst unat_minus_le) (simp_all add: word_le_nat_alt)
  moreover have "ucast (c - 48) = (of_nat (unat (c - 48)) :: u32)" by (simp only: of_nat_unat)
  ultimately show ?thesis using u by (simp only: digit_value_def if_True)
qed

lemma read_digits_fold: "of_nat (foldl (\<lambda>v c. v * 10 + digit_value c) v cs) =
    foldl (\<lambda>n c. n * 10 + of_nat (digit_value c)) (of_nat v :: u32) cs"
  by (induction cs arbitrary: v) simp_all

lemma scan_pad_eq:
  "scan_pad n (if s = [] then 0 else hd s) (tl s) =
    (foldl (\<lambda>n c. n * 10 + of_nat (digit_value c)) n (takeWhile decimal_digit s), next_chr (dropWhile decimal_digit s))"
proof (induction s arbitrary: n)
  case Nil
  then show ?case
    using decimal_digit_0 by (subst scan_pad.simps) (simp add: next_chr_def decimal_digit_iff [symmetric])
next
  case (Cons c s)
  show ?case
  proof (cases "decimal_digit c")
    case False
    then show ?thesis by (subst scan_pad.simps) (simp add: next_chr_def decimal_digit_iff [symmetric])
  next
    case True
    let ?n = "n * 10 + of_nat (digit_value c)"
    have "scan_pad n c s = (case s of [] \<Rightarrow> (?n, 0, []) | c # s \<Rightarrow> scan_pad ?n c s)"
      using True by (subst scan_pad.simps) (simp add: decimal_digit_iff [symmetric] decimal_digit_value Let_def)
    moreover have "scan_pad ?n 0 [] = (?n, 0, [])"
      using decimal_digit_0 by (subst scan_pad.simps) (simp add: decimal_digit_iff [symmetric])
    ultimately have "scan_pad n c s = scan_pad ?n (if s = [] then 0 else hd s) (tl s)" by (cases s) simp_all
    then show ?thesis using Cons.IH True by simp
  qed
qed

lemma scan_left_eq:
  "scan_left (if s = [] then 0 else hd s) (tl s) =
    (let left = starts_with {ch CHR ''-''} s in (left, next_chr (if left then tl s else s)))"
  by (auto simp: scan_left_def starts_with_def next_chr_eq)

lemma scan_fill_eq:
  "scan_fill left (if s = [] then 0 else hd s) (tl s) =
    (let filled = (\<not> left \<and> starts_with {ch CHR ''0'', ch CHR '' ''} s)
     in (if filled then hd s else ch CHR '' '', next_chr (if filled then tl s else s)))"
  by (auto simp: scan_fill_def starts_with_def next_chr_eq default_format_def)

lemma scan_size_eq:
  "scan_size (if s = [] then 0 else hd s) (tl s) =
    (let long = starts_with {ch CHR ''l'', ch CHR ''L''} s in (long, next_chr (if long then tl s else s)))"
  by (auto simp: scan_size_def starts_with_def next_chr_eq)

lemma scan_format_conversion: "scan_format s = conversion s"
proof -
  have w: "foldl (\<lambda>n c. n * 10 + of_nat (digit_value c)) (pad_count default_format) cs = of_nat (read_digits 10 cs)" for cs
    using read_digits_fold [of 0 cs] by (simp add: read_digits_def default_format_def)
  show ?thesis
    unfolding scan_format_def conversion_def Let_def next_chr_eq prod.case scan_left_eq scan_fill_eq scan_pad_eq
      scan_size_eq w by (simp add: default_format_def)
qed

section \<open>Putting text\<close>

lemma puts_Nil [simp]: "vsnprintf_puts [] w = w"
  by (simp add: vsnprintf_puts_def)

lemma puts_Cons: "vsnprintf_puts (c # t) w = vsnprintf_puts t (vsnprintf_putc c w)"
  by (simp add: vsnprintf_puts_def)

lemma puts_append: "vsnprintf_puts (s @ t) w = vsnprintf_puts t (vsnprintf_puts s w)"
  by (simp add: vsnprintf_puts_def)

lemma putc_puts: "vsnprintf_putc c w = vsnprintf_puts [c] w"
  by (simp add: vsnprintf_puts_def)

lemma putc_repeat_puts: "vsnprintf_putc_repeat c n w = vsnprintf_puts (replicate (nat n) c) w"
proof -
  have "fold (\<lambda>_. vsnprintf_putc c) [0..<k] w = vsnprintf_puts (replicate k c) w" for k
  proof (induction k)
    case (Suc k)
    then show ?case by (simp add: putc_puts puts_append [symmetric] replicate_append_same)
  qed simp
  then show ?thesis by (simp add: vsnprintf_putc_repeat_def)
qed

text \<open>From the start of the buffer: the text up to the last byte but one, and its whole length counted.\<close>

lemma puts_memory:
  assumes "length t < 2 ^ 64"
  shows "vsnprintf_puts t (m, \<lparr>vs_buf = a, vs_n = n, vs_count = 0\<rparr>) =
    ((\<lambda>p. if unat (p - a) < min (length t) (unat (n - 1)) then t ! unat (p - a) else m p),
     \<lparr>vs_buf = a, vs_n = n, vs_count = of_nat (length t)\<rparr>)"
  using assms
proof (induction t rule: rev_induct)
  case (snoc c t)
  let ?k = "of_nat (length t) :: u64"
  have l: "unat ?k = length t" using snoc.prems by (simp add: unat_of_nat_lt)
  have p: "p = a + ?k \<longleftrightarrow> unat (p - a) = length t" for p
    using l by (metis add_diff_cancel_left' diff_add_cancel add.commute word_unat_eq_iff)
  have "?k < n - 1 \<longleftrightarrow> length t < unat (n - 1)" by (simp add: word_less_nat_alt l)
  then show ?case
    using snoc p by (auto simp: puts_append putc_puts [symmetric] vsnprintf_putc_def fun_eq_iff nth_append)
qed simp

section \<open>Numbers\<close>

lemma digits_nat_not_Nil [simp]: "digits_nat b n \<noteq> []"
  by (subst digits_nat.simps) simp

lemma length_digits_nat: "2 \<le> b \<Longrightarrow> n < b ^ k \<Longrightarrow> 0 < k \<Longrightarrow> length (digits_nat b n) \<le> k"
proof (induction k arbitrary: n)
  case (Suc k)
  show ?case
  proof (cases "n < b")
    case True
    then show ?thesis by (subst digits_nat.simps) simp
  next
    case False
    have "n div b < b ^ k" using Suc.prems by (simp add: less_mult_imp_div_less mult.commute)
    moreover have "0 < k" using False Suc.prems by (cases k) simp_all
    ultimately show ?thesis using Suc False by (subst digits_nat.simps) simp
  qed
qed simp

lemma digits_nonzero: "i < 16 \<Longrightarrow> digit_char i \<noteq> 0"
proof -
  have "\<forall>i\<in>set [0..<16]. digit_char i \<noteq> 0" by code_simp
  then show "i < 16 \<Longrightarrow> digit_char i \<noteq> 0" by simp
qed

lemma digits_nth: "i < 16 \<Longrightarrow> digits ! i = digit_char i"
proof -
  have "\<forall>i\<in>set [0..<16]. digits ! i = digit_char i" by code_simp
  then show "i < 16 \<Longrightarrow> digits ! i = digit_char i" by simp
qed

lemma digits_nat_nonzero: "2 \<le> b \<Longrightarrow> b \<le> 16 \<Longrightarrow> c \<in> set (digits_nat b n) \<Longrightarrow> c \<noteq> 0"
proof (induction b n rule: digits_nat.induct)
  case (1 b n)
  have "n mod b < b" using 1(2) by (intro mod_less_divisor) simp
  then have "n mod b < 16" using 1(3) by simp
  then show ?case using 1 digits_nonzero by (subst (asm) (2) digits_nat.simps) (auto split: if_splits)
qed

lemma digits_loop_fills:
  fixes b val :: u64
  assumes "2 \<le> unat b" "unat b \<le> 16"
    and "val \<noteq> 0" "int (length (digits_nat (unat b) (unat val))) \<le> i + 1" "i \<le> UINT64_MAX_CHARS"
  shows "digits_loop b val (vb, i) =
    (let ds = digits_nat (unat b) (unat val); l = int (length ds)
     in Inr (\<lambda>j. if i - l < j \<and> j \<le> i then ds ! nat (j - (i - l) - 1) else vb j, i - l))"
  using assms(3-5)
proof (induction "unat val" arbitrary: val vb i rule: less_induct)
  case less
  let ?d = "digit_char (unat (val mod b))" and ?vb = "vb(i := digit_char (unat (val mod b)))"
  have "unat val mod unat b < unat b" using assms(1) by (intro mod_less_divisor) simp
  then have d: "digits ! unat (val mod b) = ?d" using assms(2) by (intro digits_nth) (simp add: unat_mod)
  have "1 \<le> length (digits_nat (unat b) (unat val))" using digits_nat_not_Nil [of "unat b" "unat val"]
    by (cases "digits_nat (unat b) (unat val)") simp_all
  then have i: "0 \<le> i" using less.prems(2) by linarith
  have step: "digits_loop b val (vb, i) = digits_loop b (val div b) (?vb, i - 1)"
    using i less.prems assms(1) by (subst digits_loop.simps) (simp add: put_val_def word_less_nat_alt d)
  have u: "unat (val div b) = unat val div unat b" "unat (val mod b) = unat val mod unat b" by (simp_all add: unat_div unat_mod)
  show ?case
  proof (cases "unat val < unat b")
    case True
    then have "val div b = 0" "unat (val mod b) = unat val" by (simp_all add: u word_unat_eq_iff)
    moreover have "digits_nat (unat b) (unat val) = [digit_char (unat val)]" using True by (subst digits_nat.simps) simp
    ultimately show ?thesis unfolding step by (subst digits_loop.simps) (auto simp: fun_eq_iff)
  next
    case False
    have lt: "unat (val div b) < unat val" using assms(1) False by (simp add: u)
    have nz: "val div b \<noteq> 0" using False assms(1) u(1) by (auto simp: word_unat_eq_iff div_eq_0_iff)
    have ds: "digits_nat (unat b) (unat val) = digits_nat (unat b) (unat (val div b)) @ [?d]"
      using False assms(1) by (subst digits_nat.simps) (simp add: u)
    show ?thesis
      unfolding step ds using less.hyps [OF lt nz, of "i - 1" ?vb] less.prems(2,3)
      by (auto simp: ds Let_def fun_eq_iff nth_append)
  qed
qed

lemma text_in_buffer:
  assumes "\<And>c. c \<in> set ds \<Longrightarrow> c \<noteq> 0" "int (length ds) = UINT64_MAX_CHARS - i" "vb UINT64_MAX_CHARS = 0"
    and "\<And>j. i \<le> j \<Longrightarrow> j < UINT64_MAX_CHARS \<Longrightarrow> vb j = ds ! nat (j - i)"
  shows "val_text vb i = ds"
proof -
  have "i \<le> UINT64_MAX_CHARS" using assms(2) by linarith
  then have split: "[i..UINT64_MAX_CHARS] = [i..UINT64_MAX_CHARS - 1] @ [UINT64_MAX_CHARS]" by (rule upto_rec2)
  have "map vb [i..UINT64_MAX_CHARS - 1] = ds"
    using assms(2,4) by (intro nth_equalityI) auto
  then show ?thesis unfolding val_text_def split using assms(1,3) by (simp add: takeWhile_eq_all_conv)
qed

text \<open>The array after the digits: they end at its last cell but one.\<close>

lemma digits_written:
  fixes val :: u64
  assumes "unat b \<in> {10, 16}"
  defines "ds \<equiv> digits_nat (unat b) (unat val)"
  obtains vb where "int (length ds) \<le> 20" "unat val \<le> 2 ^ 63 \<longrightarrow> int (length ds) \<le> 19"
    "rbind (if val = 0 then rbind (put_val (UINT64_MAX_CHARS - 1) (ch CHR ''0'') (\<lambda>_. 0)) (\<lambda>b. Inr (b, UINT64_MAX_CHARS - 1 - 1))
            else Inr (\<lambda>_. 0, UINT64_MAX_CHARS - 1)) (digits_loop b val) = Inr (vb, 19 - int (length ds))"
    "\<And>j. 20 - int (length ds) \<le> j \<Longrightarrow> j < 20 \<Longrightarrow> vb j = ds ! nat (j - (20 - int (length ds)))"
proof -
  have l: "int (length ds) \<le> 20" "unat val \<le> 2 ^ 63 \<longrightarrow> int (length ds) \<le> 19"
    using assms(1) length_digits_nat [of 10 "unat val" 20] length_digits_nat [of 10 "unat val" 19]
      length_digits_nat [of 16 "unat val" 16] unat_lt_u64 [of val] by (auto simp: ds_def)
  show ?thesis
  proof (cases "val = 0")
    case True
    have "ds = [ch CHR ''0'']" using assms(1) True unfolding ds_def by (subst digits_nat.simps) (auto simp: digit_char_def)
    then show ?thesis
      by (intro that [of "(\<lambda>_. 0)(19 := ch CHR ''0'')"] l)
        (simp_all add: True put_val_def UINT64_MAX_CHARS_def digits_loop.simps)
  next
    case False
    have b: "2 \<le> unat b" "unat b \<le> 16" using assms(1) by auto
    define vb where "vb = (\<lambda>j. if 19 - int (length ds) < j \<and> j \<le> 19 then ds ! nat (j - (19 - int (length ds)) - 1) else (0 :: u8))"
    have "digits_loop b val (\<lambda>_. 0, UINT64_MAX_CHARS - 1) = Inr (vb, 19 - int (length ds))"
      unfolding vb_def using b digits_loop_fills [of b val 19 "\<lambda>_. 0"] False l(1) unfolding ds_def UINT64_MAX_CHARS_def Let_def by simp
    then show ?thesis using False by (intro that [of vb] l) (simp_all add: vb_def algebra_simps)
  qed
qed

lemmas pad_simps = padded_def putc_repeat_puts puts_append Let_def

lemma uint64_puts:
  assumes "unat (base f) \<in> {10, 16}" "neg f \<longrightarrow> unat val \<le> 2 ^ 63"
  shows "vsnprintf_uint64 val f w = Inr (vsnprintf_puts (number_text f (unat val)) w)"
proof -
  let ?ds = "digits_nat (unat (base f)) (unat val)" and ?l = "int (length (digits_nat (unat (base f)) (unat val)))"
  obtain vb where l: "?l \<le> 20" "unat val \<le> 2 ^ 63 \<longrightarrow> ?l \<le> 19"
    and loop: "rbind (if val = 0 then rbind (put_val (UINT64_MAX_CHARS - 1) (ch CHR ''0'') (\<lambda>_. 0)) (\<lambda>b. Inr (b, UINT64_MAX_CHARS - 1 - 1))
            else Inr (\<lambda>_. 0, UINT64_MAX_CHARS - 1)) (digits_loop (base f) val) = Inr (vb, 19 - ?l)"
    and vb: "\<And>j. 20 - ?l \<le> j \<Longrightarrow> j < 20 \<Longrightarrow> vb j = ?ds ! nat (j - (20 - ?l))"
    by (rule digits_written [OF assms(1), of val]) blast
  have nz: "c \<noteq> 0" if "c \<in> set ?ds" for c using digits_nat_nonzero [OF _ _ that] assms(1) by auto
  let ?vb = "vb(20 := 0)"
  have plain: "val_text ?vb (20 - ?l) = ?ds"
    using nz vb by (intro text_in_buffer) (auto simp: UINT64_MAX_CHARS_def)
  have signed: "val_text (?vb(19 - ?l := ch CHR ''-'')) (19 - ?l) = ch CHR ''-'' # ?ds" if "neg f"
  proof (rule text_in_buffer)
    show "int (length (ch CHR ''-'' # ?ds)) = UINT64_MAX_CHARS - (19 - ?l)" by (simp add: UINT64_MAX_CHARS_def)
    show "(?vb(19 - ?l := ch CHR ''-'')) UINT64_MAX_CHARS = 0"
      using l that assms(2) by (simp add: UINT64_MAX_CHARS_def)
    show "(?vb(19 - ?l := ch CHR ''-'')) j = (ch CHR ''-'' # ?ds) ! nat (j - (19 - ?l))"
      if "19 - ?l \<le> j" "j < UINT64_MAX_CHARS" for j
    proof (cases "j = 19 - ?l")
      case False
      then have "nat (j - (19 - ?l)) = Suc (nat (j - (20 - ?l)))" using that(1) by linarith
      then show ?thesis using False that vb [of j] by (simp add: UINT64_MAX_CHARS_def)
    qed simp
  qed (use nz in auto)
  have head: "rbind (if val = 0 then rbind (put_val (UINT64_MAX_CHARS - 1) (ch CHR ''0'') (\<lambda>_. 0)) (\<lambda>b. Inr (b, UINT64_MAX_CHARS - 1 - 1))
            else Inr (\<lambda>_. 0, UINT64_MAX_CHARS - 1)) (\<lambda>(vb, i). rbind (digits_loop (base f) val (vb, i)) k) = k (vb, 19 - ?l)" for k
  proof -
    have "rbind m (\<lambda>(vb, i). rbind (digits_loop (base f) val (vb, i)) k) = rbind (rbind m (digits_loop (base f) val)) k" for m
      by (cases m) auto
    then show ?thesis by (simp only: loop rbind_simps)
  qed
  have put: "put_val UINT64_MAX_CHARS 0 vb = Inr ?vb" by (simp add: put_val_def UINT64_MAX_CHARS_def)
  show ?thesis
  proof (cases "neg f")
    case False
    then show ?thesis
      unfolding vsnprintf_uint64_def Let_def head prod.case put rbind_simps
      using plain by (simp add: UINT64_MAX_CHARS_def number_text_def pad_simps)
  next
    case True
    then have l19: "0 \<le> 19 - ?l" using l(2) assms(2) by simp
    show ?thesis
    proof (cases "pad_char f = ch CHR ''0''")
      case zero: True
      show ?thesis
        unfolding vsnprintf_uint64_def Let_def head prod.case put rbind_simps
        using True zero plain by (simp add: UINT64_MAX_CHARS_def number_text_def pad_simps puts_Cons)
    next
      case False
      have "put_val (19 - ?l) (ch CHR ''-'') ?vb = Inr (?vb(19 - ?l := ch CHR ''-''))"
        using l19 by (simp add: put_val_def UINT64_MAX_CHARS_def)
      then show ?thesis
        unfolding vsnprintf_uint64_def Let_def head prod.case put rbind_simps
        using True False signed by (simp add: UINT64_MAX_CHARS_def number_text_def pad_simps puts_Cons)
    qed
  qed
qed

section \<open>Conversions\<close>

lemma sint_negative:
  fixes v :: u64
  shows "sint v < 0 \<Longrightarrow> unat (- v) = nat \<bar>sint v\<bar>" "0 \<le> sint v \<Longrightarrow> unat v = nat \<bar>sint v\<bar>" "nat \<bar>sint v\<bar> \<le> 2 ^ 63"
proof -
  have r: "- (2 ^ 63) \<le> sint v" "sint v < 2 ^ 63" using sint_greater_eq [of v] sint_less [of v] by simp_all
  then show "nat \<bar>sint v\<bar> \<le> 2 ^ 63" by simp
  have "sint v = uint v - 2 ^ 64 * of_bool (bit (uint v) 63)"
    using signed_take_bit_eq_take_bit_minus [of 63 "uint v"] uint_lt2p [of v] by (simp add: sint_uint take_bit_int_eq_self)
  then have e: "sint v = uint v - (if sint v < 0 then 2 ^ 64 else 0)"
    using uint_ge_0 [of v] uint_lt2p [of v] by (auto split: if_splits simp: of_bool_def)
  show "0 \<le> sint v \<Longrightarrow> unat v = nat \<bar>sint v\<bar>" using e by simp
  assume "sint v < 0"
  then have "uint v = sint v + 2 ^ 64" using e by simp
  then have "uint (- v) = (- (sint v + 2 ^ 64)) mod 2 ^ 64" using uint_word_ariths(4) [of v] by simp
  also have "- (sint v + 2 ^ 64) = - sint v + (- 1) * 2 ^ 64" by simp
  also have "\<dots> mod 2 ^ 64 = - sint v mod 2 ^ 64" by (rule mod_mult_self1)
  also have "\<dots> = - sint v" using r \<open>sint v < 0\<close> by (intro mod_pos_pos_trivial) simp_all
  finally have "uint (- v) = - sint v" .
  then show "unat (- v) = nat \<bar>sint v\<bar>" using \<open>sint v < 0\<close> by (simp flip: nat_uint_eq)
qed

lemma int64_puts:
  assumes "unat (base f) \<in> {10, 16}" "\<not> neg f"
  shows "vsnprintf_int64 val f w = Inr (vsnprintf_puts (signed_text f (sint val)) w)"
  using assms uint64_puts [of "f\<lparr>neg := True\<rparr>" "- val" w] uint64_puts [of f val w] sint_negative [of val]
  by (auto simp: vsnprintf_int64_def signed_text_def)

lemma puts_format_puts:
  assumes "length s < 2 ^ 31"
  shows "vsnprintf_puts_format s f w = vsnprintf_puts (padded (pad_left f) (ch CHR '' '') (sint (pad_count f)) s) w"
proof -
  have len: "c_int (of_nat (length s)) = int (length s)" using assms by (subst c_int_small) (simp_all add: unat_of_nat_lt)
  have gap: "c_int (scast (pad_count f) - of_nat (length s)) = sint (pad_count f) - int (length s)"
    if "int (length s) < sint (pad_count f)"
  proof -
    define d where "d = sint (pad_count f) - int (length s)"
    have d: "0 \<le> d" "d < 2 ^ 31" using that sint_less [of "pad_count f"] by (simp_all add: d_def)
    have "scast (pad_count f) - of_nat (length s) = (of_int d :: u64)" by (simp add: d_def of_int_sint)
    moreover have "unat (of_int d :: u64) = nat d" using d by (simp add: unat_of_int_small)
    ultimately show ?thesis using d by (simp add: c_int_small d_def)
  qed
  show ?thesis unfolding vsnprintf_puts_format_def Let_def len by (simp add: gap pad_simps)
qed

lemma low_values: "sint (low_int v) = c_int v" "unat (low_uint v) = unat v mod 2 ^ 32"
  by (simp_all add: low_int_def low_uint_def c_int_def sint_up_scast is_up unsigned_ucast_eq take_bit_eq_mod unat_mod)

definition texts_short :: "va_arg list \<Rightarrow> bool" where
  "texts_short ap \<longleftrightarrow> (\<forall>s. Text s \<in> set ap \<longrightarrow> length s < 2 ^ 31)"

lemma va_arg_cases:
  "va_arg_slot ap = Inr (v, ap') \<longleftrightarrow> ap = Slot v # ap'" "va_arg_text ap = Inr (s, ap') \<longleftrightarrow> ap = Text s # ap'"
  by (auto simp: va_arg_slot_def va_arg_text_def split: list.splits va_arg.splits)

lemma convert_puts:
  assumes "base f = 10" "\<not> neg f" "texts_short ap"
  shows "convert f is64 c ap w = rbind (convert_text f is64 c ap) (\<lambda>(ap, t). Inr (ap, vsnprintf_puts t w))"
proof -
  have slot: "rbind (va_arg_slot ap) g = rbind (rbind (va_arg_slot ap) h) k"
    if "\<And>v ap'. g (v, ap') = rbind (h (v, ap')) k" for g h k
    using that by (auto simp: rbind_assoc intro!: rbind_cong)
  have string: "rbind (va_arg_text ap) g = rbind (rbind (va_arg_text ap) h) k"
    if "\<And>s ap'. length s < 2 ^ 31 \<Longrightarrow> g (s, ap') = rbind (h (s, ap')) k" for g h k
    using that assms(3) by (auto simp: rbind_assoc va_arg_cases texts_short_def intro!: rbind_cong)
  show ?thesis
    unfolding convert_def convert_text_def Let_def
    using assms by (auto intro!: slot string simp: int64_puts uint64_puts puts_format_puts low_values putc_puts)
qed

lemma convert_text_short: "convert_text f is64 c ap = Inr (ap', t) \<Longrightarrow> texts_short ap \<Longrightarrow> texts_short ap'"
  by (auto simp: convert_text_def rbind_Inr_iff va_arg_cases texts_short_def split: if_splits)

lemma conversion_default: "conversion fmt = (f, is64, c, fmt') \<Longrightarrow> base f = 10 \<and> \<not> neg f"
  by (auto simp: conversion_def Let_def)

lemma loop_puts:
  "texts_short ap \<Longrightarrow> vsnprintf_loop fmt ap w = rbind (format_text fmt ap) (\<lambda>t. Inr (vsnprintf_puts t w))"
proof (induction fmt ap w rule: vsnprintf_loop.induct)
  case (2 c fmt ap w)
  show ?case
  proof (cases "c = ch CHR ''%''")
    case False
    then show ?thesis using 2 by (simp add: rbind_assoc puts_Cons)
  next
    case True
    obtain f is64 d fmt' where s: "conversion fmt = (f, is64, d, fmt')" by (metis prod.exhaust)
    note sc = s [folded scan_format_conversion]
    show ?thesis
    proof (cases "convert_text f is64 d ap")
      case (Inr r)
      then obtain ap' t where r: "convert_text f is64 d ap = Inr (ap', t)" by (cases r) simp
      have c: "convert f is64 d ap w = Inr (ap', vsnprintf_puts t w)"
        using convert_puts [of f ap is64 d w] conversion_default [OF s] 2(3) r by simp
      have "vsnprintf_loop fmt' ap' (vsnprintf_puts t w) = rbind (format_text fmt' ap') (\<lambda>t'. Inr (vsnprintf_puts t' (vsnprintf_puts t w)))"
        if "d \<noteq> 0"
        using 2(2) [OF _ sc [symmetric] refl refl that c refl] True convert_text_short [OF r 2(3)] by simp
      then show ?thesis using True s sc r c by (simp add: rbind_assoc puts_append)
    next
      case (Inl e)
      then show ?thesis using True s sc convert_puts [of f ap is64 d w] conversion_default [OF s] 2(3) by simp
    qed
  qed
qed simp

section \<open>The buffer\<close>

text \<open>A text of at most \<open>n - 1\<close> bytes and its null byte, in a buffer of \<open>n\<close> bytes.\<close>

definition put_text :: "u64 \<Rightarrow> u64 \<Rightarrow> u8 list \<Rightarrow> memory \<Rightarrow> memory" where
  "put_text buf n t m =
     (\<lambda>p. let k = unat (p - buf); l = min (length t) (unat n - 1)
          in if k < l then t ! k else if k = l then 0 else m p)"

lemma vsnprintf_text:
  assumes "0 < n" "texts_short ap" "\<And>t. format_text fmt ap = Inr t \<Longrightarrow> length t < 2 ^ 31"
  shows "vsnprintf buf n fmt ap m =
    rbind (format_text fmt ap) (\<lambda>t. Inr (int (length t), put_text buf n t m))"
proof (cases "format_text fmt ap")
  case (Inl e)
  then show ?thesis using assms(1,2) by (simp add: vsnprintf_def loop_puts word_gt_0)
next
  case (Inr t)
  have l: "length t < 2 ^ 31" using assms(3) Inr by simp
  then have u: "unat (of_nat (length t) :: u64) = length t" by (simp add: unat_of_nat_lt)
  have n: "unat (n - 1) = unat n - 1" using assms(1) by (simp add: unat_minus_one word_gt_0)
  let ?o = "if of_nat (length t) < n - 1 then of_nat (length t) else n - 1 :: u64"
  have o: "unat ?o = min (length t) (unat n - 1)" by (auto simp: word_less_nat_alt u n)
  have p: "p = buf + ?o \<longleftrightarrow> unat (p - buf) = min (length t) (unat n - 1)" for p
    unfolding o [symmetric] word_unat_eq_iff [symmetric] diff_eq_eq by (simp only: add.commute)
  have c: "c_int (of_nat (length t)) = int (length t)" using l u by (simp add: c_int_small)
  let ?m = "\<lambda>p. if unat (p - buf) < min (length t) (unat (n - 1)) then t ! unat (p - buf) else m p"
  have "vsnprintf buf n fmt ap m = Inr (int (length t), ?m(buf + ?o := 0))"
    using assms(1,2) l c unfolding vsnprintf_def by (simp add: loop_puts Inr puts_memory Let_def word_gt_0)
  moreover have "?m(buf + ?o := 0) = put_text buf n t m"
    unfolding put_text_def Let_def fun_upd_def p n by (rule ext) auto
  ultimately show ?thesis using Inr by simp
qed

definition bytes_at :: "memory \<Rightarrow> u64 \<Rightarrow> nat \<Rightarrow> u8 list" where
  "bytes_at m a k = map (\<lambda>i. m (a + of_nat i)) [0..<k]"

text \<open>A text that fits is what the buffer holds, up to its null byte.\<close>

lemma put_text_fits:
  assumes "length t < unat n"
  shows "bytes_at (put_text buf n t m) buf (length t) = t" "put_text buf n t m (buf + of_nat (length t)) = 0"
    "t \<noteq> [] \<Longrightarrow> put_text buf n t m buf = hd t"
proof -
  have u: "unat (of_nat i :: u64) = i" if "i \<le> length t" for i
    using that assms unat_lt_u64 [of n] by (intro unat_of_nat_lt) simp
  have l: "min (length t) (unat n - 1) = length t" using assms by simp
  show "bytes_at (put_text buf n t m) buf (length t) = t"
    unfolding bytes_at_def put_text_def l by (rule nth_equalityI) (simp_all add: u Let_def)
  show "put_text buf n t m (buf + of_nat (length t)) = 0"
    unfolding put_text_def l by (simp add: u Let_def)
  show "t \<noteq> [] \<Longrightarrow> put_text buf n t m buf = hd t"
    unfolding put_text_def l by (simp add: Let_def hd_conv_nth)
qed

lemma printed:
  assumes "22 \<le> n" "format_text fmt [Slot v] = Inr t" "length t \<le> 20"
  shows "\<exists>m'. vsnprintf buf n fmt [Slot v] m = Inr (int (length t), m') \<and> bytes_at m' buf (length t) = t \<and>
    m' (buf + of_nat (length t)) = 0 \<and> (t \<noteq> [] \<longrightarrow> m' buf = hd t)"
proof -
  have n: "0 < n" "length t < unat n" using assms(1,3) by (auto simp: word_le_nat_alt word_less_nat_alt)
  have "vsnprintf buf n fmt [Slot v] m = rbind (format_text fmt [Slot v]) (\<lambda>t. Inr (int (length t), put_text buf n t m))"
    by (rule vsnprintf_text [OF n(1)]) (use assms in \<open>auto simp: texts_short_def\<close>)
  then show ?thesis using put_text_fits [OF n(2), of buf m] assms(2) by simp
qed

section \<open>Reading numbers back\<close>

lemma digit_value_digits: "i < 16 \<Longrightarrow> digit_value (digit_char i) = i"
proof -
  have "\<forall>i\<in>set [0..<16]. digit_value (digit_char i) = i" by code_simp
  then show "i < 16 \<Longrightarrow> digit_value (digit_char i) = i" by simp
qed

lemma read_digits_nat: "2 \<le> b \<Longrightarrow> b \<le> 16 \<Longrightarrow> read_digits b (digits_nat b n) = n"
proof (induction b n rule: digits_nat.induct)
  case (1 b n)
  have "n mod b < b" using 1(2) by (intro mod_less_divisor) simp
  then have "n mod b < 16" using 1(3) by simp
  then show ?case
    using 1 digit_value_digits by (subst digits_nat.simps) (auto simp: read_digits_def)
qed

lemma digits_nat_leading: "2 \<le> b \<Longrightarrow> b \<le> 16 \<Longrightarrow> 0 < n \<Longrightarrow> hd (digits_nat b n) \<noteq> ch CHR ''0''"
proof (induction b n rule: digits_nat.induct)
  case (1 b n)
  have z: "digit_char i \<noteq> ch CHR ''0''" if "0 < i" "i < 16" for i
  proof -
    have "\<forall>i\<in>set [1..<16]. digit_char i \<noteq> ch CHR ''0''" by code_simp
    with that show ?thesis by simp
  qed
  have "0 < n div b" if "\<not> n < b" using that 1(2) by (simp add: div_greater_zero_iff)
  then show ?case using 1 z by (subst digits_nat.simps) (auto simp: hd_append)
qed

definition all_digits :: "nat \<Rightarrow> u8 list \<Rightarrow> bool" where
  "all_digits b s \<longleftrightarrow> list_all (\<lambda>c. c \<in> digit_char ` {0..<b}) s"

lemma all_digits_nat: "2 \<le> b \<Longrightarrow> all_digits b (digits_nat b n)"
proof (induction b n rule: digits_nat.induct)
  case (1 b n)
  then have "n mod b < b" by (intro mod_less_divisor) simp
  then show ?case using 1 by (subst digits_nat.simps) (auto simp: all_digits_def)
qed

section \<open>Units\<close>

lemma unit_loop_step:
  assumes "N < 2 ^ 64"
  shows "unit_loop (Suc k) (of_nat (N div 1024 ^ i)) (1024 ^ i) i =
    (if N < 1024 ^ Suc i then (i, 1024 ^ i, of_nat (N div 1024 ^ i))
     else unit_loop k (of_nat (N div 1024 ^ Suc i)) (1024 ^ Suc i) (Suc i))"
proof -
  have b: "N div 1024 ^ i < 2 ^ 64" using assms by (meson div_le_dividend le_less_trans)
  then have u: "unat (of_nat (N div 1024 ^ i) :: u64) = N div 1024 ^ i" by (simp add: unat_of_nat_lt)
  have "of_nat (N div 1024 ^ i) < (1024 :: u64) \<longleftrightarrow> N div 1024 ^ i < 1024" by (simp add: word_less_nat_alt u)
  also have "\<dots> \<longleftrightarrow> N < 1024 ^ Suc i" by (simp add: div_less_iff_less_mult mult.commute)
  finally have c: "of_nat (N div 1024 ^ i) < (1024 :: u64) \<longleftrightarrow> N < 1024 ^ Suc i" .
  have "unat (of_nat (N div 1024 ^ i) div 1024 :: u64) = N div 1024 ^ Suc i"
    by (simp only: unat_div u power_Suc2 div_mult2_eq) simp
  moreover have "N div 1024 ^ Suc i < 2 ^ 64" using assms by (meson div_le_dividend le_less_trans)
  ultimately have d: "of_nat (N div 1024 ^ i) div 1024 = (of_nat (N div 1024 ^ Suc i) :: u64)"
    by (simp add: word_unat_eq_iff unat_of_nat_lt)
  show ?thesis unfolding unit_loop.simps(2) c d by (simp add: mult.commute)
qed

lemma unit_loop_skips:
  assumes "N < 2 ^ 64"
  shows "(\<And>j. i \<le> j \<Longrightarrow> j < i + d \<Longrightarrow> 1024 ^ Suc j \<le> N) \<Longrightarrow>
    unit_loop (d + k) (of_nat (N div 1024 ^ i)) (1024 ^ i) i = unit_loop k (of_nat (N div 1024 ^ (i + d))) (1024 ^ (i + d)) (i + d)"
proof (induction d arbitrary: i)
  case (Suc d)
  have "\<not> N < 1024 ^ Suc i" using Suc.prems [of i] by simp
  then show ?case
    using Suc.IH [of "Suc i"] Suc.prems unfolding add_Suc unit_loop_step [OF assms] by simp
qed simp

lemma unit_loop_found:
  assumes "k < 5" "k = 0 \<or> 1024 ^ k \<le> unat bytes" "unat bytes < 1024 ^ Suc k"
  shows "unit_loop (length units) bytes 1 0 = (k, 1024 ^ k, of_nat (unat bytes div 1024 ^ k))"
proof -
  have b: "unat bytes < 2 ^ 64" using unat_lt_u64 [of bytes] by simp
  have "1024 ^ Suc j \<le> unat bytes" if "j < k" for j
  proof -
    have "(1024 :: nat) ^ Suc j \<le> 1024 ^ k" using that by (intro power_increasing) simp_all
    then show ?thesis using assms(2) that by simp
  qed
  moreover have "length units = k + Suc (4 - k)" using assms(1) by (simp add: units_def)
  ultimately have "unit_loop (length units) bytes 1 0 = unit_loop (Suc (4 - k)) (of_nat (unat bytes div 1024 ^ k)) (1024 ^ k) k"
    using unit_loop_skips [OF b, of 0 k "Suc (4 - k)"] by simp
  then show ?thesis unfolding unit_loop_step [OF b] using assms(3) by simp
qed

lemma unit_loop_exhausted:
  assumes "1024 ^ 5 \<le> unat bytes"
  shows "unit_loop (length units) bytes 1 0 = (0, 1024 ^ 5, of_nat (unat bytes div 1024 ^ 5))"
proof -
  have b: "unat bytes < 2 ^ 64" using unat_lt_u64 [of bytes] by simp
  have "1024 ^ Suc j \<le> unat bytes" if "j < 5" for j
    using power_increasing [of "Suc j" 5 "1024 :: nat"] that assms by simp
  moreover have "length units = 5 + 0" by (simp add: units_def)
  ultimately show ?thesis using unit_loop_skips [OF b, of 0 5 0] by simp
qed

lemma padded_0 [simp]: "padded left c 0 s = s"
  by (simp add: padded_def)

lemmas format_eval = c_string_def conversion_def starts_with_def decimal_digit_iff read_digits_def digit_value_def
  convert_text_def va_arg_slot_def va_arg_text_def signed_text_def number_text_def

lemma human_formats:
  "format_text (c_string ''%5lu %s'') [Slot v, Text u] = Inr (padded False (ch CHR '' '') 5 (digits_nat 10 (unat v)) @ ch CHR '' '' # u)"
  "format_text (c_string ''%3lu.%lu %s'') [Slot v, Slot f, Text u] =
    Inr (padded False (ch CHR '' '') 3 (digits_nat 10 (unat v)) @ ch CHR ''.'' # digits_nat 10 (unat f) @ ch CHR '' '' # u)"
  by (simp_all add: format_eval)

lemma length_padded: "int (length (padded left c w s)) = max w (int (length s))"
  by (simp add: padded_def Let_def)

lemma unit_name_short: "k < 5 \<Longrightarrow> length (units ! k) \<le> 5"
proof -
  have "\<forall>k\<in>set [0..<5]. length (units ! k) \<le> 5" by code_simp
  then show "k < 5 \<Longrightarrow> length (units ! k) \<le> 5" by simp
qed

lemma length_decimal: "length (digits_nat 10 (unat (v :: u64))) \<le> 20"
  using length_digits_nat [of 10 "unat v" 20] unat_lt_u64 [of v] by simp

lemma snprintf_human:
  assumes "0 < n" "k < 5"
  shows "snprintf buf n (c_string ''%5lu %s'') [Slot v, Text (units ! k)] m =
      Inr (int (length (padded False (ch CHR '' '') 5 (digits_nat 10 (unat v)) @ ch CHR '' '' # units ! k)),
        put_text buf n (padded False (ch CHR '' '') 5 (digits_nat 10 (unat v)) @ ch CHR '' '' # units ! k) m)"
    and "snprintf buf n (c_string ''%3lu.%lu %s'') [Slot v, Slot f, Text (units ! k)] m =
      Inr (int (length (padded False (ch CHR '' '') 3 (digits_nat 10 (unat v)) @ ch CHR ''.'' # digits_nat 10 (unat f) @ ch CHR '' '' # units ! k)),
        put_text buf n (padded False (ch CHR '' '') 3 (digits_nat 10 (unat v)) @ ch CHR ''.'' # digits_nat 10 (unat f) @ ch CHR '' '' # units ! k) m)"
proof -
  note l = unit_name_short [OF assms(2)] length_decimal [of v] length_decimal [of f]
  have s: "texts_short [Slot v, Text (units ! k)]" "texts_short [Slot v, Slot f, Text (units ! k)]"
    using l(1) by (auto simp: texts_short_def)
  have p: "length (padded False (ch CHR '' '') w (digits_nat 10 (unat v))) \<le> 20" if "w \<le> 20" for w
    using l(2) that length_padded [of False "ch CHR '' ''" w "digits_nat 10 (unat v)"] by linarith
  have "length (padded False (ch CHR '' '') 5 (digits_nat 10 (unat v)) @ ch CHR '' '' # units ! k) < 2 ^ 31"
    using p [of 5] l by simp
  then show "snprintf buf n (c_string ''%5lu %s'') [Slot v, Text (units ! k)] m =
      Inr (int (length (padded False (ch CHR '' '') 5 (digits_nat 10 (unat v)) @ ch CHR '' '' # units ! k)),
        put_text buf n (padded False (ch CHR '' '') 5 (digits_nat 10 (unat v)) @ ch CHR '' '' # units ! k) m)"
    unfolding snprintf_def by (subst vsnprintf_text [OF assms(1) s(1)]) (simp_all only: human_formats rbind_simps sum.inject)
  have "length (padded False (ch CHR '' '') 3 (digits_nat 10 (unat v)) @ ch CHR ''.'' # digits_nat 10 (unat f) @ ch CHR '' '' # units ! k) < 2 ^ 31"
    using p [of 3] l by simp
  then show "snprintf buf n (c_string ''%3lu.%lu %s'') [Slot v, Slot f, Text (units ! k)] m =
      Inr (int (length (padded False (ch CHR '' '') 3 (digits_nat 10 (unat v)) @ ch CHR ''.'' # digits_nat 10 (unat f) @ ch CHR '' '' # units ! k)),
        put_text buf n (padded False (ch CHR '' '') 3 (digits_nat 10 (unat v)) @ ch CHR ''.'' # digits_nat 10 (unat f) @ ch CHR '' '' # units ! k) m)"
    unfolding snprintf_def by (subst vsnprintf_text [OF assms(1) s(2)]) (simp_all only: human_formats rbind_simps sum.inject)
qed

text \<open>The number of units in words, and the tenths that are printed after it.\<close>

lemma unit_arithmetic:
  fixes bytes :: u64
  assumes "k < 5"
  defines "N \<equiv> unat bytes" and "num \<equiv> of_nat (unat bytes div 1024 ^ k) :: u64" and "mult \<equiv> (1024 :: u64) ^ k"
  shows "unat num = N div 1024 ^ k" "bytes mod mult = 0 \<longleftrightarrow> 1024 ^ k dvd N"
    "unat ((bytes - num * mult) * 1024 div mult) = N mod 1024 ^ k * 1024 div 1024 ^ k"
proof -
  have N: "N < 2 ^ 64" using unat_lt_u64 [of bytes] by (simp add: N_def)
  have p: "(1024 :: nat) ^ k \<le> 1024 ^ 4" using assms(1) by (intro power_increasing) simp_all
  have "(1024 :: u64) ^ k = of_nat (1024 ^ k)" by simp
  moreover have "unat (of_nat (1024 ^ k) :: u64) = 1024 ^ k" using p by (intro unat_of_nat_lt) simp
  ultimately have um: "unat mult = 1024 ^ k" unfolding mult_def by simp
  have "N div 1024 ^ k < 2 ^ 64" using N by (meson div_le_dividend le_less_trans)
  then show un: "unat num = N div 1024 ^ k" unfolding num_def N_def by (simp add: unat_of_nat_lt)
  have "unat (bytes mod mult) = N mod 1024 ^ k" by (simp add: unat_mod um N_def)
  then show "bytes mod mult = 0 \<longleftrightarrow> 1024 ^ k dvd N" by (simp add: word_unat_eq_iff dvd_eq_mod_eq_0)
  have le: "N div 1024 ^ k * 1024 ^ k \<le> N" by (rule div_times_less_eq_dividend)
  then have "N div 1024 ^ k * 1024 ^ k < 2 ^ 64" using N by (rule le_less_trans)
  then have "unat (num * mult) = N div 1024 ^ k * 1024 ^ k" by (simp add: unat_word_ariths un um)
  then have r: "unat (bytes - num * mult) = N mod 1024 ^ k"
    using le by (simp add: unat_minus_le word_le_nat_alt N_def minus_div_mult_eq_mod)
  have "N mod 1024 ^ k < 1024 ^ k" by (intro mod_less_divisor) simp
  then have "N mod 1024 ^ k < 1024 ^ 4" using p by (rule less_le_trans)
  then have "N mod 1024 ^ k * 1024 < 2 ^ 64" by simp
  then have "unat ((bytes - num * mult) * 1024) = N mod 1024 ^ k * 1024"
    unfolding unat_word_ariths(2) r by simp
  then show "unat ((bytes - num * mult) * 1024 div mult) = N mod 1024 ^ k * 1024 div 1024 ^ k" by (simp add: unat_div um)
qed

definition human_text :: "nat \<Rightarrow> nat \<Rightarrow> u8 list" where
  "human_text k N =
     (if k < 3 \<or> 1024 ^ k dvd N
      then padded False (ch CHR '' '') 5 (digits_nat 10 (N div 1024 ^ k)) @ ch CHR '' '' # units ! k
      else padded False (ch CHR '' '') 3 (digits_nat 10 (N div 1024 ^ k)) @
        ch CHR ''.'' # digits_nat 10 (min 9 (N mod 1024 ^ k * 1024 div 1024 ^ k div 100)) @ ch CHR '' '' # units ! k)"

lemma bytes_to_human_text:
  assumes "0 < n" "k < 5" "k = 0 \<or> 1024 ^ k \<le> unat bytes" "unat bytes < 1024 ^ Suc k"
  shows "bytes_to_human bytes buf n m = Inr (put_text buf n (human_text k (unat bytes)) m)"
proof -
  note U = unit_loop_found [OF assms(2-4)] and A = unit_arithmetic [OF assms(2), of bytes]
  let ?num = "of_nat (unat bytes div 1024 ^ k) :: u64" and ?mult = "(1024 :: u64) ^ k"
  let ?r = "(bytes - ?num * ?mult) * 1024 div ?mult"
  let ?f = "if ?r \<ge> 1000 then 9 else ?r div 100"
  have f: "unat ?f = min 9 (unat bytes mod 1024 ^ k * 1024 div 1024 ^ k div 100)"
  proof (cases "?r \<ge> 1000")
    case True
    then have "1000 \<le> unat ?r" by (simp add: word_le_nat_alt)
    then have "9 \<le> unat ?r div 100" by linarith
    then show ?thesis using True A(3) by simp
  next
    case False
    then have "unat ?r < 1000" by (simp add: word_le_nat_alt)
    then have "unat ?r div 100 \<le> 9" by linarith
    then show ?thesis using False A(3) by (simp add: unat_div)
  qed
  show ?thesis
  proof (cases "k < 3 \<or> 1024 ^ k dvd unat bytes")
    case True
    then have c: "k < 3 \<or> bytes mod ?mult = 0" using A(2) by simp
    show ?thesis
      unfolding bytes_to_human_def U Let_def prod.case human_text_def if_P [OF True] if_P [OF c]
        snprintf_human(1) [OF assms(1,2)] rbind_simps A(1) by (rule refl)
  next
    case False
    then have c: "\<not> (k < 3 \<or> bytes mod ?mult = 0)" using A(2) by simp
    show ?thesis
      unfolding bytes_to_human_def U Let_def prod.case human_text_def if_not_P [OF False] if_not_P [OF c]
        snprintf_human(2) [OF assms(1,2)] rbind_simps A(1) f by (rule refl)
  qed
qed

section \<open>Properties\<close>

text \<open>
  C4: \<^verbatim>\<open>vsnprintf\<close> into a buffer of at least one byte. With the arguments the format asks for, it
  returns the length of the whole text the format and the arguments denote; the buffer then
  holds the first \<open>n - 1\<close> bytes of that text and a null byte after them, and no other byte of
  memory, in the buffer or outside it, has changed. With an argument missing it is undefined.
\<close>

theorem vsnprintf_correct:
  assumes "0 < n" and "texts_short ap" and "\<And>t. format_text fmt ap = Inr t \<Longrightarrow> length t < 2 ^ 31"
  shows "case format_text fmt ap of
      Inl e \<Rightarrow> vsnprintf buf n fmt ap m = Inl e
    | Inr t \<Rightarrow> \<exists>m'. vsnprintf buf n fmt ap m = Inr (int (length t), m') \<and>
        (\<forall>i < min (length t) (unat n - 1). m' (buf + of_nat i) = t ! i) \<and>
        m' (buf + of_nat (min (length t) (unat n - 1))) = 0 \<and>
        (\<forall>p. min (length t) (unat n - 1) < unat (p - buf) \<longrightarrow> m' p = m p)"
proof (cases "format_text fmt ap")
  case (Inl e)
  have "vsnprintf buf n fmt ap m = rbind (format_text fmt ap) (\<lambda>t. Inr (int (length t), put_text buf n t m))"
    by (rule vsnprintf_text [OF assms])
  then show ?thesis using Inl by simp
next
  case (Inr t)
  have V: "vsnprintf buf n fmt ap m = rbind (format_text fmt ap) (\<lambda>t. Inr (int (length t), put_text buf n t m))"
    by (rule vsnprintf_text [OF assms])
  let ?l = "min (length t) (unat n - 1)"
  have "?l < unat n" using assms(1) by (auto simp: word_gt_0 unat_gt_0 min_less_iff_disj)
  then have "i < 2 ^ 64" if "i \<le> ?l" for i using less_trans [OF le_less_trans [OF that], of "unat n" "2 ^ 64"] unat_lt_u64 [of n] by simp
  then have u: "unat (of_nat i :: u64) = i" if "i \<le> ?l" for i using that by (simp add: unat_of_nat_lt)
  then show ?thesis
    using V Inr \<open>?l < unat n\<close> by (auto simp: put_text_def Let_def)
qed

theorem vsnprintf_correct_witness:
  "\<exists>m'. vsnprintf 100 4 (c_string ''%d!'') [Slot (- 1)] (\<lambda>_. 7) = Inr (3, m') \<and> m' 103 = 0 \<and> m' 104 = 7"
proof -
  have "c_int (- 1) = - 1" by code_simp
  moreover have "digits_nat 10 1 = [ch CHR ''1'']" by (simp add: digits_nat.simps digit_char_def)
  ultimately have t: "format_text (c_string ''%d!'') [Slot (- 1)] = Inr (map ch ''-1!'')"
    by (simp add: format_eval)
  have "\<exists>m'. vsnprintf 100 4 (c_string ''%d!'') [Slot (- 1)] (\<lambda>_. 7) = Inr (int (length (map ch ''-1!'')), m') \<and>
      m' (100 + of_nat (min (length (map ch ''-1!'')) (unat (4 :: u64) - 1))) = 0 \<and>
      (\<forall>p. min (length (map ch ''-1!'')) (unat (4 :: u64) - 1) < unat (p - 100) \<longrightarrow> m' p = 7)"
    using vsnprintf_correct [of 4 "[Slot (- 1)]" "c_string ''%d!''" 100 "\<lambda>_. 7"] unfolding t
    by (auto simp: texts_short_def)
  then show ?thesis by fastforce
qed

text \<open>
  C34: Printed numbers read back from the buffer. With room for the text, \<^verbatim>\<open>%lu\<close> and \<^verbatim>\<open>%lx\<close> leave the
  digits of the value in base 10 and 16 in the buffer, without a leading zero except for zero
  itself; read as digits of that base they give the value again. \<^verbatim>\<open>%ld\<close> leaves the digits of the
  absolute value, after a minus sign when negative. The length is returned and the text ends in a null byte.
\<close>

theorem printed_numbers_read_back:
  fixes v n :: u64
  assumes "22 \<le> n"
  shows "(\<exists>k m'. vsnprintf buf n (c_string ''%lu'') [Slot v] m = Inr (int k, m') \<and> k \<le> 20 \<and>
      all_digits 10 (bytes_at m' buf k) \<and> read_digits 10 (bytes_at m' buf k) = unat v \<and>
      (v \<noteq> 0 \<longrightarrow> m' buf \<noteq> ch CHR ''0'') \<and> m' (buf + of_nat k) = 0) \<and>
    (\<exists>k m'. vsnprintf buf n (c_string ''%lx'') [Slot v] m = Inr (int k, m') \<and> k \<le> 16 \<and>
      all_digits 16 (bytes_at m' buf k) \<and> read_digits 16 (bytes_at m' buf k) = unat v \<and>
      (v \<noteq> 0 \<longrightarrow> m' buf \<noteq> ch CHR ''0'') \<and> m' (buf + of_nat k) = 0) \<and>
    (\<exists>k m' s. vsnprintf buf n (c_string ''%ld'') [Slot v] m = Inr (int k, m') \<and>
      bytes_at m' buf k = (if sint v < 0 then ch CHR ''-'' # s else s) \<and>
      all_digits 10 s \<and> int (read_digits 10 s) = \<bar>sint v\<bar> \<and> m' (buf + of_nat k) = 0)"
proof -
  define ds where "ds b = digits_nat b (unat v)" for b
  define s where "s = digits_nat 10 (nat \<bar>sint v\<bar>)"
  have f: "format_text (c_string ''%lu'') [Slot v] = Inr (ds 10)"
    "format_text (c_string ''%lx'') [Slot v] = Inr (ds 16)"
    "format_text (c_string ''%ld'') [Slot v] = Inr (if sint v < 0 then ch CHR ''-'' # s else s)"
    unfolding ds_def s_def by (simp_all add: format_eval)
  have l: "length (ds 10) \<le> 20" "length (ds 16) \<le> 16" "length (if sint v < 0 then ch CHR ''-'' # s else s) \<le> 20"
    using length_decimal [of v] length_digits_nat [of 16 "unat v" 16] unat_lt_u64 [of v]
      length_digits_nat [of 10 "nat \<bar>sint v\<bar>" 19] sint_negative(3) [of v] by (auto simp: ds_def s_def)
  have d: "ds b \<noteq> [] \<and> all_digits b (ds b) \<and> read_digits b (ds b) = unat v \<and> (v \<noteq> 0 \<longrightarrow> hd (ds b) \<noteq> ch CHR ''0'')"
    if "b = 10 \<or> b = 16" for b
    using that digits_nat_leading [of b "unat v"] read_digits_nat [of b "unat v"] all_digits_nat [of b "unat v"]
    by (auto simp: unat_gt_0 ds_def)
  have "all_digits 10 s" "int (read_digits 10 s) = \<bar>sint v\<bar>"
    using read_digits_nat [of 10 "nat \<bar>sint v\<bar>"] all_digits_nat [of 10] by (simp_all add: s_def)
  moreover have "length (ds 16) \<le> 20" using l(2) by simp
  ultimately show ?thesis
    using printed [OF assms f(1) l(1), of buf m] printed [OF assms f(2), of buf m] printed [OF assms f(3) l(3), of buf m]
      d [of 10] d [of 16] l(1,2) by metis
qed

theorem printed_numbers_read_back_witness:
  "\<exists>k m'. vsnprintf 100 32 (c_string ''%lx'') [Slot 255] (\<lambda>_. 7) = Inr (int k, m') \<and> k \<le> 16 \<and>
     read_digits 16 (bytes_at m' 100 k) = 255 \<and> m' 100 \<noteq> ch CHR ''0'' \<and> m' (100 + of_nat k) = 0"
proof -
  have "(255 :: u64) \<noteq> 0" "unat (255 :: u64) = 255" "22 \<le> (32 :: u64)" by simp_all
  then show ?thesis using printed_numbers_read_back [of 32 100 255 "\<lambda>_. 7"] by metis
qed

text \<open>
  C36: Sizes for humans. Below 1024 to the 5 bytes, the buffer gets the number of the largest
  unit that fits and its name, with one digit after the point for GiB and TiB that are not a
  whole number. From 1024 to the 5 bytes on, the search for a unit runs off its table without
  setting the index: the number of PiB is printed with the unit \<open>bytes\<close>.
\<close>

theorem bytes_to_human_correct:
  assumes "0 < n"
  shows "if unat bytes < 1024 ^ 5
    then \<exists>k<5. (k = 0 \<or> 1024 ^ k \<le> unat bytes) \<and> unat bytes < 1024 ^ Suc k \<and>
      bytes_to_human bytes buf n m = Inr (put_text buf n (human_text k (unat bytes)) m)
    else bytes_to_human bytes buf n m = Inr (put_text buf n
      (padded False (ch CHR '' '') 5 (digits_nat 10 (unat bytes div 1024 ^ 5)) @ c_string '' bytes'') m)"
proof (cases "unat bytes < 1024 ^ 5")
  case True
  define k where "k = (LEAST k. unat bytes < 1024 ^ Suc k)"
  have four: "unat bytes < 1024 ^ Suc 4" using True by simp
  have lt: "unat bytes < 1024 ^ Suc k" unfolding k_def by (rule LeastI [of _ 4]) (rule four)
  have "k \<le> 4" unfolding k_def by (rule Least_le) (rule four)
  have "1024 ^ k \<le> unat bytes" if nz: "k \<noteq> 0"
  proof -
    obtain j where j: "k = Suc j" using nz not0_implies_Suc by blast
    then have "\<not> unat bytes < 1024 ^ Suc j" using not_less_Least [of j "\<lambda>k. unat bytes < 1024 ^ Suc k"] k_def by simp
    then show ?thesis using j by simp
  qed
  then show ?thesis
    using True lt \<open>k \<le> 4\<close> bytes_to_human_text [OF assms, of k bytes buf m] by (auto intro!: exI [of _ k])
next
  case False
  then have "1024 ^ 5 \<le> unat bytes" by simp
  note U = unit_loop_exhausted [OF this]
  have c: "0 < (3 :: nat) \<or> bytes mod 1024 ^ 5 = 0" by simp
  have "unat bytes div 1024 ^ 5 < 2 ^ 64" using unat_lt_u64 [of bytes] by simp
  then have u: "unat (of_nat (unat bytes div 1024 ^ 5) :: u64) = unat bytes div 1024 ^ 5" by (subst unat_of_nat_lt) simp_all
  have b: "ch CHR '' '' # units ! 0 = c_string '' bytes''" by (simp add: units_def c_string_def)
  have "bytes_to_human bytes buf n m = Inr (put_text buf n
      (padded False (ch CHR '' '') 5 (digits_nat 10 (unat bytes div 1024 ^ 5)) @ c_string '' bytes'') m)"
    unfolding bytes_to_human_def U Let_def prod.case if_P [OF c] snprintf_human(1) [OF assms zero_less_numeral] rbind_simps
      u b by (rule refl)
  then show ?thesis unfolding if_not_P [OF False] .
qed

theorem bytes_to_human_correct_witness:
  "bytes_to_human 0x8000000000000 100 10 (\<lambda>_. 7) = Inr (put_text 100 10 (c_string ''    2 bytes'') (\<lambda>_. 7))"
proof -
  have "padded False (ch CHR '' '') 5 (digits_nat 10 2) @ c_string '' bytes'' = c_string ''    2 bytes''"
    by (simp add: padded_def digits_nat.simps digit_char_def c_string_def numeral_eq_Suc)
  then show ?thesis using bytes_to_human_correct [of 10 "0x8000000000000" 100 "\<lambda>_. 7"] by simp
qed

end
