(* ===== verification/Serial.thy ===== *)
theory Serial
  imports Prelude
begin

text \<open>
  Port input and output, \<^verbatim>\<open>arch/x86_64/include/asm.h\<close>, and the polled serial port on top of it,
  \<^verbatim>\<open>early/serial.c\<close>. The device behind the ports is a parameter: what an \<^verbatim>\<open>in\<close> instruction reads
  may depend on the port and on the whole history of the ports. The state is that history. A
  loop that polls a device need not end, which is the value \<open>None\<close>.

  The theorem shows that a device which never stays busy for ever is sent exactly the bytes of
  the string, each right after it has said that it can take one, and that a device which stays
  busy blocks the kernel.
\<close>

datatype io =
    In u16 u8
  | Out u16 u8
  | InL u16 u32

type_synonym device = "u16 \<Rightarrow> io list \<Rightarrow> u8"

definition inb :: "device \<Rightarrow> u16 \<Rightarrow> io list \<Rightarrow> u8 \<times> io list" where
  "inb dev port h = (dev port h, h @ [In port (dev port h)])"

definition outb :: "u16 \<Rightarrow> u8 \<Rightarrow> io list \<Rightarrow> io list" where
  "outb port data h = h @ [Out port data]"

definition COM1 :: u16 where "COM1 = 0x3f8"
definition BAUD_RATE :: u32 where "BAUD_RATE = 115200"
definition BASE_BAUD_RATE :: u32 where "BASE_BAUD_RATE = 115200"
definition DLAB_FLAG :: u8 where "DLAB_FLAG = 0x80"
definition MODE_8N1 :: u8 where "MODE_8N1 = 3"
definition LSR_THR :: u8 where "LSR_THR = 0x20"

definition can_output_char :: "device \<Rightarrow> io list \<Rightarrow> bool \<times> io list" where
  "can_output_char dev h = (let (v, h) = inb dev (COM1 + 5) h in (v AND LSR_THR \<noteq> 0, h))"

definition early_serial_init_poll :: "io list \<Rightarrow> io list" where
  "early_serial_init_poll h =
     (let ratio = (ucast (BAUD_RATE div BASE_BAUD_RATE) :: u16);
          h = outb (COM1 + 1) 0 h;
          h = outb (COM1 + 3) DLAB_FLAG h;
          h = outb COM1 (ucast ratio) h;
          h = outb (COM1 + 1) (ucast (drop_bit 8 ratio)) h;
          h = outb (COM1 + 3) MODE_8N1 h
      in outb (COM1 + 4) 0 h)"

partial_function (option) wait_output :: "device \<Rightarrow> io list \<Rightarrow> io list option" where
  "wait_output dev h =
     (case can_output_char dev h of (rdy, h) \<Rightarrow> if rdy then Some h else wait_output dev h)"

definition early_serial_putc :: "device \<Rightarrow> u8 \<Rightarrow> io list \<Rightarrow> io list option" where
  "early_serial_putc dev chr h = map_option (outb COM1 chr) (wait_output dev h)"

text \<open>The string is the list of its bytes before the null byte.\<close>

fun early_serial_puts :: "device \<Rightarrow> u8 list \<Rightarrow> io list \<Rightarrow> io list option" where
  "early_serial_puts dev [] h = Some h"
| "early_serial_puts dev (chr # str) h =
     (case early_serial_putc dev chr h of None \<Rightarrow> None | Some h \<Rightarrow> early_serial_puts dev str h)"

section \<open>Polling\<close>

definition ready :: "device \<Rightarrow> io list \<Rightarrow> bool" where
  "ready dev h \<longleftrightarrow> dev (COM1 + 5) h AND LSR_THR \<noteq> 0"

definition poll :: "device \<Rightarrow> io list \<Rightarrow> io list" where
  "poll dev h = h @ [In (COM1 + 5) (dev (COM1 + 5) h)]"

text \<open>However it has been used, polling the device often enough finds it ready.\<close>

definition responsive :: "device \<Rightarrow> bool" where
  "responsive dev \<longleftrightarrow> (\<forall>h. \<exists>n. ready dev ((poll dev ^^ n) h))"

lemma wait_output_unfold: "wait_output dev h = (if ready dev h then Some (poll dev h) else wait_output dev (poll dev h))"
  by (subst wait_output.simps) (simp add: can_output_char_def inb_def ready_def poll_def)

lemma wait_output_polls:
  "(\<And>k. k < n \<Longrightarrow> \<not> ready dev ((poll dev ^^ k) h)) \<Longrightarrow> ready dev ((poll dev ^^ n) h) \<Longrightarrow>
    wait_output dev h = Some ((poll dev ^^ Suc n) h)"
proof (induction n arbitrary: h)
  case 0
  then show ?case by (simp add: wait_output_unfold [of dev h])
next
  case (Suc n)
  have "\<not> ready dev h" using Suc.prems(1) [of 0] by simp
  moreover have "\<not> ready dev ((poll dev ^^ k) (poll dev h))" if "k < n" for k
    using Suc.prems(1) [of "Suc k"] that by (simp add: funpow_Suc_right del: funpow.simps)
  moreover have "ready dev ((poll dev ^^ n) (poll dev h))"
    using Suc.prems(2) by (simp add: funpow_Suc_right del: funpow.simps)
  ultimately show ?case using Suc.IH [of "poll dev h"]
    by (subst wait_output_unfold) (simp add: funpow_Suc_right del: funpow.simps)
qed

lemma polls_append: "\<exists>ps. (poll dev ^^ n) h = h @ ps \<and> (\<forall>e\<in>set ps. \<exists>v. e = In (COM1 + 5) v)"
proof (induction n)
  case (Suc n)
  then obtain ps where "(poll dev ^^ n) h = h @ ps" "\<forall>e\<in>set ps. \<exists>v. e = In (COM1 + 5) v" by blast
  then show ?case
    by (intro exI [of _ "ps @ [In (COM1 + 5) (dev (COM1 + 5) (h @ ps))]"]) (auto simp: poll_def [of dev "h @ ps"])
qed simp

lemma wait_output_ready:
  assumes "responsive dev"
  obtains ps v where "wait_output dev h = Some (h @ ps @ [In (COM1 + 5) v])" "v AND LSR_THR \<noteq> 0"
    "\<forall>e\<in>set ps. \<exists>v. e = In (COM1 + 5) v"
proof -
  define n where "n = (LEAST n. ready dev ((poll dev ^^ n) h))"
  have n: "ready dev ((poll dev ^^ n) h)" "\<And>k. k < n \<Longrightarrow> \<not> ready dev ((poll dev ^^ k) h)"
    using assms LeastI_ex [of "\<lambda>n. ready dev ((poll dev ^^ n) h)"] not_less_Least
    by (auto simp: n_def responsive_def)
  obtain ps where ps: "(poll dev ^^ n) h = h @ ps" "\<forall>e\<in>set ps. \<exists>v. e = In (COM1 + 5) v" using polls_append by blast
  have "wait_output dev h = Some (h @ ps @ [In (COM1 + 5) (dev (COM1 + 5) (h @ ps))])"
    using wait_output_polls [OF n(2,1)] ps(1) by (simp add: poll_def [of dev "h @ ps"])
  moreover have "dev (COM1 + 5) (h @ ps) AND LSR_THR \<noteq> 0" using n(1) ps(1) by (simp add: ready_def)
  ultimately show ?thesis using that ps(2) by blast
qed

text \<open>A device that stays busy: the least fixed point of the loop is undefined.\<close>

lemma wait_output_some:
  assumes "wait_output dev h = Some h'"
  shows "\<exists>n. ready dev ((poll dev ^^ n) h)"
proof (rule wait_output.raw_induct [where P = "\<lambda>dev h _. \<exists>n. ready dev ((poll dev ^^ n) h)", OF _ assms])
  fix f dev h h'
  assume 1: "\<And>dev h h'. f dev h = Some h' \<Longrightarrow> \<exists>n. ready dev ((poll dev ^^ n) h)"
    "(case can_output_char dev h of (rdy, h) \<Rightarrow> if rdy then Some h else f dev h) = Some h'"
  show "\<exists>n. ready dev ((poll dev ^^ n) h)"
  proof (cases "ready dev h")
    case True
    then show ?thesis by (intro exI [of _ 0]) simp
  next
    case False
    then have "f dev (poll dev h) = Some h'"
      using 1(2) by (simp add: can_output_char_def inb_def ready_def poll_def)
    then obtain n where "ready dev ((poll dev ^^ n) (poll dev h))" using 1(1) by blast
    then show ?thesis by (intro exI [of _ "Suc n"]) (simp add: funpow_Suc_right del: funpow.simps)
  qed
qed

text \<open>Each event of a string being sent, and what the other side receives.\<close>

definition data_bytes :: "io list \<Rightarrow> u8 list" where
  "data_bytes h = concat (map (\<lambda>e. case e of Out port c \<Rightarrow> if port = COM1 then [c] else [] | _ \<Rightarrow> []) h)"

inductive sends :: "u8 list \<Rightarrow> io list \<Rightarrow> bool" where
  sends_Nil: "sends [] []"
| sends_Cons: "\<forall>e\<in>set ps. \<exists>v. e = In (COM1 + 5) v \<Longrightarrow> v AND LSR_THR \<noteq> 0 \<Longrightarrow> sends str h \<Longrightarrow>
    sends (c # str) (ps @ In (COM1 + 5) v # Out COM1 c # h)"

inductive_cases sends_ConsE: "sends (c # str) h"

lemma puts_sends:
  assumes "responsive dev"
  shows "\<exists>h'. early_serial_puts dev str h = Some (h @ h') \<and> sends str h'"
proof (induction str arbitrary: h)
  case Nil
  then show ?case by (simp add: sends_Nil)
next
  case (Cons c str)
  obtain ps v where w: "wait_output dev h = Some (h @ ps @ [In (COM1 + 5) v])" "v AND LSR_THR \<noteq> 0"
    "\<forall>e\<in>set ps. \<exists>v. e = In (COM1 + 5) v" using wait_output_ready [OF assms] by blast
  obtain h' where h': "early_serial_puts dev str (h @ ps @ [In (COM1 + 5) v] @ [Out COM1 c]) =
      Some (h @ ps @ [In (COM1 + 5) v] @ [Out COM1 c] @ h')" "sends str h'"
    using Cons [of "h @ ps @ [In (COM1 + 5) v] @ [Out COM1 c]"] by auto
  have "early_serial_puts dev (c # str) h = Some (h @ ps @ In (COM1 + 5) v # Out COM1 c # h')"
    using w(1) h'(1) by (simp add: early_serial_putc_def outb_def)
  moreover have "sends (c # str) (ps @ In (COM1 + 5) v # Out COM1 c # h')" by (rule sends_Cons [OF w(3,2) h'(2)])
  ultimately show ?case by blast
qed

lemma sends_data: "sends str h \<Longrightarrow> data_bytes h = str"
proof (induction rule: sends.induct)
  case (sends_Cons ps v str h c)
  have "concat (map (\<lambda>e. case e of Out port c \<Rightarrow> if port = COM1 then [c] else [] | _ \<Rightarrow> []) ps) = []"
    using sends_Cons(1) by auto
  then show ?case using sends_Cons(4) by (simp add: data_bytes_def)
qed (simp add: data_bytes_def)

lemma sends_polite: "sends str h \<Longrightarrow> i < length h \<Longrightarrow> h ! i = Out p c \<Longrightarrow>
    p = COM1 \<and> 0 < i \<and> (\<exists>v. h ! (i - 1) = In (COM1 + 5) v \<and> v AND LSR_THR \<noteq> 0)"
proof (induction arbitrary: i rule: sends.induct)
  case (sends_Cons ps v str h d)
  let ?k = "length ps"
  consider "i < ?k" | "i = ?k" | "i = Suc ?k" | "?k + 2 \<le> i" by linarith
  then show ?case
  proof cases
    case 1
    then have "ps ! i \<in> set ps" by (rule nth_mem)
    moreover have "ps ! i = Out p c" using 1 sends_Cons.prems(2) by (simp add: nth_append)
    ultimately show ?thesis using sends_Cons(1) by auto
  next
    case 2
    then show ?thesis using sends_Cons.prems(2) by (simp add: nth_append)
  next
    case 3
    then show ?thesis using sends_Cons.prems(2) sends_Cons(2) by (simp add: nth_append)
  next
    case 4
    then obtain j where i: "i = ?k + (2 + j)" using le_Suc_ex [OF 4] by (auto simp: add.assoc)
    have n: "(ps @ In (COM1 + 5) v # Out COM1 d # h) ! (?k + (2 + k)) = h ! k" for k by (simp only: nth_append_length_plus) simp
    have j: "j < length h" "h ! j = Out p c" using sends_Cons.prems n [of j] i by simp_all
    then obtain v' where v': "p = COM1" "0 < j" "h ! (j - 1) = In (COM1 + 5) v'" "v' AND LSR_THR \<noteq> 0"
      using sends_Cons.IH by blast
    moreover have "i - 1 = ?k + (2 + (j - 1))" using i v'(2) by linarith
    ultimately show ?thesis using n [of "j - 1"] i by auto
  qed
qed simp

section \<open>Properties\<close>

text \<open>
  C15: Serial output. If the port never stays busy for ever, sending a string returns, the
  bytes written to the data port are exactly those of the string in order, and each of them
  is written right after a read of the line status that said the transmitter is empty; if the
  port stays busy from some point on, sending anything more never returns.
\<close>

theorem early_serial_puts_correct:
  fixes dev busy :: device and h h0 :: "io list" and str :: "u8 list"
  assumes "responsive dev" and "\<And>n. \<not> ready busy ((poll busy ^^ n) h0)"
  shows "(\<exists>h'. early_serial_puts dev str h = Some (h @ h') \<and> data_bytes h' = str \<and>
      (\<forall>i p c. i < length h' \<longrightarrow> h' ! i = Out p c \<longrightarrow>
        p = COM1 \<and> 0 < i \<and> (\<exists>v. h' ! (i - 1) = In (COM1 + 5) v \<and> v AND LSR_THR \<noteq> 0))) \<and>
    early_serial_puts busy (c # str) h0 = None"
proof -
  obtain h' where h': "early_serial_puts dev str h = Some (h @ h')" "sends str h'" using puts_sends [OF assms(1)] by blast
  have "wait_output busy h0 = None" using wait_output_some [of busy h0] assms(2) by (cases "wait_output busy h0") auto
  then have "early_serial_puts busy (c # str) h0 = None" by (simp add: early_serial_putc_def)
  then show ?thesis using h' sends_data sends_polite by blast
qed

theorem early_serial_puts_correct_witness:
  "(\<exists>h'. early_serial_puts (\<lambda>_ h. if length h mod 3 = 0 then LSR_THR else 0) [0x6f, 0x6b] [] = Some h' \<and> data_bytes h' = [0x6f, 0x6b]) \<and>
    early_serial_puts (\<lambda>_ _. 0) [0x6f, 0x6b] [] = None"
proof -
  let ?dev = "\<lambda>_ h. if length (h :: io list) mod 3 = 0 then LSR_THR else 0 :: u8"
  have l: "length ((poll ?dev ^^ n) h) = length h + n" for n and h :: "io list" by (induction n) (simp_all add: poll_def)
  have "responsive ?dev"
    unfolding responsive_def
  proof (intro allI exI)
    fix h :: "io list"
    have "(length h + 2 * length h) mod 3 = 0" by simp
    then show "ready ?dev ((poll ?dev ^^ (2 * length h)) h)" unfolding ready_def l by (simp add: LSR_THR_def)
  qed
  moreover have "\<not> ready (\<lambda>_ _. 0) ((poll (\<lambda>_ _. 0) ^^ n) [])" for n by (simp add: ready_def)
  ultimately show ?thesis
    using early_serial_puts_correct [of ?dev "\<lambda>_ _. 0" "[]" "[0x6f, 0x6b]" "[]" "0x6f"]
      early_serial_puts_correct [of ?dev "\<lambda>_ _. 0" "[]" "[0x6b]" "[]" "0x6f"] by auto
qed

end
