(* ===== verification/Screen.thy ===== *)
theory Screen
  imports Video
begin

text \<open>
  What the early video console shows. The abstract console is the list of the lines written
  so far and the line being written, with tabs expanded; \<open>video_shows\<close> relates it to the
  buffer, the video memory and the two static variables of \<^verbatim>\<open>early/video.c\<close>. Every operation of
  the console is shown to refine the operation on lines.
\<close>

section \<open>The abstract console\<close>

type_synonym lines = "u8 list list \<times> u8 list"

definition put_line :: "u8 \<Rightarrow> lines \<Rightarrow> lines" where
  "put_line c = (\<lambda>(ls, l). if c = 0x0a then (ls @ [l], []) else (ls, l @ (if c = 0x09 then replicate 8 0x20 else [c])))"

text \<open>A line longer than 78 characters is cut and ends in a dot in the last but one column.\<close>

definition shown_line :: "u8 list \<Rightarrow> u8 list" where
  "shown_line l = (if length l \<le> 78 then l else take 78 l @ [0x2e])"

definition line_at :: "u8 list list \<Rightarrow> nat \<Rightarrow> u8 list" where
  "line_at ls i = (if i < min (length ls) 25 then ls ! (length ls - min (length ls) 25 + i) else [])"

definition row_shows :: "u64 \<Rightarrow> memory \<Rightarrow> nat \<Rightarrow> u8 list \<Rightarrow> bool" where
  "row_shows a m i l \<longleftrightarrow> (\<forall>c<80.
     m (a + of_nat (160 * i + 2 * c)) = (if c < length (shown_line l) then shown_line l ! c else 0) \<and>
     m (a + of_nat (160 * i + 2 * c + 1)) = (if c < length (shown_line l) then 15 else 0))"

definition video_shows :: "lines \<Rightarrow> video \<Rightarrow> bool" where
  "video_shows = (\<lambda>(ls, l) (m, v).
     curr_row v = int (min (length ls) 25) \<and> curr_col v = int (length l) \<and>
     (\<forall>i<26. row_shows EARLY_VIDEO_BUFFER_ADDRESS m i (if i = min (length ls) 25 then l else line_at ls i)) \<and>
     (ls \<noteq> [] \<longrightarrow> (\<forall>i<25. row_shows EARLY_VIDEO_MEMORY_ADDRESS m i (line_at ls i))))"

text \<open>A step that refines another does so over every sequence of inputs.\<close>

locale stepwise =
  fixes step :: "'i \<Rightarrow> 's \<Rightarrow> 's" and astep :: "'i \<Rightarrow> 'a \<Rightarrow> 'a" and sim :: "'a \<Rightarrow> 's \<Rightarrow> bool"
  assumes step_refines: "sim a s \<Longrightarrow> sim (astep i a) (step i s)"
begin

lemma fold_refines: "sim a s \<Longrightarrow> sim (fold astep xs a) (fold step xs s)"
  by (induction xs arbitrary: a s) (simp_all add: step_refines)

lemma fold_refines_twice: "sim a s \<Longrightarrow> sim (fold astep (xs @ ys) a) (fold step ys (fold step xs s))"
  using fold_refines [of a s "xs @ ys"] by simp

end

section \<open>Bytes of the buffer\<close>

lemma cell_parity: "160 * i + 2 * c \<noteq> 160 * j + 2 * d + (1 :: nat)" "160 * i + 2 * c + (1 :: nat) \<noteq> 160 * j + 2 * d"
proof -
  have "even (160 * i + 2 * c)" "even (160 * j + 2 * d)" by simp_all
  then show "160 * i + 2 * c \<noteq> 160 * j + 2 * d + 1" "160 * i + 2 * c + 1 \<noteq> 160 * j + 2 * d"
    by (metis even_plus_one_iff)+
qed

lemma offset_inj: "a + of_nat k = a + (of_nat j :: u64) \<longleftrightarrow> k = j" if "k < 5000" "j < 5000" for k j :: nat
proof -
  have "unat (of_nat k :: u64) = k" "unat (of_nat j :: u64) = j" using that by (simp_all add: unat_of_nat_lt)
  then show ?thesis by (metis add_left_cancel)
qed

text \<open>The video memory lies \<open>0xb1000\<close> bytes above the buffer.\<close>

lemma memory_not_buffer:
  assumes "k < 5000" "j < 5000"
  shows "EARLY_VIDEO_BUFFER_ADDRESS + of_nat k \<noteq> EARLY_VIDEO_MEMORY_ADDRESS + of_nat j"
    "\<not> unat (EARLY_VIDEO_BUFFER_ADDRESS + of_nat k - EARLY_VIDEO_MEMORY_ADDRESS) < 4160"
    "\<not> unat (EARLY_VIDEO_MEMORY_ADDRESS + of_nat j - EARLY_VIDEO_BUFFER_ADDRESS) < 4160"
proof -
  let ?k = "of_nat k :: u64" and ?j = "of_nat j :: u64"
  have u: "unat ?k = k" "unat ?j = j" using assms by (simp_all add: unat_of_nat_lt)
  have e: "EARLY_VIDEO_MEMORY_ADDRESS = EARLY_VIDEO_BUFFER_ADDRESS + 0xb1000"
    by (simp add: EARLY_VIDEO_MEMORY_ADDRESS_def EARLY_VIDEO_BUFFER_ADDRESS_def
      X86_VIDEO_MEMORY_ADDRESS_PHYS_def X86_EARLY_VIDEO_BUFFER_ADDRESS_PHYS_def)
  have j: "unat (0xb1000 + ?j) = 0xb1000 + j" using u(2) assms(2) by (subst unat_plus_no_wrap) simp_all
  show "EARLY_VIDEO_BUFFER_ADDRESS + ?k \<noteq> EARLY_VIDEO_MEMORY_ADDRESS + ?j"
  proof
    assume "EARLY_VIDEO_BUFFER_ADDRESS + ?k = EARLY_VIDEO_MEMORY_ADDRESS + ?j"
    then have "?k = 0xb1000 + ?j" unfolding e by (simp only: add.assoc add_left_cancel)
    then have "unat ?k = unat (0xb1000 + ?j)" by (rule arg_cong)
    then show False using j u(1) assms(1) by linarith
  qed
  show "\<not> unat (EARLY_VIDEO_BUFFER_ADDRESS + ?k - EARLY_VIDEO_MEMORY_ADDRESS) < 4160"
  proof -
    have "EARLY_VIDEO_BUFFER_ADDRESS + ?k - EARLY_VIDEO_MEMORY_ADDRESS = ?k - 0xb1000"
      unfolding e by (simp only: add_diff_cancel_left)
    moreover have "unat (?k - 0xb1000) = k + 2 ^ 64 - 0xb1000" using u(1) assms(1) by (subst unat_diff_wrap) simp_all
    ultimately have "unat (EARLY_VIDEO_BUFFER_ADDRESS + ?k - EARLY_VIDEO_MEMORY_ADDRESS) = k + 2 ^ 64 - 0xb1000" by (simp only:)
    then show ?thesis by simp
  qed
  show "\<not> unat (EARLY_VIDEO_MEMORY_ADDRESS + ?j - EARLY_VIDEO_BUFFER_ADDRESS) < 4160"
  proof -
    have "EARLY_VIDEO_MEMORY_ADDRESS + ?j - EARLY_VIDEO_BUFFER_ADDRESS = 0xb1000 + ?j"
      unfolding e by (simp only: add.assoc add_diff_cancel_left')
    with j have "unat (EARLY_VIDEO_MEMORY_ADDRESS + ?j - EARLY_VIDEO_BUFFER_ADDRESS) = 0xb1000 + j" by (simp only:)
    then show ?thesis by linarith
  qed
qed

lemma putc_bytes:
  assumes "curr_row v = int r" "r \<le> 25" "curr_col v = int n" "video_putc c (m, v) = (m', v')" "k < 5000"
  shows "m' (EARLY_VIDEO_BUFFER_ADDRESS + of_nat k) =
      (if n < 79 \<and> k = 160 * r + 2 * n then (if n = 78 then 0x2e else c)
       else if n < 79 \<and> k = 160 * r + 2 * n + 1 then 15 else m (EARLY_VIDEO_BUFFER_ADDRESS + of_nat k))"
    "m' (EARLY_VIDEO_MEMORY_ADDRESS + of_nat k) = m (EARLY_VIDEO_MEMORY_ADDRESS + of_nat k)"
    "curr_row v' = int r" "curr_col v' = int (Suc n)"
proof -
  have g: "get_buf v = EARLY_VIDEO_BUFFER_ADDRESS + of_nat (160 * r + 2 * n)" if "n < 79"
  proof -
    have "2 * (curr_row v * COLS + curr_col v mod COLS) = int (160 * r + 2 * n)"
      using that assms(1,3) by (simp add: COLS_def)
    then show ?thesis unfolding get_buf_def by (simp only: of_int_of_nat_eq)
  qed
  have g1: "get_buf v + 1 = EARLY_VIDEO_BUFFER_ADDRESS + of_nat (160 * r + 2 * n + 1)" if "n < 79"
    using g [OF that] by (simp only: of_nat_add add.assoc of_nat_1)
  have p: "(m', v') = (if curr_col v = 78 then m(get_buf v := 0x2e, get_buf v + 1 := 15)
      else if 78 < curr_col v then m else m(get_buf v := c, get_buf v + 1 := 15), v\<lparr>curr_col := curr_col v + 1\<rparr>)"
    using assms(4) by (auto simp: video_putc_def Let_def COLS_def split: if_splits)
  have m': "m' = (if n < 79 then m(EARLY_VIDEO_BUFFER_ADDRESS + of_nat (160 * r + 2 * n) := (if n = 78 then 0x2e else c),
      EARLY_VIDEO_BUFFER_ADDRESS + of_nat (160 * r + 2 * n + 1) := 15) else m)"
  proof (cases "n < 79")
    case True
    then show ?thesis using p assms(3) g g1 by (auto simp del: of_nat_add of_nat_mult)
  next
    case False
    then show ?thesis using p assms(3) by auto
  qed
  have b: "160 * r + 2 * n < 5000" "160 * r + 2 * n + 1 < 5000" if "n < 79" using that assms(2) by simp_all
  show "m' (EARLY_VIDEO_BUFFER_ADDRESS + of_nat k) =
      (if n < 79 \<and> k = 160 * r + 2 * n then (if n = 78 then 0x2e else c)
       else if n < 79 \<and> k = 160 * r + 2 * n + 1 then 15 else m (EARLY_VIDEO_BUFFER_ADDRESS + of_nat k))"
    unfolding m' using offset_inj [OF assms(5) b(1)] offset_inj [OF assms(5) b(2)] by (auto simp del: of_nat_add of_nat_mult)
  show "m' (EARLY_VIDEO_MEMORY_ADDRESS + of_nat k) = m (EARLY_VIDEO_MEMORY_ADDRESS + of_nat k)"
    unfolding m' using memory_not_buffer(1) [OF b(1) assms(5)] memory_not_buffer(1) [OF b(2) assms(5)]
    by (auto simp del: of_nat_add of_nat_mult)
  show "curr_row v' = int r" "curr_col v' = int (Suc n)" using p assms(1,3) by auto
qed

lemma shown_snoc:
  "length (shown_line (l @ [c])) = (if length l < 79 then Suc (length l) else length (shown_line l))"
  "j < length (shown_line (l @ [c])) \<Longrightarrow>
    shown_line (l @ [c]) ! j = (if j = length l \<and> length l < 79 then (if length l = 78 then 0x2e else c) else shown_line l ! j)"
  by (auto simp: shown_line_def nth_append min_def)

lemma length_shown: "length (shown_line l) = min (length l) 79"
  by (simp add: shown_line_def)

lemma row_moved:
  assumes "row_shows a m j l" "\<And>k. k < 160 \<Longrightarrow> m' (b + of_nat (160 * i + k)) = m (a + of_nat (160 * j + k))"
  shows "row_shows b m' i l"
  unfolding row_shows_def
proof (intro allI impI)
  fix c :: nat
  assume "c < 80"
  then have "m' (b + of_nat (160 * i + 2 * c)) = m (a + of_nat (160 * j + 2 * c))"
    "m' (b + of_nat (160 * i + 2 * c + 1)) = m (a + of_nat (160 * j + 2 * c + 1))"
    using assms(2) [of "2 * c"] assms(2) [of "2 * c + 1"] by (simp_all only: add.assoc)
  with assms(1) \<open>c < 80\<close> show "m' (b + of_nat (160 * i + 2 * c)) = (if c < length (shown_line l) then shown_line l ! c else 0) \<and>
      m' (b + of_nat (160 * i + 2 * c + 1)) = (if c < length (shown_line l) then 15 else 0)"
    by (simp only: row_shows_def)
qed

lemma row_bytes:
  assumes "row_shows a m i l" "\<And>k. 160 * i \<le> k \<Longrightarrow> k < 160 * i + 160 \<Longrightarrow> m' (b + of_nat k) = m (a + of_nat k)"
  shows "row_shows b m' i l"
  by (rule row_moved [OF assms(1)]) (use assms(2) in \<open>simp del: of_nat_add of_nat_mult\<close>)

lemma row_written:
  assumes "row_shows a m r l"
    and "\<And>k. 160 * r \<le> k \<Longrightarrow> k < 160 * r + 160 \<Longrightarrow> m' (a + of_nat k) =
      (if length l < 79 \<and> k = 160 * r + 2 * length l then (if length l = 78 then 0x2e else c)
       else if length l < 79 \<and> k = 160 * r + 2 * length l + 1 then 15 else m (a + of_nat k))"
  shows "row_shows a m' r (l @ [c])"
  unfolding row_shows_def
proof (intro allI impI)
  fix d :: nat
  assume d: "d < 80"
  let ?k = "160 * r + 2 * d"
  have c: "m' (a + of_nat ?k) = (if length l < 79 \<and> d = length l then (if length l = 78 then 0x2e else c) else m (a + of_nat ?k))"
    using assms(2) [of ?k] d cell_parity by (auto simp del: of_nat_add of_nat_mult)
  have x: "m' (a + of_nat (?k + 1)) = (if length l < 79 \<and> d = length l then 15 else m (a + of_nat (?k + 1)))"
    using assms(2) [of "?k + 1"] d cell_parity [of r d r "length l"] by (auto simp del: of_nat_add of_nat_mult)
  have "m (a + of_nat ?k) = (if d < length (shown_line l) then shown_line l ! d else 0)"
    "m (a + of_nat (?k + 1)) = (if d < length (shown_line l) then 15 else 0)" using assms(1) d by (simp_all only: row_shows_def)
  then show "m' (a + of_nat ?k) = (if d < length (shown_line (l @ [c])) then shown_line (l @ [c]) ! d else 0) \<and>
      m' (a + of_nat (?k + 1)) = (if d < length (shown_line (l @ [c])) then 15 else 0)"
    unfolding c x using shown_snoc(1) [of l c] shown_snoc(2) [of d l c] d
    by (auto simp: length_shown simp del: of_nat_add of_nat_mult)
qed

lemma line_at_nil: "min (length ls) 25 \<le> i \<Longrightarrow> line_at ls i = []"
  by (simp only: line_at_def linorder_not_less [symmetric] if_False)

lemma line_at_last: "(if i = min (length ls) 25 then [] else line_at ls i) = line_at ls i"
proof (cases "i = min (length ls) 25")
  case True
  then have "line_at ls i = []" by (intro line_at_nil) (rule eq_refl, rule sym)
  then show ?thesis using True by (simp only: refl if_True)
qed (simp only: if_False)

lemma putc_shows:
  assumes "video_shows (ls, l) w"
  shows "video_shows (ls, l @ [c]) (video_putc c w)"
proof -
  obtain m v m' v' where w: "w = (m, v)" "video_putc c (m, v) = (m', v')" by (cases w, cases "video_putc c w") auto
  let ?r = "min (length ls) 25"
  have V: "curr_row v = int ?r" "curr_col v = int (length l)"
    "\<And>i. i < 26 \<Longrightarrow> row_shows EARLY_VIDEO_BUFFER_ADDRESS m i (if i = ?r then l else line_at ls i)"
    "\<And>i. ls \<noteq> [] \<Longrightarrow> i < 25 \<Longrightarrow> row_shows EARLY_VIDEO_MEMORY_ADDRESS m i (line_at ls i)"
    using assms unfolding video_shows_def w(1) prod.case by blast+
  note P = putc_bytes [OF V(1) _ V(2) w(2), OF min.cobounded2]
  have "row_shows EARLY_VIDEO_BUFFER_ADDRESS m' i (if i = ?r then l @ [c] else line_at ls i)" if i: "i < 26" for i
  proof (cases "i = ?r")
    case True
    have "row_shows EARLY_VIDEO_BUFFER_ADDRESS m' ?r (l @ [c])"
    proof (rule row_written)
      have "?r < 26" by linarith
      from V(3) [OF this] show "row_shows EARLY_VIDEO_BUFFER_ADDRESS m ?r l" by simp
      fix k assume "160 * ?r \<le> k" "k < 160 * ?r + 160"
      moreover have "?r \<le> 25" by linarith
      ultimately have "k < 5000" by linarith
      then show "m' (EARLY_VIDEO_BUFFER_ADDRESS + of_nat k) =
        (if length l < 79 \<and> k = 160 * ?r + 2 * length l then (if length l = 78 then 0x2e else c)
         else if length l < 79 \<and> k = 160 * ?r + 2 * length l + 1 then 15 else m (EARLY_VIDEO_BUFFER_ADDRESS + of_nat k))" by (rule P(1))
    qed
    then show ?thesis using True by simp
  next
    case False
    have "row_shows EARLY_VIDEO_BUFFER_ADDRESS m' i (line_at ls i)"
    proof (rule row_bytes)
      show "row_shows EARLY_VIDEO_BUFFER_ADDRESS m i (line_at ls i)" using V(3) [OF i] False by simp
      fix k assume k: "160 * i \<le> k" "k < 160 * i + 160"
      have no: "\<not> (length l < 79 \<and> k = 160 * ?r + 2 * length l)" "\<not> (length l < 79 \<and> k = 160 * ?r + 2 * length l + 1)"
        using k False by linarith+
      have "k < 5000" using k i by linarith
      from P(1) [OF this] show "m' (EARLY_VIDEO_BUFFER_ADDRESS + of_nat k) = m (EARLY_VIDEO_BUFFER_ADDRESS + of_nat k)"
        by (simp only: no if_False)
    qed
    then show ?thesis using False by simp
  qed
  moreover have "row_shows EARLY_VIDEO_MEMORY_ADDRESS m' i (line_at ls i)" if "ls \<noteq> []" "i < 25" for i
    using V(4) [OF that] by (rule row_bytes) (use P(2) that in simp)
  ultimately show ?thesis using P(3,4) [of 0] by (simp only: w video_shows_def prod.case) simp
qed

lemma line_at_snoc:
  "length ls < 25 \<Longrightarrow> line_at (ls @ [l]) i = (if i = length ls then l else line_at ls i)"
  "25 \<le> length ls \<Longrightarrow> i < 25 \<Longrightarrow> line_at (ls @ [l]) i = (if i = 24 then l else line_at ls (i + 1))"
proof -
  show "length ls < 25 \<Longrightarrow> line_at (ls @ [l]) i = (if i = length ls then l else line_at ls i)"
    by (auto simp: line_at_def nth_append min_def)
  assume a: "25 \<le> length ls" "i < 25"
  then have "length ls + i - 24 = Suc (length ls + i - 25)" by linarith
  with a show "line_at (ls @ [l]) i = (if i = 24 then l else line_at ls (i + 1))"
    by (auto simp: line_at_def nth_append min_def)
qed

lemma row_blank:
  assumes "\<And>k. k < 160 \<Longrightarrow> m (a + of_nat (160 * i + k)) = 0"
  shows "row_shows a m i []"
  unfolding row_shows_def
proof (intro allI impI)
  fix c :: nat
  assume "c < 80"
  then show "m (a + of_nat (160 * i + 2 * c)) = (if c < length (shown_line []) then shown_line [] ! c else 0) \<and>
      m (a + of_nat (160 * i + 2 * c + 1)) = (if c < length (shown_line []) then 15 else 0)"
    using assms [of "2 * c"] assms [of "2 * c + 1"] by (simp only: add.assoc) (simp add: shown_line_def)
qed

lemma flush_bytes:
  "k < 5000 \<Longrightarrow> video_flush m (EARLY_VIDEO_BUFFER_ADDRESS + of_nat k) = m (EARLY_VIDEO_BUFFER_ADDRESS + of_nat k)"
  "k < 4000 \<Longrightarrow> video_flush m (EARLY_VIDEO_MEMORY_ADDRESS + of_nat k) = m (EARLY_VIDEO_BUFFER_ADDRESS + of_nat k)"
proof -
  show "video_flush m (EARLY_VIDEO_BUFFER_ADDRESS + of_nat k) = m (EARLY_VIDEO_BUFFER_ADDRESS + of_nat k)" if "k < 5000"
  proof -
    have "\<not> unat (EARLY_VIDEO_BUFFER_ADDRESS + of_nat k - EARLY_VIDEO_MEMORY_ADDRESS) < 4000"
      using memory_not_buffer(2) [OF that that] by linarith
    then show ?thesis unfolding flush_copies by (simp only: if_False)
  qed
  have "unat (of_nat k :: u64) = k" if "k < 4000" using that by (simp add: unat_of_nat_lt)
  then show "k < 4000 \<Longrightarrow> video_flush m (EARLY_VIDEO_MEMORY_ADDRESS + of_nat k) = m (EARLY_VIDEO_BUFFER_ADDRESS + of_nat k)"
    unfolding flush_copies by (simp only: add_diff_cancel_left' if_True)
qed

lemma scroll_bytes:
  "k < 4000 \<Longrightarrow> scroll_down m (EARLY_VIDEO_BUFFER_ADDRESS + of_nat k) = m (EARLY_VIDEO_BUFFER_ADDRESS + of_nat (k + 160))"
  "4000 \<le> k \<Longrightarrow> k < 4160 \<Longrightarrow> scroll_down m (EARLY_VIDEO_BUFFER_ADDRESS + of_nat k) = 0"
proof -
  have u: "unat (of_nat k :: u64) = k" if "k < 4160" using that by (simp add: unat_of_nat_lt)
  have a: "EARLY_VIDEO_BUFFER_ADDRESS + of_nat k + 160 = EARLY_VIDEO_BUFFER_ADDRESS + of_nat (k + 160)" by simp
  show "k < 4000 \<Longrightarrow> scroll_down m (EARLY_VIDEO_BUFFER_ADDRESS + of_nat k) = m (EARLY_VIDEO_BUFFER_ADDRESS + of_nat (k + 160))"
    unfolding scroll_moves Let_def a using u by (simp only: add_diff_cancel_left') simp
  show "4000 \<le> k \<Longrightarrow> k < 4160 \<Longrightarrow> scroll_down m (EARLY_VIDEO_BUFFER_ADDRESS + of_nat k) = 0"
    unfolding scroll_moves Let_def using u by (simp only: add_diff_cancel_left') simp
qed

text \<open>The rows of the buffer before the flush, with room below the last line and without.\<close>

lemma buffer_next:
  assumes "length ls < 25" "\<And>i. i < 26 \<Longrightarrow> row_shows EARLY_VIDEO_BUFFER_ADDRESS m i (if i = min (length ls) 25 then l else line_at ls i)" "i < 26"
  shows "row_shows EARLY_VIDEO_BUFFER_ADDRESS m i (line_at (ls @ [l]) i)"
  using assms(2) [OF assms(3)] assms(1) by (simp add: line_at_snoc(1))

lemma buffer_scrolled:
  assumes "25 \<le> length ls" "\<And>i. i < 26 \<Longrightarrow> row_shows EARLY_VIDEO_BUFFER_ADDRESS m i (if i = min (length ls) 25 then l else line_at ls i)" "i < 26"
  shows "row_shows EARLY_VIDEO_BUFFER_ADDRESS (scroll_down m) i (line_at (ls @ [l]) i)"
proof (cases "i < 25")
  case True
  have "row_shows EARLY_VIDEO_BUFFER_ADDRESS m (i + 1) (line_at (ls @ [l]) i)"
    using assms(2) [of "i + 1"] assms(1) True by (simp add: line_at_snoc(2))
  then show ?thesis
  proof (rule row_moved)
    fix k :: nat assume "k < 160"
    then have "160 * i + k < 4000" using True by linarith
    moreover have "160 * i + k + 160 = 160 * (i + 1) + k" by simp
    ultimately show "scroll_down m (EARLY_VIDEO_BUFFER_ADDRESS + of_nat (160 * i + k)) = m (EARLY_VIDEO_BUFFER_ADDRESS + of_nat (160 * (i + 1) + k))"
      using scroll_bytes(1) by metis
  qed
next
  case False
  then have "line_at (ls @ [l]) i = []" by (intro line_at_nil) linarith
  moreover have "row_shows EARLY_VIDEO_BUFFER_ADDRESS (scroll_down m) i []"
    using False assms(3) by (intro row_blank scroll_bytes(2)) linarith+
  ultimately show ?thesis by simp
qed

lemma newline_shows:
  assumes "video_shows (ls, l) w"
  shows "video_shows (ls @ [l], []) (newline w)"
proof -
  obtain m v where w: "w = (m, v)" by (cases w)
  have V: "curr_row v = int (min (length ls) 25)"
    "\<And>i. i < 26 \<Longrightarrow> row_shows EARLY_VIDEO_BUFFER_ADDRESS m i (if i = min (length ls) 25 then l else line_at ls i)"
    using assms unfolding video_shows_def w prod.case by blast+
  let ?m = "if 25 \<le> length ls then scroll_down m else m"
  have n: "newline w = (video_flush ?m, v\<lparr>curr_row := int (min (length (ls @ [l])) 25), curr_col := 0\<rparr>)"
  proof (cases "25 \<le> length ls")
    case True
    then have "curr_row v = ROWS" using V(1) by (simp add: ROWS_def)
    then show ?thesis using True by (simp add: w newline_def ROWS_def)
  next
    case False
    then have "curr_row v \<noteq> ROWS" "curr_row v = int (length ls)" using V(1) by (simp_all add: ROWS_def)
    then show ?thesis using False by (simp add: w newline_def)
  qed
  have b: "row_shows EARLY_VIDEO_BUFFER_ADDRESS ?m i (line_at (ls @ [l]) i)" if "i < 26" for i
  proof (cases "25 \<le> length ls")
    case True
    then show ?thesis using buffer_scrolled [OF _ V(2) that] by (simp only: if_True)
  next
    case False
    then show ?thesis using buffer_next [OF _ V(2) that] by (simp only: if_False)
  qed
  have "row_shows EARLY_VIDEO_BUFFER_ADDRESS (video_flush ?m) i (if i = min (length (ls @ [l])) 25 then [] else line_at (ls @ [l]) i)"
    if "i < 26" for i
    unfolding line_at_last using b [OF that] by (rule row_bytes) (use that in \<open>intro flush_bytes(1), linarith\<close>)
  moreover have "row_shows EARLY_VIDEO_MEMORY_ADDRESS (video_flush ?m) i (line_at (ls @ [l]) i)" if "i < 25" for i
  proof (rule row_bytes)
    show "row_shows EARLY_VIDEO_BUFFER_ADDRESS ?m i (line_at (ls @ [l]) i)" using b that by simp
  qed (use that in \<open>intro flush_bytes(2), linarith\<close>)
  ultimately show ?thesis unfolding video_shows_def n prod.case by (simp only: video_state.simps list.size) simp
qed

lemma puttab_shows: "video_shows (ls, l) w \<Longrightarrow> video_shows (ls, l @ replicate n 0x20) (fold (\<lambda>_. video_putc 0x20) [0..<n] w)"
proof (induction n)
  case (Suc n)
  then show ?case using putc_shows [of ls "l @ replicate n 0x20" _ "0x20"] by (simp add: replicate_append_same)
qed simp

interpretation video_console: stepwise video_put put_line video_shows
proof unfold_locales
  fix a s i
  assume "video_shows a s"
  moreover obtain ls l where "a = (ls, l)" by (cases a)
  ultimately show "video_shows (put_line i a) (video_put i s)"
    using newline_shows [of ls l s] puttab_shows [of ls l s 8] putc_shows [of ls l s i]
    by (simp add: put_line_def video_put_def puttab_def del: fold.simps upt.simps upt_rec_numeral)
qed

lemma puts_shows: "video_shows a w \<Longrightarrow> video_shows (fold put_line str a) (early_video_puts (Some str) w)"
  by (simp add: early_video_puts_def video_console.fold_refines)

lemma init_shows: "curr_row v = 0 \<Longrightarrow> curr_col v = 0 \<Longrightarrow> video_shows ([], []) (early_video_init m, v)"
proof -
  have z: "early_video_init m (EARLY_VIDEO_BUFFER_ADDRESS + of_nat k) = 0" if "k < 4160" for k
  proof -
    have "unat (of_nat k :: u64) = k" using that by (simp add: unat_of_nat_lt)
    then show ?thesis using that
      unfolding early_video_init_def memset_byte by (simp only: add_diff_cancel_left') (simp add: video_size_defs)
  qed
  have "row_shows EARLY_VIDEO_BUFFER_ADDRESS (early_video_init m) i []" if "i < 26" for i
    using that by (intro row_blank z) linarith
  then have "row_shows EARLY_VIDEO_BUFFER_ADDRESS (early_video_init m) i (if i = min (length []) 25 then [] else line_at [] i)"
    if "i < 26" for i
    unfolding line_at_last using that by (simp add: line_at_nil)
  then show "curr_row v = 0 \<Longrightarrow> curr_col v = 0 \<Longrightarrow> ?thesis" by (simp add: video_shows_def)
qed

lemma strings_show: "video_shows a w \<Longrightarrow>
    video_shows (fold put_line (concat strs) a) (fold (\<lambda>str. early_video_puts (Some str)) strs w)"
  by (induction strs arbitrary: a w) (simp_all add: puts_shows)

lemma init_touches: "touches video_bytes m (early_video_init m)"
  by (auto simp: touches_def video_bytes_def early_video_init_def memset_byte video_size_defs)

lemma strings_touch: "touches video_bytes m0 m \<Longrightarrow> video_ok v \<Longrightarrow>
    touches video_bytes m0 (fst (fold (\<lambda>str. early_video_puts (Some str)) strs (m, v)))"
proof (induction strs arbitrary: m v)
  case (Cons str strs)
  obtain m' v' where p: "early_video_puts (Some str) (m, v) = (m', v')" by fastforce
  show ?case using Cons.IH [of m' v'] Cons.prems puts_touches [OF _ p] touches_trans by (auto simp: p)
qed simp

section \<open>Properties\<close>

text \<open>
  C6: The screen shows the last 25 lines. From the initialised console, whatever strings are
  written, the video memory shows in row \<open>i\<close> the \<open>i\<close>-th of the last 25 complete lines (blank
  below them), tabs as eight spaces, lines longer than 78 characters cut with a dot after the
  78th, in the white attribute; the line being written is in the hidden part of the buffer;
  and no byte outside the buffer and the video memory is changed.
\<close>

theorem early_video_correct:
  fixes m :: memory and v :: video_state and strs :: "u8 list list"
  assumes "curr_row v = 0" "curr_col v = 0"
  shows "let (m', v') = fold (\<lambda>str. early_video_puts (Some str)) strs (early_video_init m, v);
      (ls, l) = fold put_line (concat strs) ([], [])
    in (ls \<noteq> [] \<longrightarrow> (\<forall>i<25. row_shows EARLY_VIDEO_MEMORY_ADDRESS m' i (line_at ls i))) \<and>
      row_shows EARLY_VIDEO_BUFFER_ADDRESS m' (min (length ls) 25) l \<and>
      (\<forall>a. a \<notin> video_bytes \<longrightarrow> m' a = m a)"
proof -
  have "video_ok v" using assms by (simp add: video_ok_def ROWS_def)
  obtain m' v' ls l where p: "fold (\<lambda>str. early_video_puts (Some str)) strs (early_video_init m, v) = (m', v')"
    "fold put_line (concat strs) ([], []) = (ls, l)" by fastforce
  have t: "touches video_bytes m m'" "video_shows (ls, l) (m', v')"
    using strings_touch [OF init_touches \<open>video_ok v\<close>, of m strs] strings_show [OF init_shows [OF assms], of strs m]
    unfolding p by simp_all
  have r: "min (length ls) 25 < 26" by linarith
  have "row_shows EARLY_VIDEO_BUFFER_ADDRESS m' (min (length ls) 25)
      (if min (length ls) 25 = min (length ls) 25 then l else line_at ls (min (length ls) 25))"
    using t(2) r unfolding video_shows_def prod.case by blast
  moreover have "ls \<noteq> [] \<longrightarrow> (\<forall>i<25. row_shows EARLY_VIDEO_MEMORY_ADDRESS m' i (line_at ls i))"
    using t(2) unfolding video_shows_def prod.case by blast
  ultimately show ?thesis using t(1) unfolding p touches_def Let_def prod.case by (simp only: refl if_True simp_thms)
qed

theorem early_video_correct_witness:
  "row_shows EARLY_VIDEO_MEMORY_ADDRESS
     (fst (fold (\<lambda>str. early_video_puts (Some str)) [[0x48], [0x69, 0x0a]] (early_video_init (\<lambda>_. 7), \<lparr>curr_row = 0, curr_col = 0\<rparr>))) 0 [0x48, 0x69]"
proof -
  have p: "fold put_line (concat [[0x48], [0x69, 0x0a]]) ([], []) = ([[0x48, 0x69]], [])" by (simp add: put_line_def)
  have l: "line_at [[0x48, 0x69]] 0 = [0x48, 0x69]" by (simp add: line_at_def)
  let ?w = "fold (\<lambda>str. early_video_puts (Some str)) [[0x48], [0x69, 0x0a]] (early_video_init (\<lambda>_. 7), \<lparr>curr_row = 0, curr_col = 0\<rparr>)"
  obtain m' v' where w: "?w = (m', v')" by fastforce
  have "\<forall>i<25. row_shows EARLY_VIDEO_MEMORY_ADDRESS m' i (line_at [[0x48, 0x69]] i)"
    using early_video_correct [of "\<lparr>curr_row = 0, curr_col = 0\<rparr>" "[[0x48], [0x69, 0x0a]]" "\<lambda>_. 7"]
    unfolding p w Let_def prod.case by simp
  then show ?thesis unfolding w fst_conv using l by (metis zero_less_numeral)
qed

end
