(* ===== verification/Console.thy ===== *)
theory Console
  imports Serial Screen Format_Correct
begin

text \<open>
  Early output, \<^verbatim>\<open>include/early_io.h\<close>: a message is formatted into a local buffer of 1024 bytes
  and sent to the serial port and to the screen. The address of the local buffer is an
  argument; a console is the memory with the video state and the history of the ports. \<open>None\<close>
  stands for a serial port that stays busy. \<^verbatim>\<open>_early_vpanic\<close> halts after its output, so its
  value is the console it leaves.
\<close>

type_synonym console = "video \<times> io list"

definition EARLY_PRINTF_BUFFER_SIZE :: u64 where "EARLY_PRINTF_BUFFER_SIZE = 1024"

text \<open>The bytes of a string before its null byte, in a buffer of \<open>n\<close> bytes.\<close>

definition string_at :: "memory \<Rightarrow> u64 \<Rightarrow> nat \<Rightarrow> u8 list" where
  "string_at m buf n = takeWhile (\<lambda>c. c \<noteq> 0) (map (\<lambda>i. m (buf + of_nat i)) [0..<n])"

definition robind :: "'a result option \<Rightarrow> ('a \<Rightarrow> 'b result option) \<Rightarrow> 'b result option" where
  "robind r f = (case r of None \<Rightarrow> None | Some (Inl e) \<Rightarrow> Some (Inl e) | Some (Inr x) \<Rightarrow> f x)"

lemma robind_simps [simp]: "robind None f = None" "robind (Some (Inl e)) f = Some (Inl e)" "robind (Some (Inr x)) f = f x"
  by (simp_all add: robind_def)

definition early_vprintf ::
  "device \<Rightarrow> u64 \<Rightarrow> u8 list \<Rightarrow> va_arg list \<Rightarrow> console \<Rightarrow> (int \<times> console) result option" where
  "early_vprintf dev buf fmt ap = (\<lambda>((m, v), h).
     robind (Some (vsnprintf buf EARLY_PRINTF_BUFFER_SIZE fmt ap m)) (\<lambda>(ret, m).
       let str = string_at m buf (unat EARLY_PRINTF_BUFFER_SIZE)
       in case early_serial_puts dev str h of
            None \<Rightarrow> None
          | Some h \<Rightarrow> Some (Inr (ret, early_video_puts (Some str) (m, v), h))))"

definition early_printf ::
  "device \<Rightarrow> u64 \<Rightarrow> u8 list \<Rightarrow> va_arg list \<Rightarrow> console \<Rightarrow> (int \<times> console) result option" where
  "early_printf = early_vprintf"

definition early_puts :: "device \<Rightarrow> u64 \<Rightarrow> u8 list \<Rightarrow> console \<Rightarrow> (int \<times> console) result option" where
  "early_puts dev buf str w = early_printf dev buf (c_string ''%s'' @ [0x0a]) [Text str] w"

definition early_vpanic :: "device \<Rightarrow> u64 \<Rightarrow> u8 list \<Rightarrow> va_arg list \<Rightarrow> console \<Rightarrow> console result option" where
  "early_vpanic dev buf fmt ap w =
     robind (early_printf dev buf (c_string ''PANIC (early) '') [] w) (\<lambda>(_, w).
     robind (early_vprintf dev buf fmt ap w) (\<lambda>(_, w).
     robind (early_printf dev buf [0x0a] [] w) (\<lambda>(_, w). Some (Inr w))))"

section \<open>What is sent\<close>

text \<open>The local buffer lies outside the bytes the screen writes.\<close>

definition apart_from_video :: "u64 \<Rightarrow> nat \<Rightarrow> bool" where
  "apart_from_video a n \<longleftrightarrow> (\<forall>p\<in>video_bytes. n \<le> unat (p - a))"

lemma string_put_text:
  assumes "0 \<notin> set t" "0 < unat n"
  shows "string_at (put_text buf n t m) buf (unat n) = take (unat n - 1) t"
proof -
  let ?l = "min (length t) (unat n - 1)"
  let ?f = "\<lambda>i. put_text buf n t m (buf + of_nat i)"
  have k: "unat (of_nat i :: u64) = i" if "i < unat n" for i
    using that unat_lt_u64 [of n] by (intro unat_of_nat_lt) simp
  have f: "?f i = (if i < ?l then t ! i else if i = ?l then 0 else m (buf + of_nat i))" if "i < unat n" for i
    unfolding put_text_def Let_def add_diff_cancel_left' k [OF that] ..
  have l: "?l < unat n" using assms(2) by linarith
  have "[0..<unat n] = [0..<?l] @ ?l # [Suc ?l..<unat n]"
    using l upt_add_eq_append [of 0 ?l "unat n - ?l"] by (simp add: upt_conv_Cons less_imp_le)
  moreover have "map ?f [0..<?l] = take ?l t" using f l by (intro nth_equalityI) auto
  moreover have "?f ?l = 0" using f [OF l] by simp
  ultimately have "map ?f [0..<unat n] = take ?l t @ 0 # map ?f [Suc ?l..<unat n]" by (simp only: map_append list.map)
  moreover have "takeWhile (\<lambda>c. c \<noteq> 0) (take ?l t @ 0 # xs) = take ?l t" for xs
    using assms(1) by (subst takeWhile_append2) (auto dest: in_set_takeD)
  ultimately show ?thesis unfolding string_at_def by (simp only:) (simp add: min_def)
qed

lemma put_text_outside: "unat n \<le> unat (p - buf) \<Longrightarrow> 0 < unat n \<Longrightarrow> put_text buf n t m p = m p"
  by (auto simp: put_text_def Let_def)

text \<open>The relation of the console to lines only reads the bytes of the buffer and the video memory.\<close>

lemma row_shows_cong: "(\<And>k. k < 160 \<Longrightarrow> m' (a + of_nat (160 * i + k)) = m (a + of_nat (160 * i + k))) \<Longrightarrow>
    row_shows a m i l \<Longrightarrow> row_shows a m' i l"
  by (rule row_moved)

lemma in_video_bytes:
  "k < 4160 \<Longrightarrow> EARLY_VIDEO_BUFFER_ADDRESS + of_nat k \<in> video_bytes"
  "k < 4000 \<Longrightarrow> EARLY_VIDEO_MEMORY_ADDRESS + of_nat k \<in> video_bytes"
proof -
  have "unat (of_nat k :: u64) = k" if "k < 4160" using that by (simp add: unat_of_nat_lt)
  then show "k < 4160 \<Longrightarrow> EARLY_VIDEO_BUFFER_ADDRESS + of_nat k \<in> video_bytes"
    "k < 4000 \<Longrightarrow> EARLY_VIDEO_MEMORY_ADDRESS + of_nat k \<in> video_bytes"
    unfolding video_bytes_def Un_iff mem_Collect_eq add_diff_cancel_left' by simp_all
qed

lemma shows_outside:
  assumes "video_shows L (m, v)" "\<And>p. p \<in> video_bytes \<Longrightarrow> m' p = m p"
  shows "video_shows L (m', v)"
proof -
  obtain ls l where L: "L = (ls, l)" by (cases L)
  have V: "curr_row v = int (min (length ls) 25) \<and> curr_col v = int (length l)"
    "\<And>i. i < 26 \<Longrightarrow> row_shows EARLY_VIDEO_BUFFER_ADDRESS m i (if i = min (length ls) 25 then l else line_at ls i)"
    "\<And>i. ls \<noteq> [] \<Longrightarrow> i < 25 \<Longrightarrow> row_shows EARLY_VIDEO_MEMORY_ADDRESS m i (line_at ls i)"
    using assms(1) unfolding video_shows_def L prod.case by blast+
  have "row_shows EARLY_VIDEO_BUFFER_ADDRESS m' i (if i = min (length ls) 25 then l else line_at ls i)" if "i < 26" for i
    using V(2) [OF that] by (rule row_shows_cong [rotated]) (use that in \<open>intro assms(2) in_video_bytes(1), linarith\<close>)
  moreover have "row_shows EARLY_VIDEO_MEMORY_ADDRESS m' i (line_at ls i)" if "ls \<noteq> []" "i < 25" for i
    using V(3) [OF that] by (rule row_shows_cong [rotated]) (use that in \<open>intro assms(2) in_video_bytes(2), linarith\<close>)
  ultimately show ?thesis unfolding video_shows_def L prod.case using V(1) by blast
qed

lemma vprintf_sends:
  assumes "responsive dev" "texts_short ap" "format_text fmt ap = Inr t" "length t < 2 ^ 31" "0 \<notin> set t"
    and "apart_from_video buf 1024" "video_shows L (m, v)" "video_ok v"
  obtains m' v' h' where "early_vprintf dev buf fmt ap ((m, v), h) = Some (Inr (int (length t), (m', v'), h @ h'))"
    "sends (take 1023 t) h'" "video_shows (fold put_line (take 1023 t) L) (m', v')" "video_ok v'"
    "\<And>p. p \<notin> video_bytes \<Longrightarrow> 1024 \<le> unat (p - buf) \<Longrightarrow> m' p = m p"
proof -
  let ?n = "EARLY_PRINTF_BUFFER_SIZE" and ?m = "put_text buf EARLY_PRINTF_BUFFER_SIZE t m" and ?str = "take 1023 t"
  have n: "unat ?n = 1024" "0 < ?n" by (simp_all add: EARLY_PRINTF_BUFFER_SIZE_def)
  have f: "vsnprintf buf ?n fmt ap m = Inr (int (length t), ?m)"
    using vsnprintf_text [OF n(2) assms(2), of fmt buf m] assms(3,4) by simp
  have str: "string_at ?m buf (unat ?n) = ?str" using string_put_text [OF assms(5), of ?n buf m] n(1) by simp
  obtain h' where h': "early_serial_puts dev ?str h = Some (h @ h')" "sends ?str h'" using puts_sends [OF assms(1)] by blast
  obtain m' v' where p: "early_video_puts (Some ?str) (?m, v) = (m', v')" by fastforce
  have out: "?m p = m p" if "1024 \<le> unat (p - buf)" for p using that n(1) by (intro put_text_outside) simp_all
  have "early_vprintf dev buf fmt ap ((m, v), h) = Some (Inr (int (length t), (m', v'), h @ h'))"
    unfolding early_vprintf_def prod.case f robind_simps Let_def str h'(1) option.case p ..
  moreover have "video_shows L (?m, v)"
    using assms(7) by (rule shows_outside) (use assms(6) in \<open>auto simp: apart_from_video_def intro: out\<close>)
  from puts_shows [OF this, of ?str] have "video_shows (fold put_line ?str L) (m', v')" unfolding p .
  moreover have t: "touches video_bytes ?m m' \<and> video_ok v'" by (rule puts_touches [OF assms(8) p])
  moreover have "m' p = m p" if "p \<notin> video_bytes" "1024 \<le> unat (p - buf)" for p
    using t that out by (simp add: touches_def)
  ultimately show ?thesis using that h'(2) by blast
qed

section \<open>Properties\<close>

text \<open>
  C14: Early printing reaches both outputs. With a serial port that never stays busy for ever
  and a local buffer outside video memory, \<^verbatim>\<open>early_printf\<close> returns the length of the text its
  format denotes; the first 1023 bytes of that text are sent to the serial port in order and
  written to the screen, and nothing but the local buffer and the bytes of the screen has
  changed.
\<close>

theorem early_printf_correct:
  fixes dev :: device and v :: video_state
  assumes "responsive dev" and "texts_short ap" and "format_text fmt ap = Inr t" "length t < 2 ^ 31" "0 \<notin> set t"
    and "apart_from_video buf 1024" and "video_shows L (m, v)" "video_ok v"
  shows "\<exists>m' v' h'. early_printf dev buf fmt ap ((m, v), h) = Some (Inr (int (length t), (m', v'), h @ h')) \<and>
    data_bytes h' = take 1023 t \<and> video_shows (fold put_line (take 1023 t) L) (m', v') \<and> video_ok v' \<and>
    (\<forall>p. p \<notin> video_bytes \<longrightarrow> 1024 \<le> unat (p - buf) \<longrightarrow> m' p = m p)"
proof -
  obtain m' v' h' where r: "early_vprintf dev buf fmt ap ((m, v), h) = Some (Inr (int (length t), (m', v'), h @ h'))"
    "sends (take 1023 t) h'" "video_shows (fold put_line (take 1023 t) L) (m', v')" "video_ok v'"
    "\<And>p. p \<notin> video_bytes \<Longrightarrow> 1024 \<le> unat (p - buf) \<Longrightarrow> m' p = m p" by (rule vprintf_sends [OF assms]) blast
  then show ?thesis using sends_data unfolding early_printf_def by blast
qed

text \<open>A port that is always ready, and a buffer on the boot stack.\<close>

lemma always_responsive: "responsive (\<lambda>_ _. LSR_THR)"
  unfolding responsive_def by (intro allI exI [of _ 0]) (simp add: ready_def LSR_THR_def)

lemma far_away:
  fixes p a b :: u64
  assumes "unat (p - b) < k" "n \<le> unat (b - a)" "unat (b - a) + k < 2 ^ 64"
  shows "n \<le> unat (p - a)"
proof -
  have "p - a = (p - b) + (b - a)" by simp
  then have "unat (p - a) = unat (p - b) + unat (b - a)" using assms by (simp only:) (subst unat_plus_no_wrap, simp_all)
  then show ?thesis using assms(2) by linarith
qed

lemma video_apart:
  assumes "n \<le> unat (EARLY_VIDEO_MEMORY_ADDRESS - a)" "unat (EARLY_VIDEO_MEMORY_ADDRESS - a) + 4160 < 2 ^ 64"
    "n \<le> unat (EARLY_VIDEO_BUFFER_ADDRESS - a)" "unat (EARLY_VIDEO_BUFFER_ADDRESS - a) + 4160 < 2 ^ 64"
  shows "apart_from_video a n"
  unfolding apart_from_video_def
proof
  fix p
  assume "p \<in> video_bytes"
  then consider "unat (p - EARLY_VIDEO_BUFFER_ADDRESS) < 4160" | "unat (p - EARLY_VIDEO_MEMORY_ADDRESS) < 4160"
    by (auto simp: video_bytes_def)
  then show "n \<le> unat (p - a)" by cases (rule far_away [OF _ assms(3,4)] far_away [OF _ assms(1,2)], assumption)+
qed

lemmas video_address_defs = EARLY_VIDEO_MEMORY_ADDRESS_def EARLY_VIDEO_BUFFER_ADDRESS_def
  X86_VIDEO_MEMORY_ADDRESS_PHYS_def X86_EARLY_VIDEO_BUFFER_ADDRESS_PHYS_def

lemma stack_apart: "apart_from_video (KERNEL_DIRECT_MAP_BASE + 0x70000) 1024"
  by (rule video_apart) (simp_all add: video_address_defs)

theorem early_printf_correct_witness:
  "\<exists>w h'. early_printf (\<lambda>_ _. LSR_THR) (KERNEL_DIRECT_MAP_BASE + 0x70000) (c_string ''%s!'') [Text (c_string ''ok'')]
     ((early_video_init (\<lambda>_. 7), \<lparr>curr_row = 0, curr_col = 0\<rparr>), []) = Some (Inr (3, w, h')) \<and> data_bytes h' = c_string ''ok!''"
proof -
  have t: "format_text (c_string ''%s!'') [Text (c_string ''ok'')] = Inr (c_string ''ok!'')"
    by (simp add: format_eval)
  have l: "length (c_string ''ok!'') = 3" "0 \<notin> set (c_string ''ok!'')" "texts_short [Text (c_string ''ok'')]"
    by (simp_all add: c_string_def texts_short_def)
  have v: "video_ok \<lparr>curr_row = 0, curr_col = 0\<rparr>" by (simp add: video_ok_def ROWS_def)
  note r = early_printf_correct [OF always_responsive l(3) t _ l(2) stack_apart
      init_shows [of "\<lparr>curr_row = 0, curr_col = 0\<rparr>" "\<lambda>_. 7"] v, of "[]"]
  show ?thesis using r l(1) by auto
qed

end
