(* ===== verification/Kmalloc.thy ===== *)
theory Kmalloc
  imports Phys_Alloc
begin

text \<open>
  Kernel memory by the byte, \<^verbatim>\<open>mm/kmalloc.c\<close>: a request is rounded up to a power of two of pages
  and handed to the physical allocator; the pointer returned is the block in the direct
  mapping. As for the physical allocator, \<open>None\<close> stands for a call that never returns and
  \<open>Panic m\<close> for one that calls \<^verbatim>\<open>panic()\<close> with format \<open>m\<close> (see \<open>Global\<close> for what follows). The
  theorems show when a request succeeds, that the memory is fresh, zeroed where asked and given
  back by \<^verbatim>\<open>kfree\<close>, and which requests halt although the allocator could serve them.
\<close>

definition KMALLOC_KERNEL :: u32 where "KMALLOC_KERNEL = 1"
definition KMALLOC_TYPE_MASK :: u32 where "KMALLOC_TYPE_MASK = ucast (BIT_MASK_BELOW 10)"

definition bytes_to_order :: "u64 \<Rightarrow> nat result" where
  "bytes_to_order bytes =
     (let pages = bytes_to_pages bytes; max_pages = push_bit MAX_ORDER 1
      in if pages > max_pages then Inl (Panic ''Cannot allocate %lu bytes, exceeds maximum of %lu'')
         else case find (\<lambda>order. push_bit order 1 \<ge> pages) [0..<MAX_ORDER] of
           Some order \<Rightarrow> Inr order
         | None \<Rightarrow> Inl (Panic ''Impossible?''))"

definition kmalloc_order :: "nat \<Rightarrow> u32 \<Rightarrow> phys_alloc_state \<Rightarrow> (u64 \<times> phys_alloc_state) result option" where
  "kmalloc_order order flags s =
     (if flags AND KMALLOC_TYPE_MASK = KMALLOC_KERNEL
      then map_option (\<lambda>r. rbind r (\<lambda>(pa, s). Inr (phys_to_virt_ptr pa, s)))
             (phys_alloc s order (ALLOC_KERNEL OR ALLOC_MOVABLE))
      else Some (Inl (Panic ''Unrecognised kernel flag %d'')))"

definition kmalloc :: "u64 \<Rightarrow> u32 \<Rightarrow> phys_alloc_state \<Rightarrow> (u64 \<times> phys_alloc_state) result option" where
  "kmalloc sz flags s =
     (case bytes_to_order sz of Inl e \<Rightarrow> Some (Inl e) | Inr order \<Rightarrow> kmalloc_order order flags s)"

definition kzalloc :: "u64 \<Rightarrow> u32 \<Rightarrow> memory \<Rightarrow> phys_alloc_state \<Rightarrow> (u64 \<times> memory \<times> phys_alloc_state) result option" where
  "kzalloc sz flags m s =
     map_option (\<lambda>r. rbind r (\<lambda>(ret, s). Inr (ret, memset m ret 0 sz, s))) (kmalloc sz flags s)"

definition kfree :: "u64 \<Rightarrow> phys_alloc_state \<Rightarrow> phys_alloc_state result" where
  "kfree ptr s = phys_free s (virt_ptr_to_phys ptr)"

section \<open>The order of a request\<close>

lemma unat_pages_of_order: "k \<le> 12 \<Longrightarrow> unat (push_bit k 1 :: u64) = 2 ^ k"
  by (rule unat_push_bit_1) simp

lemma order_found:
  assumes "unat sz \<le> 2 ^ 23"
  obtains k where "bytes_to_order sz = Inr k" "k \<le> 11" "unat sz \<le> 4096 * 2 ^ k" "k = 0 \<or> 4096 * 2 ^ (k - 1) < unat sz"
proof -
  let ?n = "unat (bytes_to_pages sz)" and ?fits = "\<lambda>k. push_bit k 1 \<ge> bytes_to_pages sz"
  have n: "?n = (unat sz + 4095) div 4096" using assms by (subst unat_bytes_to_pages) simp_all
  have le: "?fits k \<longleftrightarrow> unat sz \<le> 4096 * 2 ^ k" if "k \<le> 12" for k
  proof -
    have "?fits k \<longleftrightarrow> (unat sz + 4095) div 4096 \<le> 2 ^ k" using unat_pages_of_order [OF that] n by (simp add: word_le_nat_alt)
    also have "\<dots> \<longleftrightarrow> unat sz \<le> 4096 * 2 ^ k" by linarith
    finally show ?thesis .
  qed
  have "?fits 11" using le [of 11] assms by simp
  then have "\<not> (\<forall>i<12. \<not> ?fits i)" by (intro notI) (erule allE [of _ 11], simp)
  then have "find ?fits [0..<MAX_ORDER] \<noteq> None" unfolding find_upt_None_iff MAX_ORDER_def .
  then obtain k where k: "find ?fits [0..<MAX_ORDER] = Some k" by blast
  then have f: "k < 12" "?fits k" "\<And>j. j < k \<Longrightarrow> \<not> ?fits j" by (auto simp: find_upt_Some_iff MAX_ORDER_def)
  have "\<not> bytes_to_pages sz > push_bit MAX_ORDER 1"
    using n assms unat_pages_of_order [of 12] by (simp add: word_less_nat_alt MAX_ORDER_def)
  then have "bytes_to_order sz = Inr k" using k by (simp add: bytes_to_order_def)
  moreover have "4096 * 2 ^ (k - 1) < unat sz" if "k \<noteq> 0"
  proof -
    have "\<not> ?fits (k - 1)" "k - 1 \<le> 12" using f(1) f(3) [of "k - 1"] that by simp_all
    then show ?thesis using le [of "k - 1"] by linarith
  qed
  ultimately show ?thesis using that f(1,2) le [of k] by auto
qed

lemma order_missed:
  assumes "2 ^ 23 < unat sz" "unat sz \<le> 2 ^ 24"
  shows "bytes_to_order sz = Inl (Panic ''Impossible?'')"
proof -
  have n: "unat (bytes_to_pages sz) = (unat sz + 4095) div 4096" using assms by (subst unat_bytes_to_pages) simp_all
  have "\<not> push_bit k 1 \<ge> bytes_to_pages sz" if "k < 12" for k
  proof -
    have "(2 :: nat) ^ k \<le> 2 ^ 11" using that by (intro power_increasing) simp_all
    then show ?thesis using unat_pages_of_order [of k] n assms(1) that by (simp add: word_le_nat_alt)
  qed
  then have "find (\<lambda>order. push_bit order 1 \<ge> bytes_to_pages sz) [0..<MAX_ORDER] = None"
    by (simp add: find_upt_None_iff MAX_ORDER_def)
  moreover have "\<not> bytes_to_pages sz > push_bit MAX_ORDER 1"
    using n assms unat_pages_of_order [of 12] by (simp add: word_less_nat_alt MAX_ORDER_def)
  ultimately show ?thesis by (simp add: bytes_to_order_def)
qed

section \<open>Blocks and pointers\<close>

lemma block_pointer:
  assumes "unat p < 2 ^ 34"
  defines "ptr \<equiv> phys_to_virt_ptr (physblock_to_phys (pfn_to_physblock_raw p))"
  shows "unat ptr = unat KERNEL_DIRECT_MAP_BASE + 4096 * unat p" "phys_to_pfn (virt_ptr_to_phys ptr) = p"
proof -
  have m: "unat (p * sizeof_physblock) = unat p * 32" using assms(1) by (simp add: sizeof_physblock_def unat_word_ariths)
  have r: "physblock_to_pfn (pfn_to_physblock_raw p) = p"
    using m by (simp add: word_unat_eq_iff physblock_to_pfn_def pfn_to_physblock_raw_def Let_def unat_div)
      (simp add: sizeof_physblock_def)
  have pa: "unat (pfn_to_phys p) = unat p * 4096"
    using assms(1) unat_shift_add [of 12 0 p] by (simp add: pfn_to_phys_def)
  have e: "ptr = KERNEL_DIRECT_MAP_BASE + pfn_to_phys p"
    by (simp add: ptr_def physblock_to_phys_def r phys_to_virt_ptr_def phys_to_virt_def)
  show u: "unat ptr = unat KERNEL_DIRECT_MAP_BASE + 4096 * unat p"
    unfolding e using pa assms(1) by (subst unat_plus_no_wrap) (simp_all add: KERNEL_DIRECT_MAP_BASE_def)
  have "\<not> ptr > KERNEL_ELF_ADDRESS"
    using u assms(1) by (simp add: word_less_nat_alt KERNEL_DIRECT_MAP_BASE_def KERNEL_ELF_ADDRESS_def KERNEL_ELF_ADDRESS_PHYS_def)
  then have "virt_ptr_to_phys ptr = pfn_to_phys p" by (simp add: virt_ptr_to_phys_def virt_to_phys_def e)
  moreover have "phys_to_pfn (pfn_to_phys p) = p" using pa by (simp add: word_unat_eq_iff phys_to_pfn_def unat_drop_bit)
  ultimately show "phys_to_pfn (virt_ptr_to_phys ptr) = p" by simp
qed

lemma kernel_flags_type: "\<exists>t. alloc_flags_to_physblock_type (ALLOC_KERNEL OR ALLOC_MOVABLE) = Inr t"
  by (rule known_flags_type) code_simp

text \<open>The small allocator of the physical allocator's witnesses, with the frames it manages.\<close>

lemma small_initialised_spans:
  "\<exists>s. phys_inv s \<and> spans s = spans small_state \<and> free_pages s = {16, 18, 19}"
proof -
  have "{p \<in> managed small_state. type_kind (small_map p) = PHYSBLOCK_UNMANAGED} = {16, 18, 19}"
    unfolding small_kinds small_managed by auto
  then show ?thesis using init_correct [OF small_wf fresh_small] unfolding small_state_def [symmetric] by metis
qed

lemma kzalloc_block:
  assumes "phys_inv s" and "\<And>p. p \<in> managed s \<Longrightarrow> unat p < 2 ^ 34" and "unat sz \<le> 2 ^ 23"
    and "bytes_to_order sz = Inr k" and "free_head s q" "k \<le> order_of s q"
  obtains p ptr s' s'' where "unat sz \<le> 4096 * 2 ^ k" "k = 0 \<or> 4096 * 2 ^ (k - 1) < unat sz"
    "kzalloc sz KMALLOC_KERNEL m s = Some (Inr (ptr, memset m ptr 0 sz, s'))"
    "unat ptr = unat KERNEL_DIRECT_MAP_BASE + 4096 * unat p" "phys_inv s'" "extent p k \<subseteq> free_pages s"
    "free_pages s' = free_pages s - extent p k" "kfree ptr s' = Inr s''" "phys_inv s''" "free_pages s'' = free_pages s" "in_use s'' = in_use s"
proof -
  obtain j where j: "bytes_to_order sz = Inr j" "j \<le> 11" "unat sz \<le> 4096 * 2 ^ j" "j = 0 \<or> 4096 * 2 ^ (j - 1) < unat sz"
    using order_found [OF assms(3)] by metis
  then have k: "k \<le> 11" "unat sz \<le> 4096 * 2 ^ k" "k = 0 \<or> 4096 * 2 ^ (k - 1) < unat sz" using assms(4) by simp_all
  obtain t where t: "alloc_flags_to_physblock_type (ALLOC_KERNEL OR ALLOC_MOVABLE) = Inr t" using kernel_flags_type by blast
  have "k \<le> MAX_ORDER" using k(1) by (simp add: MAX_ORDER_def)
  from alloc_success [OF assms(1) this t assms(5,6)]
  obtain p s' where a: "phys_alloc_block s k (ALLOC_KERNEL OR ALLOC_MOVABLE) = Some (Inr (p, s'))" "phys_inv s'"
    "p \<in> extent p k" "extent p k \<subseteq> free_pages s" "free_pages s' = free_pages s - extent p k" by blast
  have "layout_ok s" using assms(1) by (auto simp: phys_inv_def phys_core_def)
  then have "p \<in> managed s" using a(3,4) free_pages_managed by blast
  then have p: "unat p < 2 ^ 34" by (rule assms(2))
  let ?ptr = "phys_to_virt_ptr (physblock_to_phys (pfn_to_physblock_raw p))"
  note B = block_pointer [OF p]
  have f: "KMALLOC_KERNEL AND KMALLOC_TYPE_MASK = KMALLOC_KERNEL" by code_simp
  have z: "kzalloc sz KMALLOC_KERNEL m s = Some (Inr (?ptr, memset m ?ptr 0 sz, s'))"
    by (simp add: kzalloc_def kmalloc_def assms(4) kmalloc_order_def f phys_alloc_def a(1))
  obtain s'' where s'': "phys_free_pfn s' p = Inr s''" "phys_inv s''" "free_pages s'' = free_pages s" "in_use s'' = in_use s"
    using buddy.alloc_free_restores [OF assms(1) a(1)] by blast
  have "kfree ?ptr s' = Inr s''" using s''(1) B(2) by (simp add: kfree_def phys_free_def)
  from that [OF k(2,3) z B(1) a(2,4,5) this s''(2-4)] show ?thesis .
qed

section \<open>Properties\<close>

text \<open>
  C17: Allocating, zeroing and freeing kernel memory. A request of up to 8 MiB takes a block of
  the smallest order that holds it. If a free block of at least that order exists, \<^verbatim>\<open>kzalloc\<close>
  returns the address of the block in the direct mapping: its pages were free and are not any
  more, the allocator's invariant holds, the bytes asked for are zero and no other byte of
  memory has changed; and \<^verbatim>\<open>kfree\<close> of that pointer brings back the free pages and the blocks in
  use as they were before.
\<close>

theorem kzalloc_kfree_correct:
  assumes "phys_inv s" and "\<And>p. p \<in> managed s \<Longrightarrow> unat p < 2 ^ 34" and "unat sz \<le> 2 ^ 23"
    and "bytes_to_order sz = Inr k" and "free_head s q" "k \<le> order_of s q"
  shows "(unat sz \<le> 4096 * 2 ^ k \<and> (k = 0 \<or> 4096 * 2 ^ (k - 1) < unat sz)) \<and>
    (\<exists>p ptr m' s' s''. kzalloc sz KMALLOC_KERNEL m s = Some (Inr (ptr, m', s')) \<and>
      unat ptr = unat KERNEL_DIRECT_MAP_BASE + 4096 * unat p \<and>
      phys_inv s' \<and> extent p k \<subseteq> free_pages s \<and> free_pages s' = free_pages s - extent p k \<and>
      (\<forall>a. m' a = (if unat (a - ptr) < unat sz then 0 else m a)) \<and>
      kfree ptr s' = Inr s'' \<and> phys_inv s'' \<and> free_pages s'' = free_pages s \<and> in_use s'' = in_use s)"
proof -
  obtain p ptr s' s'' where "unat sz \<le> 4096 * 2 ^ k" "k = 0 \<or> 4096 * 2 ^ (k - 1) < unat sz"
    "kzalloc sz KMALLOC_KERNEL m s = Some (Inr (ptr, memset m ptr 0 sz, s'))"
    "unat ptr = unat KERNEL_DIRECT_MAP_BASE + 4096 * unat p" "phys_inv s'" "extent p k \<subseteq> free_pages s"
    "free_pages s' = free_pages s - extent p k" "kfree ptr s' = Inr s''" "phys_inv s''" "free_pages s'' = free_pages s" "in_use s'' = in_use s"
    by (rule kzalloc_block [OF assms, of m]) blast
  moreover have "\<forall>x. memset m ptr 0 sz x = (if unat (x - ptr) < unat sz then 0 else m x)" by (simp add: memset_byte)
  ultimately show ?thesis by blast
qed

theorem kzalloc_kfree_correct_witness:
  "\<exists>s ptr m' s'. phys_inv s \<and> free_pages s = {16, 18, 19} \<and> kzalloc 100 KMALLOC_KERNEL (\<lambda>_. 7) s = Some (Inr (ptr, m', s')) \<and>
     phys_inv s' \<and> (\<exists>s''. kfree ptr s' = Inr s'' \<and> free_pages s'' = {16, 18, 19})"
proof -
  obtain s where s: "phys_inv s" "spans s = spans small_state" "free_pages s = {16, 18, 19}"
    using small_initialised_spans by blast
  have "managed s = {16, 17, 18, 19}" using span_frame [OF s(2)] small_managed by simp
  then have m: "\<And>p. p \<in> managed s \<Longrightarrow> unat p < 2 ^ 34" by auto
  have "16 \<in> free_pages s" using s(3) by simp
  then obtain q where q: "free_head s q" by (auto simp: free_pages_def)
  have o: "bytes_to_order 100 = Inr 0" by code_simp
  show ?thesis
    using kzalloc_kfree_correct [OF s(1) m _ o q, of "\<lambda>_. 7"] s by auto
qed

text \<open>
  C40: Requests that halt although they could be served. The search for the order stops before
  the maximum order, so every request above 8 MiB and up to the maximum of 16 MiB halts with
  \<open>Impossible?\<close>, whatever memory is free.
\<close>

theorem kmalloc_largest_order_missed:
  assumes "2 ^ 23 < unat sz" and "unat sz \<le> 2 ^ 24"
  shows "kmalloc sz flags s = Some (Inl (Panic ''Impossible?''))"
  by (simp add: kmalloc_def order_missed [OF assms])

theorem kmalloc_largest_order_missed_witness:
  "kmalloc 0x800001 KMALLOC_KERNEL small_state = Some (Inl (Panic ''Impossible?''))"
  by (rule kmalloc_largest_order_missed) simp_all

end
