(* ===== verification/Klog.thy ===== *)
theory Klog
  imports Console Global Kmalloc
begin

text \<open>
  The kernel log, \<^verbatim>\<open>kernel/log.c\<close> and \<^verbatim>\<open>include/log.h\<close>: a ring of 1023 entries of 512 bytes behind
  a header, and the echo of each message on the early console. The fields of the header are
  the record \<open>kernel_log_state\<close>, read from the memory that was allocated for it when the log is
  initialised; the entries are bytes of memory after it; the state of the
  module is the pointer, the header, the global state and the console. As before \<open>None\<close> is a
  call that waits for ever for the serial port and \<open>Inl\<close> one that halts.

  The theorems follow the ring from its initialisation: the first 1023 messages are all kept,
  stored and echoed as written; message number 1023 (from 0) is written past the end of the
  ring, and every later message where the ring has it.
\<close>

section \<open>Data\<close>

definition KERNEL_LOG_MAX_NUM_ENTRIES :: u64 where "KERNEL_LOG_MAX_NUM_ENTRIES = 1023"
definition KERNEL_LOG_BUF_SIZE :: u64 where "KERNEL_LOG_BUF_SIZE = 500"

record kernel_log_state =
  num_entries :: u64
  read_offset :: u64
  write_offset :: u64
  log_lock :: spinlock_t

text \<open>\<^verbatim>\<open>sizeof\<close> of the header, padded to the alignment of the entries, and of an entry; the fields of an entry.\<close>

definition sizeof_kernel_log_state :: u64 where "sizeof_kernel_log_state = 32"
definition sizeof_kernel_log_entry :: u64 where "sizeof_kernel_log_entry = 512"

definition entry_addr :: "u64 \<Rightarrow> u64 \<Rightarrow> u64" where
  "entry_addr state i = state + sizeof_kernel_log_state + i * sizeof_kernel_log_entry"

definition entry_flags_addr :: "u64 \<Rightarrow> u64" where "entry_flags_addr entry = entry + 8"
definition entry_buf_addr :: "u64 \<Rightarrow> u64" where "entry_buf_addr entry = entry + 12"

record log_module =
  log_ptr :: u64
  log_state :: kernel_log_state
  log_global :: kernel_global
  log_console :: console

section \<open>Operations\<close>

text \<open>The header as the bytes at \<open>a\<close> hold it.\<close>

definition kernel_log_state_at :: "memory \<Rightarrow> u64 \<Rightarrow> kernel_log_state" where
  "kernel_log_state_at m a = \<lparr>num_entries = load64 m a, read_offset = load64 m (a + 8),
     write_offset = load64 m (a + 16), log_lock = load32 m (a + 24)\<rparr>"

definition kernel_log_bytes :: u64 where
  "kernel_log_bytes = sizeof_kernel_log_state + KERNEL_LOG_MAX_NUM_ENTRIES * sizeof_kernel_log_entry"

definition kernel_log_init ::
  "kernel_global \<Rightarrow> console \<Rightarrow> phys_alloc_state \<Rightarrow> (log_module \<times> phys_alloc_state) result option" where
  "kernel_log_init g = (\<lambda>((m, v), h) ps.
     robind (kzalloc kernel_log_bytes KMALLOC_KERNEL m ps) (\<lambda>(state, m, ps).
     robind (Some (global_get_locked g)) (\<lambda>g.
       Some (Inr (\<lparr>log_ptr = state,
         log_state = kernel_log_state_at m state,
         log_global = global_release (g\<lparr>stage := KERNEL_STAGE_2_HAS_RING_BUFFER\<rparr>),
         log_console = ((m, v), h)\<rparr>, ps)))))"

definition next_write_entry :: "kernel_log_state \<Rightarrow> u64 \<times> kernel_log_state" where
  "next_write_entry st =
     (if num_entries st < KERNEL_LOG_MAX_NUM_ENTRIES
      then (write_offset st, st\<lparr>num_entries := num_entries st + 1, write_offset := write_offset st + 1\<rparr>)
      else (write_offset st,
        st\<lparr>write_offset := (write_offset st + 1) mod KERNEL_LOG_MAX_NUM_ENTRIES,
           read_offset := (read_offset st + 1) mod KERNEL_LOG_MAX_NUM_ENTRIES\<rparr>))"

text \<open>The label printed before an echoed message; there is none for other levels.\<close>

definition echo_label :: "log_flags_t \<Rightarrow> string option" where
  "echo_label flags =
     (let level = flags AND KERNEL_LOG_MASK
      in if level = KERNEL_LOG_TRACE then Some ''TRACE: ''
         else if level = KERNEL_LOG_DEBUG then Some ''DEBUG: ''
         else if level = KERNEL_LOG_INFO then Some ''INFO:  ''
         else if level = KERNEL_LOG_WARN then Some ''WARN:  ''
         else if level = KERNEL_LOG_ERROR then Some ''ERROR: ''
         else if level = KERNEL_LOG_CRITICAL then Some ''CRIT:  ''
         else None)"

definition maybe_echo_log ::
  "device \<Rightarrow> u64 \<Rightarrow> kernel_global \<Rightarrow> log_flags_t \<Rightarrow> u8 list \<Rightarrow> console \<Rightarrow> console result option" where
  "maybe_echo_log dev stack global flags buf w =
     (if \<not> log_echo global then Some (Inr w)
      else if \<not> (stage global = KERNEL_STAGE_1_EARLY \<or> stage global = KERNEL_STAGE_2_HAS_RING_BUFFER)
      then Some (Inl (panic ''Unsupported kernel stage %d'' global))
      else robind (case echo_label flags of
               None \<Rightarrow> Some (Inr (0, w))
             | Some label \<Rightarrow> early_printf dev stack (c_string label) [] w) (\<lambda>(_, w).
           robind (early_printf dev stack (c_string ''%s'' @ [0x0a]) [Text buf] w) (\<lambda>(_, w). Some (Inr w))))"

definition log_vprintf ::
  "device \<Rightarrow> u64 \<Rightarrow> log_flags_t \<Rightarrow> u8 list \<Rightarrow> va_arg list \<Rightarrow> log_module \<Rightarrow> log_module result option" where
  "log_vprintf dev stack flags fmt ap s =
     robind (Some (spinlock_acquire (log_lock (log_state s)))) (\<lambda>lk.
     robind (Some (global_get_locked (log_global s))) (\<lambda>global.
     let st = (log_state s)\<lparr>log_lock := lk\<rparr>;
         finish = (\<lambda>st w. Some (Inr (s\<lparr>log_state := st\<lparr>log_lock := spinlock_release (log_lock st)\<rparr>,
           log_global := global_release global, log_console := w\<rparr>)))
     in if flags AND KERNEL_LOG_MASK < log_level global AND KERNEL_LOG_MASK then finish st (log_console s)
        else let (i, st) = next_write_entry st;
                 entry = entry_addr (log_ptr s) i;
                 ((m, v), h) = log_console s;
                 m = store32 m (entry_flags_addr entry) flags
             in robind (Some (vsnprintf (entry_buf_addr entry) KERNEL_LOG_BUF_SIZE fmt ap m)) (\<lambda>(_, m).
                robind (maybe_echo_log dev stack global flags
                    (string_at m (entry_buf_addr entry) (unat KERNEL_LOG_BUF_SIZE)) ((m, v), h)) (\<lambda>w.
                finish st w))))"

definition log_printf ::
  "device \<Rightarrow> u64 \<Rightarrow> log_flags_t \<Rightarrow> u8 list \<Rightarrow> va_arg list \<Rightarrow> log_module \<Rightarrow> log_module result option" where
  "log_printf = log_vprintf"

definition log_trace where "log_trace dev stack = log_vprintf dev stack KERNEL_LOG_TRACE"
definition log_debug where "log_debug dev stack = log_vprintf dev stack KERNEL_LOG_DEBUG"
definition log_info where "log_info dev stack = log_vprintf dev stack KERNEL_LOG_INFO"
definition log_warn where "log_warn dev stack = log_vprintf dev stack KERNEL_LOG_WARN"
definition log_error where "log_error dev stack = log_vprintf dev stack KERNEL_LOG_ERROR"
definition log_critical where "log_critical dev stack = log_vprintf dev stack KERNEL_LOG_CRITICAL"

section \<open>Where messages go\<close>

text \<open>The header after \<open>n\<close> messages, and the entry of message \<open>i\<close>.\<close>

definition header_after :: "nat \<Rightarrow> spinlock_t \<Rightarrow> kernel_log_state" where
  "header_after n lk =
     \<lparr>num_entries = of_nat (min n 1023), read_offset = of_nat (if n \<le> 1023 then 0 else n mod 1023),
      write_offset = of_nat (if n \<le> 1023 then n else n mod 1023), log_lock = lk\<rparr>"

definition entry_of :: "nat \<Rightarrow> nat" where
  "entry_of i = (if i \<le> 1023 then i else i mod 1023)"

lemma next_write_entry_after: "next_write_entry (header_after n lk) = (of_nat (entry_of n), header_after (Suc n) lk)"
proof -
  consider "n < 1023" | "n = 1023" | "1023 < n" by linarith
  then show ?thesis
  proof cases
    case 1
    then have "unat (of_nat n :: u64) = n" by (simp add: unat_of_nat_lt)
    then have "(of_nat n :: u64) < 1023" using 1 by (simp add: word_less_nat_alt)
    then show ?thesis using 1
      by (simp add: next_write_entry_def header_after_def entry_of_def KERNEL_LOG_MAX_NUM_ENTRIES_def min_def add.commute)
  next
    case 2
    then show ?thesis
      by (simp add: next_write_entry_def header_after_def entry_of_def KERNEL_LOG_MAX_NUM_ENTRIES_def)
  next
    case 3
    have u: "unat (of_nat (n mod 1023) :: u64) = n mod 1023" by (intro unat_of_nat_lt) (simp add: less_trans [of _ 1023])
    have "unat ((of_nat (n mod 1023) + 1 :: u64) mod 1023) = Suc n mod 1023"
    proof -
      have "n mod 1023 < 1023" by simp
      then have "unat (of_nat (n mod 1023) + 1 :: u64) = n mod 1023 + 1" using u by (subst unat_plus_no_wrap) simp_all
      then show ?thesis by (simp add: unat_mod mod_Suc_eq)
    qed
    moreover have "unat (of_nat (Suc n mod 1023) :: u64) = Suc n mod 1023" by (intro unat_of_nat_lt) (simp add: less_trans [of _ 1023])
    ultimately have "(of_nat (n mod 1023) + 1 :: u64) mod 1023 = of_nat (Suc n mod 1023)" by (simp only: word_unat_eq_iff)
    then show ?thesis using 3
      by (simp add: next_write_entry_def header_after_def entry_of_def KERNEL_LOG_MAX_NUM_ENTRIES_def)
  qed
qed

section \<open>Entries in memory\<close>

definition message_of :: "memory \<Rightarrow> u64 \<Rightarrow> nat \<Rightarrow> u8 list \<times> u8 list" where
  "message_of m kl i = (map (\<lambda>j. m (entry_flags_addr (entry_addr kl (of_nat i)) + of_nat j)) [0..<4],
     string_at m (entry_buf_addr (entry_addr kl (of_nat i))) 500)"

text \<open>The four bytes of the flags, least significant first, and the text cut to the size of an entry.\<close>

definition message :: "log_flags_t \<Rightarrow> u8 list \<Rightarrow> u8 list \<times> u8 list" where
  "message flags t = (map (\<lambda>j. ucast (drop_bit (8 * j) flags)) [0..<4], take 499 t)"

definition ring_bytes :: "u64 \<Rightarrow> nat \<Rightarrow> u64 set" where
  "ring_bytes kl i = {p. 32 + 512 * i + 8 \<le> unat (p - kl) \<and> unat (p - kl) < 32 + 512 * i + 512}"

lemma entry_offset:
  assumes "i \<le> 1023"
  shows "entry_addr kl (of_nat i) = kl + of_nat (32 + 512 * i)"
  by (simp add: entry_addr_def sizeof_kernel_log_state_def sizeof_kernel_log_entry_def algebra_simps)

lemma ring_offset: "k < 2 ^ 64 \<Longrightarrow> unat (kl + of_nat k - kl :: u64) = k"
  by (simp add: unat_of_nat_lt)

lemma message_of_cong:
  assumes "i \<le> 1023" "\<And>p. p \<in> ring_bytes kl i \<Longrightarrow> m' p = m p"
  shows "message_of m' kl i = message_of m kl i"
proof -
  have f: "entry_flags_addr (entry_addr kl (of_nat i)) + of_nat j = kl + of_nat (32 + 512 * i + 8 + j)" for j
    unfolding entry_offset [OF assms(1)] entry_flags_addr_def by (simp add: algebra_simps)
  have b: "entry_buf_addr (entry_addr kl (of_nat i)) + of_nat j = kl + of_nat (32 + 512 * i + 12 + j)" for j
    unfolding entry_offset [OF assms(1)] entry_buf_addr_def by (simp add: algebra_simps)
  have r: "m' (kl + of_nat (32 + 512 * i + k)) = m (kl + of_nat (32 + 512 * i + k))" if "8 \<le> k" "k < 512" for k
  proof (rule assms(2))
    have "unat (kl + of_nat (32 + 512 * i + k) - kl) = 32 + 512 * i + k" using assms(1) that by (intro ring_offset) simp
    then show "kl + of_nat (32 + 512 * i + k) \<in> ring_bytes kl i" unfolding ring_bytes_def using that by (simp only: mem_Collect_eq) simp
  qed
  have "map (\<lambda>j. m' (kl + of_nat (32 + 512 * i + 8 + j))) [0..<4] = map (\<lambda>j. m (kl + of_nat (32 + 512 * i + 8 + j))) [0..<4]"
    using r [of "8 + j" for j] by (intro map_cong refl) (simp add: add.assoc del: of_nat_add of_nat_mult)
  moreover have "map (\<lambda>j. m' (kl + of_nat (32 + 512 * i + 12 + j))) [0..<500] = map (\<lambda>j. m (kl + of_nat (32 + 512 * i + 12 + j))) [0..<500]"
    using r [of "12 + j" for j] by (intro map_cong refl) (simp add: add.assoc del: of_nat_add of_nat_mult)
  ultimately show ?thesis unfolding message_of_def string_at_def f b by (simp only:)
qed

lemma message_written:
  fixes kl :: u64 and i :: nat
  assumes "0 \<notin> set t"
  defines "e \<equiv> entry_addr kl (of_nat i)"
  shows "message_of (put_text (entry_buf_addr e) KERNEL_LOG_BUF_SIZE t (store32 m (entry_flags_addr e) flags)) kl i = message flags t"
proof -
  have n: "unat KERNEL_LOG_BUF_SIZE = 500" by (simp add: KERNEL_LOG_BUF_SIZE_def)
  let ?m = "store32 m (entry_flags_addr e) flags"
  have "put_text (entry_buf_addr e) KERNEL_LOG_BUF_SIZE t ?m (entry_flags_addr e + of_nat j) = ucast (drop_bit (8 * j) flags)" if "j < 4" for j
  proof -
    have j: "unat (of_nat j :: u64) = j" using that by (simp add: unat_of_nat_lt)
    have "entry_flags_addr e + of_nat j - entry_buf_addr e = of_nat j - 4" by (simp add: entry_flags_addr_def entry_buf_addr_def)
    then have "500 \<le> unat (entry_flags_addr e + of_nat j - entry_buf_addr e)"
      using that j by (simp only: unat_diff_wrap) simp
    then have "put_text (entry_buf_addr e) KERNEL_LOG_BUF_SIZE t ?m (entry_flags_addr e + of_nat j) = ?m (entry_flags_addr e + of_nat j)"
      using n by (intro put_text_outside) simp_all
    then show ?thesis using j that by (simp add: store32_byte)
  qed
  moreover have "string_at (put_text (entry_buf_addr e) KERNEL_LOG_BUF_SIZE t ?m) (entry_buf_addr e) 500 = take 499 t"
    using string_put_text [OF assms(1), of KERNEL_LOG_BUF_SIZE "entry_buf_addr e" ?m] n by simp
  ultimately show ?thesis unfolding message_of_def message_def e_def [symmetric] by simp
qed

lemma written_outside:
  fixes kl :: u64 and i :: nat
  assumes "i \<le> 1023" "p \<notin> ring_bytes kl i"
  defines "e \<equiv> entry_addr kl (of_nat i)"
  shows "put_text (entry_buf_addr e) KERNEL_LOG_BUF_SIZE t (store32 m (entry_flags_addr e) flags) p = m p"
proof -
  have f: "entry_flags_addr e = kl + of_nat (32 + 512 * i + 8)" and b: "entry_buf_addr e = kl + of_nat (32 + 512 * i + 12)"
    unfolding e_def entry_offset [OF assms(1)] entry_flags_addr_def entry_buf_addr_def by (simp_all add: algebra_simps)
  have d: "k \<le> unat (p - (kl + of_nat c))" if "c < 2 ^ 64" "unat (p - kl) < c \<or> c + k \<le> unat (p - kl)" "k \<le> 2 ^ 64 - c" for c k
  proof -
    have c: "unat (of_nat c :: u64) = c" using that(1) by (simp add: unat_of_nat_lt)
    have "p - (kl + of_nat c) = (p - kl) - of_nat c" by simp
    then show ?thesis using that unat_lt_u64 [of "p - kl"] by (simp only: unat_diff_wrap c) auto
  qed
  have out: "unat (p - kl) < 32 + 512 * i + 8 \<or> 32 + 512 * i + 512 \<le> unat (p - kl)"
    using assms(2) by (auto simp: ring_bytes_def)
  have "500 \<le> unat (p - entry_buf_addr e)" unfolding b by (rule d) (use out assms(1) in auto)
  moreover have "4 \<le> unat (p - entry_flags_addr e)" unfolding f by (rule d) (use out assms(1) in auto)
  ultimately show ?thesis by (simp add: put_text_outside store32_byte KERNEL_LOG_BUF_SIZE_def)
qed

section \<open>Echo\<close>

lemma format_plain: "ch CHR ''%'' \<notin> set fmt \<Longrightarrow> format_text fmt ap = Inr fmt"
  by (induction fmt) auto

lemma format_line: "format_text (c_string ''%s'' @ [0x0a]) [Text t] = Inr (t @ [0x0a])"
  by (simp add: format_eval)

text \<open>
  What is echoed: the label of the level, the text and a newline. The label is looked up by the
  number of the level, which is the flags modulo 1024; there is none from 6 on.
\<close>

definition level_labels :: "string list" where
  "level_labels = [''TRACE: '', ''DEBUG: '', ''INFO:  '', ''WARN:  '', ''ERROR: '', ''CRIT:  '']"

definition label_text :: "log_flags_t \<Rightarrow> u8 list" where
  "label_text flags =
     (let level = unat flags mod 1024 in if level < length level_labels then c_string (level_labels ! level) else [])"

lemma label_text_eq: "label_text flags = (case echo_label flags of None \<Rightarrow> [] | Some label \<Rightarrow> c_string label)"
proof -
  have "KERNEL_LOG_MASK = mask 10" by code_simp
  then have level: "unat (flags AND KERNEL_LOG_MASK) = unat flags mod 1024"
    using unat_and_mask [of flags 10] by simp
  have eq: "flags AND KERNEL_LOG_MASK = of_nat k \<longleftrightarrow> unat flags mod 1024 = k" if "k < 1024" for k
    unfolding word_unat_eq_iff level using that by (simp add: unat_of_nat_lt)
  consider "unat flags mod 1024 = 0" | "unat flags mod 1024 = 1" | "unat flags mod 1024 = 2" | "unat flags mod 1024 = 3"
    | "unat flags mod 1024 = 4" | "unat flags mod 1024 = 5" | "6 \<le> unat flags mod 1024" by linarith
  then show ?thesis
    unfolding label_text_def echo_label_def Let_def log_level_defs
    using eq [of 0] eq [of 1] eq [of 2] eq [of 3] eq [of 4] eq [of 5]
    by cases (simp_all add: level_labels_def)
qed

definition echo_text :: "kernel_global \<Rightarrow> log_flags_t \<Rightarrow> u8 list \<Rightarrow> u8 list" where
  "echo_text g flags t =
     (if log_echo g then label_text flags @ take 499 t @ [0x0a] else [])"

definition early_stage :: "kernel_global \<Rightarrow> bool" where
  "early_stage g \<longleftrightarrow> stage g = KERNEL_STAGE_1_EARLY \<or> stage g = KERNEL_STAGE_2_HAS_RING_BUFFER"

lemma label_plain: "echo_label flags = Some label \<Longrightarrow>
    length label = 7 \<and> ch CHR ''%'' \<notin> set (c_string label) \<and> 0 \<notin> set (c_string label)"
  by (auto simp: echo_label_def Let_def c_string_def split: if_splits)

lemma data_bytes_append: "data_bytes (h @ h') = data_bytes h @ data_bytes h'"
  by (simp add: data_bytes_def)

text \<open>What early printing leaves of the rest of memory.\<close>

abbreviation unaffected :: "u64 \<Rightarrow> memory \<Rightarrow> memory \<Rightarrow> bool" where
  "unaffected buf m m' \<equiv> (\<forall>p. p \<notin> video_bytes \<longrightarrow> 1024 \<le> unat (p - buf) \<longrightarrow> m' p = m p)"

lemma echo_sends:
  assumes "responsive dev" "early_stage g" "0 \<notin> set t" "apart_from_video buf 1024" "video_shows L (m, v)" "video_ok v"
  obtains m' v' h' where "maybe_echo_log dev buf g flags (take 499 t) ((m, v), h) = Some (Inr ((m', v'), h @ h'))"
    "data_bytes h' = echo_text g flags t" "video_shows (fold put_line (echo_text g flags t) L) (m', v')" "video_ok v'"
    "unaffected buf m m'"
proof (cases "log_echo g")
  case False
  show ?thesis
    by (rule that [of m v "[]"]) (use False assms in \<open>simp_all add: maybe_echo_log_def echo_text_def data_bytes_def\<close>)
next
  case True
  let ?label = "case echo_label flags of None \<Rightarrow> [] | Some label \<Rightarrow> c_string label"
  obtain n m1 v1 h1 where 1: "(case echo_label flags of None \<Rightarrow> Some (Inr (0, (m, v), h))
        | Some label \<Rightarrow> early_printf dev buf (c_string label) [] ((m, v), h)) = Some (Inr (n, (m1, v1), h @ h1))"
    "data_bytes h1 = ?label" "video_shows (fold put_line ?label L) (m1, v1)" "video_ok v1" "unaffected buf m m1"
  proof (cases "echo_label flags")
    case None
    then show ?thesis using that [of 0 m v "[]"] assms(5,6) by (simp add: data_bytes_def)
  next
    case (Some label)
    note l = label_plain [OF Some]
    have "length (c_string label) = 7" using l by (simp add: c_string_def)
    then have s: "length (c_string label) < 2 ^ 31" "take 1023 (c_string label) = c_string label" by simp_all
    have f: "format_text (c_string label) [] = Inr (c_string label)" using l by (intro format_plain) blast
    have z: "0 \<notin> set (c_string label)" "texts_short []" using l by (simp_all add: texts_short_def)
    obtain m1 v1 h1 where "early_vprintf dev buf (c_string label) [] ((m, v), h) = Some (Inr (int (length (c_string label)), (m1, v1), h @ h1))"
      "sends (c_string label) h1" "video_shows (fold put_line (c_string label) L) (m1, v1)" "video_ok v1" "unaffected buf m m1"
      using vprintf_sends [OF assms(1) z(2) f s(1) z(1) assms(4-6), of h] unfolding s(2) by blast
    then show ?thesis using that Some sends_data by (simp add: early_printf_def)
  qed
  have z: "0 \<notin> set (take 499 t @ [0x0a])" "texts_short [Text (take 499 t)]"
    using assms(3) by (auto simp: texts_short_def dest: in_set_takeD)
  have s: "length (take 499 t @ [0x0a]) < 2 ^ 31" "take 1023 (take 499 t @ [0x0a]) = take 499 t @ [0x0a]" by simp_all
  obtain m2 v2 h2 where 2: "early_vprintf dev buf (c_string ''%s'' @ [0x0a]) [Text (take 499 t)] ((m1, v1), h @ h1) =
      Some (Inr (int (length (take 499 t @ [0x0a])), (m2, v2), (h @ h1) @ h2))"
    "sends (take 499 t @ [0x0a]) h2" "video_shows (fold put_line (take 499 t @ [0x0a]) (fold put_line ?label L)) (m2, v2)"
    "video_ok v2" "unaffected buf m1 m2"
    using vprintf_sends [OF assms(1) z(2) format_line s(1) z(1) assms(4) 1(3,4), of "h @ h1"] unfolding s(2) by blast
  have echo: "echo_text g flags t = ?label @ take 499 t @ [0x0a]" using True by (simp add: echo_text_def label_text_eq)
  show ?thesis
  proof (rule that)
    show "maybe_echo_log dev buf g flags (take 499 t) ((m, v), h) = Some (Inr ((m2, v2), h @ h1 @ h2))"
      using True assms(2) 1(1) 2(1) by (simp add: maybe_echo_log_def early_stage_def early_printf_def)
    show "data_bytes (h1 @ h2) = echo_text g flags t" using 1(2) sends_data [OF 2(2)] by (simp add: echo data_bytes_append)
    show "video_shows (fold put_line (echo_text g flags t) L) (m2, v2)" using 2(3) by (simp add: echo)
    show "unaffected buf m m2" using 1(5) 2(5) by simp
  qed (rule 2(4))
qed

section \<open>A message\<close>

text \<open>The ring (the entry past its end included), the local buffer and the video memory do not overlap.\<close>

definition log_placed :: "u64 \<Rightarrow> u64 \<Rightarrow> bool" where
  "log_placed kl buf \<longleftrightarrow> apart_from_video kl 524320 \<and> apart_from_video buf 1024 \<and>
     (\<forall>p. unat (p - buf) < 1024 \<longrightarrow> 524320 \<le> unat (p - kl))"

definition below_level :: "kernel_global \<Rightarrow> log_flags_t \<Rightarrow> bool" where
  "below_level g flags \<longleftrightarrow> flags AND KERNEL_LOG_MASK < log_level g AND KERNEL_LOG_MASK"

definition ready_to_log :: "nat \<Rightarrow> log_module \<Rightarrow> bool" where
  "ready_to_log n s \<longleftrightarrow> log_state s = header_after n 0 \<and> global_lock (log_global s) = 0 \<and> early_stage (log_global s) \<and>
     video_ok (snd (fst (log_console s)))"

lemma ring_not_video: "apart_from_video kl 524320 \<Longrightarrow> i \<le> 1023 \<Longrightarrow> p \<in> ring_bytes kl i \<Longrightarrow> p \<notin> video_bytes"
  by (force simp: apart_from_video_def ring_bytes_def)

lemma ring_not_buffer: "log_placed kl buf \<Longrightarrow> i \<le> 1023 \<Longrightarrow> p \<in> ring_bytes kl i \<Longrightarrow> 1024 \<le> unat (p - buf)"
  unfolding log_placed_def ring_bytes_def by (rule ccontr) (fastforce simp: not_le)

lemma entry_of_le: "entry_of n \<le> 1023"
  using mod_less_divisor [of 1023 n] by (simp add: entry_of_def)

lemma locks_restored: "global_lock g = 0 \<Longrightarrow> global_get_locked g = Inr (g\<lparr>global_lock := 1\<rparr>)"
    "global_lock g = 0 \<Longrightarrow> global_release (g\<lparr>global_lock := 1\<rparr>) = g"
  by (simp_all add: global_get_locked_def acquire_free global_release_def spinlock_release_def atomic_defs)

lemma log_dropped:
  assumes "ready_to_log n s" "below_level (log_global s) flags"
  shows "log_vprintf dev buf flags fmt ap s = Some (Inr s)"
  using assms locks_restored [of "log_global s"]
  by (simp add: ready_to_log_def below_level_def log_vprintf_def header_after_def acquire_free Let_def spinlock_release_def atomic_defs)

lemma log_stored:
  assumes "responsive dev" "log_placed (log_ptr s) buf" "ready_to_log n s" "\<not> below_level (log_global s) flags"
    and "texts_short ap" "format_text fmt ap = Inr t" "length t < 2 ^ 31" "0 \<notin> set t"
    and "log_console s = ((m, v), h)" "video_shows L (m, v)"
  obtains m' v' h' where
    "log_vprintf dev buf flags fmt ap s = Some (Inr (s\<lparr>log_state := header_after (Suc n) 0, log_console := ((m', v'), h @ h')\<rparr>))"
    "message_of m' (log_ptr s) (entry_of n) = message flags t"
    "data_bytes h' = echo_text (log_global s) flags t" "video_shows (fold put_line (echo_text (log_global s) flags t) L) (m', v')"
    "video_ok v'" "\<And>p. p \<notin> video_bytes \<Longrightarrow> 1024 \<le> unat (p - buf) \<Longrightarrow> p \<notin> ring_bytes (log_ptr s) (entry_of n) \<Longrightarrow> m' p = m p"
proof -
  let ?g = "log_global s" and ?kl = "log_ptr s" and ?i = "entry_of n"
  have r: "log_state s = header_after n 0" "global_lock ?g = 0" "early_stage ?g" "video_ok v"
    using assms(3,9) by (simp_all add: ready_to_log_def)
  let ?e = "entry_addr ?kl (of_nat ?i)"
  let ?m = "store32 m (entry_flags_addr ?e) flags"
  let ?m1 = "put_text (entry_buf_addr ?e) KERNEL_LOG_BUF_SIZE t ?m"
  have k: "0 < KERNEL_LOG_BUF_SIZE" "unat KERNEL_LOG_BUF_SIZE = 500" by (simp_all add: KERNEL_LOG_BUF_SIZE_def)
  have f: "vsnprintf (entry_buf_addr ?e) KERNEL_LOG_BUF_SIZE fmt ap ?m = Inr (int (length t), ?m1)"
    using vsnprintf_text [OF k(1) assms(5), of fmt "entry_buf_addr ?e" ?m] assms(6,7) by simp
  have w: "message_of ?m1 ?kl ?i = message flags t" by (rule message_written [OF assms(8)])
  have str: "string_at ?m1 (entry_buf_addr ?e) (unat KERNEL_LOG_BUF_SIZE) = take 499 t"
    using string_put_text [OF assms(8), of KERNEL_LOG_BUF_SIZE "entry_buf_addr ?e" ?m] k by simp
  have P: "apart_from_video ?kl 524320" "apart_from_video buf 1024" using assms(2) by (simp_all add: log_placed_def)
  have out: "?m1 p = m p" if "p \<notin> ring_bytes ?kl ?i" for p using written_outside [OF entry_of_le that] .
  have "video_shows L (?m1, v)"
    using assms(10) by (rule shows_outside) (use ring_not_video [OF P(1) entry_of_le] in \<open>blast intro: out\<close>)
  moreover have "early_stage (?g\<lparr>global_lock := 1\<rparr>)" using r(3) by (simp add: early_stage_def)
  ultimately obtain m' v' h' where E:
    "maybe_echo_log dev buf (?g\<lparr>global_lock := 1\<rparr>) flags (take 499 t) ((?m1, v), h) = Some (Inr ((m', v'), h @ h'))"
    "data_bytes h' = echo_text (?g\<lparr>global_lock := 1\<rparr>) flags t"
    "video_shows (fold put_line (echo_text (?g\<lparr>global_lock := 1\<rparr>) flags t) L) (m', v')" "video_ok v'"
    "unaffected buf ?m1 m'"
    using echo_sends [OF assms(1) _ assms(8) P(2) _ r(4), of "?g\<lparr>global_lock := 1\<rparr>" L ?m1 flags h] by metis
  have echo: "echo_text (?g\<lparr>global_lock := 1\<rparr>) flags t = echo_text ?g flags t" by (simp add: echo_text_def)
  have nxt: "next_write_entry (header_after n 1) = (of_nat ?i, header_after (Suc n) 1)" by (rule next_write_entry_after)
  have lk: "(header_after n 0)\<lparr>log_lock := 1\<rparr> = header_after n 1" "(header_after (Suc n) 1)\<lparr>log_lock := 0\<rparr> = header_after (Suc n) 0"
    "log_lock (header_after n 0) = 0" by (simp_all add: header_after_def)
  have rel: "spinlock_release x = 0" for x by (simp add: spinlock_release_def atomic_defs)
  have lvl: "\<not> flags AND KERNEL_LOG_MASK < log_level (?g\<lparr>global_lock := 1\<rparr>) AND KERNEL_LOG_MASK"
    using assms(4) by (simp add: below_level_def)
  have "log_vprintf dev buf flags fmt ap s = Some (Inr (s\<lparr>log_state := header_after (Suc n) 0, log_console := ((m', v'), h @ h')\<rparr>))"
    unfolding log_vprintf_def r(1) lk(3) acquire_free(1) robind_simps locks_restored(1) [OF r(2)] Let_def lk(1) nxt prod.case
      assms(9) f str E(1) if_not_P [OF lvl] rel lk(2) locks_restored(2) [OF r(2)] by simp
  moreover have "message_of m' ?kl ?i = message flags t"
    unfolding w [symmetric]
  proof (rule message_of_cong [OF entry_of_le])
    fix p assume p: "p \<in> ring_bytes ?kl ?i"
    show "m' p = ?m1 p"
      using E(5) ring_not_video [OF P(1) entry_of_le p] ring_not_buffer [OF assms(2) entry_of_le p] by blast
  qed
  moreover have "m' p = m p" if "p \<notin> video_bytes" "1024 \<le> unat (p - buf)" "p \<notin> ring_bytes ?kl ?i" for p
    using E(5) that out [OF that(3)] by simp
  ultimately show ?thesis using that E(2-4) unfolding echo by blast
qed

section \<open>A sequence of messages\<close>

type_synonym log_call = "log_flags_t \<times> u8 list \<times> va_arg list"

fun log_calls :: "device \<Rightarrow> u64 \<Rightarrow> log_call list \<Rightarrow> log_module \<Rightarrow> log_module result option" where
  "log_calls dev buf [] s = Some (Inr s)"
| "log_calls dev buf ((flags, fmt, ap) # cs) s = robind (log_vprintf dev buf flags fmt ap s) (log_calls dev buf cs)"

definition call_text :: "log_call \<Rightarrow> u8 list" where
  "call_text = (\<lambda>(flags, fmt, ap). case format_text fmt ap of Inl _ \<Rightarrow> [] | Inr t \<Rightarrow> t)"

text \<open>The arguments match the format, and the text is a C string of an admissible length.\<close>

definition call_ok :: "log_call \<Rightarrow> bool" where
  "call_ok = (\<lambda>(flags, fmt, ap). texts_short ap \<and>
     (case format_text fmt ap of Inl _ \<Rightarrow> False | Inr t \<Rightarrow> length t < 2 ^ 31 \<and> 0 \<notin> set t))"

definition accepted :: "kernel_global \<Rightarrow> log_call list \<Rightarrow> log_call list" where
  "accepted g cs = filter (\<lambda>c. \<not> below_level g (fst c)) cs"

definition call_message :: "log_call \<Rightarrow> u8 list \<times> u8 list" where "call_message c = message (fst c) (call_text c)"
definition call_echo :: "kernel_global \<Rightarrow> log_call \<Rightarrow> u8 list" where "call_echo g c = echo_text g (fst c) (call_text c)"

lemma ring_bytes_disjoint: "i \<noteq> j \<Longrightarrow> p \<in> ring_bytes kl i \<Longrightarrow> p \<notin> ring_bytes kl j"
  unfolding ring_bytes_def mem_Collect_eq by (cases "i < j") linarith+

lemma calls_kept:
  assumes "responsive dev"
  shows "log_placed (log_ptr s) buf \<Longrightarrow> ready_to_log n s \<Longrightarrow> \<forall>c\<in>set cs. call_ok c \<Longrightarrow>
    n + length (accepted (log_global s) cs) \<le> 1023 \<Longrightarrow> log_console s = ((m, v), h) \<Longrightarrow> video_shows L (m, v) \<Longrightarrow> length K = n \<Longrightarrow>
    (\<And>i. i < n \<Longrightarrow> message_of m (log_ptr s) i = K ! i) \<Longrightarrow>
    \<exists>m' v' h'. log_calls dev buf cs s = Some (Inr (s\<lparr>log_state := header_after (n + length (accepted (log_global s) cs)) 0,
        log_console := ((m', v'), h @ h')\<rparr>)) \<and>
      (\<forall>i < n + length (accepted (log_global s) cs).
        message_of m' (log_ptr s) i = (K @ map call_message (accepted (log_global s) cs)) ! i) \<and>
      data_bytes h' = concat (map (call_echo (log_global s)) (accepted (log_global s) cs)) \<and>
      video_shows (fold put_line (concat (map (call_echo (log_global s)) (accepted (log_global s) cs))) L) (m', v')"
proof (induction cs arbitrary: s n m v h L K)
  case Nil
  have "s\<lparr>log_state := header_after n 0, log_console := ((m, v), h)\<rparr> = s" using Nil.prems(2,5) by (simp add: ready_to_log_def)
  then show ?case using Nil.prems by (intro exI [of _ m] exI [of _ v] exI [of _ "[]"]) (simp add: accepted_def data_bytes_def)
next
  case (Cons c cs)
  obtain flags fmt ap where c: "c = (flags, fmt, ap)" by (cases c)
  let ?g = "log_global s" and ?kl = "log_ptr s"
  show ?case
  proof (cases "below_level ?g flags")
    case True
    then have a: "accepted ?g (c # cs) = accepted ?g cs" by (simp add: accepted_def c)
    have "log_calls dev buf (c # cs) s = log_calls dev buf cs s" using log_dropped [OF Cons.prems(2) True] by (simp add: c)
    then show ?thesis using Cons.IH [of s n m v h L K] Cons.prems unfolding a by simp
  next
    case False
    then have a: "accepted ?g (c # cs) = c # accepted ?g cs" by (simp add: accepted_def c)
    obtain t where t: "texts_short ap" "format_text fmt ap = Inr t" "length t < 2 ^ 31" "0 \<notin> set t"
      using Cons.prems(3) by (auto simp: call_ok_def c split: sum.splits)
    have ct: "call_text c = t" using t(2) by (simp add: call_text_def c)
    obtain m1 v1 h1 where S:
      "log_vprintf dev buf flags fmt ap s = Some (Inr (s\<lparr>log_state := header_after (Suc n) 0, log_console := ((m1, v1), h @ h1)\<rparr>))"
      "message_of m1 ?kl (entry_of n) = message flags t"
      "data_bytes h1 = echo_text ?g flags t" "video_shows (fold put_line (echo_text ?g flags t) L) (m1, v1)" "video_ok v1"
      "\<And>p. p \<notin> video_bytes \<Longrightarrow> 1024 \<le> unat (p - buf) \<Longrightarrow> p \<notin> ring_bytes ?kl (entry_of n) \<Longrightarrow> m1 p = m p"
      using log_stored [OF assms Cons.prems(1,2) False t Cons.prems(5,6)] by blast
    have n: "n \<le> 1022" "entry_of n = n" using Cons.prems(4) unfolding a by (simp_all add: entry_of_def)
    let ?s = "s\<lparr>log_state := header_after (Suc n) 0, log_console := ((m1, v1), h @ h1)\<rparr>"
    have "ready_to_log (Suc n) ?s" using Cons.prems(2) S(5) by (simp add: ready_to_log_def)
    moreover have "message_of m1 ?kl i = (K @ [call_message c]) ! i" if "i < Suc n" for i
    proof (cases "i = n")
      case True
      then show ?thesis using S(2) n Cons.prems(7) by (simp add: call_message_def c ct [unfolded c] nth_append)
    next
      case False
      have "message_of m1 ?kl i = message_of m ?kl i"
      proof (rule message_of_cong)
        fix p assume p: "p \<in> ring_bytes ?kl i"
        have i: "i \<le> 1023" using that n by simp
        show "m1 p = m p"
          using S(6) [of p] ring_not_video [OF _ i p] ring_not_buffer [OF Cons.prems(1) i p] Cons.prems(1)
            ring_bytes_disjoint [OF False p] n(2) by (simp add: log_placed_def)
      qed (use that n in simp)
      then show ?thesis using Cons.prems(7,8) that False by (simp add: nth_append)
    qed
    ultimately obtain m' v' h' where R:
      "log_calls dev buf cs ?s = Some (Inr (?s\<lparr>log_state := header_after (Suc n + length (accepted ?g cs)) 0, log_console := ((m', v'), (h @ h1) @ h')\<rparr>))"
      "\<forall>i < Suc n + length (accepted ?g cs). message_of m' ?kl i = ((K @ [call_message c]) @ map call_message (accepted ?g cs)) ! i"
      "data_bytes h' = concat (map (call_echo ?g) (accepted ?g cs))"
      "video_shows (fold put_line (concat (map (call_echo ?g) (accepted ?g cs))) (fold put_line (echo_text ?g flags t) L)) (m', v')"
      using Cons.IH [of ?s "Suc n" m1 v1 "h @ h1" "fold put_line (echo_text ?g flags t) L" "K @ [call_message c]"]
        Cons.prems S(4) unfolding a by auto
    have ce: "call_echo ?g c = echo_text ?g flags t" by (simp add: call_echo_def c ct [unfolded c])
    show ?thesis
      unfolding a using R S(1,3)
      by (intro exI [of _ m'] exI [of _ v'] exI [of _ "h1 @ h'"]) (simp add: c ce [unfolded c] data_bytes_append)
  qed
qed

section \<open>Initialisation\<close>

lemma log_order: "bytes_to_order kernel_log_bytes = Inr 7" "unat kernel_log_bytes = 523808"
  by (simp_all add: kernel_log_bytes_def sizeof_kernel_log_state_def sizeof_kernel_log_entry_def KERNEL_LOG_MAX_NUM_ENTRIES_def)
    code_simp

lemma zeroed_header:
  assumes "32 \<le> unat n"
  shows "kernel_log_state_at (memset m a 0 n) a = header_after 0 0"
proof -
  have z: "memset m a 0 n (a + of_nat i) = 0" if "i < 32" for i
    using that assms by (simp add: memset_byte unat_of_nat_lt)
  have "memset m a 0 n (a + of_nat k + of_nat i) = 0" if "k + i < 32" for k i
    using z [OF that] by (simp add: add.assoc)
  from this [of 0] this [of 8] this [of 16] this [of 24] show ?thesis
    unfolding kernel_log_state_at_def header_after_def
    by (intro kernel_log_state.equality) (simp_all add: load_zero(2) [of 4] load_zero(3) [of 8])
qed

text \<open>An allocator with one free block of 512 pages.\<close>

lemma large_freed:
  "\<exists>s. phys_inv s \<and> managed s = extent 0 9 \<and> free_head s 0 \<and> order_of s 0 = 9"
proof -
  have x: "pfn_to_buddy_pfn 0 9 = 512" by (simp add: pfn_to_buddy_pfn_def push_bit_eq_mult)
  have sp: "phys_to_pfn 0 = 0" by code_simp
  have kind: "PHYSBLOCK_KERNEL AND PHYSBLOCK_TYPE_MASK \<noteq> PHYSBLOCK_FREE" by code_simp
  have "\<exists>s. phys_free_pfn large_state 0 = Inr s \<and> blk_type (blocks s 0) = PHYSBLOCK_FREE \<and>
      blk_order (blocks s 0) = 9 \<and> head_offset (blocks s 0) = 0"
    by (simp add: phys_free_pfn_def pfn_to_physblock_lock_def pfn_to_physblock_raw_lock_def block_acquire_def large_state_def
      phys_alloc_init_state_def large_map_def acquire_free free_physblock_locked_def state_acquire_def empty_spinlock_def
      release_to_free_list_def compact_free_blocks_locked_def compact_free_blocks_from.simps physblock_to_buddy_lock_def x
      pfn_to_span_locked_def sp MAX_ORDER_def Let_def kind)
  then obtain s where s: "phys_free_pfn large_state 0 = Inr s" "blk_type (blocks s 0) = PHYSBLOCK_FREE"
    "blk_order (blocks s 0) = 9" "head_offset (blocks s 0) = 0" by blast
  have z: "(0 :: pfn_t) \<in> extent 0 9" by (simp add: aligned_bits)
  then have "0 \<in> extent 0 (order_of large_state 0)" using large_inv(3) by simp
  then obtain s' where s': "phys_free_pfn large_state 0 = Inr s'" "phys_inv s'" "spans s' = spans large_state"
    by (rule phys_free_cases [OF large_inv(1,2)]) simp_all
  have "managed s' = extent 0 9" using span_frame [OF s'(3)] large_managed by simp
  then have "free_head s' 0" using s s' z by (auto simp: free_head_def is_head_def)
  then show ?thesis using s s' \<open>managed s' = extent 0 9\<close> by auto
qed

text \<open>A ring after \<open>n\<close> messages, 16 MiB into memory, with echo and the default level.\<close>

definition sample_log :: "nat \<Rightarrow> log_module" where
  "sample_log n = \<lparr>log_ptr = KERNEL_DIRECT_MAP_BASE + 0x1000000, log_state = header_after n 0,
     log_global = \<lparr>stage = KERNEL_STAGE_2_HAS_RING_BUFFER, log_echo = True, log_level = KERNEL_LOG_DEBUG, global_lock = 0\<rparr>,
     log_console = ((early_video_init (\<lambda>_. 7), \<lparr>curr_row = 0, curr_col = 0\<rparr>), [])\<rparr>"

lemma sample_log:
  "log_placed (log_ptr (sample_log n)) (KERNEL_DIRECT_MAP_BASE + 0x70000)" "ready_to_log n (sample_log n)"
  "log_console (sample_log n) = ((early_video_init (\<lambda>_. 7), \<lparr>curr_row = 0, curr_col = 0\<rparr>), [])"
  "video_shows ([], []) (early_video_init (\<lambda>_. 7), \<lparr>curr_row = 0, curr_col = 0\<rparr>)"
proof -
  have "apart_from_video (KERNEL_DIRECT_MAP_BASE + 0x1000000) 524320"
    by (rule video_apart) (simp_all add: video_address_defs)
  moreover have "524320 \<le> unat (p - (KERNEL_DIRECT_MAP_BASE + 0x1000000))"
    if "unat (p - (KERNEL_DIRECT_MAP_BASE + 0x70000)) < 1024" for p
    using that by (rule far_away) simp_all
  ultimately show "log_placed (log_ptr (sample_log n)) (KERNEL_DIRECT_MAP_BASE + 0x70000)"
    using stack_apart by (simp add: log_placed_def sample_log_def)
  show "ready_to_log n (sample_log n)" by (simp add: ready_to_log_def sample_log_def early_stage_def video_ok_def ROWS_def)
qed (simp_all add: sample_log_def init_shows)

section \<open>Properties\<close>

text \<open>
  C18: Initialising the kernel log. If the physical allocator has a free block of 128 pages or
  more, \<^verbatim>\<open>kernel_log_init\<close> returns: the ring lies in the direct mapping on 128 pages that were
  free and no longer are, the allocator keeps its invariant, the ring is zero and no other byte
  has changed, it is ready for the first message, and the kernel is in the stage that has a
  ring buffer.
\<close>

theorem kernel_log_init_correct:
  assumes "phys_inv ps" and "\<And>p. p \<in> managed ps \<Longrightarrow> unat p < 2 ^ 34" and "free_head ps q" "7 \<le> order_of ps q"
    and "global_lock g = 0" and "video_ok v"
  shows "\<exists>p s ps' m'. kernel_log_init g ((m, v), h) ps = Some (Inr (s, ps')) \<and> phys_inv ps' \<and>
    extent p 7 \<subseteq> free_pages ps \<and> free_pages ps' = free_pages ps - extent p 7 \<and>
    unat (log_ptr s) = unat KERNEL_DIRECT_MAP_BASE + 4096 * unat p \<and>
    log_console s = ((m', v), h) \<and> (\<forall>a. m' a = (if unat (a - log_ptr s) < unat kernel_log_bytes then 0 else m a)) \<and>
    stage (log_global s) = KERNEL_STAGE_2_HAS_RING_BUFFER \<and> ready_to_log 0 s"
proof -
  have "unat kernel_log_bytes \<le> 2 ^ 23" by (simp add: log_order(2))
  from kzalloc_block [OF assms(1,2) this log_order(1) assms(3,4), of m]
  obtain p ptr ps' where k: "kzalloc kernel_log_bytes KMALLOC_KERNEL m ps = Some (Inr (ptr, memset m ptr 0 kernel_log_bytes, ps'))"
    "unat ptr = unat KERNEL_DIRECT_MAP_BASE + 4096 * unat p" "phys_inv ps'" "extent p 7 \<subseteq> free_pages ps"
    "free_pages ps' = free_pages ps - extent p 7" by metis
  let ?g = "global_release (g\<lparr>global_lock := 1, stage := KERNEL_STAGE_2_HAS_RING_BUFFER\<rparr>)"
  let ?s = "\<lparr>log_ptr = ptr, log_state = header_after 0 0, log_global = ?g, log_console = ((memset m ptr 0 kernel_log_bytes, v), h)\<rparr>"
  have hd: "kernel_log_state_at (memset m ptr 0 kernel_log_bytes) ptr = header_after 0 0"
    by (rule zeroed_header) (simp add: log_order(2))
  have "kernel_log_init g ((m, v), h) ps = Some (Inr (?s, ps'))"
    unfolding kernel_log_init_def prod.case k(1) robind_simps locks_restored(1) [OF assms(5)] hd by simp
  moreover have "ready_to_log 0 ?s" "stage ?g = KERNEL_STAGE_2_HAS_RING_BUFFER"
    using assms(6) by (simp_all add: ready_to_log_def early_stage_def global_release_def spinlock_release_def atomic_defs)
  moreover have "\<forall>a. memset m ptr 0 kernel_log_bytes a = (if unat (a - ptr) < unat kernel_log_bytes then 0 else m a)"
    by (simp add: memset_byte)
  ultimately show ?thesis using k(2-5)
    by (intro exI [of _ p] exI [of _ ?s] exI [of _ ps'] exI [of _ "memset m ptr 0 kernel_log_bytes"]) simp
qed

theorem kernel_log_init_correct_witness:
  "\<exists>ps s ps'. kernel_log_init \<lparr>stage = KERNEL_STAGE_1_EARLY, log_echo = True, log_level = KERNEL_LOG_DEBUG, global_lock = 0\<rparr>
      ((\<lambda>_. 7, \<lparr>curr_row = 0, curr_col = 0\<rparr>), []) ps = Some (Inr (s, ps')) \<and> ready_to_log 0 s"
proof -
  obtain ps where ps: "phys_inv ps" "managed ps = extent 0 9" "free_head ps 0" "order_of ps 0 = 9" using large_freed by blast
  have z: "(0 :: pfn_t) \<in> extent 0 9" by (simp add: aligned_bits)
  have m: "unat p < 2 ^ 34" if "p \<in> managed ps" for p
    using that extent_offset [OF z, of p] unfolding ps(2) by simp
  have "7 \<le> order_of ps 0" using ps(4) by simp
  from kernel_log_init_correct [OF ps(1) m ps(3) this,
      of "\<lparr>stage = KERNEL_STAGE_1_EARLY, log_echo = True, log_level = KERNEL_LOG_DEBUG, global_lock = 0\<rparr>"
        "\<lparr>curr_row = 0, curr_col = 0\<rparr>" "\<lambda>_. 7" "[]"]
  show ?thesis by (auto simp: video_ok_def ROWS_def)
qed

text \<open>
  C5: Messages are kept and echoed. Let the ring be empty and the ring, the local buffer and
  video memory not overlap. Then any sequence of calls of \<^verbatim>\<open>log_printf\<close> of which at most 1023 are
  not below the log level returns, with a serial port that never stays busy for ever; the
  calls below the level do nothing; the entry of each other call, in order, holds its flags and
  the first 499 bytes of its text; the bytes sent to the serial port, and the lines written on
  the screen, are the label and the text of each in order if echo is on; and both locks are
  free again.
\<close>

theorem kernel_log_correct:
  fixes dev :: device and m :: memory
  assumes "responsive dev" and "log_placed (log_ptr s) buf" and "ready_to_log 0 s"
    and "\<And>c. c \<in> set cs \<Longrightarrow> call_ok c" and "length (accepted (log_global s) cs) \<le> 1023"
    and "log_console s = ((m, v), h)" and "video_shows L (m, v)"
  shows "\<exists>m' v' h' s'. log_calls dev buf cs s = Some (Inr s') \<and> log_console s' = ((m', v'), h @ h') \<and>
    log_state s' = header_after (length (accepted (log_global s) cs)) 0 \<and> log_global s' = log_global s \<and>
    (\<forall>i < length (accepted (log_global s) cs). message_of m' (log_ptr s) i = call_message (accepted (log_global s) cs ! i)) \<and>
    data_bytes h' = concat (map (call_echo (log_global s)) (accepted (log_global s) cs)) \<and>
    video_shows (fold put_line (concat (map (call_echo (log_global s)) (accepted (log_global s) cs))) L) (m', v')"
  using calls_kept [OF assms(1,2,3) _ _ assms(6,7), of cs "[]"] assms(4,5) by fastforce

theorem kernel_log_correct_witness:
  "\<exists>s'. log_calls (\<lambda>_ _. LSR_THR) (KERNEL_DIRECT_MAP_BASE + 0x70000)
      [(KERNEL_LOG_TRACE, c_string ''no'', []), (KERNEL_LOG_INFO, c_string ''hi'', [])] (sample_log 0) = Some (Inr s') \<and>
    message_of (fst (fst (log_console s'))) (log_ptr (sample_log 0)) 0 = message KERNEL_LOG_INFO (c_string ''hi'') \<and>
    data_bytes (snd (log_console s')) = c_string ''INFO:  hi'' @ [0x0a]"
proof -
  let ?cs = "[(KERNEL_LOG_TRACE, c_string ''no'', []), (KERNEL_LOG_INFO, c_string ''hi'', [])]" and ?s = "sample_log 0"
  have f: "format_text (c_string str) [] = Inr (c_string str)" "0 \<notin> set (c_string str)" "length (c_string str) = 2"
    if "str \<in> {''no'', ''hi''}" for str using that by (auto simp: c_string_def)
  have ok: "call_ok c" if "c \<in> set ?cs" for c using that f by (auto simp: call_ok_def texts_short_def)
  have lv: "below_level (log_global ?s) KERNEL_LOG_TRACE" "\<not> below_level (log_global ?s) KERNEL_LOG_INFO"
    by (simp_all add: sample_log_def) code_simp+
  then have a: "accepted (log_global ?s) ?cs = [(KERNEL_LOG_INFO, c_string ''hi'', [])]" by (simp add: accepted_def)
  have l: "label_text KERNEL_LOG_INFO = c_string ''INFO:  ''" by code_simp
  have e: "call_echo (log_global ?s) (KERNEL_LOG_INFO, c_string ''hi'', []) = c_string ''INFO:  hi'' @ [0x0a]"
    using f by (simp add: call_echo_def echo_text_def sample_log_def l call_text_def) (simp add: c_string_def)
  have m: "call_message (KERNEL_LOG_INFO, c_string ''hi'', []) = message KERNEL_LOG_INFO (c_string ''hi'')"
    using f by (simp add: call_message_def call_text_def)
  have "length (accepted (log_global ?s) ?cs) \<le> 1023" unfolding a by simp
  from kernel_log_correct [OF always_responsive sample_log(1) sample_log(2) ok this sample_log(3,4)]
  show ?thesis unfolding a by (auto simp: e m)
qed

text \<open>
  C37: The ring overflows once. The \<open>n\<close>-th message goes to entry \<open>n mod 1023\<close> and the oldest
  entry is dropped from then on, for every \<open>n\<close> but 1023: that message is written to an entry
  that begins where the memory of the ring ends, and from its 469th byte on it is written
  past the 128 pages that were allocated for the ring.
\<close>

theorem kernel_log_overflow:
  fixes dev :: device and m :: memory
  assumes "responsive dev" and "log_placed (log_ptr s) buf" and "ready_to_log 1023 s" "\<not> below_level (log_global s) flags"
    and "texts_short ap" and "format_text fmt ap = Inr t" "length t < 2 ^ 31" "0 \<notin> set t" "468 < length t" "log_console s = ((m, v), h)" "video_shows L (m, v)"
  shows "next_write_entry (header_after n lk) = (of_nat (if n = 1023 then 1023 else n mod 1023), header_after (Suc n) lk) \<and>
    entry_addr (log_ptr s) 1023 - log_ptr s = kernel_log_bytes \<and>
    (\<exists>s'. log_vprintf dev buf flags fmt ap s = Some (Inr s') \<and> log_state s' = header_after 1024 0 \<and>
      fst (fst (log_console s')) (log_ptr s + 4096 * 2 ^ 7) = t ! 468)"
proof -
  obtain m' v' h' where S:
    "log_vprintf dev buf flags fmt ap s = Some (Inr (s\<lparr>log_state := header_after (Suc 1023) 0, log_console := ((m', v'), h @ h')\<rparr>))"
    "message_of m' (log_ptr s) (entry_of 1023) = message flags t"
    using log_stored [OF assms(1-8,10,11)] by metis
  have "string_at m' (entry_buf_addr (entry_addr (log_ptr s) 1023)) 500 = take 499 t"
    using S(2) by (simp add: message_of_def message_def entry_of_def)
  then have "string_at m' (entry_buf_addr (entry_addr (log_ptr s) 1023)) 500 ! 468 = t ! 468" "468 < length (string_at m' (entry_buf_addr (entry_addr (log_ptr s) 1023)) 500)"
    using assms(9) by simp_all
  then have "m' (entry_buf_addr (entry_addr (log_ptr s) 1023) + of_nat 468) = t ! 468"
    unfolding string_at_def by (subst (asm) takeWhile_nth) (auto dest: less_le_trans [OF _ length_takeWhile_le])
  moreover have "entry_buf_addr (entry_addr (log_ptr s) 1023) + of_nat 468 = log_ptr s + 4096 * 2 ^ 7"
    by (simp add: entry_buf_addr_def entry_addr_def sizeof_kernel_log_state_def sizeof_kernel_log_entry_def)
  moreover have "entry_addr (log_ptr s) 1023 - log_ptr s = kernel_log_bytes"
    by (simp add: entry_addr_def kernel_log_bytes_def sizeof_kernel_log_state_def sizeof_kernel_log_entry_def KERNEL_LOG_MAX_NUM_ENTRIES_def)
  moreover have "entry_of n = (if n = 1023 then 1023 else n mod 1023)" by (auto simp: entry_of_def)
  ultimately show ?thesis using S(1) by (simp add: next_write_entry_after add.commute)
qed



theorem kernel_log_overflow_witness:
  "\<exists>s'. log_vprintf (\<lambda>_ _. LSR_THR) (KERNEL_DIRECT_MAP_BASE + 0x70000) KERNEL_LOG_INFO (replicate 480 0x61) [] (sample_log 1023) = Some (Inr s') \<and>
    fst (fst (log_console s')) (log_ptr (sample_log 1023) + 4096 * 2 ^ 7) = 0x61"
proof -
  let ?t = "replicate 480 (0x61 :: u8)"
  have p: "ch CHR ''%'' \<noteq> 0x61" by simp
  then have f: "format_text ?t [] = Inr ?t" by (intro format_plain) simp
  have t: "length ?t < 2 ^ 31" "0 \<notin> set ?t" "468 < length ?t" "texts_short []" "?t ! 468 = 0x61" by (simp_all add: texts_short_def)
  have lv: "\<not> below_level (log_global (sample_log 1023)) KERNEL_LOG_INFO" by (simp add: sample_log_def) code_simp
  from kernel_log_overflow [OF always_responsive sample_log(1) sample_log(2) lv t(4) f t(1-3) sample_log(3,4)]
  show ?thesis using t(5) by metis
qed

text \<open>
  C39: Where logging halts. A call while the lock of the log or of the global state is held
  never gets past it; a format whose arguments are missing is a fault; and an echoed message in
  a later stage of the kernel does not report the unsupported stage: \<^verbatim>\<open>panic\<close> takes the lock of
  the global state, which \<^verbatim>\<open>log_vprintf\<close> holds, and waits for ever.
\<close>

theorem log_vprintf_errors:
  fixes s s2 s3 :: log_module
  assumes "log_lock (log_state s) \<noteq> 0 \<or> log_lock (log_state s) = 0 \<and> global_lock (log_global s) \<noteq> 0"
    and "ready_to_log n s2" "\<not> below_level (log_global s2) flags" "texts_short ap" "format_text fmt ap = Inl e"
    and "log_lock (log_state s3) = 0" "global_lock (log_global s3) = 0" "log_echo (log_global s3)" "\<not> early_stage (log_global s3)"
      "\<not> below_level (log_global s3) flags" "texts_short ap'" "format_text fmt' ap' = Inr t" "length t < 2 ^ 31"
  shows "log_vprintf dev buf flags fmt ap s = Some (Inl Deadlock) \<and>
    log_vprintf dev buf flags fmt ap s2 = Some (Inl e) \<and>
    log_vprintf dev buf flags fmt' ap' s3 = Some (Inl Deadlock)"
proof (intro conjI)
  show "log_vprintf dev buf flags fmt ap s = Some (Inl Deadlock)"
    using assms(1) by (cases "log_lock (log_state s) = 0") (simp_all add: log_vprintf_def acquire_free global_get_locked_def)
  have n: "0 < KERNEL_LOG_BUF_SIZE" by (simp add: KERNEL_LOG_BUF_SIZE_def)
  have v: "vsnprintf b KERNEL_LOG_BUF_SIZE fmt ap m = Inl e" for b m
    using vsnprintf_text [OF n assms(4), of fmt b m] assms(5) by simp
  have r: "log_state s2 = header_after n 0" "global_lock (log_global s2) = 0" using assms(2) by (simp_all add: ready_to_log_def)
  obtain m v h where c: "log_console s2 = ((m, v), h)" by (cases "log_console s2") auto
  have lv: "\<not> flags AND KERNEL_LOG_MASK < log_level ((log_global g)\<lparr>global_lock := 1\<rparr>) AND KERNEL_LOG_MASK"
    if "\<not> below_level (log_global g) flags" for g using that by (simp add: below_level_def)
  show "log_vprintf dev buf flags fmt ap s2 = Some (Inl e)"
    using r lv [OF assms(3)] by (simp add: log_vprintf_def acquire_free locks_restored(1) header_after_def Let_def c v split: prod.split)
  have v': "vsnprintf b KERNEL_LOG_BUF_SIZE fmt' ap' m = Inr (int (length t), put_text b KERNEL_LOG_BUF_SIZE t m)" for b m
    using vsnprintf_text [OF n assms(11), of fmt' b m] assms(12,13) by simp
  have p: "maybe_echo_log dev buf ((log_global s3)\<lparr>global_lock := 1\<rparr>) flags str w = Some (Inl Deadlock)" for str w
    using assms(8,9) by (auto simp: maybe_echo_log_def early_stage_def panic_locked)
  obtain m' v' h' where c': "log_console s3 = ((m', v'), h')" by (cases "log_console s3") auto
  show "log_vprintf dev buf flags fmt' ap' s3 = Some (Inl Deadlock)"
    using assms(6) lv [OF assms(10)] by (simp add: log_vprintf_def acquire_free locks_restored(1) [OF assms(7)] Let_def c' v' p split: prod.split)
qed

theorem log_vprintf_errors_witness:
  "log_vprintf (\<lambda>_ _. LSR_THR) 0 KERNEL_LOG_INFO (c_string ''hi'') []
     ((sample_log 0)\<lparr>log_global := \<lparr>stage = KERNEL_STAGE_3_HAS_INTERRUPT_HANDLER, log_echo = True, log_level = KERNEL_LOG_DEBUG, global_lock = 0\<rparr>\<rparr>) =
     Some (Inl Deadlock)"
proof -
  let ?g = "\<lparr>stage = KERNEL_STAGE_3_HAS_INTERRUPT_HANDLER, log_echo = True, log_level = KERNEL_LOG_DEBUG, global_lock = 0\<rparr>"
  let ?s = "(sample_log 0)\<lparr>log_global := ?g\<rparr>"
  let ?s1 = "(sample_log 0)\<lparr>log_global := ?g\<lparr>global_lock := 1\<rparr>\<rparr>"
  have t: "texts_short []" "format_text (c_string ''hi'') [] = Inr (c_string ''hi'')" "length (c_string ''hi'') < 2 ^ 31"
    "format_text (c_string ''%d'') [] = Inl Missing_argument"
    by (simp_all add: texts_short_def format_eval)
  have lv: "\<not> below_level (log_global (sample_log 0)) KERNEL_LOG_INFO" "\<not> below_level (log_global ?s) KERNEL_LOG_INFO"
    by (simp_all add: sample_log_def) code_simp+
  have g: "log_lock (log_state ?s) = 0" "global_lock (log_global ?s) = 0" "log_echo (log_global ?s)" "\<not> early_stage (log_global ?s)"
    "log_lock (log_state ?s1) = 0 \<and> global_lock (log_global ?s1) \<noteq> 0"
    by (simp_all add: sample_log_def header_after_def early_stage_def)
  show ?thesis
    using log_vprintf_errors [OF disjI2 [OF g(5)] sample_log(2) lv(1) t(1,4) g(1-4) lv(2) t(1-3), of "\<lambda>_ _. LSR_THR" 0] by blast
qed

end
