(* ===== verification/Loader.thy ===== *)
theory Loader
  imports Elf E820 Serial
begin

text \<open>
  The last stage of the boot loader, \<^verbatim>\<open>arch/x86_64/boot/loader.c\<close>: it brings the kernel image to
  the address it is linked for, from conventional memory where the BIOS has loaded it or from
  disk by programmed input and output, checks the addresses of the image, clears the section
  \<^verbatim>\<open>.bss\<close> and calls the entry point. The disk behind the ports is a parameter, as is the address
  of the local array \<^verbatim>\<open>bss_name\<close>; \<open>None\<close> stands for a disk that never becomes ready. The value of
  the loader is the address it calls, if it calls one.
\<close>

section \<open>bootsector.h\<close>

definition SECTOR_SHIFT :: nat where "SECTOR_SHIFT = 9"
definition SECTOR_SIZE_BYTES :: u64 where "SECTOR_SIZE_BYTES = push_bit SECTOR_SHIFT 1"
definition STAGE2_SECTORS :: u64 where "STAGE2_SECTORS = 4"
definition BOOT_SECTORS :: u64 where "BOOT_SECTORS = 1 + STAGE2_SECTORS"
definition BIOS_KERNEL_ELF_LOAD_PHYS_ADDRESS :: u64 where
  "BIOS_KERNEL_ELF_LOAD_PHYS_ADDRESS = 0x7c00 + BOOT_SECTORS * SECTOR_SIZE_BYTES"

section \<open>Headers of the image\<close>

definition ELF_SHT_PROGBITS :: u32 where "ELF_SHT_PROGBITS = 1"

text \<open>The iteration macros: the headers at the offset the ELF header gives, one after the other.\<close>

definition for_each_prog_header :: "memory \<Rightarrow> u64 \<Rightarrow> elf_header \<Rightarrow> elf_program_header list" where
  "for_each_prog_header m buf header =
     map (\<lambda>i. elf_program_header_at m (buf + phoff header + 56 * of_nat i)) [0..<unat (phnum header)]"

definition for_each_sect_header :: "memory \<Rightarrow> u64 \<Rightarrow> elf_header \<Rightarrow> elf_section_header list" where
  "for_each_sect_header m buf header =
     map (\<lambda>i. elf_section_header_at m (buf + shoff header + 64 * of_nat i)) [0..<unat (shnum header)]"

text \<open>The loop over the sections: the first one of the name sought is cleared.\<close>

fun zero_bss_loop :: "u64 \<Rightarrow> u64 \<Rightarrow> elf_section_header list \<Rightarrow> memory \<Rightarrow> (bool \<times> memory) option" where
  "zero_bss_loop shstr bss_name [] m = Some (False, m)"
| "zero_bss_loop shstr bss_name (sect_header # shs) m =
     (let name = shstr + ucast (sh_name sect_header)
      in case strcmp m name bss_name of
           None \<Rightarrow> None
         | Some r \<Rightarrow>
             if r \<noteq> 0 then zero_bss_loop shstr bss_name shs m
             else Some (True, memset m (sh_addr sect_header) 0 (sh_size sect_header)))"

definition put_bss_name :: "u64 \<Rightarrow> memory \<Rightarrow> memory" where
  "put_bss_name a m = m(a := 0x2e, a + 1 := 0x62, a + 2 := 0x73, a + 3 := 0x73, a + 4 := 0)"

definition elf_zero_bss :: "u64 \<Rightarrow> u64 \<Rightarrow> memory \<Rightarrow> (bool \<times> memory) option" where
  "elf_zero_bss bss_name header m =
     (let buf = KERNEL_ELF_ADDRESS;
          h = elf_header_at m header;
          shstr_sect_header = elf_section_header_at m (buf + shoff h + 64 * ucast (shstrndx h));
          shstr = buf + sh_offset shstr_sect_header;
          m = put_bss_name bss_name m
      in zero_bss_loop shstr bss_name (for_each_sect_header m buf (elf_header_at m header)) m)"

definition elf_check_addrs :: "u64 \<Rightarrow> memory \<Rightarrow> bool" where
  "elf_check_addrs header m =
     (let buf = KERNEL_ELF_ADDRESS; h = elf_header_at m header
      in list_all (\<lambda>ph. ph_filesz ph = 0 \<or>
             (let addr = ph_vaddr ph in \<not> (addr \<noteq> 0 \<and> ph_offset ph \<noteq> addr - KERNEL_ELF_ADDRESS)))
           (for_each_prog_header m buf h) \<and>
         list_all (\<lambda>sh. sh_type sh \<noteq> ELF_SHT_PROGBITS \<or>
             (let addr = sh_addr sh in \<not> (addr \<noteq> 0 \<and> sh_offset sh \<noteq> addr - KERNEL_ELF_ADDRESS)))
           (for_each_sect_header m buf h))"

section \<open>Loading from disk\<close>

record elf_load_state =
  els_header :: "u64 option"
  bytes_loaded :: u64
  sectors_loaded :: u64

type_synonym disk_data = "u16 \<Rightarrow> io list \<Rightarrow> u32"

definition insl :: "disk_data \<Rightarrow> u64 \<Rightarrow> u16 \<Rightarrow> nat \<Rightarrow> memory \<times> io list \<Rightarrow> memory \<times> io list" where
  "insl data ptr port cnt w =
     fold (\<lambda>i (m, h). (store32 m (ptr + 4 * of_nat i) (data port h), h @ [InL port (data port h)])) [0..<cnt] w"

partial_function (option) wait_disk_ready :: "device \<Rightarrow> io list \<Rightarrow> io list option" where
  "wait_disk_ready dev h =
     (case inb dev 0x1f7 h of (v, h) \<Rightarrow> if v AND 0xc0 \<noteq> 0x40 then wait_disk_ready dev h else Some h)"

definition read_command :: "u64 \<Rightarrow> u16 \<Rightarrow> io list" where
  "read_command offset cnt =
     [Out 0x1f6 0x40,
      Out 0x1f2 (ucast (drop_bit 8 cnt)),
      Out 0x1f3 (ucast (drop_bit 24 offset)),
      Out 0x1f4 (ucast (drop_bit 32 offset)),
      Out 0x1f5 (ucast (drop_bit 40 offset)),
      Out 0x1f2 (ucast cnt),
      Out 0x1f3 (ucast offset),
      Out 0x1f4 (ucast (drop_bit 8 offset)),
      Out 0x1f5 (ucast (drop_bit 16 offset)),
      Out 0x1f7 0x24]"

fun read_sector_loop :: "device \<Rightarrow> disk_data \<Rightarrow> u64 \<Rightarrow> nat \<Rightarrow> memory \<times> io list \<Rightarrow> (memory \<times> io list) option" where
  "read_sector_loop dev data ptr 0 w = Some w"
| "read_sector_loop dev data ptr (Suc n) w =
     (let (m, h) = insl data ptr 0x1f0 (unat (SECTOR_SIZE_BYTES div 4)) w
      in case wait_disk_ready dev h of
           None \<Rightarrow> None
         | Some h \<Rightarrow> read_sector_loop dev data (ptr + SECTOR_SIZE_BYTES) n (m, h))"

definition read_sectors_lba48 ::
  "device \<Rightarrow> disk_data \<Rightarrow> u64 \<Rightarrow> u64 \<Rightarrow> u16 \<Rightarrow> memory \<times> io list \<Rightarrow> (memory \<times> io list) option" where
  "read_sectors_lba48 dev data ptr offset cnt = (\<lambda>(m, h).
     case wait_disk_ready dev h of
       None \<Rightarrow> None
     | Some h \<Rightarrow>
         (case wait_disk_ready dev (h @ read_command offset cnt) of
            None \<Rightarrow> None
          | Some h \<Rightarrow> read_sector_loop dev data ptr (unat cnt) (m, h)))"

definition load1 :: "device \<Rightarrow> disk_data \<Rightarrow> u64 \<Rightarrow> memory \<times> io list \<Rightarrow> (elf_load_state \<times> memory \<times> io list) option" where
  "load1 dev data buf w =
     (case read_sectors_lba48 dev data buf BOOT_SECTORS 1 w of
        None \<Rightarrow> None
      | Some (m, h) \<Rightarrow>
          let ret = \<lparr>els_header = None, bytes_loaded = 0, sectors_loaded = 0\<rparr>;
              header = elf_header_at m buf
          in if eh_magic header \<noteq> ELF_MAGIC_NUMBER then Some (ret, m, h)
             else if phoff header > shoff header then Some (ret, m, h)
             else
               let section_header_end_bytes = (ucast (shoff header + ucast (shnum header) * 64) :: u32);
                   section_header_end_bytes = (ucast (ALIGN_UP (ucast section_header_end_bytes) SECTOR_SIZE_BYTES) :: u32);
                   sectors = (ucast (ucast section_header_end_bytes div SECTOR_SIZE_BYTES) :: u16)
               in case read_sectors_lba48 dev data (buf + SECTOR_SIZE_BYTES) (BOOT_SECTORS + 1) (sectors - 1) (m, h) of
                    None \<Rightarrow> None
                  | Some (m, h) \<Rightarrow>
                      Some (\<lparr>els_header = Some buf, bytes_loaded = ucast section_header_end_bytes,
                        sectors_loaded = ucast sectors\<rparr>, m, h))"

definition elf_get_size_bytes :: "u64 \<Rightarrow> u64 \<Rightarrow> memory \<Rightarrow> u64" where
  "elf_get_size_bytes buf header m =
     (let h = elf_header_at m header;
          ret = fold (\<lambda>ph ret. let stop = ph_offset ph + ph_memsz ph in if stop > ret then stop else ret)
                  (for_each_prog_header m buf h) 0
      in fold (\<lambda>sh ret. if sh_type sh = ELF_SHT_NOBITS then ret
               else let stop = sh_offset sh + sh_size sh in if stop > ret then stop else ret)
           (for_each_sect_header m buf h) ret)"

definition load2 :: "device \<Rightarrow> disk_data \<Rightarrow> u64 \<Rightarrow> u64 \<Rightarrow> elf_load_state \<Rightarrow> memory \<times> io list \<Rightarrow> (bool \<times> memory \<times> io list) option" where
  "load2 dev data buf header state = (\<lambda>(m, h).
     let bytes = elf_get_size_bytes buf header m
     in if bytes > bytes_loaded state then
          let old_bytes_aligned = sectors_loaded state * SECTOR_SIZE_BYTES;
              bytes_aligned = ALIGN_UP bytes SECTOR_SIZE_BYTES;
              sectors = (ucast (bytes_aligned div SECTOR_SIZE_BYTES) :: u16);
              delta = (ucast (ucast sectors - sectors_loaded state) :: u16)
          in map_option (Pair True)
               (read_sectors_lba48 dev data (buf + old_bytes_aligned) (sectors_loaded state) delta (m, h))
        else Some (True, m, h))"

type_synonym boot = "early_boot_info \<times> memory \<times> io list"

definition load_ata_pio :: "device \<Rightarrow> disk_data \<Rightarrow> boot \<Rightarrow> (u64 option \<times> boot) option" where
  "load_ata_pio dev data = (\<lambda>(info, m, h).
     let buf = KERNEL_ELF_ADDRESS
     in case load1 dev data buf (m, h) of
          None \<Rightarrow> None
        | Some (state, m, h) \<Rightarrow>
            (case els_header state of
               None \<Rightarrow> Some (None, info, m, h)
             | Some header \<Rightarrow>
                 (case load2 dev data buf header state (m, h) of
                    None \<Rightarrow> None
                  | Some (ok, m, h) \<Rightarrow>
                      if \<not> ok then Some (None, info, m, h)
                      else Some (Some header, info\<lparr>kernel_elf_size_bytes := ucast (bytes_loaded state)\<rparr>, m, h))))"

section \<open>Loading from conventional memory, and starting the kernel\<close>

definition copy_kernel_elf_image :: "boot \<Rightarrow> u64 \<times> boot" where
  "copy_kernel_elf_image = (\<lambda>(info, m, h).
     (KERNEL_ELF_ADDRESS, info,
      memcpy m KERNEL_ELF_ADDRESS BIOS_KERNEL_ELF_LOAD_PHYS_ADDRESS (ucast (kernel_elf_size_bytes info)), h))"

definition check_and_finalise :: "u64 \<Rightarrow> u64 \<Rightarrow> memory \<Rightarrow> (bool \<times> memory) option" where
  "check_and_finalise bss_name header m =
     (if \<not> elf_check_addrs header m then Some (False, m) else elf_zero_bss bss_name header m)"

text \<open>The configuration at hand, \<^verbatim>\<open>CONFIG_BOOTLOADER_BIOS\<close>, copies the image.\<close>

definition load_elf_image :: "boot \<Rightarrow> u64 \<times> boot" where
  "load_elf_image = copy_kernel_elf_image"

definition exec_entry :: "u64 \<Rightarrow> memory \<Rightarrow> u64" where
  "exec_entry header m = eh_entry (elf_header_at m header)"

definition load :: "u64 \<Rightarrow> boot \<Rightarrow> (u64 option \<times> boot) option" where
  "load bss_name w =
     (let (header, info, m, h) = load_elf_image w
      in case check_and_finalise bss_name header m of
           None \<Rightarrow> None
         | Some (ok, m) \<Rightarrow> Some (if \<not> ok then None else Some (exec_entry header m), info, m, h))"

section \<open>The search for the section\<close>

definition named_bss :: "memory \<Rightarrow> u64 \<Rightarrow> bool" where
  "named_bss m a \<longleftrightarrow> m a = 0x2e \<and> m (a + 1) = 0x62 \<and> m (a + 2) = 0x73 \<and> m (a + 3) = 0x73 \<and> m (a + 4) = 0"

lemma bss_name_put: "named_bss (put_bss_name a m) a"
proof -
  have "a \<noteq> a + k" if "k \<in> {1, 2, 3, 4}" for k :: u64 using that by auto
  moreover have "a + 1 \<noteq> a + 2" "a + 1 \<noteq> a + 3" "a + 1 \<noteq> a + 4" "a + 2 \<noteq> a + 3" "a + 2 \<noteq> a + 4" "a + 3 \<noteq> a + 4" by simp_all
  ultimately show ?thesis by (simp add: named_bss_def put_bss_name_def)
qed

text \<open>A comparison with the name ends within five bytes.\<close>

lemma strcmp_byte:
  "m x \<noteq> m y \<Longrightarrow> \<exists>r. strcmp m x y = Some r \<and> r \<noteq> 0"
  "m x = m y \<Longrightarrow> m y \<noteq> 0 \<Longrightarrow> strcmp m x y = strcmp m (x + 1) (y + 1)"
  "m x = 0 \<Longrightarrow> m y = 0 \<Longrightarrow> strcmp m x y = Some 0"
  by (subst strcmp_step, auto dest: signed_word_eqI)+

lemma strcmp_bss:
  assumes "named_bss m b"
  shows "\<exists>r. strcmp m a b = Some r \<and> (r = 0 \<longleftrightarrow> named_bss m a)"
proof -
  have e: "a + 1 + 1 = a + 2" "a + 2 + 1 = a + 3" "a + 3 + 1 = a + 4" "b + 1 + 1 = b + 2" "b + 2 + 1 = b + 3" "b + 3 + 1 = b + 4"
    by simp_all
  note B = assms [unfolded named_bss_def]
  have 4: "\<exists>r. strcmp m (a + 4) (b + 4) = Some r \<and> (r = 0 \<longleftrightarrow> m (a + 4) = 0)"
    using strcmp_byte(1,3) [of m "a + 4" "b + 4"] B by (cases "m (a + 4) = 0") auto
  have 3: "\<exists>r. strcmp m (a + 3) (b + 3) = Some r \<and> (r = 0 \<longleftrightarrow> m (a + 3) = 0x73 \<and> m (a + 4) = 0)"
    using strcmp_byte(1,2) [of m "a + 3" "b + 3"] B 4 unfolding e by (cases "m (a + 3) = 0x73") auto
  have 2: "\<exists>r. strcmp m (a + 2) (b + 2) = Some r \<and> (r = 0 \<longleftrightarrow> m (a + 2) = 0x73 \<and> m (a + 3) = 0x73 \<and> m (a + 4) = 0)"
    using strcmp_byte(1,2) [of m "a + 2" "b + 2"] B 3 unfolding e by (cases "m (a + 2) = 0x73") auto
  have 1: "\<exists>r. strcmp m (a + 1) (b + 1) = Some r \<and>
      (r = 0 \<longleftrightarrow> m (a + 1) = 0x62 \<and> m (a + 2) = 0x73 \<and> m (a + 3) = 0x73 \<and> m (a + 4) = 0)"
    using strcmp_byte(1,2) [of m "a + 1" "b + 1"] B 2 unfolding e by (cases "m (a + 1) = 0x62") auto
  show ?thesis using strcmp_byte(1,2) [of m a b] B 1 unfolding named_bss_def by (cases "m a = 0x2e") auto
qed

lemma zero_bss_found:
  assumes "named_bss m b"
  shows "zero_bss_loop shstr b shs m =
    (case find (\<lambda>sh. named_bss m (shstr + ucast (sh_name sh))) shs of
       None \<Rightarrow> Some (False, m)
     | Some sh \<Rightarrow> Some (True, memset m (sh_addr sh) 0 (sh_size sh)))"
proof (induction shs)
  case (Cons sh shs)
  obtain r where "strcmp m (shstr + ucast (sh_name sh)) b = Some r" "r = 0 \<longleftrightarrow> named_bss m (shstr + ucast (sh_name sh))"
    using strcmp_bss [OF assms] by blast
  then show ?case using Cons by simp
qed simp

lemma image_copied:
  "memcpy m KERNEL_ELF_ADDRESS BIOS_KERNEL_ELF_LOAD_PHYS_ADDRESS (ucast (n :: u32)) a =
    (if unat (a - KERNEL_ELF_ADDRESS) < unat n then m (BIOS_KERNEL_ELF_LOAD_PHYS_ADDRESS + (a - KERNEL_ELF_ADDRESS)) else m a)"
proof -
  have u: "unat (ucast n :: u64) = unat n" by (simp add: unsigned_ucast_eq take_bit_nat_eq_self unat_lt_u32 less_trans [OF unat_lt_u32])
  have "unat (KERNEL_ELF_ADDRESS - BIOS_KERNEL_ELF_LOAD_PHYS_ADDRESS) = 0xffffc00000ff7a00"
    by (simp add: KERNEL_ELF_ADDRESS_def KERNEL_ELF_ADDRESS_PHYS_def BIOS_KERNEL_ELF_LOAD_PHYS_ADDRESS_def BOOT_SECTORS_def
      STAGE2_SECTORS_def SECTOR_SIZE_BYTES_def SECTOR_SHIFT_def push_bit_eq_mult)
  then show ?thesis using unat_lt_u32 [of n] by (subst memcpy_forward) (simp_all add: u)
qed

lemma put_bss_name_outside: "5 \<le> unat (a - b) \<Longrightarrow> put_bss_name b m a = m a"
proof -
  assume a: "5 \<le> unat (a - b)"
  have "a \<noteq> b + k" if "unat k < 5" for k
  proof
    assume "a = b + k"
    then show False using that a by simp
  qed
  from this [of 0] this [of 1] this [of 2] this [of 3] this [of 4] show "put_bss_name b m a = m a"
    by (simp add: put_bss_name_def)
qed

text \<open>Where the address check passes, a byte of a program header is the byte at its place in the file.\<close>

lemma linked_byte:
  assumes "elf_check_addrs KERNEL_ELF_ADDRESS img" "ph \<in> set (for_each_prog_header img KERNEL_ELF_ADDRESS (elf_header_at img KERNEL_ELF_ADDRESS))"
    "ph_filesz ph \<noteq> 0" "ph_vaddr ph \<noteq> 0" "unat (ph_offset ph) + k < 2 ^ 64"
  shows "ph_vaddr ph + of_nat k - KERNEL_ELF_ADDRESS = ph_offset ph + of_nat k"
    "unat (ph_offset ph + of_nat k) = unat (ph_offset ph) + k"
proof -
  have "ph_offset ph = ph_vaddr ph - KERNEL_ELF_ADDRESS"
    using assms(1-4) by (auto simp: elf_check_addrs_def Let_def list_all_iff)
  then show "ph_vaddr ph + of_nat k - KERNEL_ELF_ADDRESS = ph_offset ph + of_nat k" by simp
  have "unat (of_nat k :: u64) = k" using assms(5) by (intro unat_of_nat_lt) simp
  then show "unat (ph_offset ph + of_nat k) = unat (ph_offset ph) + k" using assms(5) by (subst unat_plus_no_wrap) simp_all
qed

section \<open>What the loader computes\<close>

text \<open>The file, the image at its place, and the section to clear.\<close>

definition file_byte :: "memory \<Rightarrow> u64 \<Rightarrow> u8" where
  "file_byte m k = m (BIOS_KERNEL_ELF_LOAD_PHYS_ADDRESS + k)"

definition placed_image :: "early_boot_info \<Rightarrow> memory \<Rightarrow> memory" where
  "placed_image info m =
     (\<lambda>a. if unat (a - KERNEL_ELF_ADDRESS) < unat (kernel_elf_size_bytes info) then file_byte m (a - KERNEL_ELF_ADDRESS) else m a)"

definition section_names :: "memory \<Rightarrow> u64" where
  "section_names img =
     (let h = elf_header_at img KERNEL_ELF_ADDRESS
      in KERNEL_ELF_ADDRESS + sh_offset (elf_section_header_at img (KERNEL_ELF_ADDRESS + shoff h + 64 * ucast (shstrndx h))))"

definition bss_section :: "u64 \<Rightarrow> memory \<Rightarrow> elf_section_header option" where
  "bss_section bss_name img =
     (let img' = put_bss_name bss_name img
      in find (\<lambda>sh. named_bss img' (section_names img + ucast (sh_name sh)))
           (for_each_sect_header img' KERNEL_ELF_ADDRESS (elf_header_at img' KERNEL_ELF_ADDRESS)))"

lemma zero_bss_eq:
  "elf_zero_bss bss_name KERNEL_ELF_ADDRESS img =
    (case bss_section bss_name img of
       None \<Rightarrow> Some (False, put_bss_name bss_name img)
     | Some sh \<Rightarrow> Some (True, memset (put_bss_name bss_name img) (sh_addr sh) 0 (sh_size sh)))"
  unfolding elf_zero_bss_def Let_def section_names_def [symmetric, unfolded Let_def] zero_bss_found [OF bss_name_put] bss_section_def ..

lemma load_eq:
  "load bss_name (info, m, h) =
    (let img = placed_image info m; img' = put_bss_name bss_name img
     in if \<not> elf_check_addrs KERNEL_ELF_ADDRESS img then Some (None, info, img, h)
        else case bss_section bss_name img of
            None \<Rightarrow> Some (None, info, img', h)
          | Some sh \<Rightarrow> let m' = memset img' (sh_addr sh) 0 (sh_size sh) in Some (Some (exec_entry KERNEL_ELF_ADDRESS m'), info, m', h))"
proof -
  have "memcpy m KERNEL_ELF_ADDRESS BIOS_KERNEL_ELF_LOAD_PHYS_ADDRESS (ucast (kernel_elf_size_bytes info)) = placed_image info m"
    by (rule ext) (simp add: image_copied placed_image_def file_byte_def)
  then show ?thesis
    by (simp add: load_def load_elf_image_def copy_kernel_elf_image_def check_and_finalise_def zero_bss_eq Let_def split: option.split)
qed

lemma segment_placed:
  assumes "elf_check_addrs KERNEL_ELF_ADDRESS (placed_image info m)"
    "ph \<in> set (for_each_prog_header (placed_image info m) KERNEL_ELF_ADDRESS (elf_header_at (placed_image info m) KERNEL_ELF_ADDRESS))"
    "k < unat (ph_filesz ph)" "ph_vaddr ph \<noteq> 0" "unat (ph_offset ph) + k < unat (kernel_elf_size_bytes info)"
  shows "placed_image info m (ph_vaddr ph + of_nat k) = file_byte m (ph_offset ph + of_nat k)"
proof -
  have "unat (ph_offset ph) + k < 2 ^ 64" using assms(5) unat_lt_u32 [of "kernel_elf_size_bytes info"] by simp
  moreover have "ph_filesz ph \<noteq> 0" using assms(3) by auto
  ultimately have "ph_vaddr ph + of_nat k - KERNEL_ELF_ADDRESS = ph_offset ph + of_nat k"
    "unat (ph_offset ph + of_nat k) < unat (kernel_elf_size_bytes info)"
    using linked_byte [OF assms(1,2) _ assms(4)] assms(5) by simp_all
  then show ?thesis by (simp only: placed_image_def if_True)
qed

section \<open>Properties\<close>

text \<open>
  C16: Loading the kernel. The loader always comes to an end, and calls the kernel exactly when
  the addresses of the image agree with its place in memory and it has a section named \<^verbatim>\<open>.bss\<close>.
  Then the first section of that name is all zero; every byte of every loaded segment outside
  it is found at its virtual address with the value it has in the file; no other byte of memory
  is changed but the loader's local array; and the address called is the entry point the image
  names.
\<close>

theorem load_correct:
  fixes info :: early_boot_info and m :: memory and bss_name :: u64
  defines "img \<equiv> placed_image info m"
  shows "\<exists>r m'. load bss_name (info, m, h) = Some (r, info, m', h) \<and>
      (r \<noteq> None \<longleftrightarrow> elf_check_addrs KERNEL_ELF_ADDRESS img \<and> bss_section bss_name img \<noteq> None) \<and>
      (\<forall>e sh. r = Some e \<longrightarrow> bss_section bss_name img = Some sh \<longrightarrow>
         e = eh_entry (elf_header_at m' KERNEL_ELF_ADDRESS) \<and>
         (\<forall>a. unat (a - sh_addr sh) < unat (sh_size sh) \<longrightarrow> m' a = 0) \<and>
         (\<forall>a. unat (sh_size sh) \<le> unat (a - sh_addr sh) \<longrightarrow> 5 \<le> unat (a - bss_name) \<longrightarrow> m' a = img a) \<and>
         (\<forall>ph\<in>set (for_each_prog_header img KERNEL_ELF_ADDRESS (elf_header_at img KERNEL_ELF_ADDRESS)). \<forall>k < unat (ph_filesz ph).
            ph_vaddr ph \<noteq> 0 \<longrightarrow> unat (ph_offset ph) + k < unat (kernel_elf_size_bytes info) \<longrightarrow>
            img (ph_vaddr ph + of_nat k) = file_byte m (ph_offset ph + of_nat k)))"
proof (cases "elf_check_addrs KERNEL_ELF_ADDRESS img")
  case False
  then show ?thesis using load_eq [of bss_name info m h] by (simp add: img_def Let_def)
next
  case True
  show ?thesis
  proof (cases "bss_section bss_name img")
    case None
    then show ?thesis using load_eq [of bss_name info m h] True by (simp add: img_def Let_def)
  next
    case (Some sh)
    let ?m = "memset (put_bss_name bss_name img) (sh_addr sh) 0 (sh_size sh)"
    have o: "?m a = img a" if "unat (sh_size sh) \<le> unat (a - sh_addr sh)" "5 \<le> unat (a - bss_name)" for a
      using that put_bss_name_outside [OF that(2)] by (simp add: memset_byte)
    have "load bss_name (info, m, h) = Some (Some (eh_entry (elf_header_at ?m KERNEL_ELF_ADDRESS)), info, ?m, h)"
      using load_eq [of bss_name info m h] True Some by (simp add: img_def Let_def exec_entry_def)
    then show ?thesis
      using True Some o segment_placed [of info m, folded img_def]
      by (intro exI [of _ "Some (eh_entry (elf_header_at ?m KERNEL_ELF_ADDRESS))"] exI [of _ ?m]) (auto simp: memset_byte)
  qed
qed

text \<open>An image of 192 bytes with one segment and one section, the bytes that are not zero.\<close>

definition sample_bytes :: "(nat \<times> u8) list" where
  "sample_bytes =
    [(0, 0x7f), (1, 0x45), (2, 0x4c), (3, 0x46), (24, 0x40), (27, 0x01), (29, 0xc0), (30, 0xff), (31,
     0xff), (32, 0x40), (40, 0x78), (56, 0x01), (60, 0x01), (83, 0x01), (85, 0xc0), (86, 0xff), (87,
     0xff), (96, 0x40), (124, 0x08), (137, 0x02), (139, 0x01), (141, 0xc0), (142, 0xff), (143, 0xff),
     (144, 0xb8), (152, 0x10), (184, 0x2e), (185, 0x62), (186, 0x73), (187, 0x73)]"

definition sample_memory :: memory where
  "sample_memory a = (case map_of sample_bytes (unat (a - BIOS_KERNEL_ELF_LOAD_PHYS_ADDRESS)) of None \<Rightarrow> 0 | Some c \<Rightarrow> c)"

definition sample_info :: early_boot_info where
  "sample_info = \<lparr>total_avail_ram_bytes = 0, num_ram_spans = 0, apic_base = 0, kernel_elf_size_bytes = 192,
     num_e820_entries = 0, e820_entries = (\<lambda>_. \<lparr>e820_base = 0, e820_size = 0, e820_type = 0\<rparr>)\<rparr>"

abbreviation sample_image :: memory where
  "sample_image \<equiv> placed_image sample_info sample_memory"

lemma sample_byte: "sample_image (KERNEL_ELF_ADDRESS + x) =
    (if unat x < 192 then (case map_of sample_bytes (unat x) of None \<Rightarrow> 0 | Some c \<Rightarrow> c) else sample_memory (KERNEL_ELF_ADDRESS + x))"
  by (simp add: placed_image_def sample_info_def file_byte_def sample_memory_def)

lemma sample_byte0: "sample_image KERNEL_ELF_ADDRESS = 0x7f"
  using sample_byte [of 0] by (simp add: sample_bytes_def)

lemma byte_indices: "[0..<8] = [0, 1, 2, 3, 4, 5, 6, 7]" "[0..<4] = [0, 1, 2, 3]" "[0..<2] = [0, 1 :: nat]"
  by (simp_all add: upt_rec)

lemmas sample_simps = load16_def load32_def load64_def byte_indices sample_byte sample_byte0 sample_bytes_def

lemma sample_header:
  "phoff (elf_header_at sample_image KERNEL_ELF_ADDRESS) = 64" "shoff (elf_header_at sample_image KERNEL_ELF_ADDRESS) = 120"
  "phnum (elf_header_at sample_image KERNEL_ELF_ADDRESS) = 1" "shnum (elf_header_at sample_image KERNEL_ELF_ADDRESS) = 1"
  "shstrndx (elf_header_at sample_image KERNEL_ELF_ADDRESS) = 0"
  by (simp_all add: elf_header_at_def sample_simps add.assoc)

lemma sample_sections:
  "sh_name (elf_section_header_at sample_image (KERNEL_ELF_ADDRESS + 120)) = 0"
  "sh_type (elf_section_header_at sample_image (KERNEL_ELF_ADDRESS + 120)) = 8"
  "sh_offset (elf_section_header_at sample_image (KERNEL_ELF_ADDRESS + 120)) = 184"
  "sh_addr (elf_section_header_at sample_image (KERNEL_ELF_ADDRESS + 120)) = KERNEL_ELF_ADDRESS + 512"
  "sh_size (elf_section_header_at sample_image (KERNEL_ELF_ADDRESS + 120)) = 16"
  by (simp_all add: elf_section_header_at_def sample_simps add.assoc)
    (simp add: KERNEL_ELF_ADDRESS_def KERNEL_ELF_ADDRESS_PHYS_def)

text \<open>The name of the section sought, put at \<open>0x70000\<close>, does not touch the image.\<close>

lemma sample_named: "unat x < 2 ^ 16 \<Longrightarrow> put_bss_name 0x70000 m (KERNEL_ELF_ADDRESS + x) = m (KERNEL_ELF_ADDRESS + x)"
proof (rule put_bss_name_outside)
  assume x: "unat x < 2 ^ 16"
  have "KERNEL_ELF_ADDRESS + x - 0x70000 = (KERNEL_ELF_ADDRESS - 0x70000) + x" by simp
  moreover have "unat (KERNEL_ELF_ADDRESS - 0x70000) = 0xffffc00000f90000" by (simp add: KERNEL_ELF_ADDRESS_def KERNEL_ELF_ADDRESS_PHYS_def)
  ultimately have "unat (KERNEL_ELF_ADDRESS + x - 0x70000) = 0xffffc00000f90000 + unat x"
    using x by (simp only:) (subst unat_plus_no_wrap, simp_all)
  then show "5 \<le> unat (KERNEL_ELF_ADDRESS + x - 0x70000)" by simp
qed

lemma sample_bss: "bss_section 0x70000 sample_image = Some (elf_section_header_at sample_image (KERNEL_ELF_ADDRESS + 120))"
proof -
  let ?img = "put_bss_name 0x70000 sample_image"
  have "put_bss_name 0x70000 sample_image KERNEL_ELF_ADDRESS = sample_image KERNEL_ELF_ADDRESS" using sample_named [of 0] by simp
  then have h: "elf_header_at ?img KERNEL_ELF_ADDRESS = elf_header_at sample_image KERNEL_ELF_ADDRESS"
    "elf_section_header_at ?img (KERNEL_ELF_ADDRESS + 120) = elf_section_header_at sample_image (KERNEL_ELF_ADDRESS + 120)"
    by (simp_all add: elf_header_at_def elf_section_header_at_def load16_def load32_def load64_def byte_indices sample_named add.assoc)
  have s: "for_each_sect_header ?img KERNEL_ELF_ADDRESS (elf_header_at ?img KERNEL_ELF_ADDRESS) =
      [elf_section_header_at sample_image (KERNEL_ELF_ADDRESS + 120)]"
    by (simp add: h for_each_sect_header_def sample_header)
  have n: "section_names sample_image = KERNEL_ELF_ADDRESS + 184" by (simp add: section_names_def Let_def sample_header sample_sections)
  have "named_bss ?img (KERNEL_ELF_ADDRESS + 184)"
    by (simp add: named_bss_def sample_named sample_byte sample_bytes_def add.assoc)
  then show ?thesis by (simp add: bss_section_def Let_def s n sample_sections)
qed

lemma sample_segment: "for_each_prog_header sample_image KERNEL_ELF_ADDRESS (elf_header_at sample_image KERNEL_ELF_ADDRESS) =
    [elf_program_header_at sample_image (KERNEL_ELF_ADDRESS + 64)]"
  by (simp add: for_each_prog_header_def sample_header)

lemma sample_segment_fields:
  "ph_offset (elf_program_header_at sample_image (KERNEL_ELF_ADDRESS + 64)) = 0"
  "ph_vaddr (elf_program_header_at sample_image (KERNEL_ELF_ADDRESS + 64)) = KERNEL_ELF_ADDRESS"
  "ph_filesz (elf_program_header_at sample_image (KERNEL_ELF_ADDRESS + 64)) = 64"
  by (simp_all add: elf_program_header_at_def sample_simps add.assoc)
    (simp add: KERNEL_ELF_ADDRESS_def KERNEL_ELF_ADDRESS_PHYS_def)

theorem load_correct_witness:
  "\<exists>e m'. load 0x70000 (sample_info, sample_memory, []) = Some (Some e, sample_info, m', []) \<and>
     m' (KERNEL_ELF_ADDRESS + 515) = 0 \<and>
     sample_image (KERNEL_ELF_ADDRESS + of_nat 1) = file_byte sample_memory (0 + of_nat 1)"
proof -
  let ?sh = "elf_section_header_at sample_image (KERNEL_ELF_ADDRESS + 120)"
  have s: "for_each_sect_header sample_image KERNEL_ELF_ADDRESS (elf_header_at sample_image KERNEL_ELF_ADDRESS) = [?sh]"
    by (simp add: for_each_sect_header_def sample_header)
  have c: "elf_check_addrs KERNEL_ELF_ADDRESS sample_image"
    unfolding elf_check_addrs_def Let_def s sample_segment
    by (simp add: sample_segment_fields sample_sections ELF_SHT_PROGBITS_def)
  from load_correct [of "0x70000" sample_info sample_memory "[]"]
  obtain r m' where l: "load 0x70000 (sample_info, sample_memory, []) = Some (r, sample_info, m', [])" "r \<noteq> None"
    "\<And>e. r = Some e \<Longrightarrow> (\<forall>a. unat (a - sh_addr ?sh) < unat (sh_size ?sh) \<longrightarrow> m' a = 0) \<and>
      (\<forall>ph\<in>set [elf_program_header_at sample_image (KERNEL_ELF_ADDRESS + 64)]. \<forall>k < unat (ph_filesz ph).
            ph_vaddr ph \<noteq> 0 \<longrightarrow> unat (ph_offset ph) + k < unat (kernel_elf_size_bytes sample_info) \<longrightarrow>
            sample_image (ph_vaddr ph + of_nat k) = file_byte sample_memory (ph_offset ph + of_nat k))"
    using c sample_bss unfolding sample_segment by auto
  then obtain e where e: "r = Some e" by blast
  have "KERNEL_ELF_ADDRESS \<noteq> 0" by (simp add: KERNEL_ELF_ADDRESS_def KERNEL_ELF_ADDRESS_PHYS_def)
  moreover have "unat (kernel_elf_size_bytes sample_info) = 192" by (simp add: sample_info_def)
  moreover note conjunct2 [OF l(3) [OF e], THEN bspec, of "elf_program_header_at sample_image (KERNEL_ELF_ADDRESS + 64)",
      THEN spec, of 1, unfolded sample_segment_fields]
  ultimately have "sample_image (KERNEL_ELF_ADDRESS + of_nat 1) = file_byte sample_memory (0 + of_nat 1)" by simp
  moreover have "m' (KERNEL_ELF_ADDRESS + 515) = 0" using l(3) [OF e] by (simp add: sample_sections)
  ultimately show ?thesis using l(1) e by blast
qed

end
