(* ===== verification/Interrupt.thy ===== *)
theory Interrupt
  imports Page
begin

text \<open>
  The local interrupt controller, \<^verbatim>\<open>arch/x86_64/kernel/interrupt.c\<close>. Its registers are memory-mapped and
  volatile: the state is the history of the reads and writes, and what a read returns is a
  parameter that may depend on the whole history. The theorem gives every access of the
  initialisation in its order, and what holds from the moment the controller is enabled.
\<close>

definition APIC_IRQ_0 :: u32 where "APIC_IRQ_0 = 32"
definition APIC_IRQ_TIMER :: u32 where "APIC_IRQ_TIMER = 0"
definition APIC_IRQ_ERROR :: u32 where "APIC_IRQ_ERROR = 0x13"
definition APIC_IRQ_SPURIOUS :: u32 where "APIC_IRQ_SPURIOUS = 0xdf"

definition APIC_VER_OFFSET :: u64 where "APIC_VER_OFFSET = 0x30"
definition APIC_TPR_OFFSET :: u64 where "APIC_TPR_OFFSET = 0x80"
definition APIC_EOI_OFFSET :: u64 where "APIC_EOI_OFFSET = 0x0b0"
definition APIC_SPURIOUS_OFFSET :: u64 where "APIC_SPURIOUS_OFFSET = 0x0f0"
definition APIC_ESR_OFFSET :: u64 where "APIC_ESR_OFFSET = 0x280"
definition APIC_TIMER_OFFSET :: u64 where "APIC_TIMER_OFFSET = 0x320"
definition APIC_PCINT_OFFSET :: u64 where "APIC_PCINT_OFFSET = 0x340"
definition APIC_LINT0_OFFSET :: u64 where "APIC_LINT0_OFFSET = 0x350"
definition APIC_LINT1_OFFSET :: u64 where "APIC_LINT1_OFFSET = 0x360"
definition APIC_ERROR_OFFSET :: u64 where "APIC_ERROR_OFFSET = 0x370"
definition APIC_TICR_OFFSET :: u64 where "APIC_TICR_OFFSET = 0x380"
definition APIC_TDCR_OFFSET :: u64 where "APIC_TDCR_OFFSET = 0x3e0"

definition APIC_ENABLE_FLAG :: u32 where "APIC_ENABLE_FLAG = 0x100"
definition APIC_MASK_FLAG :: u32 where "APIC_MASK_FLAG = 0x10000"
definition APIC_PERIODIC_FLAG :: u32 where "APIC_PERIODIC_FLAG = 0x20000"
definition APIC_INIT_TIMER_COUNT_VALUE :: u32 where "APIC_INIT_TIMER_COUNT_VALUE = 1000000000"

lemmas apic_defs = APIC_IRQ_0_def APIC_IRQ_TIMER_def APIC_IRQ_ERROR_def APIC_IRQ_SPURIOUS_def APIC_VER_OFFSET_def
  APIC_TPR_OFFSET_def APIC_EOI_OFFSET_def APIC_SPURIOUS_OFFSET_def APIC_ESR_OFFSET_def APIC_TIMER_OFFSET_def
  APIC_PCINT_OFFSET_def APIC_LINT0_OFFSET_def APIC_LINT1_OFFSET_def APIC_ERROR_OFFSET_def APIC_TICR_OFFSET_def
  APIC_TDCR_OFFSET_def APIC_ENABLE_FLAG_def APIC_MASK_FLAG_def APIC_PERIODIC_FLAG_def APIC_INIT_TIMER_COUNT_VALUE_def

datatype reg_access =
    Reg_Read u64 u32
  | Reg_Write u64 u32

record interrupt_state =
  num_lvt_entries :: u32
  accesses :: "reg_access list"

type_synonym lapic = "u64 \<Rightarrow> reg_access list \<Rightarrow> u32"

definition lapic_reg_ptr :: "u64 \<Rightarrow> u64" where
  "lapic_reg_ptr offset = APIC_BASE_ADDRESS + offset"

definition lapic_read_reg :: "lapic \<Rightarrow> u64 \<Rightarrow> interrupt_state \<Rightarrow> u32 \<times> interrupt_state" where
  "lapic_read_reg dev offset s =
     (let v = dev (lapic_reg_ptr offset) (accesses s)
      in (v, s\<lparr>accesses := accesses s @ [Reg_Read (lapic_reg_ptr offset) v]\<rparr>))"

definition lapic_write_reg :: "u64 \<Rightarrow> u32 \<Rightarrow> interrupt_state \<Rightarrow> interrupt_state" where
  "lapic_write_reg offset val s = s\<lparr>accesses := accesses s @ [Reg_Write (lapic_reg_ptr offset) val]\<rparr>"

definition lapic_clear_error :: "interrupt_state \<Rightarrow> interrupt_state" where
  "lapic_clear_error s = lapic_write_reg APIC_ESR_OFFSET 0 (lapic_write_reg APIC_ESR_OFFSET 0 s)"

definition lapic_clear_interrupt :: "interrupt_state \<Rightarrow> interrupt_state" where
  "lapic_clear_interrupt s = lapic_write_reg APIC_EOI_OFFSET 0 s"

definition lapic_init :: "lapic \<Rightarrow> interrupt_state \<Rightarrow> interrupt_state" where
  "lapic_init dev s =
     (let (ver, s) = lapic_read_reg dev APIC_VER_OFFSET s;
          max_lvt_entries = (ucast (drop_bit 16 (ucast ver AND BIT_MASK_BELOW 23)) :: u32);
          s = s\<lparr>num_lvt_entries := max_lvt_entries + 1\<rparr>;
          s = lapic_write_reg APIC_LINT0_OFFSET APIC_MASK_FLAG s;
          s = lapic_write_reg APIC_LINT1_OFFSET APIC_MASK_FLAG s;
          s = lapic_clear_error s;
          s = lapic_clear_interrupt s;
          s = lapic_write_reg APIC_ERROR_OFFSET (APIC_IRQ_0 + APIC_IRQ_ERROR) s;
          s = lapic_write_reg APIC_TDCR_OFFSET 0xb s;
          s = lapic_write_reg APIC_TIMER_OFFSET (APIC_PERIODIC_FLAG OR (APIC_IRQ_0 + APIC_IRQ_TIMER)) s;
          s = lapic_write_reg APIC_TICR_OFFSET APIC_INIT_TIMER_COUNT_VALUE s;
          s = (if num_lvt_entries s \<ge> 4 then lapic_write_reg APIC_PCINT_OFFSET APIC_MASK_FLAG s else s);
          s = lapic_write_reg APIC_SPURIOUS_OFFSET (APIC_ENABLE_FLAG OR (APIC_IRQ_0 + APIC_IRQ_SPURIOUS)) s
      in lapic_write_reg APIC_TPR_OFFSET 0 s)"

definition interrupt_init :: "lapic \<Rightarrow> interrupt_state \<Rightarrow> interrupt_state" where
  "interrupt_init dev s = lapic_init dev s"

section \<open>What the registers hold\<close>

text \<open>The last value written to a register.\<close>

fun reg_value :: "reg_access list \<Rightarrow> u64 \<rightharpoonup> u32" where
  "reg_value [] r = None"
| "reg_value (Reg_Write r' v # es) r = (case reg_value es r of None \<Rightarrow> if r = r' then Some v else None | Some v \<Rightarrow> Some v)"
| "reg_value (Reg_Read _ _ # es) r = reg_value es r"

lemma reg_value_append: "reg_value (es @ fs) r = (case reg_value fs r of None \<Rightarrow> reg_value es r | Some v \<Rightarrow> Some v)"
proof (induction es)
  case (Cons e es)
  then show ?case by (cases e) (auto split: option.splits)
qed (simp split: option.split)

lemma reg_ptr_inj: "lapic_reg_ptr a = lapic_reg_ptr b \<longleftrightarrow> a = b"
  by (simp add: lapic_reg_ptr_def)

text \<open>The writes before the controller is enabled.\<close>

definition setup_writes :: "bool \<Rightarrow> reg_access list" where
  "setup_writes counters =
     [Reg_Write (lapic_reg_ptr APIC_LINT0_OFFSET) 0x10000, Reg_Write (lapic_reg_ptr APIC_LINT1_OFFSET) 0x10000,
      Reg_Write (lapic_reg_ptr APIC_ESR_OFFSET) 0, Reg_Write (lapic_reg_ptr APIC_ESR_OFFSET) 0,
      Reg_Write (lapic_reg_ptr APIC_EOI_OFFSET) 0, Reg_Write (lapic_reg_ptr APIC_ERROR_OFFSET) 51,
      Reg_Write (lapic_reg_ptr APIC_TDCR_OFFSET) 0xb, Reg_Write (lapic_reg_ptr APIC_TIMER_OFFSET) (0x20000 + 32),
      Reg_Write (lapic_reg_ptr APIC_TICR_OFFSET) (10 ^ 9)] @
     (if counters then [Reg_Write (lapic_reg_ptr APIC_PCINT_OFFSET) 0x10000] else [])"

lemma init_writes:
  fixes dev :: lapic
  defines "ver \<equiv> \<lambda>s. dev (lapic_reg_ptr APIC_VER_OFFSET) (accesses s)"
  shows "accesses (interrupt_init dev s) = accesses s @ (Reg_Read (lapic_reg_ptr APIC_VER_OFFSET) (ver s) #
      setup_writes (4 \<le> num_lvt_entries (interrupt_init dev s))) @
      [Reg_Write (lapic_reg_ptr APIC_SPURIOUS_OFFSET) (0x100 + 255), Reg_Write (lapic_reg_ptr APIC_TPR_OFFSET) 0]"
    and "num_lvt_entries (interrupt_init dev s) = ucast (drop_bit 16 (ucast (ver s) AND BIT_MASK_BELOW 23)) + 1"
proof -
  have v: "APIC_PERIODIC_FLAG OR (APIC_IRQ_0 + APIC_IRQ_TIMER) = 0x20000 + 32" "APIC_ENABLE_FLAG OR (APIC_IRQ_0 + APIC_IRQ_SPURIOUS) = 0x100 + 255"
    "APIC_IRQ_0 + APIC_IRQ_ERROR = 51" by (simp_all add: apic_defs)
  show n: "num_lvt_entries (interrupt_init dev s) = ucast (drop_bit 16 (ucast (ver s) AND BIT_MASK_BELOW 23)) + 1"
    by (simp add: interrupt_init_def lapic_init_def lapic_read_reg_def lapic_write_reg_def lapic_clear_error_def
      lapic_clear_interrupt_def Let_def ver_def del: drop_bit_and)
  show "accesses (interrupt_init dev s) = accesses s @ (Reg_Read (lapic_reg_ptr APIC_VER_OFFSET) (ver s) #
      setup_writes (4 \<le> num_lvt_entries (interrupt_init dev s))) @
      [Reg_Write (lapic_reg_ptr APIC_SPURIOUS_OFFSET) (0x100 + 255), Reg_Write (lapic_reg_ptr APIC_TPR_OFFSET) 0]"
    unfolding n
    by (simp add: interrupt_init_def lapic_init_def lapic_read_reg_def lapic_write_reg_def lapic_clear_error_def v
      lapic_clear_interrupt_def Let_def ver_def setup_writes_def APIC_MASK_FLAG_def APIC_INIT_TIMER_COUNT_VALUE_def del: drop_bit_and)
qed

lemma version_field:
  fixes ver :: u32
  shows "unat (ucast (drop_bit 16 (ucast ver AND BIT_MASK_BELOW 23 :: u64)) + 1 :: u32) = unat ver div 2 ^ 16 mod 2 ^ 7 + 1"
proof -
  have m: "(ucast ver :: u64) AND BIT_MASK_BELOW 23 = take_bit 23 (ucast ver)"
    by (rule bit_word_eqI) (auto simp: macro_simps bit_simps)
  let ?v = "drop_bit 16 (take_bit 23 (ucast ver :: u64))"
  have "unat (ucast ver :: u64) = unat ver"
    using unat_lt_u32 [of ver] by (simp add: unsigned_ucast_eq take_bit_nat_eq_self)
  then have "unat ?v = unat ver mod 2 ^ 23 div 2 ^ 16"
    by (simp add: take_bit_eq_mod drop_bit_eq_div unat_div unat_mod)
  also have "\<dots> = unat ver div 2 ^ 16 mod 2 ^ 7" using div_exp_mod_exp_eq [of "unat ver" 16 7] by simp
  finally have v: "unat ?v = unat ver div 2 ^ 16 mod 2 ^ 7" .
  have l: "unat ver div 2 ^ 16 mod 2 ^ 7 < 128" by simp
  have "unat (ucast ?v :: u32) = unat ver div 2 ^ 16 mod 2 ^ 7"
    using v l by (simp add: unsigned_ucast_eq take_bit_nat_eq_self)
  then show ?thesis unfolding m using l by (subst unat_plus_no_wrap) simp_all
qed

text \<open>Where a register that only the write before last sets has a value, everything before that write was done.\<close>

lemma enabled_prefix:
  assumes "es @ fs = L @ [x, y]" "reg_value es r \<noteq> None" "reg_value L r = None"
  obtains gs where "es = L @ gs" "gs = [] \<or> gs = [x] \<or> gs = [x, y]"
proof -
  have None_prefix: "reg_value (as @ bs) r = None \<Longrightarrow> reg_value as r = None" for as bs
    by (simp add: reg_value_append split: option.splits)
  obtain us where "es = L @ us \<and> us @ fs = [x, y] \<or> es @ us = L \<and> fs = us @ [x, y]"
    using assms(1) by (auto simp: append_eq_append_conv2)
  then consider "es = L @ us" "us @ fs = [x, y]" | "es @ us = L" by blast
  then show ?thesis
  proof cases
    case 1
    from 1(2) have "us = [] \<or> us = [x] \<or> us = [x, y]" by (auto simp: append_eq_Cons_conv)
    with 1(1) show ?thesis by (rule that)
  next
    case 2
    then show ?thesis using None_prefix [of es us] assms(2,3) by simp
  qed
qed

section \<open>Properties\<close>

text \<open>
  C38: Initialising the interrupt controller. Whatever the controller answers, it is accessed in
  exactly this order: the version is read; both pins are masked; the error status is written
  twice, as the controller asks for; a pending interrupt is acknowledged; errors are directed to
  vector 51; the timer gets its divider, then vector 32 in periodic mode, and only then the count
  that starts it; the performance counter is masked if there are four vectors of its kind; the
  controller is enabled with the spurious vector 255, and last the priority is lowered. So at no
  moment is the controller enabled with a pin unmasked or the vector of errors or of the timer not
  set. The number of vectors is taken from bits 16 to 22 of the version only: bit 23 of the eight
  bits the field has is lost.
\<close>

theorem interrupt_init_correct:
  fixes dev :: lapic and s :: interrupt_state
  defines "reg \<equiv> \<lambda>offset. APIC_BASE_ADDRESS + offset"
  defines "ver \<equiv> dev (reg 0x30) (accesses s)"
  shows "unat (num_lvt_entries (interrupt_init dev s)) = unat ver div 2 ^ 16 mod 2 ^ 7 + 1 \<and>
    accesses (interrupt_init dev s) = accesses s @
      [Reg_Read (reg 0x30) ver, Reg_Write (reg 0x350) 0x10000, Reg_Write (reg 0x360) 0x10000,
       Reg_Write (reg 0x280) 0, Reg_Write (reg 0x280) 0, Reg_Write (reg 0xb0) 0, Reg_Write (reg 0x370) 51,
       Reg_Write (reg 0x3e0) 0xb, Reg_Write (reg 0x320) (0x20000 + 32), Reg_Write (reg 0x380) (10 ^ 9)] @
      (if 3 \<le> unat ver div 2 ^ 16 mod 2 ^ 7 then [Reg_Write (reg 0x340) 0x10000] else []) @
      [Reg_Write (reg 0xf0) (0x100 + 255), Reg_Write (reg 0x80) 0] \<and>
    (\<forall>es fs. accesses (interrupt_init dev s) = accesses s @ es @ fs \<and> reg_value es (reg 0xf0) \<noteq> None \<longrightarrow>
       reg_value es (reg 0x350) = Some 0x10000 \<and> reg_value es (reg 0x360) = Some 0x10000 \<and>
       reg_value es (reg 0x370) = Some 51 \<and> reg_value es (reg 0x320) = Some (0x20000 + 32))"
proof -
  note w = init_writes [of dev s, unfolded lapic_reg_ptr_def APIC_VER_OFFSET_def, folded reg_def, folded ver_def]
  have n: "unat (num_lvt_entries (interrupt_init dev s)) = unat ver div 2 ^ 16 mod 2 ^ 7 + 1"
    unfolding w(2) by (rule version_field)
  have four: "4 \<le> num_lvt_entries (interrupt_init dev s) \<longleftrightarrow> 3 \<le> unat ver div 2 ^ 16 mod 2 ^ 7"
    unfolding word_le_nat_alt n by simp
  let ?L = "Reg_Read (reg 0x30) ver # setup_writes (3 \<le> unat ver div 2 ^ 16 mod 2 ^ 7)"
  have A: "accesses (interrupt_init dev s) = accesses s @ ?L @ [Reg_Write (reg 0xf0) (0x100 + 255), Reg_Write (reg 0x80) 0]"
    unfolding w(1) four by (simp add: lapic_reg_ptr_def reg_def apic_defs)
  have L: "reg_value ?L (reg 0xf0) = None" "reg_value ?L (reg 0x350) = Some 0x10000" "reg_value ?L (reg 0x360) = Some 0x10000"
    "reg_value ?L (reg 0x370) = Some 51" "reg_value ?L (reg 0x320) = Some (0x20000 + 32)"
    by (simp_all add: setup_writes_def lapic_reg_ptr_def reg_def apic_defs)
  have "reg_value es (reg 0x350) = Some 0x10000 \<and> reg_value es (reg 0x360) = Some 0x10000 \<and>
      reg_value es (reg 0x370) = Some 51 \<and> reg_value es (reg 0x320) = Some (0x20000 + 32)"
    if e: "accesses (interrupt_init dev s) = accesses s @ es @ fs" "reg_value es (reg 0xf0) \<noteq> None" for es fs
  proof -
    obtain gs where "es = ?L @ gs" and g: "gs = [] \<or> gs = [Reg_Write (reg 0xf0) (0x100 + 255)] \<or>
        gs = [Reg_Write (reg 0xf0) (0x100 + 255), Reg_Write (reg 0x80) 0]"
      by (rule enabled_prefix [of es fs ?L "Reg_Write (reg 0xf0) (0x100 + 255)" "Reg_Write (reg 0x80) 0" "reg 0xf0"])
        (use e A L(1) in auto)
    then show ?thesis using L by (auto simp: reg_value_append reg_def)
  qed
  then show ?thesis
    using n A by (simp add: setup_writes_def lapic_reg_ptr_def reg_def apic_defs del: One_nat_def)
qed

theorem interrupt_init_correct_witness:
  "accesses (interrupt_init (\<lambda>_ _. 0x50014) \<lparr>num_lvt_entries = 0, accesses = []\<rparr>) =
     [Reg_Read (APIC_BASE_ADDRESS + 0x30) 0x50014, Reg_Write (APIC_BASE_ADDRESS + 0x350) 0x10000, Reg_Write (APIC_BASE_ADDRESS + 0x360) 0x10000,
      Reg_Write (APIC_BASE_ADDRESS + 0x280) 0, Reg_Write (APIC_BASE_ADDRESS + 0x280) 0, Reg_Write (APIC_BASE_ADDRESS + 0xb0) 0,
      Reg_Write (APIC_BASE_ADDRESS + 0x370) 51, Reg_Write (APIC_BASE_ADDRESS + 0x3e0) 0xb, Reg_Write (APIC_BASE_ADDRESS + 0x320) (0x20000 + 32),
      Reg_Write (APIC_BASE_ADDRESS + 0x380) (10 ^ 9), Reg_Write (APIC_BASE_ADDRESS + 0x340) 0x10000,
      Reg_Write (APIC_BASE_ADDRESS + 0xf0) (0x100 + 255), Reg_Write (APIC_BASE_ADDRESS + 0x80) 0] \<and>
   reg_value (accesses (interrupt_init (\<lambda>_ _. 0x50014) \<lparr>num_lvt_entries = 0, accesses = []\<rparr>)) (APIC_BASE_ADDRESS + 0x370) = Some 51"
proof -
  note c = interrupt_init_correct [of "\<lambda>_ _. 0x50014" "\<lparr>num_lvt_entries = 0, accesses = []\<rparr>"]
  let ?a = "accesses (interrupt_init (\<lambda>_ _. 0x50014) \<lparr>num_lvt_entries = 0, accesses = []\<rparr>)"
  have "reg_value ?a (APIC_BASE_ADDRESS + 0xf0) \<noteq> None" using c by (simp add: reg_value_append)
  then have "reg_value ?a (APIC_BASE_ADDRESS + 0x370) = Some 51" using c by (metis append_Nil append_Nil2 interrupt_state.select_convs(2))
  with c show ?thesis by simp
qed

end
