(* ===== verification/Spec2Isabelle.thy ===== *)
theory Spec2Isabelle
  imports Bitmap Linked_List Mem_Map Format_Correct Klog Loader Interrupt
begin

text \<open>
  A model of the zeptux kernel and the theorems that make it correct. Paths are relative to the
  root of the sources.

  \<^bold>\<open>The program.\<close> zeptux is a small kernel for x86-64. The last stage of its boot loader brings the
  ELF image of the kernel to its place and calls it. Early boot (\<^verbatim>\<open>early/\<close>) has a serial port and a
  text screen to print to, tidies up the memory map of the BIOS, and runs two simple allocators:
  one for scratch pages, which hold the bitmaps of the other, an allocator of single pages. From
  the latter it builds the page tables of the kernel and an array with a descriptor for each page
  of memory, in which it records what it has allocated; the physical allocator, a buddy allocator,
  takes over from there. On top of it are \<^verbatim>\<open>kmalloc\<close>, the kernel log and the setup of the local
  interrupt controller.

  \<^bold>\<open>How the code is modelled.\<close> A function of the code is a function of the same name here; what it
  reads and writes is passed and returned. Structures are records and enumerations datatypes or
  words; machine integers are words of their width, \<^verbatim>\<open>int\<close> an integer with the conversions written
  out. Memory is a function from 64-bit addresses to bytes (\<open>Memory\<close>). A computation that can
  fail has type \<open>result\<close>: a panic, a lock taken twice by one processor, an access outside an array,
  or a variadic argument that was not passed is a \<open>fault\<close> (\<open>Prelude\<close>). A loop that ends is a
  total function, with a measure where its recursion is not structural; a loop that can run for
  ever (the retries of the buddy allocator, the polling of devices) is a partial function into
  \<open>option\<close> in which \<open>None\<close> is a call that does not return, and the theorems on it say when it
  returns. No definition has fuel. Devices and the page allocators of \<^verbatim>\<open>mm/page.c\<close>, which the code
  takes as function pointers, are parameters.

  \<^bold>\<open>Foundations.\<close>
  \<^item> \<open>Prelude\<close>: types, faults and the combinators of \<open>result\<close>, lemmas on words, lists and folds.
  \<^item> \<open>Macros\<close>: \<^verbatim>\<open>include/macros.h\<close>, \<^verbatim>\<open>compiler.h\<close> and \<^verbatim>\<open>bitwise.h\<close>. The macros read as
    arithmetic, and the search for a run of set bits finds the first one.
  \<^item> \<open>Bitmap\<close>: \<^verbatim>\<open>include/bitmap.h\<close>. The state is the words of the map; the locale \<open>bit_allocator\<close> is what
    the early allocator relies on. The first clear bit is the least one, updates change one bit,
    and the search for a run of clear bits misses those that start a word.
  \<^item> \<open>Linked_List\<close>: \<^verbatim>\<open>include/list.h\<close>. A store of nodes; \<open>ring h l xs\<close> says that the list at \<open>l\<close> holds
    \<open>xs\<close>. The operations refine those on lists, and the locale \<open>intrusive_list\<close> gives them to the
    buddy allocator free of pointers.
  \<^item> \<open>Memory\<close>: \<^verbatim>\<open>include/string.h\<close> and loads and stores of words, with the locale \<open>cell_memory\<close>.
  \<^item> \<open>Spinlock\<close>: \<^verbatim>\<open>arch/x86_64/include/spinlock.h\<close> and \<^verbatim>\<open>include/atomic.h\<close>. A step relation over any
    number of processors, with mutual exclusion by rule induction, and the view of one processor
    the other components use.
  \<^item> \<open>Range\<close>: \<^verbatim>\<open>include/range.h\<close>.
  \<^item> \<open>Page\<close>: \<^verbatim>\<open>include/page.h\<close>, \<^verbatim>\<open>mm_defs.h\<close> and \<^verbatim>\<open>x86-consts.h\<close>: addresses, indices, flags and
    entries. Indices and entries read back as written.

  \<^bold>\<open>The physical allocator\<close>, \<^verbatim>\<open>include/mm.h\<close>, \<^verbatim>\<open>mm/phys.c\<close> and \<^verbatim>\<open>mm/kmalloc.c\<close>.
  \<^item> \<open>Phys\<close> has the state (descriptors, free lists, statistics, locks, spans) and all operations.
  \<^item> \<open>Phys_Layout\<close> and \<open>Phys_Invariant\<close>: the managed frames are cut into aligned blocks, the free
    lists hold exactly the free ones, the statistics count them, every lock is free and no two
    free buddies are left apart. \<open>free_pages\<close> and \<open>in_use\<close> are the abstract view.
  \<^item> \<open>Phys_Free\<close>: freeing and initialisation; \<open>Phys_Alloc\<close>: splitting and allocation, and the locale
    \<open>page_pool\<close> with its interpretation. An allocation succeeds exactly when a free block is large
    enough, in finitely many rounds; freeing restores the view; the statistics are exact in every
    state reached. A frame number below \<open>2 ^ 34\<close>, 64 TiB of memory, fits the direct mapping.
  \<^item> \<open>Kmalloc\<close>: requests by the byte.

  \<^bold>\<open>Early memory\<close>, \<^verbatim>\<open>early/mem.c\<close> and \<^verbatim>\<open>include/early_mem.h\<close>.
  \<^item> \<open>E820\<close>: the memory map, sorted, merged, trimmed and counted, with what merging guarantees
    and where it falls short.
  \<^item> \<open>Early_Alloc\<close> has the state and the operations of the scratch and the page allocator,
    \<open>Early_Invariant\<close> the invariant, \<open>Early_Pool\<close> the abstract view of sets of pages of each kind
    and the locale \<open>frame_allocator\<close>, \<open>Early_Init\<close> the start of the allocator and its properties.
  \<^item> \<open>Page_Map\<close>: \<^verbatim>\<open>mm/page.c\<close>, mapping a range and walking an address. \<open>Page_Tree\<close> is the tree of
    tables in memory and the translation it stands for; \<open>Page_Refine\<close> states the contract of the
    allocators as the locale \<open>table_source\<close> and what mapping does as an update of the translation;
    \<open>Page_Map_Correct\<close> proves the four nested loops correct in it, and \<open>Early_Map\<close> interprets it
    on the early allocators. Page numbers are below \<open>2 ^ 36\<close> and physical addresses below
    \<open>2 ^ 48\<close>, which is what the entries can hold.
  \<^item> \<open>Early_Boot\<close>: the rest of \<^verbatim>\<open>early/mem.c\<close>, the page tables of the kernel and the descriptor array.
    \<open>Handover\<close> follows the second pass over the array and \<open>Mem_Map\<close> the first, and concludes: the
    physical allocator starts with exactly the pages free that early boot need not keep.

  \<^bold>\<open>Output.\<close>
  \<^item> \<open>Format\<close>: \<^verbatim>\<open>lib/format.c\<close>; \<open>Format_Correct\<close>: the text a format and its arguments denote,
    specified apart from the code, and that the code writes it, cut and terminated.
  \<^item> \<open>Video\<close>: \<^verbatim>\<open>early/video.c\<close>; \<open>Screen\<close>: the lines of the console, which the video memory shows,
    by the locale \<open>stepwise\<close> for any text from one character.
  \<^item> \<open>Serial\<close>: \<^verbatim>\<open>early/serial.c\<close> and the port instructions of \<^verbatim>\<open>asm.h\<close>. The device answers as a
    function of the history; it is \<open>responsive\<close> when it never stays busy for ever.
  \<^item> \<open>Console\<close>: \<^verbatim>\<open>include/early_io.h\<close>, printing to both.
  \<^item> \<open>Global\<close>: \<^verbatim>\<open>kernel/global.c\<close> and \<^verbatim>\<open>kernel/panic.c\<close>; \<open>Klog\<close>: \<^verbatim>\<open>kernel/log.c\<close>, a ring of messages
    in memory and their echo, followed over any sequence of calls.

  \<^bold>\<open>Loading and interrupts.\<close> \<open>Elf\<close>: \<^verbatim>\<open>include/elf.h\<close>; \<open>Loader\<close>: \<^verbatim>\<open>arch/x86_64/boot/loader.c\<close>;
  \<open>Interrupt\<close>: \<^verbatim>\<open>arch/x86_64/kernel/interrupt.c\<close>, the history of the accesses to its registers.

  \<^bold>\<open>What is not modelled.\<close> The dump of page tables to the log (\<^verbatim>\<open>mm/page.c\<close> from line 290), which has
  no effect but its output; the boot sector and second stage, in assembly, whose results are inputs
  here; the entry points \<^verbatim>\<open>kernel/main.c\<close> and \<^verbatim>\<open>early/init.c\<close>, which call the modelled functions one
  after the other and print a greeting; the orderings of memory weaker than sequential
  consistency; the caches of address translation; the tests and the build tool. Memory is that
  which the direct mapping shows: a write through another mapping of the same page is modelled as
  a write to the object it belongs to, as for the descriptors in \<open>Early_Boot\<close>.
\<close>

end
